(* ===== verification/BB_Tid.thy ===== *)
theory BB_Tid
  imports BB_Base
begin

text \<open>
  Task identifiers and task statistics of \<open>lib/bb/runqueue.py\<close>. A task identifier is the
  string \<open>fn:taskname\<close>, or \<open>multiconfig:mc:fn:taskname\<close> for a recipe of another
  configuration; file names may hold colons.
\<close>

section \<open>Task identifiers\<close>

definition fn_from_tid :: "string \<Rightarrow> string" where
  "fn_from_tid tid = (case rsplit1 CHR '':'' tid of None \<Rightarrow> tid | Some (a, _) \<Rightarrow> a)"

definition taskname_from_tid :: "string \<Rightarrow> string res" where
  "taskname_from_tid tid =
     (case rsplit1 CHR '':'' tid of None \<Rightarrow> Inl IndexError | Some (_, b) \<Rightarrow> Inr b)"

definition split_tid_mcfn :: "string \<Rightarrow> (string \<times> string \<times> string \<times> string) res" where
  "split_tid_mcfn tid =
     (if prefix ''multiconfig:'' tid then
        (let elems = split_on CHR '':'' tid;
             mc = elems ! 1;
             fn = join_with '':'' (butlast (drop 2 elems));
             taskname = last elems
         in Inr (mc, fn, taskname, ''multiconfig:'' @ mc @ '':'' @ fn))
      else
        (case rsplit1 CHR '':'' tid of
           None \<Rightarrow> Inl IndexError
         | Some (fn, taskname) \<Rightarrow> Inr ([], fn, taskname, fn)))"

definition split_tid :: "string \<Rightarrow> (string \<times> string \<times> string) res" where
  "split_tid tid = rbind (split_tid_mcfn tid) (\<lambda>(mc, fn, taskname, _). Inr (mc, fn, taskname))"

definition build_tid :: "string \<Rightarrow> string \<Rightarrow> string \<Rightarrow> string" where
  "build_tid mc fn taskname =
     (if mc \<noteq> [] then ''multiconfig:'' @ mc @ '':'' @ fn @ '':'' @ taskname
      else fn @ '':'' @ taskname)"

lemma fn_from_tid_snoc [simp]: "CHR '':'' \<notin> set t \<Longrightarrow> fn_from_tid (fn @ CHR '':'' # t) = fn"
  by (simp add: fn_from_tid_def)

lemma taskname_from_tid_snoc [simp]:
  "CHR '':'' \<notin> set t \<Longrightarrow> taskname_from_tid (fn @ CHR '':'' # t) = Inr t"
  by (simp add: taskname_from_tid_def)

lemma split_on_snoc:
  "c \<notin> set b \<Longrightarrow> split_on c (a @ c # b) = split_on c a @ [b]"
proof (induction a)
  case (Cons x a)
  then show ?case by (cases "split_on c a") auto
qed (simp add: split_on_free)

lemma split_tid_mcfn_multiconfig:
  assumes mc: "CHR '':'' \<notin> set mc" and t: "CHR '':'' \<notin> set t"
  shows "split_tid_mcfn (''multiconfig:'' @ mc @ '':'' @ fn @ '':'' @ t)
    = Inr (mc, fn, t, ''multiconfig:'' @ mc @ '':'' @ fn)"
proof -
  let ?m = "''multiconfig''"
  have "''multiconfig:'' @ mc @ '':'' @ fn @ '':'' @ t =
      ?m @ CHR '':'' # (mc @ CHR '':'' # (fn @ CHR '':'' # t))" (is "?tid = _") by simp
  moreover have "split_on CHR '':'' \<dots> = ?m # mc # split_on CHR '':'' fn @ [t]"
    using mc t by (subst split_on_append) (simp_all add: split_on_append split_on_snoc)
  ultimately have e: "split_on CHR '':'' ?tid = ?m # mc # split_on CHR '':'' fn @ [t]" by simp
  have "prefix ''multiconfig:'' ?tid" by (rule prefixI) simp
  then show ?thesis
    unfolding split_tid_mcfn_def e by (simp add: join_split_on)
qed

text \<open>
  \<open>split_tid_mcfn\<close> inverts \<open>build_tid\<close>: it returns the configuration, the file name
  (colons included), the task and the configuration-qualified file name a task identifier was
  built from.
\<close>

theorem split_build_tid:
  assumes "CHR '':'' \<notin> set mc" "CHR '':'' \<notin> set t"
    and "mc = [] \<Longrightarrow> \<not> prefix ''multiconfig:'' (fn @ '':'' @ t)"
  shows "split_tid_mcfn (build_tid mc fn t) =
    Inr (mc, fn, t, (if mc = [] then fn else ''multiconfig:'' @ mc @ '':'' @ fn))"
proof (cases "mc = []")
  case True
  with assms(2,3) show ?thesis by (simp add: build_tid_def split_tid_mcfn_def)
next
  case False
  then show ?thesis using split_tid_mcfn_multiconfig [OF assms(1,2)] by (simp add: build_tid_def)
qed

theorem split_build_tid_witness:
  "split_tid_mcfn (build_tid ''musl'' ''virtual:native:/a.bb'' ''do_build'') =
     Inr (''musl'', ''virtual:native:/a.bb'', ''do_build'', ''multiconfig:musl:virtual:native:/a.bb'') \<and>
   split_tid_mcfn (build_tid [] ''virtual:native:/a.bb'' ''do_build'') =
     Inr ([], ''virtual:native:/a.bb'', ''do_build'', ''virtual:native:/a.bb'')"
  using split_build_tid [of "''musl''" "''do_build''" "''virtual:native:/a.bb''"]
    split_build_tid [of "[]" "''do_build''" "''virtual:native:/a.bb''"]
  by simp

section \<open>Statistics\<close>

record rqstats =
  st_completed :: int
  st_skipped :: int
  st_failed :: int
  st_active :: int
  st_total :: int

definition stats_init :: "int \<Rightarrow> rqstats" where
  "stats_init n = \<lparr>st_completed = 0, st_skipped = 0, st_failed = 0, st_active = 0, st_total = n\<rparr>"

definition taskFailed :: "rqstats \<Rightarrow> rqstats" where
  "taskFailed s = s\<lparr>st_active := st_active s - 1, st_failed := st_failed s + 1\<rparr>"

definition taskCompleted :: "int \<Rightarrow> rqstats \<Rightarrow> rqstats" where
  "taskCompleted number s =
     s\<lparr>st_active := st_active s - number, st_completed := st_completed s + number\<rparr>"

definition taskSkipped :: "int \<Rightarrow> rqstats \<Rightarrow> rqstats" where
  "taskSkipped number s =
     s\<lparr>st_active := st_active s + number, st_skipped := st_skipped s + number\<rparr>"

definition taskActive :: "rqstats \<Rightarrow> rqstats" where
  "taskActive s = s\<lparr>st_active := st_active s + 1\<rparr>"

lemmas stats_defs = stats_init_def taskFailed_def taskCompleted_def taskSkipped_def taskActive_def

end
