(* ===== verification/BB_Weights.thy ===== *)
theory BB_Weights
  imports BB_Tid
begin

text \<open>
  \<open>RunQueueData.calculate_task_weights\<close> and \<open>circular_depchains_handler\<close> of
  \<open>lib/bb/runqueue.py\<close>: the weight propagation from the end points down the dependencies, the
  test for circular dependencies it gives, and the search for the loops to report. The local
  dictionaries weight, deps_left and task_done are only looked up, so they are maps here.
\<close>

section \<open>Task entries\<close>

record rtentry =
  rt_depends :: "string list"
  rt_revdeps :: "string list"
  rt_hash :: "string option"
  rt_weight :: int

type_synonym runtasks = "(string, rtentry) dict"

definition new_rtentry :: rtentry where
  "new_rtentry = \<lparr>rt_depends = [], rt_revdeps = [], rt_hash = None, rt_weight = 1\<rparr>"

definition deps_of :: "runtasks \<Rightarrow> string \<Rightarrow> string list" where
  "deps_of es t = (case dget es t of None \<Rightarrow> [] | Some e \<Rightarrow> rt_depends e)"

definition revs_of :: "runtasks \<Rightarrow> string \<Rightarrow> string list" where
  "revs_of es t = (case dget es t of None \<Rightarrow> [] | Some e \<Rightarrow> rt_revdeps e)"

definition mitem :: "(string \<rightharpoonup> 'v) \<Rightarrow> string \<Rightarrow> 'v res" where
  "mitem m k = (case m k of None \<Rightarrow> Inl (KeyError k) | Some v \<Rightarrow> Inr v)"

lemma mitem_Some [simp]: "m k = Some v \<Longrightarrow> mitem m k = Inr v"
  by (simp add: mitem_def)

lemma mitem_eq_Inr [res_simps]: "mitem m k = Inr v \<longleftrightarrow> m k = Some v"
  by (simp add: mitem_def split: option.splits)

section \<open>Weight propagation\<close>

record wstate =
  w_weight :: "string \<rightharpoonup> int"
  w_left :: "string \<rightharpoonup> int"
  w_done :: "string \<rightharpoonup> bool"
  w_next :: "string list"

definition weights_start :: "string \<times> rtentry \<Rightarrow> wstate \<Rightarrow> wstate" where
  "weights_start x s =
     s\<lparr>w_done := (w_done s)(fst x \<mapsto> False), w_weight := (w_weight s)(fst x \<mapsto> 1),
       w_left := (w_left s)(fst x \<mapsto> int (length (rt_revdeps (snd x))))\<rparr>"

definition weights_endpoint :: "string \<Rightarrow> wstate \<Rightarrow> wstate" where
  "weights_endpoint tid s =
     s\<lparr>w_weight := (w_weight s)(tid \<mapsto> 10), w_done := (w_done s)(tid \<mapsto> True)\<rparr>"

definition weights_init :: "runtasks \<Rightarrow> string list \<Rightarrow> wstate" where
  "weights_init es endpoints =
     fold weights_endpoint endpoints (fold weights_start es
       \<lparr>w_weight = Map.empty, w_left = Map.empty, w_done = Map.empty, w_next = []\<rparr>)"

definition weights_visit :: "string \<Rightarrow> string \<Rightarrow> wstate \<Rightarrow> wstate res" where
  "weights_visit tid revdep s =
     rbind (mitem (w_weight s) revdep) (\<lambda>wr. rbind (mitem (w_weight s) tid) (\<lambda>wt.
     rbind (mitem (w_left s) revdep) (\<lambda>l.
       let s' = s\<lparr>w_weight := (w_weight s)(revdep \<mapsto> wr + wt), w_left := (w_left s)(revdep \<mapsto> l - 1)\<rparr>
       in Inr (if l - 1 = 0
               then s'\<lparr>w_next := w_next s @ [revdep], w_done := (w_done s)(revdep \<mapsto> True)\<rparr>
               else s'))))"

definition weights_round :: "runtasks \<Rightarrow> string list \<Rightarrow> wstate \<Rightarrow> wstate res" where
  "weights_round es endpoints s =
     rfold (\<lambda>tid s. rbind (ditem es tid) (\<lambda>e. rfold (weights_visit tid) (rt_depends e) s))
       endpoints (s\<lparr>w_next := []\<rparr>)"

text \<open>The \<open>while True\<close> loop; None means that the fuel ran out.\<close>

fun weights_loop :: "nat \<Rightarrow> runtasks \<Rightarrow> string list \<Rightarrow> wstate \<Rightarrow> wstate res option" where
  "weights_loop 0 es endpoints s = None"
| "weights_loop (Suc fuel) es endpoints s =
     (case weights_round es endpoints s of
        Inl e \<Rightarrow> Some (Inl e)
      | Inr s' \<Rightarrow> if w_next s' = [] then Some (Inr s') else weights_loop fuel es (w_next s') s')"

definition problem_tasks :: "runtasks \<Rightarrow> wstate \<Rightarrow> string list" where
  "problem_tasks es s =
     filter (\<lambda>tid. w_done s tid = Some False \<or> w_left s tid \<noteq> Some 0) (dkeys es)"

definition store_weights :: "runtasks \<Rightarrow> wstate \<Rightarrow> runtasks" where
  "store_weights es s =
     map (\<lambda>(tid, e). (tid, e\<lparr>rt_weight := (case w_weight s tid of None \<Rightarrow> rt_weight e | Some w \<Rightarrow> w)\<rparr>)) es"

section \<open>Reporting circular dependencies\<close>

text \<open>\<open>re.sub("_[^,]*,", ",", nam)\<close> after \<open>os.path.basename\<close>.\<close>

function sub_version :: "string \<Rightarrow> string" where
  "sub_version [] = []"
| "sub_version (c # cs) =
     (if c = CHR ''_'' \<and> CHR '','' \<in> set cs
      then CHR '','' # sub_version (tl (dropWhile (\<lambda>x. x \<noteq> CHR '','') cs))
      else c # sub_version cs)"
  by pat_completeness auto
termination
  by (relation "measure length")
    (auto simp: less_Suc_eq_le intro: order_trans [OF diff_le_self] length_dropWhile_le)

definition basename :: "string \<Rightarrow> string" where
  "basename s = (case rsplit1 CHR ''/'' s of None \<Rightarrow> s | Some (_, b) \<Rightarrow> b)"

definition runq_depends_names :: "string list \<Rightarrow> string list" where
  "runq_depends_names ids = map (\<lambda>i. sub_version (basename i)) ids"

datatype cmsg = LoopFound nat | LoopTask string "string list" | LoopEnd | LoopAborted

record chains =
  ch_valid :: "string list list"
  ch_explored :: "string \<rightharpoonup> string list"
  ch_msgs :: "cmsg list"

definition chain_reorder :: "string list \<Rightarrow> string list" where
  "chain_reorder chain =
     (let lowest = foldl (\<lambda>low i. if chain ! i < chain ! low then i else low) 0 [0..<length chain]
      in drop lowest chain @ take lowest chain)"

fun index_of :: "'a \<Rightarrow> 'a list \<Rightarrow> nat option" where
  "index_of x [] = None"
| "index_of x (y # ys) = (if y = x then Some 0 else map_option Suc (index_of x ys))"

definition report_chain :: "runtasks \<Rightarrow> string list \<Rightarrow> chains \<Rightarrow> chains" where
  "report_chain es new_chain s =
     (if new_chain \<in> set (ch_valid s) then s
      else s\<lparr>ch_valid := ch_valid s @ [new_chain],
             ch_msgs := ch_msgs s @ [LoopFound (Suc (length (ch_valid s)))]
               @ map (\<lambda>dep. LoopTask dep (runq_depends_names (deps_of es dep))) new_chain
               @ [LoopEnd]\<rparr>)"

text \<open>
  \<open>find_chains\<close> recurses on chains without repetitions, so a recursion depth of one more than
  the number of tasks is enough (\<open>find_chains_depth\<close>); the interpreter would raise
  RecursionError beyond its own limit.
\<close>

fun find_chains :: "nat \<Rightarrow> runtasks \<Rightarrow> string \<Rightarrow> string list \<Rightarrow> chains \<Rightarrow> chains res"
  and scan_revdeps :: "nat \<Rightarrow> runtasks \<Rightarrow> string \<Rightarrow> string list \<Rightarrow> string list \<Rightarrow> string list \<Rightarrow> chains \<Rightarrow> chains res"
where
  "find_chains 0 es tid prev_chain s = Inl RecursionError"
| "find_chains (Suc n) es tid prev_chain s =
     rbind (ditem es tid) (\<lambda>e.
       scan_revdeps n es tid (prev_chain @ [tid]) (rt_revdeps e) (rt_revdeps e) s)"
| "scan_revdeps n es tid chain [] total_deps s =
     Inr (s\<lparr>ch_explored := (ch_explored s)(tid \<mapsto> total_deps)\<rparr>)"
| "scan_revdeps n es tid chain (revdep # rest) total_deps s =
     (case index_of revdep chain of
        Some idx \<Rightarrow>
          (let s' = report_chain es (chain_reorder (drop idx chain)) s
           in if length (ch_valid s') > 10 then Inr (s'\<lparr>ch_msgs := ch_msgs s' @ [LoopAborted]\<rparr>)
              else scan_revdeps n es tid chain rest total_deps s')
      | None \<Rightarrow>
          (let scan = (case ch_explored s revdep of
                         None \<Rightarrow> True
                       | Some ds \<Rightarrow> revdep \<in> set ds \<or> list_ex (\<lambda>dep. dep \<in> set ds) chain)
           in rbind (if scan then find_chains n es revdep chain s else Inr s) (\<lambda>s'.
              rbind (mitem (ch_explored s') revdep) (\<lambda>ds.
                scan_revdeps n es tid chain rest (fold sadd ds total_deps) s'))))"

definition circular_chains :: "runtasks \<Rightarrow> string list \<Rightarrow> chains res" where
  "circular_chains es tasks =
     rfold (\<lambda>task s. find_chains (Suc (length es)) es task [] s) tasks
       \<lparr>ch_valid = [], ch_explored = Map.empty, ch_msgs = []\<rparr>"

definition circular_depchains_handler :: "runtasks \<Rightarrow> string list \<Rightarrow> cmsg list res" where
  "circular_depchains_handler es tasks = rbind (circular_chains es tasks) (\<lambda>s. Inr (ch_msgs s))"

definition calculate_task_weights ::
  "runtasks \<Rightarrow> string list \<Rightarrow> (runtasks \<times> (string \<rightharpoonup> int)) res option" where
  "calculate_task_weights es endpoints =
     map_option (\<lambda>r. rbind r (\<lambda>s.
       if problem_tasks es s \<noteq> []
       then rbind (circular_depchains_handler (store_weights es s) (problem_tasks es s))
              (\<lambda>_. Inl (MsgFatal ''RunQueue''))
       else Inr (store_weights es s, w_weight s)))
       (weights_loop (Suc (Suc (length es))) es endpoints (weights_init es endpoints))"

section \<open>Correctness of the weights\<close>

text \<open>
  A well-formed task table: unique keys, dependency sets without repetition and inside the table,
  and reverse dependencies that mirror the dependencies, as \<open>prepare\<close> builds them.
\<close>

definition rt_wf :: "runtasks \<Rightarrow> bool" where
  "rt_wf es \<longleftrightarrow> dwf es \<and>
     (\<forall>t. distinct (deps_of es t) \<and> distinct (revs_of es t) \<and>
          set (deps_of es t) \<subseteq> set (dkeys es) \<and> set (revs_of es t) \<subseteq> set (dkeys es)) \<and>
     (\<forall>t u. t \<in> set (deps_of es u) \<longleftrightarrow> u \<in> set (revs_of es t))"

text \<open>The pairs (u, t) where u is a dependency of t.\<close>

definition dep_rel :: "runtasks \<Rightarrow> (string \<times> string) set" where
  "dep_rel es = {(u, t). u \<in> set (deps_of es t)}"

definition endpoints_of :: "runtasks \<Rightarrow> string list" where
  "endpoints_of es = filter (\<lambda>t. revs_of es t = []) (dkeys es)"

lemma dget_rtD:
  "t \<in> set (dkeys es) \<Longrightarrow> \<exists>e. dget es t = Some e \<and> deps_of es t = rt_depends e \<and> revs_of es t = rt_revdeps e"
  unfolding dget_Some_key deps_of_def revs_of_def by auto

lemma rt_wf_deps: "rt_wf es \<Longrightarrow> u \<in> set (deps_of es t) \<Longrightarrow> u \<in> set (dkeys es) \<and> t \<in> set (dkeys es)"
  unfolding rt_wf_def by blast

lemma dep_rel_subset: "rt_wf es \<Longrightarrow> dep_rel es \<subseteq> set (dkeys es) \<times> set (dkeys es)"
  using rt_wf_deps by (auto simp: dep_rel_def)

lemma finite_dep_rel: "rt_wf es \<Longrightarrow> finite (dep_rel es)"
  by (rule finite_subset [OF dep_rel_subset]) auto

text \<open>
  The state inside a round: proc t holds the reverse dependencies of t that have passed their
  weight on; sources are the tasks that may do so, all of them complete themselves.
\<close>

definition rinv :: "runtasks \<Rightarrow> string set \<Rightarrow> (string \<Rightarrow> string set) \<Rightarrow> wstate \<Rightarrow> bool" where
  "rinv es src proc s \<longleftrightarrow>
     (\<forall>t\<in>set (dkeys es).
        proc t \<subseteq> set (revs_of es t) \<inter> src \<and>
        w_left s t = Some (int (length (revs_of es t)) - int (card (proc t))) \<and>
        w_done s t = Some (proc t = set (revs_of es t)) \<and>
        w_weight s t = Some ((if revs_of es t = [] then 10 else 1) + (\<Sum>u\<in>proc t. the (w_weight s u)))) \<and>
     src \<subseteq> set (dkeys es) \<and> (\<forall>u\<in>src. proc u = set (revs_of es u)) \<and>
     distinct (w_next s) \<and>
     set (w_next s) = {t \<in> set (dkeys es). proc t = set (revs_of es t)} - src"

lemma rinvD:
  assumes "rinv es src proc s" "t \<in> set (dkeys es)"
  shows "w_left s t = Some (int (length (revs_of es t)) - int (card (proc t)))"
    and "w_done s t = Some (proc t = set (revs_of es t))"
    and "w_weight s t = Some ((if revs_of es t = [] then 10 else 1) + (\<Sum>u\<in>proc t. the (w_weight s u)))"
  using assms unfolding rinv_def by blast+

lemma weights_visit_rinv:
  assumes wf: "rt_wf es" and inv: "rinv es src proc s"
    and x: "x \<in> src" and d: "x \<in> set (revs_of es d)" "x \<notin> proc d"
  shows "\<exists>s'. weights_visit x d s = Inr s' \<and> rinv es src (proc(d := insert x (proc d))) s'"
proof -
  let ?N = "set (dkeys es)" and ?proc = "proc(d := insert x (proc d))"
  have dN: "d \<in> ?N" and xN: "x \<in> ?N" using wf d(1) rt_wf_deps unfolding rt_wf_def by blast+
  have sub: "proc t \<subseteq> set (revs_of es t) \<inter> src" if "t \<in> ?N" for t
    using inv that unfolding rinv_def by blast
  have fin: "finite (proc t)" if "t \<in> ?N" for t
    using sub [OF that] by (metis finite_Int finite_set finite_subset)
  have dsrc: "d \<notin> src" and dnext: "d \<notin> set (w_next s)" using inv d unfolding rinv_def by blast+
  have dnot: "d \<notin> proc t" if "t \<in> ?N" for t using sub [OF that] dsrc by blast
  obtain wd wx l where s: "w_weight s d = Some wd" "w_weight s x = Some wx" "w_left s d = Some l"
    and wd: "wd = (if revs_of es d = [] then 10 else 1) + (\<Sum>u\<in>proc d. the (w_weight s u))"
    and l: "l = int (length (revs_of es d)) - int (card (proc d))"
    using rinvD [OF inv dN] rinvD [OF inv xN] by auto
  define s1 where "s1 = s\<lparr>w_weight := (w_weight s)(d \<mapsto> wd + wx), w_left := (w_left s)(d \<mapsto> l - 1)\<rparr>"
  define s' where "s' = (if l - 1 = 0
    then s1\<lparr>w_next := w_next s @ [d], w_done := (w_done s)(d \<mapsto> True)\<rparr> else s1)"
  have visit: "weights_visit x d s = Inr s'"
    by (simp add: weights_visit_def s s1_def s'_def Let_def)
  have xd: "x \<noteq> d" using x dsrc by blast
  have card_rev: "card (set (revs_of es d)) = length (revs_of es d)"
    using wf by (simp add: rt_wf_def distinct_card)
  have psub: "insert x (proc d) \<subseteq> set (revs_of es d)" using sub [OF dN] d(1) by blast
  have cins: "card (insert x (proc d)) = Suc (card (proc d))" using d(2) fin [OF dN] by simp
  have full: "l - 1 = 0 \<longleftrightarrow> insert x (proc d) = set (revs_of es d)"
  proof
    assume "l - 1 = 0"
    with l cins card_rev have "card (insert x (proc d)) = card (set (revs_of es d))" by linarith
    with psub show "insert x (proc d) = set (revs_of es d)" by (simp add: card_subset_eq)
  next
    assume "insert x (proc d) = set (revs_of es d)"
    then have "card (set (revs_of es d)) = Suc (card (proc d))" using cins by simp
    with l card_rev show "l - 1 = 0" by linarith
  qed
  have notfull: "proc d \<noteq> set (revs_of es d)" using d by blast
  have weights: "(\<Sum>u\<in>proc t. the (w_weight s' u)) = (\<Sum>u\<in>proc t. the (w_weight s u))" if "t \<in> ?N" for t
    by (rule sum.cong) (use dnot [OF that] in \<open>auto simp: s'_def s1_def\<close>)
  have wsum: "(\<Sum>u\<in>insert x (proc d). the (w_weight s' u)) = wx + (\<Sum>u\<in>proc d. the (w_weight s u))"
    using d(2) fin [OF dN] weights [OF dN] xd by (simp add: s s'_def s1_def)
  have "rinv es src ?proc s'"
    unfolding rinv_def
  proof (intro conjI ballI)
    fix t assume tN: "t \<in> ?N"
    show "?proc t \<subseteq> set (revs_of es t) \<inter> src" using sub [OF tN] d(1) x by auto
    show "w_left s' t = Some (int (length (revs_of es t)) - int (card (?proc t)))"
      using inv tN l cins by (auto simp: rinv_def s'_def s1_def)
    show "w_done s' t = Some (?proc t = set (revs_of es t))"
      using inv tN full notfull by (auto simp: rinv_def s'_def s1_def)
    show "w_weight s' t = Some ((if revs_of es t = [] then 10 else 1) + (\<Sum>u\<in>?proc t. the (w_weight s' u)))"
    proof (cases "t = d")
      case True
      then show ?thesis using wsum wd by (simp add: s'_def s1_def)
    next
      case False
      then have "?proc t = proc t" "w_weight s' t = w_weight s t" by (simp_all add: s'_def s1_def)
      then show ?thesis using rinvD(3) [OF inv tN] weights [OF tN] by simp
    qed
  next
    show "src \<subseteq> ?N" using inv unfolding rinv_def by blast
    show "?proc u = set (revs_of es u)" if "u \<in> src" for u
      using inv that dsrc unfolding rinv_def by auto
    show "distinct (w_next s')" using inv dnext by (auto simp: rinv_def s'_def s1_def)
    have old: "set (w_next s) = {t \<in> ?N. proc t = set (revs_of es t)} - src"
      using inv unfolding rinv_def by blast
    show "set (w_next s') = {t \<in> ?N. ?proc t = set (revs_of es t)} - src"
      using old full notfull dN dsrc by (auto simp: s'_def s1_def)
  qed
  with visit show ?thesis by blast
qed

lemma weights_fold_deps:
  assumes wf: "rt_wf es" and x: "x \<in> src"
    and "rinv es src proc s" "distinct ds" "\<forall>d\<in>set ds. x \<in> set (revs_of es d) \<and> x \<notin> proc d"
  shows "\<exists>s'. rfold (weights_visit x) ds s = Inr s' \<and>
    rinv es src (\<lambda>t. if t \<in> set ds then insert x (proc t) else proc t) s'"
  using assms(3-5)
proof (induction ds arbitrary: proc s)
  case (Cons d ds)
  obtain s1 where s1: "weights_visit x d s = Inr s1" "rinv es src (proc(d := insert x (proc d))) s1"
    using weights_visit_rinv [OF wf Cons.prems(1) x] Cons.prems(3) by auto
  have p: "distinct ds" "\<forall>da\<in>set ds. x \<in> set (revs_of es da) \<and> x \<notin> (proc(d := insert x (proc d))) da"
    using Cons.prems(2,3) by auto
  obtain s' where s': "rfold (weights_visit x) ds s1 = Inr s'"
    "rinv es src (\<lambda>t. if t \<in> set ds then insert x ((proc(d := insert x (proc d))) t)
       else (proc(d := insert x (proc d))) t) s'"
    using Cons.IH [OF s1(2) p] by blast
  moreover have "(\<lambda>t. if t \<in> set ds then insert x ((proc(d := insert x (proc d))) t)
       else (proc(d := insert x (proc d))) t) =
    (\<lambda>t. if t \<in> set (d # ds) then insert x (proc t) else proc t)"
    using Cons.prems(2) by (intro ext) auto
  ultimately show ?case using s1(1) by simp
qed simp

lemma weights_fold_sources:
  assumes wf: "rt_wf es"
    and "rinv es src proc s" "distinct xs" "set xs \<subseteq> src" "\<forall>x\<in>set xs. \<forall>t. x \<notin> proc t"
  shows "\<exists>s'. rfold (\<lambda>tid s. rbind (ditem es tid) (\<lambda>e. rfold (weights_visit tid) (rt_depends e) s)) xs s = Inr s' \<and>
    rinv es src (\<lambda>t. proc t \<union> {x \<in> set xs. t \<in> set (deps_of es x)}) s'"
  using assms(2-5)
proof (induction xs arbitrary: proc s)
  case (Cons x xs)
  have x: "x \<in> src" using Cons.prems by simp
  then have "x \<in> set (dkeys es)" using Cons.prems(1) unfolding rinv_def by blast
  then obtain e where e: "dget es x = Some e" "deps_of es x = rt_depends e"
    using dget_rtD by blast
  have d: "distinct (deps_of es x)" "\<forall>d\<in>set (deps_of es x). x \<in> set (revs_of es d) \<and> x \<notin> proc d"
    using wf Cons.prems(4) unfolding rt_wf_def by auto
  let ?proc = "\<lambda>t. if t \<in> set (deps_of es x) then insert x (proc t) else proc t"
  obtain s1 where s1: "rfold (weights_visit x) (deps_of es x) s = Inr s1" "rinv es src ?proc s1"
    using weights_fold_deps [OF wf x Cons.prems(1) d] by auto
  have p: "distinct xs" "set xs \<subseteq> src" "\<forall>y\<in>set xs. \<forall>t. y \<notin> ?proc t"
    using Cons.prems(2-4) by auto
  obtain s' where s': "rfold (\<lambda>tid s. rbind (ditem es tid) (\<lambda>e. rfold (weights_visit tid) (rt_depends e) s)) xs s1 = Inr s'"
    "rinv es src (\<lambda>t. ?proc t \<union> {x \<in> set xs. t \<in> set (deps_of es x)}) s'"
    using Cons.IH [OF s1(2) p] by blast
  moreover have "(\<lambda>t. ?proc t \<union> {x \<in> set xs. t \<in> set (deps_of es x)}) =
      (\<lambda>t. proc t \<union> {y \<in> set (x # xs). t \<in> set (deps_of es y)})" by (intro ext) auto
  ultimately show ?case using s1(1) e by (simp add: ditem_def)
qed simp

text \<open>The state between rounds: the tasks of \<open>P\<close> have been end points, those of \<open>E\<close> are next.\<close>

definition winv :: "runtasks \<Rightarrow> string set \<Rightarrow> string list \<Rightarrow> wstate \<Rightarrow> bool" where
  "winv es P E s \<longleftrightarrow> distinct E \<and> P \<inter> set E = {} \<and>
     rinv es P (\<lambda>t. set (revs_of es t) \<inter> P) (s\<lparr>w_next := E\<rparr>) \<and>
     P \<union> set E \<subseteq> Wellfounded.acc ((dep_rel es)\<inverse>)"

lemma weights_round_winv:
  assumes wf: "rt_wf es" and inv: "winv es P E s"
  shows "\<exists>s'. weights_round es E s = Inr s' \<and> winv es (P \<union> set E) (w_next s') s'"
proof -
  let ?N = "set (dkeys es)" and ?src = "P \<union> set E"
  have r: "rinv es P (\<lambda>t. set (revs_of es t) \<inter> P) (s\<lparr>w_next := E\<rparr>)" using inv by (simp add: winv_def)
  then have E: "set E = {t \<in> ?N. set (revs_of es t) \<inter> P = set (revs_of es t)} - P"
    by (simp add: rinv_def)
  have "rinv es ?src (\<lambda>t. set (revs_of es t) \<inter> P) (s\<lparr>w_next := []\<rparr>)"
    using r E by (auto simp: rinv_def)
  moreover have "distinct E" "\<forall>x\<in>set E. \<forall>t. x \<notin> set (revs_of es t) \<inter> P"
    using inv by (auto simp: winv_def)
  ultimately obtain s' where s': "weights_round es E s = Inr s'"
    "rinv es ?src (\<lambda>t. set (revs_of es t) \<inter> P \<union> {x \<in> set E. t \<in> set (deps_of es x)}) s'"
    unfolding weights_round_def using weights_fold_sources [OF wf] by blast
  have eq: "(\<lambda>t. set (revs_of es t) \<inter> P \<union> {x \<in> set E. t \<in> set (deps_of es x)}) =
      (\<lambda>t. set (revs_of es t) \<inter> ?src)"
    using wf unfolding rt_wf_def by blast
  have inv': "rinv es ?src (\<lambda>t. set (revs_of es t) \<inter> ?src) s'" using s'(2) unfolding eq .
  then have next': "set (w_next s') = {t \<in> ?N. set (revs_of es t) \<subseteq> ?src} - ?src"
    by (auto simp: rinv_def)
  have acc: "?src \<subseteq> Wellfounded.acc ((dep_rel es)\<inverse>)" using inv by (simp add: winv_def)
  have "t \<in> Wellfounded.acc ((dep_rel es)\<inverse>)" if "t \<in> set (w_next s')" for t
  proof (rule accI)
    fix u assume "(u, t) \<in> (dep_rel es)\<inverse>"
    then have "u \<in> set (revs_of es t)" using wf by (auto simp: dep_rel_def rt_wf_def)
    then show "u \<in> Wellfounded.acc ((dep_rel es)\<inverse>)" using that next' acc by blast
  qed
  then have "?src \<union> set (w_next s') \<subseteq> Wellfounded.acc ((dep_rel es)\<inverse>)" using acc by blast
  moreover have "distinct (w_next s')" using inv' by (simp add: rinv_def)
  moreover have "?src \<inter> set (w_next s') = {}" using next' by blast
  ultimately have "winv es ?src (w_next s') s'"
    using inv' unfolding winv_def by simp
  with s'(1) show ?thesis by blast
qed

lemma weights_loop_winv:
  assumes wf: "rt_wf es"
  shows "winv es P E s \<Longrightarrow> card (set (dkeys es) - P) < fuel \<Longrightarrow>
    \<exists>s' Q. weights_loop fuel es E s = Some (Inr s') \<and> winv es Q [] s'"
proof (induction fuel arbitrary: P E s)
  case (Suc fuel)
  obtain s1 where s1: "weights_round es E s = Inr s1" "winv es (P \<union> set E) (w_next s1) s1"
    using weights_round_winv [OF wf Suc.prems(1)] by blast
  show ?case
  proof (cases "w_next s1 = []")
    case True
    with s1 show ?thesis by auto
  next
    case False
    have sub: "P \<union> set E \<subseteq> set (dkeys es)" and disj: "P \<inter> set E = {}"
      using s1(2) Suc.prems(1) by (auto simp: winv_def rinv_def)
    have "E \<noteq> []"
    proof
      assume e: "E = []"
      then have "w_next s1 = []" using s1(1) by (auto simp: weights_round_def)
      with False show False by simp
    qed
    then have "set (dkeys es) - (P \<union> set E) \<subset> set (dkeys es) - P" using sub disj by (cases E) auto
    then have "card (set (dkeys es) - (P \<union> set E)) < card (set (dkeys es) - P)"
      by (intro psubset_card_mono) auto
    then have "card (set (dkeys es) - (P \<union> set E)) < fuel" using Suc.prems(2) by linarith
    from Suc.IH [OF s1(2) this] show ?thesis using s1(1) False by simp
  qed
qed simp

lemma weights_start_fold:
  assumes "dwf es"
  shows "w_done (fold weights_start es s) t = (if t \<in> set (dkeys es) then Some False else w_done s t)"
    and "w_weight (fold weights_start es s) t = (if t \<in> set (dkeys es) then Some 1 else w_weight s t)"
    and "w_left (fold weights_start es s) t =
      (case dget es t of None \<Rightarrow> w_left s t | Some e \<Rightarrow> Some (int (length (rt_revdeps e))))"
proof -
  show "w_done (fold weights_start es s) t = (if t \<in> set (dkeys es) then Some False else w_done s t)"
    "w_weight (fold weights_start es s) t = (if t \<in> set (dkeys es) then Some 1 else w_weight s t)"
    by (induction es arbitrary: s) (auto simp: weights_start_def)
  show "w_left (fold weights_start es s) t =
      (case dget es t of None \<Rightarrow> w_left s t | Some e \<Rightarrow> Some (int (length (rt_revdeps e))))"
    using assms
  proof (induction es arbitrary: s)
    case (Cons x es)
    have "dget es (fst x) = None" using Cons.prems by (simp add: map_of_eq_None_iff)
    have start: "w_left (weights_start x s) u =
      (if u = fst x then Some (int (length (rt_revdeps (snd x)))) else w_left s u)" for u
      by (simp add: weights_start_def)
    show ?case
      using Cons.IH [of "weights_start x s"] Cons.prems \<open>dget es (fst x) = None\<close>
      by (cases "t = fst x") (simp_all add: start split: option.splits)
  qed simp
qed

lemma weights_endpoint_fold:
  "w_left (fold weights_endpoint E s) t = w_left s t"
  "w_done (fold weights_endpoint E s) t = (if t \<in> set E then Some True else w_done s t)"
  "w_weight (fold weights_endpoint E s) t = (if t \<in> set E then Some 10 else w_weight s t)"
  by (induction E arbitrary: s) (auto simp: weights_endpoint_def)

lemma weights_init_winv:
  assumes wf: "rt_wf es"
  shows "winv es {} (endpoints_of es) (weights_init es (endpoints_of es))"
proof -
  let ?s = "weights_init es (endpoints_of es)"
  have dwf: "dwf es" using wf by (simp add: rt_wf_def)
  have E: "set (endpoints_of es) = {t \<in> set (dkeys es). revs_of es t = []}"
    by (auto simp: endpoints_of_def)
  have fields: "w_done ?s t = Some (revs_of es t = [])"
    "w_weight ?s t = Some (if revs_of es t = [] then 10 else 1)"
    "w_left ?s t = Some (int (length (revs_of es t)))" if t: "t \<in> set (dkeys es)" for t
  proof -
    obtain e where e: "dget es t = Some e" "revs_of es t = rt_revdeps e" using dget_rtD [OF t] by auto
    have tE: "t \<in> set (endpoints_of es) \<longleftrightarrow> revs_of es t = []" using E t by blast
    show "w_done ?s t = Some (revs_of es t = [])"
      "w_weight ?s t = Some (if revs_of es t = [] then 10 else 1)"
      using t tE by (simp_all add: weights_init_def weights_endpoint_fold weights_start_fold [OF dwf])
    show "w_left ?s t = Some (int (length (revs_of es t)))"
      using e by (simp add: weights_init_def weights_endpoint_fold weights_start_fold [OF dwf])
  qed
  have "rinv es {} (\<lambda>t. set (revs_of es t) \<inter> {}) (?s\<lparr>w_next := endpoints_of es\<rparr>)"
    unfolding rinv_def using fields E dwf by (auto simp: endpoints_of_def)
  moreover have "t \<in> Wellfounded.acc ((dep_rel es)\<inverse>)" if "t \<in> set (endpoints_of es)" for t
  proof (rule accI)
    fix u assume "(u, t) \<in> (dep_rel es)\<inverse>"
    then have "u \<in> set (revs_of es t)" using wf by (auto simp: dep_rel_def rt_wf_def)
    with that E show "u \<in> Wellfounded.acc ((dep_rel es)\<inverse>)" by auto
  qed
  moreover have "distinct (endpoints_of es)" using dwf by (simp add: endpoints_of_def)
  ultimately show ?thesis unfolding winv_def by auto
qed

lemma weights_run:
  assumes wf: "rt_wf es"
  obtains s Q where
    "weights_loop (Suc (Suc (length es))) es (endpoints_of es) (weights_init es (endpoints_of es)) = Some (Inr s)"
    "winv es Q [] s"
proof -
  have "card (set (dkeys es) - {}) < Suc (Suc (length es))"
    using card_length [of "dkeys es"] by simp
  from weights_loop_winv [OF wf weights_init_winv [OF wf] this] that show ?thesis by blast
qed

lemma winv_final:
  assumes wf: "rt_wf es" and inv: "winv es Q [] s"
  shows "problem_tasks es s = [] \<longleftrightarrow> set (dkeys es) \<subseteq> Q"
    and "t \<in> Q \<longleftrightarrow> t \<in> set (dkeys es) \<and> set (revs_of es t) \<subseteq> Q"
proof -
  have r: "rinv es Q (\<lambda>t. set (revs_of es t) \<inter> Q) (s\<lparr>w_next := []\<rparr>)" using inv by (simp add: winv_def)
  then have Q: "Q \<subseteq> set (dkeys es)" "\<forall>t\<in>Q. set (revs_of es t) \<inter> Q = set (revs_of es t)"
    "{t \<in> set (dkeys es). set (revs_of es t) \<inter> Q = set (revs_of es t)} - Q = {}"
    unfolding rinv_def by simp_all
  show iff: "t \<in> Q \<longleftrightarrow> t \<in> set (dkeys es) \<and> set (revs_of es t) \<subseteq> Q" for t
    using Q by blast
  have "t \<in> set (problem_tasks es s) \<longleftrightarrow> t \<in> set (dkeys es) \<and> t \<notin> Q" for t
  proof (cases "t \<in> set (dkeys es)")
    case True
    have fin: "card (set (revs_of es t)) = length (revs_of es t)"
      using wf by (simp add: rt_wf_def distinct_card)
    have "set (revs_of es t) \<subseteq> Q \<Longrightarrow> w_left s t = Some 0"
      using rinvD(1) [OF r True] fin by (simp add: Int_absorb2)
    then show ?thesis
      using rinvD(2) [OF r True] iff [of t] True
      by (auto simp: problem_tasks_def simp del: list.set_map)
  qed (simp add: problem_tasks_def)
  then have "set (problem_tasks es s) = set (dkeys es) - Q" by blast
  then show "problem_tasks es s = [] \<longleftrightarrow> set (dkeys es) \<subseteq> Q"
    by (metis Diff_eq_empty_iff set_empty)
qed

lemma winv_final_acyclic:
  assumes wf: "rt_wf es" and inv: "winv es Q [] s"
  shows "set (dkeys es) \<subseteq> Q \<longleftrightarrow> acyclic (dep_rel es)"
proof
  assume N: "set (dkeys es) \<subseteq> Q"
  have Q: "Q \<subseteq> Wellfounded.acc ((dep_rel es)\<inverse>)" using inv by (simp add: winv_def)
  have "t \<in> Wellfounded.acc ((dep_rel es)\<inverse>)" for t
  proof (rule accI)
    fix u assume "(u, t) \<in> (dep_rel es)\<inverse>"
    then have "u \<in> set (dkeys es)" using dep_rel_subset [OF wf] by blast
    with N Q show "u \<in> Wellfounded.acc ((dep_rel es)\<inverse>)" by blast
  qed
  then have "wf ((dep_rel es)\<inverse>)" by (simp add: wf_iff_acc)
  then show "acyclic (dep_rel es)" using wf_acyclic acyclic_converse by blast
next
  assume "acyclic (dep_rel es)"
  then have w: "wf ((dep_rel es)\<inverse>)" using finite_acyclic_wf_converse [OF finite_dep_rel [OF wf]] by blast
  show "set (dkeys es) \<subseteq> Q"
  proof
    fix t show "t \<in> set (dkeys es) \<Longrightarrow> t \<in> Q"
    proof (induction t rule: wf_induct_rule [OF w])
      case (1 t)
      have "u \<in> Q" if u: "u \<in> set (revs_of es t)" for u
      proof (rule "1.IH")
        show "(u, t) \<in> (dep_rel es)\<inverse>" using u wf by (auto simp: dep_rel_def rt_wf_def)
        show "u \<in> set (dkeys es)" using u wf unfolding rt_wf_def by blast
      qed
      with "1.prems" show ?case using winv_final(2) [OF wf inv] by blast
    qed
  qed
qed

lemma weights_acyclic:
  assumes "rt_wf es"
  shows "\<exists>r. calculate_task_weights es (endpoints_of es) = Some r \<and>
    (\<not> isl r \<longleftrightarrow> acyclic (dep_rel es))"
proof -
  obtain s Q where s: "weights_loop (Suc (Suc (length es))) es (endpoints_of es)
      (weights_init es (endpoints_of es)) = Some (Inr s)" "winv es Q [] s"
    using weights_run [OF assms] by blast
  have "problem_tasks es s = [] \<longleftrightarrow> acyclic (dep_rel es)"
    using winv_final(1) [OF assms s(2)] winv_final_acyclic [OF assms s(2)] by blast
  then show ?thesis by (simp add: calculate_task_weights_def s(1) del: weights_loop.simps)
qed

text \<open>
  C24: \<open>calculate_task_weights\<close> always returns (its fuel of two more than the number of tasks
  is enough), and it accepts a task graph exactly when the dependencies are acyclic; every
  circular graph is refused with an exception.
\<close>

theorem weights_detect_cycles:
  assumes "rt_wf es"
  shows "\<exists>r. calculate_task_weights es (endpoints_of es) = Some r \<and>
    (\<not> isl r \<longleftrightarrow> acyclic (dep_rel es))"
  using assms by (rule weights_acyclic)

definition demo_tasks :: runtasks where
  "demo_tasks =
    [(''a:f'', \<lparr>rt_depends = [], rt_revdeps = [''a:c''], rt_hash = None, rt_weight = 1\<rparr>),
     (''a:c'', \<lparr>rt_depends = [''a:f''], rt_revdeps = [''a:b'', ''a:i''], rt_hash = None, rt_weight = 1\<rparr>),
     (''a:i'', \<lparr>rt_depends = [''a:c''], rt_revdeps = [''a:b''], rt_hash = None, rt_weight = 1\<rparr>),
     (''a:b'', \<lparr>rt_depends = [''a:c'', ''a:i''], rt_revdeps = [], rt_hash = None, rt_weight = 1\<rparr>)]"

lemma demo_tasks_wf: "rt_wf demo_tasks"
  by (auto simp: rt_wf_def demo_tasks_def deps_of_def revs_of_def)

theorem weights_detect_cycles_witness: "acyclic (dep_rel demo_tasks)"
proof -
  have "map_option isl (calculate_task_weights demo_tasks (endpoints_of demo_tasks)) = Some False"
    by code_simp
  with weights_detect_cycles [OF demo_tasks_wf] show ?thesis by auto
qed

lemma weights_sum:
  assumes wf: "rt_wf es" and calc: "calculate_task_weights es (endpoints_of es) = Some (Inr (es', w))"
    and t: "t \<in> set (dkeys es)"
  shows "w t = Some ((if revs_of es t = [] then 10 else 1) + (\<Sum>u\<in>set (revs_of es t). the (w u)))"
    and "map_option rt_weight (dget es' t) = w t"
proof -
  obtain s Q where s: "weights_loop (Suc (Suc (length es))) es (endpoints_of es)
      (weights_init es (endpoints_of es)) = Some (Inr s)" and inv: "winv es Q [] s"
    using weights_run [OF wf] by blast
  have "problem_tasks es s = []" and es': "es' = store_weights es s" and w: "w = w_weight s"
    using calc by (auto simp: calculate_task_weights_def s res_simps simp del: weights_loop.simps split: if_splits)
  then have "set (dkeys es) \<subseteq> Q" using winv_final(1) [OF wf inv] by blast
  moreover have "set (revs_of es t) \<subseteq> set (dkeys es)" using wf unfolding rt_wf_def by blast
  ultimately have "set (revs_of es t) \<inter> Q = set (revs_of es t)" by blast
  moreover have "rinv es Q (\<lambda>t. set (revs_of es t) \<inter> Q) (s\<lparr>w_next := []\<rparr>)"
    using inv by (simp add: winv_def)
  ultimately show wt: "w t = Some ((if revs_of es t = [] then 10 else 1) + (\<Sum>u\<in>set (revs_of es t). the (w u)))"
    using rinvD(3) [of es Q "\<lambda>t. set (revs_of es t) \<inter> Q" "s\<lparr>w_next := []\<rparr>" t] t by (simp add: w)
  have "dget (store_weights es s) t = map_option (\<lambda>e. e\<lparr>rt_weight :=
      (case w_weight s t of None \<Rightarrow> rt_weight e | Some w \<Rightarrow> w)\<rparr>) (dget es t)"
    by (induction es) (auto simp: store_weights_def cong: option.case_cong)
  moreover obtain e where "dget es t = Some e" using dget_rtD [OF t] by blast
  ultimately show "map_option rt_weight (dget es' t) = w t" using wt by (simp add: es' w)
qed

text \<open>
  C25: the weight of a task is 10 for an end point and otherwise one more than the sum of the
  weights of the tasks that depend on it, and it is stored in the task's entry.
\<close>

theorem weights_formula:
  assumes "rt_wf es" "calculate_task_weights es (endpoints_of es) = Some (Inr (es', w))"
    and "t \<in> set (dkeys es)"
  shows "w t = Some ((if revs_of es t = [] then 10 else 1) + (\<Sum>u\<in>set (revs_of es t). the (w u))) \<and>
    map_option rt_weight (dget es' t) = w t"
  using weights_sum [OF assms] by blast

lemma demo_weights:
  "\<exists>es' w. calculate_task_weights demo_tasks (endpoints_of demo_tasks) = Some (Inr (es', w))"
proof -
  have "map_option isl (calculate_task_weights demo_tasks (endpoints_of demo_tasks)) = Some False"
    by code_simp
  then show ?thesis unfolding map_option_isl by auto
qed

theorem weights_formula_witness:
  "\<exists>es' w. calculate_task_weights demo_tasks (endpoints_of demo_tasks) = Some (Inr (es', w)) \<and>
     w ''a:c'' = Some (1 + (the (w ''a:b'') + the (w ''a:i'')))"
proof -
  obtain es' w where calc: "calculate_task_weights demo_tasks (endpoints_of demo_tasks) = Some (Inr (es', w))"
    using demo_weights by blast
  have r: "revs_of demo_tasks ''a:c'' = [''a:b'', ''a:i'']" by code_simp
  have "''a:c'' \<in> set (dkeys demo_tasks)" by code_simp
  from weights_formula [OF demo_tasks_wf calc this] calc r show ?thesis by simp
qed

lemma weights_positive:
  assumes wf: "rt_wf es" and calc: "calculate_task_weights es (endpoints_of es) = Some (Inr (es', w))"
  shows "t \<in> set (dkeys es) \<Longrightarrow> the (w t) > 0"
proof -
  have "acyclic (dep_rel es)" using weights_acyclic [OF wf] calc by auto
  then have w: "wf ((dep_rel es)\<inverse>)"
    using finite_acyclic_wf_converse [OF finite_dep_rel [OF wf]] by blast
  show "t \<in> set (dkeys es) \<Longrightarrow> the (w t) > 0"
proof (induction t rule: wf_induct_rule [OF w])
  case (1 t)
  have "the (w u) > 0" if "u \<in> set (revs_of es t)" for u
    using "1.IH" [of u] that wf unfolding rt_wf_def dep_rel_def by blast
  then have "(\<Sum>u\<in>set (revs_of es t). the (w u)) \<ge> 0" by (meson less_imp_le sum_nonneg)
  then show ?case using weights_sum [OF wf calc "1.prems"] by simp
qed
qed

text \<open>
  a task is always heavier than every task that depends on it, so listing tasks by falling
  weight (the speed scheduler's priority map) lists dependencies before their dependants.
\<close>

theorem weights_decrease:
  assumes wf: "rt_wf es" and calc: "calculate_task_weights es (endpoints_of es) = Some (Inr (es', w))"
    and u: "u \<in> set (deps_of es t)"
  shows "the (w t) < the (w u)"
proof -
  have t: "t \<in> set (revs_of es u)" and mem: "u \<in> set (dkeys es)" "set (revs_of es u) \<subseteq> set (dkeys es)"
    using wf u unfolding rt_wf_def by blast+
  have pos: "the (w x) \<ge> 0" if "x \<in> set (revs_of es u)" for x
    using weights_positive [OF wf calc] that mem(2) by (meson less_imp_le subsetD)
  have "the (w t) \<le> (\<Sum>x\<in>set (revs_of es u). the (w x))"
    using member_le_sum [of t "set (revs_of es u)" "\<lambda>x. the (w x)"] t pos by auto
  then show ?thesis using weights_sum [OF wf calc mem(1)] by (auto split: if_splits)
qed

theorem weights_decrease_witness:
  "\<exists>es' w. calculate_task_weights demo_tasks (endpoints_of demo_tasks) = Some (Inr (es', w)) \<and>
     the (w ''a:b'') < the (w ''a:i'') \<and> the (w ''a:i'') < the (w ''a:c'')"
proof -
  have d: "''a:i'' \<in> set (deps_of demo_tasks ''a:b'')" "''a:c'' \<in> set (deps_of demo_tasks ''a:i'')"
    by code_simp+
  show ?thesis using demo_weights weights_decrease [OF demo_tasks_wf] d by blast
qed

section \<open>The reported loops\<close>

text \<open>A list of tasks each depending on the one before, the first on the last.\<close>

definition is_loop :: "runtasks \<Rightarrow> string list \<Rightarrow> bool" where
  "is_loop es c \<longleftrightarrow> c \<noteq> [] \<and> successively (\<lambda>a b. a \<in> set (deps_of es b)) c \<and>
     last c \<in> set (deps_of es (hd c))"

lemma is_loop_rotate: "is_loop es (a @ b) \<Longrightarrow> is_loop es (b @ a)"
  by (cases "a = []"; cases "b = []") (auto simp: is_loop_def successively_append_iff)

lemma chain_reorder_loop: "is_loop es c \<Longrightarrow> is_loop es (chain_reorder c)"
  unfolding chain_reorder_def Let_def by (rule is_loop_rotate) simp

lemma lowest_index:
  "xs \<noteq> [] \<Longrightarrow> foldl (\<lambda>low i. if xs ! i < xs ! low then i else low) 0 [0..<n] < length xs \<and>
     (\<forall>i < n. xs ! foldl (\<lambda>low i. if xs ! i < xs ! low then i else low) 0 [0..<n] \<le> (xs ! i :: string))" if "n \<le> length xs" for n
  using that
proof (induction n)
  case (Suc n)
  let ?low = "foldl (\<lambda>low i. if xs ! i < xs ! low then i else low) 0 [0..<n]"
  have "?low < length xs" "\<forall>i < n. xs ! ?low \<le> xs ! i" using Suc by simp_all
  then show ?case using Suc.prems by (auto simp: less_Suc_eq)
qed simp

lemma chain_reorder_lowest:
  assumes "c \<noteq> []" "distinct c"
  shows "distinct (chain_reorder c)" "x \<in> set c \<Longrightarrow> hd (chain_reorder c) \<le> x" "set (chain_reorder c) = set c"
proof -
  let ?low = "foldl (\<lambda>low i. if c ! i < c ! low then i else low) 0 [0..<length c]"
  have l: "?low < length c" "\<forall>i < length c. c ! ?low \<le> c ! i" using lowest_index [of "length c" c] assms(1) by simp_all
  have r: "chain_reorder c = drop ?low c @ take ?low c" by (simp add: chain_reorder_def Let_def)
  have u: "set (take l c) \<union> set (drop l c) = set c" for l by (simp add: set_append [symmetric] del: set_append)
  show "set (chain_reorder c) = set c" unfolding r set_append using u [of ?low] by blast
  have "distinct (take ?low c @ drop ?low c)" using assms(2) by simp
  then show "distinct (chain_reorder c)" unfolding r distinct_append by blast
  show "hd (chain_reorder c) \<le> x" if "x \<in> set c"
  proof -
    have "hd (chain_reorder c) = c ! ?low" unfolding r using l(1) by (simp add: hd_append hd_drop_conv_nth)
    then show ?thesis using l(2) that by (metis in_set_conv_nth)
  qed
qed

text \<open>Of the rotations of a list without repetition only one starts with the lowest element.\<close>

lemma lowest_rotation:
  assumes "distinct c" "c \<noteq> []" "\<forall>x \<in> set c. hd c \<le> x" "\<forall>x \<in> set c. hd (rotate k c) \<le> (x :: string)"
  shows "rotate k c = c"
proof -
  have "hd (rotate k c) = hd c" using assms by (intro antisym) (simp_all add: hd_rotate_conv_nth)
  then have "c ! (k mod length c) = c ! 0" using assms(2) nth_rotate [of 0 c k] by (simp add: hd_conv_nth)
  then have "k mod length c = 0" using assms(1,2) by (simp add: nth_eq_iff_index_eq)
  then show ?thesis by (metis rotate0 rotate_conv_mod id_apply)
qed

lemma index_of_Some: "index_of x xs = Some i \<Longrightarrow> i < length xs \<and> xs ! i = x"
  by (induction xs arbitrary: i) (auto split: if_splits)

lemma index_of_None: "index_of x xs = None \<longleftrightarrow> x \<notin> set xs"
  by (induction xs) auto

lemma find_chains_depth_aux:
  "distinct prev \<Longrightarrow> set prev \<subseteq> set (dkeys es) \<Longrightarrow> tid \<notin> set prev \<Longrightarrow>
     length es < n + length prev \<Longrightarrow> find_chains n es tid prev s \<noteq> Inl RecursionError"
  "distinct chain \<Longrightarrow> set chain \<subseteq> set (dkeys es) \<Longrightarrow> length es < n + length chain \<Longrightarrow>
     scan_revdeps n es tid chain revdeps total_deps s \<noteq> Inl RecursionError"
proof (induction n es tid prev s and n es tid chain revdeps total_deps s
    rule: find_chains_scan_revdeps.induct)
  case (1 es tid prev s)
  with distinct_keys_length [of prev es] show ?case by simp
next
  case (2 n es tid prev s)
  show ?case unfolding find_chains.simps
  proof (rule rbind_neq_Inl)
    show "ditem es tid \<noteq> Inl RecursionError" by (simp add: res_simps)
  next
    fix e assume e: "ditem es tid = Inr e"
    then have "tid \<in> set (dkeys es)" unfolding dget_Some_key by (simp add: res_simps)
    then show "scan_revdeps n es tid (prev @ [tid]) (rt_revdeps e) (rt_revdeps e) s \<noteq> Inl RecursionError"
      using "2.prems" e by (intro "2.IH") auto
  qed
next
  case (4 n es tid chain revdep rest total_deps s)
  show ?case
  proof (cases "index_of revdep chain")
    case (Some idx)
    then show ?thesis using "4.IH"(3) [OF Some refl] "4.prems" by (auto simp: Let_def)
  next
    case None
    then have new: "revdep \<notin> set chain" by (simp add: index_of_None)
    show ?thesis
      unfolding scan_revdeps.simps None option.case Let_def
      apply (rule rbind_neq_Inl)
      subgoal using "4.IH"(1) [OF None refl] "4.prems" new by (simp split: if_splits)
      subgoal for s'
        apply (rule rbind_neq_Inl)
        subgoal by (simp add: mitem_def split: option.splits)
        subgoal for ds using "4.IH"(2) [OF None refl, of s' ds] "4.prems" by simp
        done
      done
  qed
qed simp

lemma find_chains_depth: "find_chains (Suc (length es)) es tid [] s \<noteq> Inl RecursionError"
  by (intro find_chains_depth_aux) simp_all

text \<open>
  What the handler has reported: different loops, each in the order that starts with its lowest
  task, and a block of messages for each.
\<close>

definition loop_msgs :: "runtasks \<Rightarrow> string list list \<Rightarrow> cmsg list" where
  "loop_msgs es valid = concat (map (\<lambda>i. LoopFound (Suc i) #
     map (\<lambda>dep. LoopTask dep (runq_depends_names (deps_of es dep))) (valid ! i) @ [LoopEnd]) [0..<length valid])"

definition reported :: "runtasks \<Rightarrow> chains \<Rightarrow> bool" where
  "reported es s \<longleftrightarrow> (\<forall>c \<in> set (ch_valid s). is_loop es c \<and> distinct c \<and> (\<forall>x \<in> set c. hd c \<le> x)) \<and>
     distinct (ch_valid s) \<and> filter (\<lambda>m. m \<noteq> LoopAborted) (ch_msgs s) = loop_msgs es (ch_valid s)"

lemma reported_frame [simp]:
  "reported es (s\<lparr>ch_explored := x\<rparr>) = reported es s"
  "reported es (s\<lparr>ch_msgs := ch_msgs s @ [LoopAborted]\<rparr>) = reported es s"
  by (simp_all add: reported_def)

lemma report_chain_reported:
  assumes "reported es s" "is_loop es c" "distinct c"
  shows "reported es (report_chain es (chain_reorder c) s)"
proof -
  have "c \<noteq> []" using assms(2) by (simp add: is_loop_def)
  note r = chain_reorder_lowest [OF this assms(3)] chain_reorder_loop [OF assms(2)]
  have m: "loop_msgs es (ch_valid s @ [c']) = loop_msgs es (ch_valid s) @ LoopFound (Suc (length (ch_valid s))) #
      map (\<lambda>dep. LoopTask dep (runq_depends_names (deps_of es dep))) c' @ [LoopEnd]" for c'
    unfolding loop_msgs_def by (simp add: nth_append) (intro arg_cong [of _ _ concat] map_cong refl, simp)
  have f: "filter (\<lambda>m. m \<noteq> LoopAborted) (map (\<lambda>dep. LoopTask dep (g dep)) c') = map (\<lambda>dep. LoopTask dep (g dep)) c'" for g c'
    by (induction c') simp_all
  show ?thesis using assms(1) r by (auto simp: reported_def report_chain_def m f)
qed

lemma closing_loop:
  assumes path: "successively (\<lambda>a b. a \<in> set (deps_of es b)) chain" and "chain \<noteq> []"
    and i: "index_of r chain = Some i" and last: "last chain \<in> set (deps_of es r)"
  shows "is_loop es (drop i chain)"
proof -
  have i': "i < length chain" "hd (drop i chain) = r" using index_of_Some [OF i] by (auto simp: hd_drop_conv_nth)
  have "successively (\<lambda>a b. a \<in> set (deps_of es b)) (take i chain @ drop i chain)" using path by simp
  then have "successively (\<lambda>a b. a \<in> set (deps_of es b)) (drop i chain)"
    by (simp only: successively_append_iff)
  then show ?thesis using i' last by (simp add: is_loop_def)
qed

lemma find_chains_reported:
  assumes wf: "rt_wf es"
  shows "find_chains n es tid prev s = Inr s' \<Longrightarrow> reported es s \<Longrightarrow> tid \<notin> set prev \<Longrightarrow> distinct prev \<Longrightarrow>
      successively (\<lambda>a b. a \<in> set (deps_of es b)) (prev @ [tid]) \<Longrightarrow> reported es s'"
    and "scan_revdeps n es tid chain rest tot s = Inr s' \<Longrightarrow> reported es s \<Longrightarrow>
      successively (\<lambda>a b. a \<in> set (deps_of es b)) chain \<Longrightarrow> chain \<noteq> [] \<Longrightarrow> last chain = tid \<Longrightarrow> distinct chain \<Longrightarrow>
      set rest \<subseteq> set (revs_of es tid) \<Longrightarrow> reported es s'"
  using wf
proof (induction n es tid prev s and n es tid chain rest tot s arbitrary: s' and s'
    rule: find_chains_scan_revdeps.induct)
  case (2 n es tid prev s)
  then show ?case by (auto simp: res_simps revs_of_def)
next
  case (4 n es tid chain revdep rest tot s)
  have rev: "tid \<in> set (deps_of es revdep)" using "4.prems"(7,8) by (auto simp: rt_wf_def)
  have rest: "set rest \<subseteq> set (revs_of es tid)" using "4.prems"(7) by simp
  show ?case
  proof (cases "index_of revdep chain")
    case (Some i)
    define t where "t = report_chain es (chain_reorder (drop i chain)) s"
    have "is_loop es (drop i chain)" using closing_loop [OF "4.prems"(3,4) Some] rev "4.prems"(5) by simp
    then have t: "reported es t" unfolding t_def using "4.prems"(6) by (intro report_chain_reported "4.prems"(2)) (simp_all add: distinct_drop)
    show ?thesis
    proof (cases "length (ch_valid t) > 10")
      case True
      then show ?thesis using "4.prems"(1) Some t by (auto simp: t_def Let_def)
    next
      case False
      then have r: "scan_revdeps n es tid chain rest tot t = Inr s'"
        using "4.prems"(1) Some by (simp add: t_def Let_def)
      show ?thesis by (rule "4.IH"(3) [OF Some t_def _ r t "4.prems"(3-6) rest "4.prems"(8)]) (use False in simp)
    qed
  next
    case None
    define scan where "scan = (case ch_explored s revdep of None \<Rightarrow> True
      | Some ds \<Rightarrow> revdep \<in> set ds \<or> list_ex (\<lambda>dep. dep \<in> set ds) chain)"
    obtain u ds where u: "(if scan then find_chains n es revdep chain s else Inr s) = Inr u"
      and ds: "mitem (ch_explored u) revdep = Inr ds"
      and r: "scan_revdeps n es tid chain rest (fold sadd ds tot) u = Inr s'"
      using "4.prems"(1) None by (auto simp: scan_def Let_def res_simps)
    have "successively (\<lambda>a b. a \<in> set (deps_of es b)) (chain @ [revdep])" "revdep \<notin> set chain"
      using "4.prems"(3-5) rev None by (simp_all add: successively_append_iff index_of_None)
    then have "reported es u"
      using u "4.prems"(2,6,8) "4.IH"(1) [OF None scan_def] by (cases scan) auto
    then show ?thesis by (intro "4.IH"(2) [OF None scan_def u ds r _ "4.prems"(3-6) rest "4.prems"(8)])
  qed
qed auto

lemma circular_chains_reported:
  assumes "rt_wf es" "circular_chains es tasks = Inr s"
  shows "reported es s"
proof -
  have "rfold (\<lambda>task s. find_chains n es task [] s) tasks s = Inr s' \<Longrightarrow> reported es s \<Longrightarrow> reported es s'" for n s s'
  proof (induction tasks arbitrary: s)
    case (Cons t tasks)
    obtain u where u: "find_chains n es t [] s = Inr u"
      and r: "rfold (\<lambda>task s. find_chains n es task [] s) tasks u = Inr s'"
      using Cons.prems(1) by (cases "find_chains n es t [] s") simp_all
    show ?case by (rule Cons.IH [OF r find_chains_reported(1) [OF assms(1) u Cons.prems(2)]]) simp_all
  qed simp
  moreover have "reported es \<lparr>ch_valid = [], ch_explored = Map.empty, ch_msgs = []\<rparr>" by (simp add: reported_def loop_msgs_def)
  ultimately show ?thesis using assms(2) unfolding circular_chains_def by blast
qed

text \<open>
  C31: The loops \<open>circular_depchains_handler\<close> reports are genuine and reported once. Each task of a
  reported chain depends on the one before, the first on the last; a chain holds no task twice and
  starts with its lowest task, and no chain is a rotation of another one reported. The messages are
  those of each chain once, in the order they were found, besides the notes that the search was aborted.
\<close>

theorem reported_chains_are_loops:
  assumes "rt_wf es" and "circular_chains es tasks = Inr s"
  shows "(\<forall>c \<in> set (ch_valid s). c \<noteq> [] \<and> distinct c \<and> (\<forall>i. Suc i < length c \<longrightarrow> c ! i \<in> set (deps_of es (c ! Suc i))) \<and>
      last c \<in> set (deps_of es (hd c)) \<and> (\<forall>x \<in> set c. hd c \<le> x)) \<and>
    distinct (ch_valid s) \<and> (\<forall>c \<in> set (ch_valid s). \<forall>k. rotate k c \<in> set (ch_valid s) \<longrightarrow> rotate k c = c) \<and>
    filter (\<lambda>m. m \<noteq> LoopAborted) (ch_msgs s) = concat (map (\<lambda>i. LoopFound (Suc i) #
      map (\<lambda>dep. LoopTask dep (runq_depends_names (deps_of es dep))) (ch_valid s ! i) @ [LoopEnd]) [0..<length (ch_valid s)])"
proof -
  have r: "reported es s" by (rule circular_chains_reported [OF assms])
  have "rotate k c = c" if "c \<in> set (ch_valid s)" "rotate k c \<in> set (ch_valid s)" for c k
    using r that by (intro lowest_rotation) (auto simp: reported_def is_loop_def)
  then show ?thesis using r by (auto simp: reported_def loop_msgs_def is_loop_def successively_conv_nth)
qed

definition demo_loop :: runtasks where
  "demo_loop =
    [(''a'', \<lparr>rt_depends = [''c''], rt_revdeps = [''b''], rt_hash = None, rt_weight = 1\<rparr>),
     (''b'', \<lparr>rt_depends = [''a''], rt_revdeps = [''c''], rt_hash = None, rt_weight = 1\<rparr>),
     (''c'', \<lparr>rt_depends = [''b''], rt_revdeps = [''a''], rt_hash = None, rt_weight = 1\<rparr>)]"

theorem reported_chains_are_loops_witness:
  "\<exists>s. circular_chains demo_loop [''b'', ''a''] = Inr s \<and> ch_valid s = [[''a'', ''b'', ''c'']] \<and>
     ''c'' \<in> set (deps_of demo_loop ''a'')"
proof -
  have wf: "rt_wf demo_loop" by (auto simp: rt_wf_def demo_loop_def deps_of_def revs_of_def)
  have "map_sum (\<lambda>_. ()) ch_valid (circular_chains demo_loop [''b'', ''a'']) = Inr [[''a'', ''b'', ''c'']]"
    by code_simp
  then obtain s where s: "circular_chains demo_loop [''b'', ''a''] = Inr s" "ch_valid s = [[''a'', ''b'', ''c'']]"
    by (cases "circular_chains demo_loop [''b'', ''a'']") auto
  with reported_chains_are_loops [OF wf s(1)] show ?thesis by auto
qed

text \<open>
  A task graph with eleven loops that close at one task, its last: m waits for l, l for k and so
  on down to a, and each of a to k waits for m.
\<close>

definition eleven_loops :: runtasks where
  "eleven_loops =
    (let names = ''abcdefghijklm'';
         prev = (\<lambda>i. if i = 0 then [] else [[names ! (i - 1)]]);
         nxt = (\<lambda>i. [[names ! Suc i]])
     in map (\<lambda>i. ([names ! i],
          if i = 12 then \<lparr>rt_depends = prev 12, rt_revdeps = map (\<lambda>j. [names ! j]) [0..<11], rt_hash = None, rt_weight = 1\<rparr>
          else \<lparr>rt_depends = prev i @ (if i < 11 then [''m''] else []), rt_revdeps = nxt i, rt_hash = None, rt_weight = 1\<rparr>))
        [0..<13])"

text \<open>
  giving up after ten loops does not work: the search returns from the innermost call without
  recording what it explored, and the caller's look-up raises a KeyError, so the user gets that
  instead of the report of the circular dependencies.
\<close>

theorem circular_abort_raises_KeyError:
  "circular_depchains_handler eleven_loops (dkeys eleven_loops) = Inl (KeyError ''m'') \<and>
   (case calculate_task_weights eleven_loops (endpoints_of eleven_loops) of
      Some (Inl e) \<Rightarrow> e = KeyError ''m'' | _ \<Rightarrow> False)"
  by code_simp

end
