(* ===== verification/BB_Scheduler.thy ===== *)
theory BB_Scheduler
  imports BB_Weights "HOL-Library.Multiset"
begin

text \<open>
  The schedulers of \<open>lib/bb/runqueue.py\<close>: the priority maps of the basic, the speed and the
  completion scheduler, and the choice of the next task. What the schedulers read of the run queue
  (the running tasks, the stamps being built) is an argument.
\<close>

section \<open>Priority maps\<close>

text \<open>An entry of the priority map: a task, or (in the basic scheduler) the view of all keys.\<close>

datatype prio_entry = PTask string | PKeys "string list"

record sched =
  sc_prio_map :: "prio_entry list"
  sc_buildable :: "string list"
  sc_stamps :: "(string, string option) dict"
  sc_rev :: "(string, nat) dict option"

definition basic_prio_map :: "runtasks \<Rightarrow> prio_entry list" where
  "basic_prio_map es = [PKeys (dkeys es)]"

text \<open>The tasks by weight, \<open>weights[weight].append(tid)\<close>.\<close>

definition by_weight :: "runtasks \<Rightarrow> (int, string list) dict" where
  "by_weight es = fold (\<lambda>(tid, e) ws. dset (rt_weight e) (ddefault ws (rt_weight e) @ [tid]) ws) es []"

definition speed_tids :: "runtasks \<Rightarrow> string list" where
  "speed_tids es =
     (let ws = by_weight es
      in rev (fold (\<lambda>weight prio. fold (\<lambda>w prio. prio @ [w]) (ddefault ws weight) prio) (sort (dkeys ws)) []))"

text \<open>The indices to delete, and the tasks of the recipe fn in the order of the map.\<close>

definition same_fn :: "string \<Rightarrow> string list \<Rightarrow> string list \<times> nat list" where
  "same_fn fn basemap =
     fold (\<lambda>entry (prio, todel).
       if fn_from_tid entry = fn then (prio @ [entry], todel @ [the (index_of entry basemap)]) else (prio, todel))
       basemap ([], [])"

definition del_index :: "nat \<Rightarrow> 'a list \<Rightarrow> 'a list" where
  "del_index i xs = take i xs @ drop (Suc i) xs"

lemma length_del_index: "length (del_index i xs) \<le> length xs"
  by (simp add: del_index_def)

lemma length_fold_del: "length (fold del_index is xs) \<le> length xs"
proof (induction "is" arbitrary: xs)
  case (Cons i "is")
  show ?case using Cons.IH [of "del_index i xs"] length_del_index [of i xs] by simp
qed simp

function completion_tids :: "string list \<Rightarrow> string list" where
  "completion_tids [] = []"
| "completion_tids (entry # basemap) =
     (let (prio, todel) = same_fn (fn_from_tid entry) basemap
      in entry # prio @ completion_tids (fold del_index (rev todel) basemap))"
  by pat_completeness auto
termination
  by (relation "measure length") (auto simp: le_imp_less_Suc length_fold_del)

section \<open>The scheduler objects\<close>

datatype sched_kind = Basic | Speed | Completion

definition prio_map_of :: "sched_kind \<Rightarrow> runtasks \<Rightarrow> prio_entry list" where
  "prio_map_of kind es =
     (case kind of
        Basic \<Rightarrow> basic_prio_map es
      | Speed \<Rightarrow> map PTask (speed_tids es)
      | Completion \<Rightarrow> map PTask (completion_tids (speed_tids es)))"

text \<open>\<open>stamp mc taskname taskfn\<close> is the stamp file of a task without the extra information.\<close>

definition sched_init :: "sched_kind \<Rightarrow> (string \<Rightarrow> string \<Rightarrow> string \<Rightarrow> string option res) \<Rightarrow> string list \<Rightarrow> runtasks \<Rightarrow> sched res" where
  "sched_init kind stamp runq_buildable es =
     rbind (rfold (\<lambda>tid (stamps, buildable).
       rbind (split_tid_mcfn tid) (\<lambda>(mc, fn, taskname, taskfn).
       rbind (stamp mc taskname taskfn) (\<lambda>st.
         Inr (dset tid st stamps, if tid \<in> set runq_buildable then buildable @ [tid] else buildable))))
       (dkeys es) ([], []))
     (\<lambda>(stamps, buildable).
       Inr \<lparr>sc_prio_map = prio_map_of kind es, sc_buildable = buildable, sc_stamps = stamps, sc_rev = None\<rparr>)"

definition newbuilable :: "string \<Rightarrow> sched \<Rightarrow> sched" where
  "newbuilable task s = s\<lparr>sc_buildable := sc_buildable s @ [task]\<rparr>"

definition rev_prio_map :: "prio_entry list \<Rightarrow> runtasks \<Rightarrow> (string, nat) dict res" where
  "rev_prio_map pm es =
     rfold (\<lambda>tid m. case index_of (PTask tid) pm of None \<Rightarrow> Inl ValueError | Some i \<Rightarrow> Inr (dset tid i m)) (dkeys es) []"

definition best_step :: "(string, nat) dict \<Rightarrow> (string, string option) dict \<Rightarrow> string option list \<Rightarrow> string \<Rightarrow>
    (string \<times> nat) option \<Rightarrow> (string \<times> nat) option res" where
  "best_step rm stamps building tid best =
     rbind (ditem rm tid) (\<lambda>prio.
       if (case best of None \<Rightarrow> True | Some (_, bestprio) \<Rightarrow> bestprio > prio)
       then rbind (ditem stamps tid) (\<lambda>stamp.
              Inr (if stamp \<in> set building then best else Some (tid, prio)))
       else Inr best)"

definition search_best :: "string option list \<Rightarrow> runtasks \<Rightarrow> sched \<Rightarrow> (string option \<times> sched) res" where
  "search_best building es s =
     rbind (case sc_rev s of
              Some (x # xs) \<Rightarrow> Inr (x # xs)
            | _ \<Rightarrow> rev_prio_map (sc_prio_map s) es) (\<lambda>rm.
     rbind (rfold (best_step rm (sc_stamps s) building) (sc_buildable s) None) (\<lambda>best.
       Inr (map_option fst best, s\<lparr>sc_rev := Some rm\<rparr>)))"

definition next_buildable_task :: "string list \<Rightarrow> string option list \<Rightarrow> runtasks \<Rightarrow> sched \<Rightarrow> (string option \<times> sched) res" where
  "next_buildable_task running building es s0 =
     (let s = s0\<lparr>sc_buildable := filter (\<lambda>x. x \<notin> set running) (sc_buildable s0)\<rparr>
      in case sc_buildable s of
           [] \<Rightarrow> Inr (None, s)
         | [tid] \<Rightarrow> rbind (ditem (sc_stamps s) tid) (\<lambda>stamp.
                      if stamp \<notin> set building then Inr (Some tid, s) else search_best building es s)
         | _ \<Rightarrow> search_best building es s)"

definition sched_next :: "int \<Rightarrow> int \<Rightarrow> string list \<Rightarrow> string option list \<Rightarrow> runtasks \<Rightarrow> sched \<Rightarrow> (string option \<times> sched) res" where
  "sched_next active number_tasks running building es s =
     (if active < number_tasks then next_buildable_task running building es s else Inr (None, s))"

section \<open>The priority map of the speed scheduler\<close>

lemma fold_append: "fold (\<lambda>w prio. prio @ [w]) xs prio = prio @ xs"
  by (induction xs arbitrary: prio) auto

lemma by_weight_fold:
  "ddefault (fold (\<lambda>(tid, e) ws. dset (rt_weight e) (ddefault ws (rt_weight e) @ [tid]) ws) es ws) w =
     ddefault ws w @ map fst (filter (\<lambda>x. rt_weight (snd x) = w) es)"
  "set (dkeys (fold (\<lambda>(tid, e) ws. dset (rt_weight e) (ddefault ws (rt_weight e) @ [tid]) ws) es ws)) =
     set (dkeys ws) \<union> rt_weight ` snd ` set es"
  "dwf ws \<Longrightarrow> dwf (fold (\<lambda>(tid, e) ws. dset (rt_weight e) (ddefault ws (rt_weight e) @ [tid]) ws) es ws)"
proof -
  show "ddefault (fold (\<lambda>(tid, e) ws. dset (rt_weight e) (ddefault ws (rt_weight e) @ [tid]) ws) es ws) w =
     ddefault ws w @ map fst (filter (\<lambda>x. rt_weight (snd x) = w) es)"
    by (induction es arbitrary: ws) (auto simp: ddefault_dset)
  show "set (dkeys (fold (\<lambda>(tid, e) ws. dset (rt_weight e) (ddefault ws (rt_weight e) @ [tid]) ws) es ws)) =
     set (dkeys ws) \<union> rt_weight ` snd ` set es"
  proof (induction es arbitrary: ws)
    case (Cons x es)
    obtain a b where x: "x = (a, b)" by (cases x)
    show ?case unfolding fold.simps comp_def x prod.case Cons.IH set_dkeys_dset by auto
  qed simp
  show "dwf ws \<Longrightarrow> dwf (fold (\<lambda>(tid, e) ws. dset (rt_weight e) (ddefault ws (rt_weight e) @ [tid]) ws) es ws)"
    by (induction es arbitrary: ws) (auto simp: dwf_dset)
qed

lemma concat_groups_sort:
  fixes f :: "'a \<Rightarrow> 'b :: linorder"
  assumes "set ks = f ` set xs" "sorted ks" "distinct ks"
  shows "concat (map (\<lambda>k. filter (\<lambda>x. f x = k) xs) ks) = sort_key f xs"
proof (rule properties_for_sort_key [symmetric])
  have m: "filter (\<lambda>x. f x = k) (concat (map (\<lambda>k. filter (\<lambda>x. f x = k) xs) ls)) =
      (if k \<in> set ls then filter (\<lambda>x. f x = k) xs else [])" if "distinct ls" for k ls
    using that by (induction ls) (auto simp: filter_empty_conv intro!: filter_cong)
  show "mset (concat (map (\<lambda>k. filter (\<lambda>x. f x = k) xs) ks)) = mset xs"
  proof (rule multiset_eqI)
    fix x
    have "count (mset (concat (map (\<lambda>k. filter (\<lambda>x. f x = k) xs) ks))) x =
      count (mset (filter (\<lambda>y. f y = f x) (concat (map (\<lambda>k. filter (\<lambda>x. f x = k) xs) ks)))) x" by (simp add: mset_filter)
    also have "\<dots> = count (mset xs) x"
      unfolding m [OF assms(3)] using assms(1) by (auto simp: mset_filter count_eq_zero_iff)
    finally show "count (mset (concat (map (\<lambda>k. filter (\<lambda>x. f x = k) xs) ks))) x = count (mset xs) x" .
  qed
  show "filter (\<lambda>x. f k = f x) (concat (map (\<lambda>k. filter (\<lambda>x. f x = k) xs) ks)) = filter (\<lambda>x. f k = f x) xs"
    if "k \<in> set (concat (map (\<lambda>k. filter (\<lambda>x. f x = k) xs) ks))" for k
    using m [OF assms(3), of "f k"] that assms(1) by (auto simp: eq_commute [of "f k"])
  show "sorted (map f (concat (map (\<lambda>k. filter (\<lambda>x. f x = k) xs) ks)))"
    using assms(2,3)
  proof (induction ks)
    case (Cons k ks)
    have "map f (filter (\<lambda>x. f x = k) xs) = replicate (length (filter (\<lambda>x. f x = k) xs)) k"
      by (induction xs) auto
    then show ?case using Cons by (auto simp: sorted_append)
  qed simp
qed

definition weight_of :: "runtasks \<Rightarrow> string \<Rightarrow> int" where
  "weight_of es t = (case dget es t of None \<Rightarrow> 0 | Some e \<Rightarrow> rt_weight e)"

lemma speed_tids_sort:
  assumes "dwf es" shows "speed_tids es = rev (sort_key (weight_of es) (dkeys es))"
proof -
  let ?ws = "by_weight es"
  have d: "ddefault ?ws w = filter (\<lambda>t. weight_of es t = w) (dkeys es)" for w
  proof -
    have "ddefault ?ws w = map fst (filter (\<lambda>x. rt_weight (snd x) = w) es)"
      by (simp add: by_weight_def by_weight_fold(1)) (simp add: ddefault_def)
    also have "\<dots> = map fst (filter (\<lambda>x. weight_of es (fst x) = w) es)"
    proof (rule arg_cong [of _ _ "map fst"], rule filter_cong)
      fix x assume "x \<in> set es"
      then show "(rt_weight (snd x) = w) = (weight_of es (fst x) = w)"
        using map_of_is_SomeI [OF assms, of "fst x" "snd x"] by (simp add: weight_of_def)
    qed simp
    finally show ?thesis by (simp add: filter_map comp_def)
  qed
  have k: "set (dkeys ?ws) = weight_of es ` set (dkeys es)"
  proof -
    have "set (dkeys ?ws) = rt_weight ` snd ` set es" using by_weight_fold(2) [of es "[]"] by (simp add: by_weight_def)
    also have "\<dots> = weight_of es ` fst ` set es"
    proof -
      have "rt_weight (snd x) = weight_of es (fst x)" if "x \<in> set es" for x
        using map_of_is_SomeI [OF assms, of "fst x" "snd x"] that by (simp add: weight_of_def)
      then show ?thesis by (simp add: image_image cong: image_cong)
    qed
    finally show ?thesis by simp
  qed
  have "dwf ?ws" using by_weight_fold(3) [of "[]" es] by (simp add: by_weight_def)
  then have "concat (map (\<lambda>w. filter (\<lambda>t. weight_of es t = w) (dkeys es)) (sort (dkeys ?ws))) = sort_key (weight_of es) (dkeys es)"
    by (intro concat_groups_sort) (use k in \<open>auto simp del: list.set_map\<close>)
  moreover have "fold (\<lambda>weight prio. fold (\<lambda>w prio. prio @ [w]) (ddefault ?ws weight) prio) ls acc =
      acc @ concat (map (ddefault ?ws) ls)" for ls acc
    by (induction ls arbitrary: acc) (simp_all add: fold_append)
  moreover have "map (ddefault ?ws) ls = map (\<lambda>w. filter (\<lambda>t. weight_of es t = w) (dkeys es)) ls" for ls
    by (simp add: d)
  ultimately show ?thesis by (simp only: speed_tids_def Let_def append_Nil)
qed

section \<open>The priority map of the completion scheduler\<close>

lemma index_of_member: "x \<in> set xs \<Longrightarrow> \<exists>i. index_of x xs = Some i \<and> i < length xs \<and> xs ! i = x"
  by (induction xs) auto

lemma same_fn_eq:
  assumes "distinct basemap"
  shows "same_fn fn basemap =
    (filter (\<lambda>e. fn_from_tid e = fn) basemap,
     map (\<lambda>e. the (index_of e basemap)) (filter (\<lambda>e. fn_from_tid e = fn) basemap))"
proof -
  have "fold (\<lambda>entry (prio, todel).
       if fn_from_tid entry = fn then (prio @ [entry], todel @ [the (index_of entry bm)]) else (prio, todel)) xs (p, d) =
     (p @ filter (\<lambda>e. fn_from_tid e = fn) xs, d @ map (\<lambda>e. the (index_of e bm)) (filter (\<lambda>e. fn_from_tid e = fn) xs))" for xs p d bm
    by (induction xs arbitrary: p d) auto
  from this [where xs = basemap and p = "[]" and d = "[]" and bm = basemap] show ?thesis by (simp add: same_fn_def)
qed

lemma index_of_append: "x \<notin> set ys \<Longrightarrow> index_of x (ys @ zs) = map_option (\<lambda>i. length ys + i) (index_of x zs)"
proof (induction ys)
  case Nil
  show ?case by (cases "index_of x zs") simp_all
next
  case (Cons y ys)
  then show ?case by (cases "index_of x zs") auto
qed

text \<open>Deleting the indices of what satisfies P, the largest first, is a filter.\<close>

lemma delete_filter:
  assumes "distinct (ys @ zs)"
  shows "fold del_index (rev (map (\<lambda>e. the (index_of e (ys @ zs))) (filter P zs))) (ys @ zs) =
    ys @ filter (\<lambda>e. \<not> P e) zs"
  using assms
proof (induction zs arbitrary: ys)
  case (Cons z zs)
  have d: "distinct ((ys @ [z]) @ zs)" using Cons.prems by simp
  note ih = Cons.IH [OF d]
  have i: "the (index_of z (ys @ z # zs)) = length ys" using Cons.prems by (simp add: index_of_append)
  show ?case using ih i Cons.prems by (auto simp: del_index_def)
qed simp

lemma completion_step:
  assumes "distinct (e # xs)"
  shows "completion_tids (e # xs) =
    e # filter (\<lambda>x. fn_from_tid x = fn_from_tid e) xs @ completion_tids (filter (\<lambda>x. fn_from_tid x \<noteq> fn_from_tid e) xs)"
  using assms delete_filter [of "[]" xs "\<lambda>x. fn_from_tid x = fn_from_tid e"]
  by (simp add: same_fn_eq)

lemma completion_induct [consumes 1, case_names Nil Cons]:
  assumes "distinct xs" "P []"
    and "\<And>e xs. distinct (e # xs) \<Longrightarrow> P (filter (\<lambda>x. fn_from_tid x \<noteq> fn_from_tid e) xs) \<Longrightarrow> P (e # xs)"
  shows "P xs"
  using assms(1)
proof (induction xs rule: measure_induct_rule [where f = length])
  case (less xs)
  show ?case
  proof (cases xs)
    case (Cons e ys)
    have "length (filter (\<lambda>x. fn_from_tid x \<noteq> fn_from_tid e) ys) < length xs"
      by (simp add: Cons le_imp_less_Suc)
    then show ?thesis using less Cons assms(3) [of e ys] by simp
  qed (simp add: assms(2))
qed

lemma completion_mset: "distinct xs \<Longrightarrow> mset (completion_tids xs) = mset xs"
proof (induction xs rule: completion_induct)
  case (Cons e xs)
  then show ?case by (simp add: completion_step del: completion_tids.simps)
qed simp

lemma completion_same_fn: "distinct xs \<Longrightarrow>
    filter (\<lambda>t. fn_from_tid t = f) (completion_tids xs) = filter (\<lambda>t. fn_from_tid t = f) xs"
proof (induction xs rule: completion_induct)
  case (Cons e xs)
  have "filter (\<lambda>t. fn_from_tid t = f \<and> fn_from_tid t \<noteq> fn_from_tid e) xs =
    (if f = fn_from_tid e then [] else filter (\<lambda>t. fn_from_tid t = f) xs)"
    by (auto simp: filter_empty_conv intro!: filter_cong)
  moreover have "filter (\<lambda>t. fn_from_tid t = f \<and> fn_from_tid t = fn_from_tid e) xs =
    (if f = fn_from_tid e then filter (\<lambda>t. fn_from_tid t = f) xs else [])"
    by (auto simp: filter_empty_conv intro!: filter_cong)
  ultimately show ?case using Cons by (auto simp: completion_step conj_commute simp del: completion_tids.simps)
qed simp


text \<open>
  C21: The speed scheduler runs the heaviest tasks first: its priority map is the reversed stable sort
  of the tasks by weight, so a permutation of the tasks with non-increasing weights.
\<close>
theorem speed_priorities:
  assumes "dwf es"
  shows "speed_tids es = rev (sort_key (\<lambda>t. case dget es t of None \<Rightarrow> 0 | Some e \<Rightarrow> rt_weight e) (dkeys es)) \<and>
    mset (speed_tids es) = mset (dkeys es) \<and>
    (\<forall>i j. i < j \<longrightarrow> j < length (speed_tids es) \<longrightarrow>
       (case dget es (speed_tids es ! j) of None \<Rightarrow> 0 | Some e \<Rightarrow> rt_weight e)
         \<le> (case dget es (speed_tids es ! i) of None \<Rightarrow> 0 | Some e \<Rightarrow> rt_weight e))"
proof (intro conjI)
  note s = speed_tids_sort [OF assms]
  show "speed_tids es = rev (sort_key (\<lambda>t. case dget es t of None \<Rightarrow> 0 | Some e \<Rightarrow> rt_weight e) (dkeys es))"
    using s by (simp add: weight_of_def [abs_def])
  show "mset (speed_tids es) = mset (dkeys es)" by (simp add: s)
  have "sorted_wrt (\<lambda>x y. weight_of es y \<le> weight_of es x) (speed_tids es)"
    using sorted_sort_key [of "weight_of es" "dkeys es"] by (simp add: s sorted_wrt_rev sorted_map)
  then show "\<forall>i j. i < j \<longrightarrow> j < length (speed_tids es) \<longrightarrow>
       (case dget es (speed_tids es ! j) of None \<Rightarrow> 0 | Some e \<Rightarrow> rt_weight e)
         \<le> (case dget es (speed_tids es ! i) of None \<Rightarrow> 0 | Some e \<Rightarrow> rt_weight e)"
    unfolding sorted_wrt_iff_nth_less weight_of_def by blast
qed

definition weighted_tasks :: runtasks where
  "weighted_tasks = [(''a:x'', new_rtentry\<lparr>rt_weight := 3\<rparr>), (''b:x'', new_rtentry\<lparr>rt_weight := 10\<rparr>),
     (''a:y'', new_rtentry\<lparr>rt_weight := 7\<rparr>), (''b:y'', new_rtentry\<lparr>rt_weight := 3\<rparr>)]"

lemma speed_priorities_witness:
  "mset (speed_tids weighted_tasks) = mset (dkeys weighted_tasks) \<and>
   speed_tids weighted_tasks = [''b:x'', ''a:y'', ''b:y'', ''a:x'']"
proof -
  have "dwf weighted_tasks" by code_simp
  moreover have "speed_tids weighted_tasks = [''b:x'', ''a:y'', ''b:y'', ''a:x'']" by code_simp
  ultimately show ?thesis using speed_priorities [of weighted_tasks] by blast
qed

lemma remdups_adj_rep: "x \<notin> set zs \<Longrightarrow> remdups_adj (replicate (Suc n) x @ zs) = x # remdups_adj zs"
proof (induction n)
  case 0
  then show ?case by (cases zs) simp_all
next
  case (Suc n)
  then show ?case by simp
qed

lemma map_fn_contiguous:
  "distinct xs \<Longrightarrow> distinct (remdups_adj (map fn_from_tid (completion_tids xs)))"
proof (induction xs rule: completion_induct)
  case (Cons e xs)
  let ?f = "fn_from_tid e"
  let ?ys = "filter (\<lambda>x. fn_from_tid x \<noteq> ?f) xs"
  have dy: "distinct ?ys" using Cons.hyps by simp
  have s: "set (completion_tids ?ys) = set ?ys" using completion_mset [OF dy] by (metis set_mset_mset)
  have rep: "map fn_from_tid (filter (\<lambda>x. fn_from_tid x = ?f) xs) = replicate n ?f"
    if "n = length (filter (\<lambda>x. fn_from_tid x = ?f) xs)" for n
    unfolding that by (induction xs) auto
  have m: "map fn_from_tid (completion_tids (e # xs)) =
      replicate (Suc (length (filter (\<lambda>x. fn_from_tid x = ?f) xs))) ?f @ map fn_from_tid (completion_tids ?ys)"
  proof -
    have "map fn_from_tid (e # filter (\<lambda>x. fn_from_tid x = ?f) xs @ completion_tids ?ys) =
      ?f # map fn_from_tid (filter (\<lambda>x. fn_from_tid x = ?f) xs) @ map fn_from_tid (completion_tids ?ys)"
      by (simp only: list.map map_append)
    also have "map fn_from_tid (filter (\<lambda>x. fn_from_tid x = ?f) xs) = replicate (length (filter (\<lambda>x. fn_from_tid x = ?f) xs)) ?f"
      by (rule rep) (rule refl)
    finally show ?thesis unfolding completion_step [OF Cons.hyps] by (simp only: replicate_Suc append_Cons)
  qed
  have nf: "?f \<notin> set (map fn_from_tid (completion_tids ?ys))" unfolding set_map s by auto
  show ?case unfolding m remdups_adj_rep [OF nf] using Cons.IH nf by (simp only: distinct.simps remdups_adj_set simp_thms)
qed simp

text \<open>
  The completion scheduler finishes one recipe at a time: its priority map is a permutation of
  the speed map in which the tasks of every recipe are contiguous and in the order of the speed map.
\<close>
theorem completion_priorities:
  assumes "distinct prio"
  shows "mset (completion_tids prio) = mset prio \<and>
    distinct (remdups_adj (map fn_from_tid (completion_tids prio))) \<and>
    (\<forall>f. filter (\<lambda>t. fn_from_tid t = f) (completion_tids prio) = filter (\<lambda>t. fn_from_tid t = f) prio)"
  using completion_mset [OF assms] map_fn_contiguous [OF assms] completion_same_fn [OF assms] by blast

lemma completion_priorities_witness:
  "completion_tids [''b:x'', ''a:y'', ''b:y'', ''a:x''] = [''b:x'', ''b:y'', ''a:y'', ''a:x''] \<and>
   mset (completion_tids [''b:x'', ''a:y'', ''b:y'', ''a:x'']) = mset [''b:x'', ''a:y'', ''b:y'', ''a:x'']"
proof -
  have "distinct [''b:x'', ''a:y'', ''b:y'', ''a:x'']" by simp
  moreover have "completion_tids [''b:x'', ''a:y'', ''b:y'', ''a:x''] = [''b:x'', ''b:y'', ''a:y'', ''a:x'']" by code_simp
  ultimately show ?thesis using completion_priorities by blast
qed

section \<open>The choice of the next task\<close>

text \<open>What the choice needs of a priority map: it lists every task once.\<close>

locale priority_order =
  fixes prio :: "runtasks \<Rightarrow> string list"
  assumes prio_mset: "dwf es \<Longrightarrow> mset (prio es) = mset (dkeys es)"
begin

definition rank :: "runtasks \<Rightarrow> string \<Rightarrow> nat" where
  "rank es t = the (index_of t (prio es))"

definition sched_ok :: "runtasks \<Rightarrow> sched \<Rightarrow> bool" where
  "sched_ok es s \<longleftrightarrow> sc_prio_map s = map PTask (prio es) \<and> set (sc_buildable s) \<subseteq> set (dkeys es) \<and>
     (\<forall>t \<in> set (dkeys es). \<exists>st. dget (sc_stamps s) t = Some st) \<and>
     (\<forall>rm. sc_rev s = Some rm \<longrightarrow> rm = [] \<or> (\<forall>t \<in> set (dkeys es). dget rm t = Some (rank es t)))"

lemma index_of_PTask: "index_of (PTask t) (map PTask ts) = index_of t ts"
  by (induction ts) auto

lemma index_of_prio:
  assumes "dwf es" "t \<in> set (dkeys es)" shows "index_of t (prio es) = Some (rank es t)"
proof -
  have "set (prio es) = set (dkeys es)" using prio_mset [OF assms(1)] by (metis set_mset_mset)
  then show ?thesis using index_of_member [of t "prio es"] assms(2) by (auto simp: rank_def simp del: list.set_map)
qed

lemma rev_prio_map_total:
  assumes "dwf es"
  shows "\<exists>rm. rev_prio_map (map PTask (prio es)) es = Inr rm \<and> (\<forall>t \<in> set (dkeys es). dget rm t = Some (rank es t))"
proof -
  let ?f = "\<lambda>tid m. case index_of (PTask tid) (map PTask (prio es)) of None \<Rightarrow> Inl ValueError | Some i \<Rightarrow> Inr (dset tid i m)"
  have "set ts \<subseteq> set (dkeys es) \<Longrightarrow> \<exists>rm'. rfold ?f ts rm = Inr rm' \<and>
      (\<forall>t. dget rm' t = (if t \<in> set ts then Some (rank es t) else dget rm t))" for ts rm
  proof (induction ts arbitrary: rm)
    case (Cons t ts)
    then have t: "t \<in> set (dkeys es)" and ts: "set ts \<subseteq> set (dkeys es)" by simp_all
    from Cons.IH [OF ts, of "dset t (rank es t) rm"] obtain rm' where
      r: "rfold ?f ts (dset t (rank es t) rm) = Inr rm'" and
      d: "\<forall>u. dget rm' u = (if u \<in> set ts then Some (rank es u) else dget (dset t (rank es t) rm) u)" by blast
    have "rfold ?f (t # ts) rm = Inr rm'" using r index_of_prio [OF assms t] by (simp add: index_of_PTask)
    then show ?case using d by (intro exI [of _ rm']) (auto simp: dget_dset)
  qed simp
  from this [of "dkeys es" "[]"] show ?thesis by (auto simp: rev_prio_map_def simp del: list.set_map)
qed

text \<open>The stamp of t is not being built.\<close>

definition free :: "string option list \<Rightarrow> sched \<Rightarrow> string \<Rightarrow> bool" where
  "free building s t \<longleftrightarrow> (\<exists>st. dget (sc_stamps s) t = Some st \<and> st \<notin> set building)"

definition is_best :: "runtasks \<Rightarrow> string option list \<Rightarrow> sched \<Rightarrow> string list \<Rightarrow> string option \<Rightarrow> bool" where
  "is_best es building s ts r = (case r of
       None \<Rightarrow> \<forall>t \<in> set ts. \<not> free building s t
     | Some b \<Rightarrow> b \<in> set ts \<and> free building s b \<and> (\<forall>t \<in> set ts. free building s t \<longrightarrow> rank es b \<le> rank es t))"

lemma best_loop:
  assumes rm: "\<forall>t \<in> set (dkeys es). dget rm t = Some (rank es t)"
    and st: "\<forall>t \<in> set (dkeys es). \<exists>st. dget (sc_stamps s) t = Some st"
    and ts: "set ts \<subseteq> set (dkeys es)"
  shows "\<exists>best. rfold (best_step rm (sc_stamps s) building) ts None = Inr best \<and>
    is_best es building s ts (map_option fst best) \<and> (\<forall>b p. best = Some (b, p) \<longrightarrow> p = rank es b)"
  using ts
proof (induction ts rule: rev_induct)
  case (snoc t ts)
  then obtain best where b: "rfold (best_step rm (sc_stamps s) building) ts None = Inr best"
    "is_best es building s ts (map_option fst best)" "\<forall>b p. best = Some (b, p) \<longrightarrow> p = rank es b" by auto
  have tk: "t \<in> set (dkeys es)" using snoc.prems by simp
  then obtain stp where t: "dget rm t = Some (rank es t)" "dget (sc_stamps s) t = Some stp" using rm st by blast
  have fr: "free building s t \<longleftrightarrow> stp \<notin> set building" by (simp add: free_def t(2))
  have step: "rfold (best_step rm (sc_stamps s) building) (ts @ [t]) None = best_step rm (sc_stamps s) building t best"
    by (simp only: rfold_snoc b(1) rbind_Inr)
  define best' where "best' = (if (case best of None \<Rightarrow> True | Some (_, bp) \<Rightarrow> bp > rank es t) \<and> stp \<notin> set building
    then Some (t, rank es t) else best)"
  have "best_step rm (sc_stamps s) building t best = Inr best'"
    using t by (simp add: best_step_def ditem_def best'_def)
  moreover have "is_best es building s (ts @ [t]) (map_option fst best')"
  proof (cases best)
    case None
    then show ?thesis using b(2) fr by (auto simp: is_best_def best'_def)
  next
    case (Some bp)
    then obtain x where bx: "best = Some (x, rank es x)" using b(3) by (cases bp) auto
    then show ?thesis using b(2) fr by (auto simp: is_best_def best'_def)
  qed
  moreover have "\<forall>b p. best' = Some (b, p) \<longrightarrow> p = rank es b" using b(3) by (simp add: best'_def)
  ultimately show ?case unfolding step by blast
qed (simp add: is_best_def)

lemma search_best_ok:
  assumes wf: "dwf es" and ok: "sched_ok es s"
  shows "\<exists>r s'. search_best building es s = Inr (r, s') \<and> sched_ok es s' \<and>
    sc_buildable s' = sc_buildable s \<and> is_best es building s (sc_buildable s) r"
proof -
  have "\<exists>rm. (case sc_rev s of Some (x # xs) \<Rightarrow> Inr (x # xs) | _ \<Rightarrow> rev_prio_map (sc_prio_map s) es) = Inr rm \<and>
      (\<forall>t \<in> set (dkeys es). dget rm t = Some (rank es t))"
  proof (cases "\<exists>x xs. sc_rev s = Some (x # xs)")
    case True
    then show ?thesis using ok unfolding sched_ok_def by fastforce
  next
    case False
    then have "(case sc_rev s of Some (x # xs) \<Rightarrow> Inr (x # xs) | _ \<Rightarrow> rev_prio_map (sc_prio_map s) es) =
        rev_prio_map (map PTask (prio es)) es" using ok by (auto simp: sched_ok_def split: option.split list.split)
    then show ?thesis using rev_prio_map_total [OF wf] by simp
  qed
  then obtain rm where r: "(case sc_rev s of Some (x # xs) \<Rightarrow> Inr (x # xs) | _ \<Rightarrow> rev_prio_map (sc_prio_map s) es) = Inr rm"
    and rm: "\<forall>t \<in> set (dkeys es). dget rm t = Some (rank es t)" by blast
  have st: "\<forall>t \<in> set (dkeys es). \<exists>st. dget (sc_stamps s) t = Some st" and bu: "set (sc_buildable s) \<subseteq> set (dkeys es)"
    using ok unfolding sched_ok_def by blast+
  from best_loop [OF rm st bu, of building] obtain best where
    b: "rfold (best_step rm (sc_stamps s) building) (sc_buildable s) None = Inr best"
       "is_best es building s (sc_buildable s) (map_option fst best)" by blast
  have "search_best building es s = Inr (map_option fst best, s\<lparr>sc_rev := Some rm\<rparr>)"
    using r b(1) by (simp add: search_best_def)
  moreover have "sched_ok es (s\<lparr>sc_rev := Some rm\<rparr>)" using ok rm unfolding sched_ok_def by auto
  ultimately show ?thesis using b(2) by auto
qed

lemma sched_next_ok:
  assumes wf: "dwf es" and ok: "sched_ok es s"
  shows "\<exists>r s'. sched_next active n running building es s = Inr (r, s') \<and> sched_ok es s' \<and>
    (if active < n then is_best es building s (filter (\<lambda>x. x \<notin> set running) (sc_buildable s)) r else r = None)"
proof (cases "active < n")
  case True
  let ?s = "s\<lparr>sc_buildable := filter (\<lambda>x. x \<notin> set running) (sc_buildable s)\<rparr>"
  have ok': "sched_ok es ?s" using ok unfolding sched_ok_def by auto
  have fr: "free building ?s = free building s" by (simp add: free_def [abs_def])
  then have ib: "is_best es building ?s = is_best es building s" by (simp add: is_best_def [abs_def])
  from search_best_ok [OF wf ok', of building] obtain r s' where sb: "search_best building es ?s = Inr (r, s')" "sched_ok es s'"
    "is_best es building s (sc_buildable ?s) r" unfolding ib by blast
  show ?thesis
  proof (cases "\<exists>t. sc_buildable ?s = [t]")
    case False
    have "next_buildable_task running building es s =
      (if sc_buildable ?s = [] then Inr (None, ?s) else search_best building es ?s)"
      using False by (auto simp: next_buildable_task_def Let_def split: list.split)
    then show ?thesis using True sb ok' by (auto simp: sched_next_def is_best_def)
  next
    case single: True
    then obtain t where t: "sc_buildable ?s = [t]" by blast
    then have "t \<in> set (dkeys es)" using ok' unfolding sched_ok_def by auto
    then obtain st where st: "dget (sc_stamps s) t = Some st" using ok unfolding sched_ok_def by blast
    have nb: "next_buildable_task running building es s =
      (if st \<notin> set building then Inr (Some t, ?s) else search_best building es ?s)"
      using t st by (simp add: next_buildable_task_def Let_def ditem_def)
    show ?thesis
    proof (cases "st \<in> set building")
      case True
      then show ?thesis using nb sb \<open>active < n\<close> by (auto simp: sched_next_def)
    next
      case False
      then have "is_best es building s [t] (Some t)" by (simp add: is_best_def free_def st)
      then show ?thesis using nb ok' t \<open>active < n\<close> False by (simp add: sched_next_def)
    qed
  qed
qed (use ok in \<open>simp add: sched_next_def\<close>)

end

interpretation speed: priority_order speed_tids
  by unfold_locales (simp add: speed_tids_sort)

interpretation completion: priority_order "\<lambda>es. completion_tids (speed_tids es)"
proof
  fix es :: runtasks assume w: "dwf es"
  have m: "mset (speed_tids es) = mset (dkeys es)" by (simp add: speed_tids_sort [OF w])
  then have "distinct (speed_tids es)" using w by (metis mset_eq_imp_distinct_iff)
  then show "mset (completion_tids (speed_tids es)) = mset (dkeys es)" using completion_mset m by simp
qed

text \<open>
  The state of a scheduler whose priority map is \<open>map PTask prio\<close>: what may be built are tasks of the
  table, their stamps are known, and the cached reverse map is empty or the right one.
\<close>

definition sched_wf :: "string list \<Rightarrow> runtasks \<Rightarrow> sched \<Rightarrow> bool" where
  "sched_wf prio es s \<longleftrightarrow> sc_prio_map s = map PTask prio \<and> set (sc_buildable s) \<subseteq> set (dkeys es) \<and>
     (\<forall>t \<in> set (dkeys es). \<exists>st. dget (sc_stamps s) t = Some st) \<and>
     (\<forall>rm. sc_rev s = Some rm \<longrightarrow> rm = [] \<or> (\<forall>t \<in> set (dkeys es). dget rm t = Some (the (index_of t prio))))"

lemma sched_wf_speed: "sched_wf (speed_tids es) es s \<longleftrightarrow> speed.sched_ok es s"
  by (simp add: sched_wf_def speed.sched_ok_def speed.rank_def)

lemma sched_wf_completion: "sched_wf (completion_tids (speed_tids es)) es s \<longleftrightarrow> completion.sched_ok es s"
  by (simp add: sched_wf_def completion.sched_ok_def completion.rank_def)

text \<open>The tasks that may start: buildable, not running, and no task of the same stamp is being built.\<close>

definition startable :: "string list \<Rightarrow> string option list \<Rightarrow> sched \<Rightarrow> string set" where
  "startable running building s =
     {t \<in> set (sc_buildable s). t \<notin> set running \<and> (\<exists>st. dget (sc_stamps s) t = Some st \<and> st \<notin> set building)}"

text \<open>What the choice leaves alone, and where its answer comes from.\<close>

lemma best_step_mem:
  assumes "rfold (best_step rm stamps building) ts b0 = Inr b" "b0 \<noteq> None \<Longrightarrow> fst (the b0) \<in> S" "set ts \<subseteq> S"
  shows "b \<noteq> None \<Longrightarrow> fst (the b) \<in> S"
  using assms
proof (induction ts arbitrary: b0)
  case (Cons t ts)
  from Cons.prems(2) obtain b1 where b1: "best_step rm stamps building t b0 = Inr b1"
    "rfold (best_step rm stamps building) ts b1 = Inr b" by (auto simp: res_simps)
  have "b1 = b0 \<or> (\<exists>p. b1 = Some (t, p))"
    using b1(1) by (auto simp: best_step_def res_simps split: if_splits)
  then show ?case using Cons.IH [OF Cons.prems(1) b1(2)] Cons.prems(3,4) by auto
qed simp

lemma search_best_frame:
  assumes "search_best building es s = Inr (r, s')"
  shows "sc_prio_map s' = sc_prio_map s" "sc_stamps s' = sc_stamps s" "sc_buildable s' = sc_buildable s"
    "r = Some t \<Longrightarrow> t \<in> set (sc_buildable s)"
proof -
  from assms obtain rm b where b: "rfold (best_step rm (sc_stamps s) building) (sc_buildable s) None = Inr b"
    "r = map_option fst b" "s' = s\<lparr>sc_rev := Some rm\<rparr>" by (auto simp: search_best_def res_simps)
  show "sc_prio_map s' = sc_prio_map s" "sc_stamps s' = sc_stamps s" "sc_buildable s' = sc_buildable s"
    by (simp_all add: b(3))
  show "r = Some t \<Longrightarrow> t \<in> set (sc_buildable s)"
    using best_step_mem [OF b(1), of "set (sc_buildable s)"] b(2) by auto
qed

lemma sched_next_frame_all:
  assumes "sched_next active n running building es s = Inr (r, s')"
  shows "sc_prio_map s' = sc_prio_map s \<and> sc_stamps s' = sc_stamps s \<and>
    set (sc_buildable s') \<subseteq> set (sc_buildable s) \<and> set (sc_buildable s) \<subseteq> set (sc_buildable s') \<union> set running \<and>
    (\<forall>t. r = Some t \<longrightarrow> active < n \<and> t \<in> set (sc_buildable s) \<and> t \<notin> set running)"
proof -
  let ?s = "s\<lparr>sc_buildable := filter (\<lambda>x. x \<notin> set running) (sc_buildable s)\<rparr>"
  have c: "(\<not> active < n \<and> r = None \<and> s' = s) \<or> (active < n \<and> s' = ?s \<and> (\<forall>t. r = Some t \<longrightarrow> sc_buildable ?s = [t])) \<or>
      (active < n \<and> search_best building es ?s = Inr (r, s'))"
    using assms by (auto simp: sched_next_def next_buildable_task_def Let_def res_simps split: if_splits list.splits)
  then consider "\<not> active < n" "r = None" "s' = s"
    | "active < n" "s' = ?s" "\<And>t. r = Some t \<Longrightarrow> sc_buildable ?s = [t]"
    | "active < n" "search_best building es ?s = Inr (r, s')" by blast
  then show ?thesis
  proof cases
    case 1
    then show ?thesis by simp
  next
    case 2
    have "t \<in> set (sc_buildable s) \<and> t \<notin> set running" if "r = Some t" for t
    proof -
      have "set (filter (\<lambda>x. x \<notin> set running) (sc_buildable s)) = {t}" using 2(3) [OF that] by simp
      then show ?thesis by auto
    qed
    then show ?thesis using 2(1) by (auto simp: 2(2))
  next
    case 3
    then show ?thesis using search_best_frame [OF 3(2)] by auto
  qed
qed

lemma sched_next_frame:
  assumes "sched_next active n running building es s = Inr (r, s')"
  shows "sc_prio_map s' = sc_prio_map s" "sc_stamps s' = sc_stamps s"
    "set (sc_buildable s') \<subseteq> set (sc_buildable s)" "set (sc_buildable s) \<subseteq> set (sc_buildable s') \<union> set running"
    "r = Some t \<Longrightarrow> active < n \<and> t \<in> set (sc_buildable s) \<and> t \<notin> set running"
  using sched_next_frame_all [OF assms] by blast+

lemma sched_choice:
  assumes "dwf es" and kind: "kind = Speed \<and> prio = speed_tids es \<or> kind = Completion \<and> prio = completion_tids (speed_tids es)"
    and "sched_wf prio es s"
  shows "\<exists>r s'. sched_next active n running building es s = Inr (r, s') \<and> sched_wf prio es s' \<and>
    (if active < n
     then (case r of None \<Rightarrow> startable running building s = {}
           | Some b \<Rightarrow> b \<in> startable running building s \<and>
               (\<forall>t \<in> startable running building s. the (index_of b prio) \<le> the (index_of t prio)))
     else r = None) \<and> prio_map_of kind es = map PTask prio"
  using kind
proof
  assume k: "kind = Speed \<and> prio = speed_tids es"
  have ok: "speed.sched_ok es s" using assms(3) k sched_wf_speed by simp
  from speed.sched_next_ok [OF assms(1) ok] obtain r s' where
    n: "sched_next active n running building es s = Inr (r, s')" "speed.sched_ok es s'"
    "if active < n then speed.is_best es building s (filter (\<lambda>x. x \<notin> set running) (sc_buildable s)) r else r = None" by blast
  then show ?thesis using k
    by (auto simp: sched_wf_speed speed.is_best_def speed.free_def speed.rank_def startable_def prio_map_of_def
        split: option.splits if_splits)
next
  assume k: "kind = Completion \<and> prio = completion_tids (speed_tids es)"
  have ok: "completion.sched_ok es s" using assms(3) k sched_wf_completion by simp
  from completion.sched_next_ok [OF assms(1) ok] obtain r s' where
    n: "sched_next active n running building es s = Inr (r, s')" "completion.sched_ok es s'"
    "if active < n then completion.is_best es building s (filter (\<lambda>x. x \<notin> set running) (sc_buildable s)) r else r = None" by blast
  then show ?thesis using k
    by (auto simp: sched_wf_completion completion.is_best_def completion.free_def completion.rank_def startable_def prio_map_of_def
        split: option.splits if_splits)
qed

text \<open>
  C20: The choice of the next task. Below the limit of parallel tasks, the speed and the completion
  scheduler return, without an exception, the task of highest priority among those that may start,
  and None only when no task may start; at the limit they return None.
\<close>
theorem sched_next_best:
  assumes "dwf es" and kind: "kind = Speed \<and> prio = speed_tids es \<or> kind = Completion \<and> prio = completion_tids (speed_tids es)"
    and "sched_wf prio es s"
  shows "\<exists>r s'. sched_next active n running building es s = Inr (r, s') \<and> sched_wf prio es s' \<and>
    (if active < n
     then (case r of None \<Rightarrow> startable running building s = {}
           | Some b \<Rightarrow> b \<in> startable running building s \<and>
               (\<forall>t \<in> startable running building s. the (index_of b prio) \<le> the (index_of t prio)))
     else r = None) \<and> prio_map_of kind es = map PTask prio"
  using sched_choice [OF assms] .

lemma basic_next_raises:
  assumes "es \<noteq> []" "sc_prio_map s = basic_prio_map es" "sc_rev s = None"
  shows "search_best building es s = Inl ValueError"
proof -
  obtain t e es' where es: "es = (t, e) # es'" using assms(1) by (cases es) auto
  have "rev_prio_map (basic_prio_map es) es = Inl ValueError"
    by (simp add: rev_prio_map_def basic_prio_map_def es)
  then show ?thesis using assms(2,3) by (simp add: search_best_def)
qed

text \<open>
  C39: The basic scheduler cannot choose. Its priority map holds the view of all keys as its only
  entry, so no task is found in it: as soon as two tasks may be built, it raises ValueError instead
  of returning one of them.
\<close>
theorem basic_scheduler_raises:
  assumes "sc_prio_map s = prio_map_of Basic es" "sc_rev s = None" "es \<noteq> []"
    and "filter (\<lambda>x. x \<notin> set running) (sc_buildable s) = t # u # ts" and "active < n"
  shows "sched_next active n running building es s = Inl ValueError"
proof -
  let ?s = "s\<lparr>sc_buildable := filter (\<lambda>x. x \<notin> set running) (sc_buildable s)\<rparr>"
  have "search_best building es ?s = Inl ValueError"
    by (rule basic_next_raises) (use assms in \<open>simp_all add: prio_map_of_def\<close>)
  then show ?thesis using assms(4,5) by (simp add: sched_next_def next_buildable_task_def Let_def)
qed

definition plain_stamp :: "string \<Rightarrow> string \<Rightarrow> string \<Rightarrow> string option res" where
  "plain_stamp mc taskname taskfn = Inr (Some (taskfn @ taskname))"

lemma weighted_sched:
  "case sched_init Speed plain_stamp [''a:x'', ''a:y''] weighted_tasks of
     Inl _ \<Rightarrow> False
   | Inr s \<Rightarrow> sc_prio_map s = map PTask (speed_tids weighted_tasks) \<and> sc_buildable s = [''a:x'', ''a:y''] \<and>
       list_all (\<lambda>t. dget (sc_stamps s) t \<noteq> None) (dkeys weighted_tasks) \<and> sc_rev s = None \<and>
       (case sched_next 0 2 [] [] weighted_tasks s of Inr (r, _) \<Rightarrow> r = Some ''a:y'' | _ \<Rightarrow> False)"
  by code_simp

lemma sched_next_best_witness:
  "\<exists>s s'. sched_init Speed plain_stamp [''a:x'', ''a:y''] weighted_tasks = Inr s \<and>
     sched_next 0 2 [] [] weighted_tasks s = Inr (Some ''a:y'', s') \<and> ''a:y'' \<in> startable [] [] s"
proof -
  obtain s where s: "sched_init Speed plain_stamp [''a:x'', ''a:y''] weighted_tasks = Inr s"
    "sc_prio_map s = map PTask (speed_tids weighted_tasks)" "sc_buildable s = [''a:x'', ''a:y'']"
    "list_all (\<lambda>t. dget (sc_stamps s) t \<noteq> None) (dkeys weighted_tasks)" "sc_rev s = None"
    "case sched_next 0 2 [] [] weighted_tasks s of Inr (r, _) \<Rightarrow> r = Some ''a:y'' | _ \<Rightarrow> False"
    using weighted_sched by (auto split: sum.split_asm)
  have k: "dkeys weighted_tasks = [''a:x'', ''b:x'', ''a:y'', ''b:y'']" and w: "dwf weighted_tasks" by code_simp+
  have ok: "sched_wf (speed_tids weighted_tasks) weighted_tasks s"
    using s(2-5) unfolding sched_wf_def k by auto
  from sched_next_best [OF w _ ok, of Speed 0 2 "[]" "[]"] s(6) obtain s' where
    "sched_next 0 2 [] [] weighted_tasks s = Inr (Some ''a:y'', s')" "''a:y'' \<in> startable [] [] s" by auto
  then show ?thesis using s(1) by blast
qed

lemma basic_scheduler_raises_witness:
  "\<exists>s. sched_init Basic plain_stamp [''a:x'', ''a:y''] weighted_tasks = Inr s \<and>
     sched_next 0 2 [] [] weighted_tasks s = Inl ValueError"
proof -
  have "case sched_init Basic plain_stamp [''a:x'', ''a:y''] weighted_tasks of
     Inl _ \<Rightarrow> False
   | Inr s \<Rightarrow> sc_prio_map s = prio_map_of Basic weighted_tasks \<and>
       filter (\<lambda>x. x \<notin> set []) (sc_buildable s) = [''a:x'', ''a:y''] \<and> sc_rev s = None" by code_simp
  then obtain s where s: "sched_init Basic plain_stamp [''a:x'', ''a:y''] weighted_tasks = Inr s"
    "sc_prio_map s = prio_map_of Basic weighted_tasks" "sc_rev s = None"
    "filter (\<lambda>x. x \<notin> set []) (sc_buildable s) = [''a:x'', ''a:y'']" by (auto split: sum.split_asm)
  have "weighted_tasks \<noteq> []" by (simp add: weighted_tasks_def)
  from basic_scheduler_raises [OF s(2,3) this s(4), of 0 2] show ?thesis using s(1) by auto
qed

end
