(* ===== verification/BB_Version.thy ===== *)
theory BB_Version
  imports BB_Base
begin

text \<open>
  Version comparison and dependency strings: \<open>explode_version\<close> to \<open>join_deps\<close> of
  \<open>lib/bb/utils.py\<close>. A token of an exploded version is the pair (order, component) of the
  code; the component may be missing (Python's None), and comparing it with a number raises.
\<close>

section \<open>Exploding and comparing versions\<close>

datatype vcomp = VNum nat | VStr string | VNone

type_synonym vtok = "int \<times> vcomp"

text \<open>\<open>(.*)$\<close>: the dot stops at a newline, and \<open>$\<close> also matches before a final one.\<close>

definition dot_rest :: "string \<Rightarrow> string option" where
  "dot_rest s =
     (if CHR 0x0A \<notin> set s then Some s
      else if last s = CHR 0x0A \<and> CHR 0x0A \<notin> set (butlast s) then Some (butlast s) else None)"

lemma length_dot_rest: "dot_rest s = Some t \<Longrightarrow> length t \<le> length s"
  by (auto simp: dot_rest_def split: if_splits)

function explode_version :: "string \<Rightarrow> vtok list res" where
  "explode_version [] = Inr []"
| "explode_version (c # cs) =
     (if is_digit c then
        (case dot_rest (dropWhile is_digit cs) of
           None \<Rightarrow> Inl AttributeError
         | Some s \<Rightarrow> rbind (explode_version s)
             (\<lambda>r. Inr ((0, VNum (digits_val (c # takeWhile is_digit cs))) # r)))
      else if is_ascii_letter c then
        (case dot_rest (dropWhile is_ascii_letter cs) of
           None \<Rightarrow> Inl AttributeError
         | Some s \<Rightarrow> rbind (explode_version s)
             (\<lambda>r. Inr ((1, VStr (c # takeWhile is_ascii_letter cs)) # r)))
      else if c = CHR ''~'' then rbind (explode_version cs) (\<lambda>r. Inr ((-1, VStr [c]) # r))
      else rbind (explode_version cs) (\<lambda>r. Inr ((2, VStr [c]) # r)))"
  by pat_completeness auto
termination
  by (relation "measure length")
    (auto dest!: length_dot_rest intro: le_less_trans [OF _ lessI] order_trans [OF _ length_dropWhile_le])

definition split_version :: "string \<Rightarrow> (int \<times> string \<times> string) res" where
  "split_version s0 =
     (let s = strip_of (\<lambda>c. c \<in> set '' <>='') s0
      in rbind (if CHR '':'' \<in> set s
                then rbind (py_int (split_on CHR '':'' s ! 0)) (\<lambda>e. Inr (e, split_on CHR '':'' s ! 1))
                else Inr (0, s))
         (\<lambda>(e, s). case rsplit1 CHR ''-'' s of
            Some (v, r) \<Rightarrow> Inr (e, v, r)
          | None \<Rightarrow> Inr (e, s, [])))"

text \<open>\<open>ca < cb\<close> on components: numbers and strings compare among themselves only.\<close>

fun comp_lt :: "vcomp \<Rightarrow> vcomp \<Rightarrow> bool res" where
  "comp_lt (VNum a) (VNum b) = Inr (a < b)"
| "comp_lt (VStr a) (VStr b) = Inr (a < b)"
| "comp_lt _ _ = Inl TypeError"

definition head_tok :: "vtok list \<Rightarrow> vtok" where
  "head_tok va = (case va of [] \<Rightarrow> (0, VNone) | t # _ \<Rightarrow> t)"

function vercmp_toks :: "vtok list \<Rightarrow> vtok list \<Rightarrow> int res" where
  "vercmp_toks va vb =
     (let (oa, ca) = head_tok va; (ob, cb) = head_tok vb
      in if (oa, ca) = (0, VNone) \<and> (ob, cb) = (0, VNone) then Inr 0
         else if oa < ob then Inr (-1)
         else if oa > ob then Inr 1
         else rbind (comp_lt ca cb) (\<lambda>lt. if lt then Inr (-1)
              else rbind (comp_lt cb ca) (\<lambda>gt. if gt then Inr 1
              else vercmp_toks (tl va) (tl vb))))"
  by pat_completeness auto
termination
proof (relation "measure (\<lambda>(va, vb). length va + length vb)", goal_cases)
  case (2 va vb x oa ca y ob cb lt gt)
  then have "va \<noteq> [] \<or> vb \<noteq> []" by (auto simp: head_tok_def)
  then show ?case by (cases va; cases vb) auto
qed simp

declare vercmp_toks.simps [simp del]

definition vercmp_part :: "string \<Rightarrow> string \<Rightarrow> int res" where
  "vercmp_part a b =
     rbind (explode_version a) (\<lambda>va. rbind (explode_version b) (\<lambda>vb. vercmp_toks va vb))"

text \<open>
  \<open>int(e or 0)\<close>: an epoch is the integer of \<open>split_version\<close> or the string of the
  recipe's \<open>PE\<close>.
\<close>

datatype epoch = EInt int | EStr string

fun epoch_int :: "epoch \<Rightarrow> int res" where
  "epoch_int (EInt n) = Inr n"
| "epoch_int (EStr s) = (if s = [] then Inr 0 else py_int s)"

type_synonym pepvpr = "epoch \<times> string \<times> string"

definition vercmp :: "pepvpr \<Rightarrow> pepvpr \<Rightarrow> int res" where
  "vercmp ta tb =
     (case (ta, tb) of ((ea, va, ra), (eb, vb, rb)) \<Rightarrow>
        rbind (epoch_int ea) (\<lambda>na. rbind (epoch_int eb) (\<lambda>nb.
        rbind (let r = na - nb in if r = 0 then vercmp_part va vb else Inr r) (\<lambda>r.
        if r = 0 then vercmp_part ra rb else Inr r))))"

definition vercmp_string :: "string \<Rightarrow> string \<Rightarrow> int res" where
  "vercmp_string a b =
     rbind (split_version a) (\<lambda>(ea, va, ra). rbind (split_version b) (\<lambda>(eb, vb, rb).
       vercmp (EInt ea, va, ra) (EInt eb, vb, rb)))"

definition vercmp_string_op :: "string \<Rightarrow> string \<Rightarrow> string \<Rightarrow> bool res" where
  "vercmp_string_op a b op =
     rbind (vercmp_string a b) (\<lambda>res.
       if op \<in> {''='', ''==''} then Inr (res = 0)
       else if op = ''<='' then Inr (res \<le> 0)
       else if op = ''>='' then Inr (res \<ge> 0)
       else if op \<in> {''>'', ''>>''} then Inr (res > 0)
       else if op \<in> {''<'', ''<<''} then Inr (res < 0)
       else if op = ''!='' then Inr (res \<noteq> 0)
       else Inl VersionStringException)"

section \<open>The comparison is an order with gaps\<close>

definition wf_tok :: "vtok \<Rightarrow> bool" where
  "wf_tok t = (case snd t of VNum n \<Rightarrow> fst t = 0 | VStr s \<Rightarrow> fst t \<noteq> 0 | VNone \<Rightarrow> False)"

definition tok_less :: "vtok \<Rightarrow> vtok \<Rightarrow> bool" where
  "tok_less s t = (fst s < fst t \<or> fst s = fst t \<and> comp_lt (snd s) (snd t) = Inr True)"

lemma explode_version_wf: "explode_version s = Inr ts \<Longrightarrow> list_all wf_tok ts"
  by (induction s arbitrary: ts rule: explode_version.induct)
    (auto simp: res_simps wf_tok_def split: if_splits option.splits)

lemma explode_version_total: "CHR 0x0A \<notin> set s \<Longrightarrow> \<exists>ts. explode_version s = Inr ts"
proof (induction s rule: explode_version.induct)
  case (2 c cs)
  have n: "CHR 0x0A \<notin> set (dropWhile p cs)" for p
    using "2.prems" by (auto dest: set_dropWhileD)
  then have d: "dot_rest (dropWhile p cs) = Some (dropWhile p cs)" for p
    by (simp add: dot_rest_def)
  show ?case
  proof (cases "is_digit c")
    case True
    with "2.IH"(1) [OF True d n] d show ?thesis by auto
  next
    case nd: False
    show ?thesis
    proof (cases "is_ascii_letter c")
      case True
      with "2.IH"(2) [OF nd True d n] d nd show ?thesis by auto
    next
      case False
      with nd "2.IH"(3,4) "2.prems" show ?thesis by (cases "c = CHR ''~''") auto
    qed
  qed
qed simp

lemma comp_lt_cases:
  "comp_lt x y = Inr True \<longleftrightarrow>
     (case (x, y) of (VNum a, VNum b) \<Rightarrow> a < b | (VStr a, VStr b) \<Rightarrow> a < b | _ \<Rightarrow> False)"
  by (cases x; cases y) simp_all

lemma tok_less_wf:
  assumes "wf_tok s" "wf_tok t"
  shows "fst s = fst t \<Longrightarrow> comp_lt (snd s) (snd t) = Inr (tok_less s t)"
    and "tok_less s t \<Longrightarrow> \<not> tok_less t s"
    and "\<not> tok_less s t \<Longrightarrow> \<not> tok_less t s \<Longrightarrow> s = t"
proof -
  obtain a x b y where st: "s = (a, x)" "t = (b, y)" by (cases s; cases t)
  show "fst s = fst t \<Longrightarrow> comp_lt (snd s) (snd t) = Inr (tok_less s t)"
    using assms unfolding st wf_tok_def tok_less_def by (cases x; cases y) simp_all
  show "tok_less s t \<Longrightarrow> \<not> tok_less t s"
    unfolding st tok_less_def comp_lt_cases by (cases x; cases y) auto
  show "\<not> tok_less s t \<Longrightarrow> \<not> tok_less t s \<Longrightarrow> s = t"
    using assms unfolding st tok_less_def comp_lt_cases wf_tok_def
    by (cases x; cases y) (auto simp: not_less)
qed

lemma tok_less_irrefl [simp]: "wf_tok t \<Longrightarrow> \<not> tok_less t t"
  using tok_less_wf(2) by blast

lemma tok_less_trans:
  assumes "tok_less s t" "tok_less t u"
  shows "tok_less s u"
proof -
  obtain a x b y c z where e: "s = (a, x)" "t = (b, y)" "u = (c, z)" by (cases s; cases t; cases u)
  show ?thesis
    using assms unfolding e tok_less_def comp_lt_cases
    by (cases x; cases y; cases z) (auto dest: less_trans)
qed

lemma vercmp_toks_Nil [simp]: "vercmp_toks [] [] = Inr 0"
  by (subst vercmp_toks.simps) (simp add: head_tok_def)

lemma vercmp_toks_Nil_Cons:
  "wf_tok t \<Longrightarrow> vercmp_toks [] (t # ts) =
     (if fst t > 0 then Inr (-1) else if fst t < 0 then Inr 1 else Inl TypeError)"
  by (subst vercmp_toks.simps)
    (auto simp: head_tok_def wf_tok_def split: vcomp.splits prod.splits)

lemma vercmp_toks_Cons_Nil:
  "wf_tok t \<Longrightarrow> vercmp_toks (t # ts) [] =
     (if fst t > 0 then Inr 1 else if fst t < 0 then Inr (-1) else Inl TypeError)"
  by (subst vercmp_toks.simps)
    (auto simp: head_tok_def wf_tok_def split: vcomp.splits prod.splits)

lemma vercmp_toks_Cons_Cons:
  assumes "wf_tok s" "wf_tok t"
  shows "vercmp_toks (s # ss) (t # ts) =
     (if tok_less s t then Inr (-1) else if tok_less t s then Inr 1 else vercmp_toks ss ts)"
proof -
  have "snd s \<noteq> VNone" using assms(1) by (auto simp: wf_tok_def)
  then show ?thesis
    using tok_less_wf(1) [OF assms] tok_less_wf(1) [OF assms(2,1)]
    by (subst vercmp_toks.simps)
      (cases s; cases t; auto simp: head_tok_def tok_less_def)
qed

lemmas vercmp_toks_simps = vercmp_toks_Nil vercmp_toks_Nil_Cons vercmp_toks_Cons_Nil
  vercmp_toks_Cons_Cons

lemma vercmp_toks_range:
  "list_all wf_tok va \<Longrightarrow> list_all wf_tok vb \<Longrightarrow> vercmp_toks va vb = Inr r \<Longrightarrow> r \<in> {-1, 0, 1}"
proof (induction va arbitrary: vb)
  case Nil
  then show ?case by (cases vb) (auto simp: vercmp_toks_simps split: if_splits)
next
  case (Cons s ss)
  then show ?case
    by (cases vb) (auto simp: vercmp_toks_simps split: if_splits)
qed

lemma vercmp_toks_refl: "list_all wf_tok va \<Longrightarrow> vercmp_toks va va = Inr 0"
  by (induction va) (simp_all add: vercmp_toks_Cons_Cons)

lemma vercmp_toks_flip:
  "list_all wf_tok va \<Longrightarrow> list_all wf_tok vb \<Longrightarrow>
   vercmp_toks vb va = map_sum id uminus (vercmp_toks va vb)"
proof (induction va arbitrary: vb)
  case Nil
  then show ?case by (cases vb) (auto simp: vercmp_toks_simps)
next
  case (Cons s ss)
  then show ?case
    by (cases vb) (auto simp: vercmp_toks_simps tok_less_wf(2))
qed

lemma vercmp_toks_eq_0:
  "list_all wf_tok va \<Longrightarrow> list_all wf_tok vb \<Longrightarrow> vercmp_toks va vb = Inr 0 \<longleftrightarrow> va = vb"
proof (induction va arbitrary: vb)
  case Nil
  then show ?case by (cases vb) (auto simp: vercmp_toks_simps)
next
  case (Cons s ss)
  show ?case
  proof (cases vb)
    case (Cons t ts)
    with Cons.prems Cons.IH [of ts] show ?thesis
      using tok_less_wf(2,3) [of s t] by (auto simp: vercmp_toks_simps)
  qed (use Cons.prems in \<open>auto simp: vercmp_toks_simps\<close>)
qed

lemma vercmp_toks_trans:
  "list_all wf_tok va \<Longrightarrow> list_all wf_tok vb \<Longrightarrow> list_all wf_tok vc \<Longrightarrow>
   vercmp_toks va vb = Inr x \<Longrightarrow> vercmp_toks vb vc = Inr y \<Longrightarrow> x \<le> 0 \<Longrightarrow> y \<le> 0 \<Longrightarrow>
   \<exists>z. vercmp_toks va vc = Inr z \<and> z \<le> 0"
proof (induction va arbitrary: vb vc x y)
  case Nil
  then show ?case
    by (cases vb; cases vc) (auto simp: vercmp_toks_simps tok_less_def split: if_splits)
next
  case (Cons s ss)
  show ?case
  proof (cases "vb = [] \<or> vc = []")
    case True
    with Cons.prems show ?thesis
      by (cases vb; cases vc) (auto simp: vercmp_toks_simps tok_less_def split: if_splits)
  next
    case False
    then obtain t ts u us where e: "vb = t # ts" "vc = u # us" by (meson neq_Nil_conv)
    note w = Cons.prems(1-3) [unfolded e, simplified]
    show ?thesis
      using Cons.prems Cons.IH [of ts us x y] w tok_less_wf [of s t] tok_less_wf [of t u]
        tok_less_wf [of s u] tok_less_trans [of s t u]
      by (auto simp: e vercmp_toks_Cons_Cons split: if_splits)
  qed
qed

lemma vercmp_toks_TypeError:
  assumes "list_all wf_tok va" "list_all wf_tok vb"
  shows "vercmp_toks va vb = Inl e \<longleftrightarrow> e = TypeError \<and>
    (\<exists>n ts. vb = va @ (0, VNum n) # ts \<or> va = vb @ (0, VNum n) # ts)"
  using assms
proof (induction va arbitrary: vb)
  case Nil
  then show ?case
    by (cases vb) (auto simp: vercmp_toks_simps wf_tok_def split: vcomp.splits)
next
  case (Cons s ss)
  show ?case
  proof (cases vb)
    case Nil
    with Cons.prems show ?thesis
      by (cases s) (auto simp: vercmp_toks_simps wf_tok_def split: vcomp.splits)
  next
    case (Cons t ts)
    with Cons.prems Cons.IH [of ts] show ?thesis
      using tok_less_wf(3) [of s t] by (auto simp: vercmp_toks_simps)
  qed
qed

text \<open>
  The contract a version comparison offers its callers: it may raise, but where it answers it is
  reflexive, flips sign when its arguments are swapped, is transitive, and does not tell equal
  versions apart.
\<close>

locale gap_order =
  fixes cmp :: "'v \<Rightarrow> 'v \<Rightarrow> int res" and ok :: "'v \<Rightarrow> bool"
  assumes cmp_refl: "ok a \<Longrightarrow> cmp a a = Inr 0"
    and cmp_flip: "ok a \<Longrightarrow> ok b \<Longrightarrow> cmp b a = map_sum id uminus (cmp a b)"
    and cmp_trans: "ok a \<Longrightarrow> ok b \<Longrightarrow> ok c \<Longrightarrow> cmp a b = Inr x \<Longrightarrow> cmp b c = Inr y \<Longrightarrow>
      x \<le> 0 \<Longrightarrow> y \<le> 0 \<Longrightarrow> \<exists>z. cmp a c = Inr z \<and> z \<le> 0"
    and cmp_cong: "ok a \<Longrightarrow> ok b \<Longrightarrow> ok c \<Longrightarrow> cmp a b = Inr 0 \<Longrightarrow> cmp a c = cmp b c"
begin

lemma cmp_cong_right:
  "ok a \<Longrightarrow> ok b \<Longrightarrow> ok c \<Longrightarrow> cmp a b = Inr 0 \<Longrightarrow> cmp c a = cmp c b"
  using cmp_cong cmp_flip by metis

lemma cmp_less_le_trans:
  assumes ok: "ok a" "ok b" "ok c" and x: "cmp a b = Inr x" "x < 0" and y: "cmp b c = Inr y" "y \<le> 0"
  shows "\<exists>z. cmp a c = Inr z \<and> z < 0"
proof -
  obtain z where z: "cmp a c = Inr z" "z \<le> 0"
    using cmp_trans [OF ok x(1) y(1)] x(2) y(2) by auto
  moreover have "z \<noteq> 0"
  proof
    assume "z = 0"
    with z ok have "cmp c b = Inr x" using cmp_cong [of a c b] x(1) by simp
    with cmp_flip [of c b] ok y x(2) show False by simp
  qed
  ultimately show ?thesis by auto
qed

lemma cmp_le_less_trans:
  assumes ok: "ok a" "ok b" "ok c" and x: "cmp a b = Inr x" "x \<le> 0" and y: "cmp b c = Inr y" "y < 0"
  shows "\<exists>z. cmp a c = Inr z \<and> z < 0"
proof (cases "x = 0")
  case True
  with assms cmp_cong [of a b c] show ?thesis by auto
next
  case False
  with assms show ?thesis by (intro cmp_less_le_trans [of a b c x y]) auto
qed

lemma upper_extend:
  assumes "ok cur" "ok new" "\<forall>s\<in>S. ok s \<and> (\<exists>z. cmp s cur = Inr z \<and> z \<le> 0)" "cmp cur new = Inr r"
  shows "\<forall>s\<in>insert new S. \<exists>z. cmp s (if r < 0 then new else cur) = Inr z \<and> z \<le> 0"
proof (cases "r < 0")
  case True
  then show ?thesis
    using assms cmp_refl [of new] cmp_trans [of _ cur new] by fastforce
next
  case False
  then show ?thesis using assms cmp_flip [of cur new] by auto
qed

end

definition lexr :: "int res \<Rightarrow> int res \<Rightarrow> int res" where
  "lexr r s = rbind r (\<lambda>x. if x = 0 then s else Inr x)"

locale gap_order_pair = fst: gap_order c1 ok1 + snd: gap_order c2 ok2
  for c1 :: "'a \<Rightarrow> 'a \<Rightarrow> int res" and ok1 and c2 :: "'b \<Rightarrow> 'b \<Rightarrow> int res" and ok2
begin

lemma lexr_flip:
  "map_sum id uminus (lexr r s) = lexr (map_sum id uminus r) (map_sum id uminus s)"
  by (cases r) (simp_all add: lexr_def)

lemma lexr_trans:
  assumes ok: "ok1 a" "ok1 b" "ok1 c" "ok2 a'" "ok2 b'" "ok2 c'"
    and x: "lexr (c1 a b) (c2 a' b') = Inr x" "x \<le> 0"
    and y: "lexr (c1 b c) (c2 b' c') = Inr y" "y \<le> 0"
  shows "\<exists>z. lexr (c1 a c) (c2 a' c') = Inr z \<and> z \<le> 0"
proof -
  obtain u v where u: "c1 a b = Inr u" "c1 b c = Inr v"
    using x(1) y(1) by (auto simp: lexr_def res_simps)
  have uv: "u \<le> 0" "v \<le> 0" using x y u by (auto simp: lexr_def split: if_splits)
  show ?thesis
  proof (cases "u = 0 \<and> v = 0")
    case True
    with u have "c1 a c = Inr 0" using fst.cmp_cong [OF ok(1-3)] by auto
    moreover have "\<exists>z. c2 a' c' = Inr z \<and> z \<le> 0"
      using snd.cmp_trans [OF ok(4-6)] x y u True by (auto simp: lexr_def)
    ultimately show ?thesis by (simp add: lexr_def)
  next
    case False
    with uv consider "u < 0" | "v < 0" by linarith
    then have "\<exists>z. c1 a c = Inr z \<and> z < 0"
      using fst.cmp_less_le_trans [OF ok(1-3) u(1) _ u(2) uv(2)]
        fst.cmp_le_less_trans [OF ok(1-3) u(1) uv(1) u(2)] by cases auto
    then show ?thesis by (auto simp: lexr_def)
  qed
qed

end

sublocale gap_order_pair \<subseteq> lex: gap_order
  "\<lambda>(a, a') (b, b'). lexr (c1 a b) (c2 a' b')" "\<lambda>(a, a'). ok1 a \<and> ok2 a'"
proof
  fix p q r :: "'a \<times> 'b"
  assume p: "case p of (a, a') \<Rightarrow> ok1 a \<and> ok2 a'"
  then show "(case p of (a, a') \<Rightarrow> \<lambda>(b, b'). lexr (c1 a b) (c2 a' b')) p = Inr 0"
    by (auto simp: lexr_def fst.cmp_refl snd.cmp_refl)
  assume q: "case q of (a, a') \<Rightarrow> ok1 a \<and> ok2 a'"
  with p show "(case q of (a, a') \<Rightarrow> \<lambda>(b, b'). lexr (c1 a b) (c2 a' b')) p =
    map_sum id uminus ((case p of (a, a') \<Rightarrow> \<lambda>(b, b'). lexr (c1 a b) (c2 a' b')) q)"
    using fst.cmp_flip [of "fst p" "fst q"] snd.cmp_flip [of "snd p" "snd q"]
    by (cases p; cases q) (simp add: lexr_flip)
  assume r: "case r of (a, a') \<Rightarrow> ok1 a \<and> ok2 a'"
  {
    fix x y assume "(case p of (a, a') \<Rightarrow> \<lambda>(b, b'). lexr (c1 a b) (c2 a' b')) q = Inr x"
      "(case q of (a, a') \<Rightarrow> \<lambda>(b, b'). lexr (c1 a b) (c2 a' b')) r = Inr y" "x \<le> 0" "y \<le> 0"
    with p q r show "\<exists>z. (case p of (a, a') \<Rightarrow> \<lambda>(b, b'). lexr (c1 a b) (c2 a' b')) r = Inr z \<and> z \<le> 0"
      by (cases p; cases q; cases r) (auto intro: lexr_trans)
  }
  assume "(case p of (a, a') \<Rightarrow> \<lambda>(b, b'). lexr (c1 a b) (c2 a' b')) q = Inr 0"
  with p q r show "(case p of (a, a') \<Rightarrow> \<lambda>(b, b'). lexr (c1 a b) (c2 a' b')) r =
    (case q of (a, a') \<Rightarrow> \<lambda>(b, b'). lexr (c1 a b) (c2 a' b')) r"
    using fst.cmp_cong [of "fst p" "fst q" "fst r"] snd.cmp_cong [of "snd p" "snd q" "snd r"]
    by (cases p; cases q; cases r) (auto simp: lexr_def res_simps split: if_splits cong: if_cong)
qed

definition version_ok :: "string \<Rightarrow> bool" where
  "version_ok s = (case explode_version s of Inl _ \<Rightarrow> False | Inr _ \<Rightarrow> True)"

definition epoch_ok :: "epoch \<Rightarrow> bool" where
  "epoch_ok e = (case epoch_int e of Inl _ \<Rightarrow> False | Inr _ \<Rightarrow> True)"

definition epoch_cmp :: "epoch \<Rightarrow> epoch \<Rightarrow> int res" where
  "epoch_cmp a b = rbind (epoch_int a) (\<lambda>x. rbind (epoch_int b) (\<lambda>y. Inr (x - y)))"

lemma version_okE:
  assumes "version_ok s" obtains ts where "explode_version s = Inr ts" "list_all wf_tok ts"
  using assms explode_version_wf by (auto simp: version_ok_def split: sum.splits)

interpretation vpart: gap_order vercmp_part version_ok
proof
  fix a b c x y
  assume "version_ok a"
  then obtain va where a: "explode_version a = Inr va" "list_all wf_tok va" by (rule version_okE)
  then show "vercmp_part a a = Inr 0" by (simp add: vercmp_part_def vercmp_toks_refl)
  assume "version_ok b"
  then obtain vb where b: "explode_version b = Inr vb" "list_all wf_tok vb" by (rule version_okE)
  with a show "vercmp_part b a = map_sum id uminus (vercmp_part a b)"
    by (simp add: vercmp_part_def vercmp_toks_flip [OF a(2) b(2)])
  assume "version_ok c"
  then obtain vc where c: "explode_version c = Inr vc" "list_all wf_tok vc" by (rule version_okE)
  with a b show "vercmp_part a b = Inr x \<Longrightarrow> vercmp_part b c = Inr y \<Longrightarrow> x \<le> 0 \<Longrightarrow> y \<le> 0 \<Longrightarrow>
    \<exists>z. vercmp_part a c = Inr z \<and> z \<le> 0"
    using vercmp_toks_trans [of va vb vc x y] by (simp add: vercmp_part_def)
  from a b show "vercmp_part a b = Inr 0 \<Longrightarrow> vercmp_part a c = vercmp_part b c"
    by (simp add: vercmp_part_def vercmp_toks_eq_0)
qed

lemma epoch_okE:
  assumes "epoch_ok e" obtains n where "epoch_int e = Inr n"
  using assms by (auto simp: epoch_ok_def split: sum.splits)

interpretation vepoch: gap_order epoch_cmp epoch_ok
  by unfold_locales (auto simp: epoch_cmp_def elim!: epoch_okE)

interpretation vver: gap_order_pair vercmp_part version_ok vercmp_part version_ok ..

interpretation vfull: gap_order_pair epoch_cmp epoch_ok
  "\<lambda>(a, a') (b, b'). lexr (vercmp_part a b) (vercmp_part a' b')" "\<lambda>(a, a'). version_ok a \<and> version_ok a'" ..

lemma vercmp_lexr:
  "vercmp (ea, va, ra) (eb, vb, rb) =
     lexr (epoch_cmp ea eb) (lexr (vercmp_part va vb) (vercmp_part ra rb))"
  by (cases "epoch_int ea"; cases "epoch_int eb")
    (simp_all add: vercmp_def lexr_def epoch_cmp_def Let_def)

definition pepvpr_ok :: "pepvpr \<Rightarrow> bool" where
  "pepvpr_ok t = (case t of (e, v, r) \<Rightarrow> epoch_ok e \<and> version_ok v \<and> version_ok r)"

interpretation vercmp: gap_order vercmp pepvpr_ok
proof -
  have "vercmp = (\<lambda>(a, a') (b, b'). lexr (epoch_cmp a b)
      ((\<lambda>(a, a') (b, b'). lexr (vercmp_part a b) (vercmp_part a' b')) a' b'))"
    by (intro ext) (auto simp: vercmp_lexr split: prod.splits)
  moreover have "pepvpr_ok = (\<lambda>(a, a'). epoch_ok a \<and> (\<lambda>(a, a'). version_ok a \<and> version_ok a') a')"
    by (intro ext) (auto simp: pepvpr_ok_def split: prod.splits)
  ultimately show "gap_order vercmp pepvpr_ok"
    using vfull.lex.gap_order_axioms by simp
qed

section \<open>Properties of version comparison\<close>

text \<open>
  C27: swapping the arguments of \<open>vercmp\<close> negates its answer, and an exception of one order
  is the exception of the other, for versions whose parts can be parsed.
\<close>

theorem vercmp_antisymmetric:
  assumes "pepvpr_ok a" "pepvpr_ok b"
  shows "vercmp b a = map_sum id uminus (vercmp a b)"
  using assms by (rule vercmp.cmp_flip)

theorem vercmp_antisymmetric_witness:
  "vercmp (EStr ''1'', ''2.0'', ''r1'') (EStr [], ''10.0'', ''r0'') = Inr 1 \<and>
   vercmp (EStr [], ''10.0'', ''r0'') (EStr ''1'', ''2.0'', ''r1'') = Inr (-1)"
proof -
  have ok: "pepvpr_ok (EStr ''1'', ''2.0'', ''r1'')" "pepvpr_ok (EStr [], ''10.0'', ''r0'')"
    by code_simp+
  have "vercmp (EStr ''1'', ''2.0'', ''r1'') (EStr [], ''10.0'', ''r0'') = Inr 1"
    by code_simp
  then show ?thesis using vercmp_antisymmetric [OF ok] by simp
qed

text \<open>
  C26: \<open>vercmp\<close> is transitive over all three fields: if it puts a below b and b below c, it
  compares a with c without an exception and puts a below c.
\<close>

theorem vercmp_transitive:
  assumes "pepvpr_ok a" "pepvpr_ok b" "pepvpr_ok c"
    and "vercmp a b = Inr x" "vercmp b c = Inr y" "x \<le> 0" "y \<le> 0"
  shows "\<exists>z. vercmp a c = Inr z \<and> z \<le> 0"
  using assms by (rule vercmp.cmp_trans)

theorem vercmp_transitive_witness:
  "\<exists>z. vercmp (EStr [], ''1.0~rc1'', ''r0'') (EStr [], ''1.0a'', ''r0'') = Inr z \<and> z \<le> 0"
proof -
  have ok: "pepvpr_ok (EStr [], ''1.0~rc1'', ''r0'')" "pepvpr_ok (EStr [], ''1.0'', ''r0'')"
    "pepvpr_ok (EStr [], ''1.0a'', ''r0'')" by code_simp+
  have "vercmp (EStr [], ''1.0~rc1'', ''r0'') (EStr [], ''1.0'', ''r0'') = Inr (-1)"
    "vercmp (EStr [], ''1.0'', ''r0'') (EStr [], ''1.0a'', ''r0'') = Inr (-1)" by code_simp+
  then show ?thesis using vercmp_transitive [OF ok] by simp
qed

text \<open>
  \<open>vercmp_part\<close> calls two version strings equal exactly when they explode into the same
  tokens (so 1.01 and 1.1 are equal), and its answers are -1, 0 and 1 only.
\<close>

theorem vercmp_part_equal_iff:
  assumes "explode_version a = Inr va" "explode_version b = Inr vb"
  shows "(vercmp_part a b = Inr 0 \<longleftrightarrow> va = vb) \<and> (\<forall>r. vercmp_part a b = Inr r \<longrightarrow> r \<in> {-1, 0, 1})"
  using assms explode_version_wf [OF assms(1)] explode_version_wf [OF assms(2)]
    vercmp_toks_eq_0 vercmp_toks_range
  by (auto simp: vercmp_part_def)

theorem vercmp_part_equal_iff_witness: "vercmp_part ''1.01'' ''1.1'' = Inr 0"
proof -
  have "explode_version ''1.01'' = Inr [(0, VNum 1), (2, VStr ''.''), (0, VNum 1)]"
    "explode_version ''1.1'' = Inr [(0, VNum 1), (2, VStr ''.''), (0, VNum 1)]" by code_simp+
  from vercmp_part_equal_iff [OF this] show ?thesis by simp
qed

text \<open>
  C32: the exact condition under which \<open>vercmp_part\<close> raises: one version is a token prefix of
  the other and the next token is a number, which Python 3 cannot compare with None.
\<close>

theorem vercmp_part_raises_iff:
  assumes "explode_version a = Inr va" "explode_version b = Inr vb"
  shows "vercmp_part a b = Inl e \<longleftrightarrow> e = TypeError \<and>
    (\<exists>n ts. vb = va @ (0, VNum n) # ts \<or> va = vb @ (0, VNum n) # ts)"
  using assms vercmp_toks_TypeError [OF explode_version_wf explode_version_wf, OF assms]
  by (simp add: vercmp_part_def)

theorem vercmp_part_raises_iff_witness:
  "vercmp_part [] ''1'' = Inl TypeError \<and> vercmp_string ''1.0'' ''1.0-1'' = Inl TypeError"
proof -
  have "explode_version [] = Inr []" "explode_version ''1'' = Inr [(0, VNum 1)]" by code_simp+
  then have "vercmp_part [] ''1'' = Inl TypeError"
    using vercmp_part_raises_iff [of "[]" "[]" "''1''" "[(0, VNum 1)]" TypeError] by simp
  moreover have "vercmp_string ''1.0'' ''1.0-1'' = Inl TypeError" by code_simp
  ultimately show ?thesis by simp
qed

section \<open>Dependency strings\<close>

fun explode_deps_loop :: "string list \<Rightarrow> bool \<Rightarrow> string list" where
  "explode_deps_loop [] flag = []"
| "explode_deps_loop (i # l) flag =
     (let flag' = (if hd i = CHR ''('' then True else flag)
      in (if \<not> flag' then [i] else []) @
         explode_deps_loop l (if flag' \<and> suffix '')'' i then False else flag'))"

definition explode_deps :: "string \<Rightarrow> string list" where
  "explode_deps s = explode_deps_loop (split_ws s) False"

text \<open>
  The loop variables of \<open>explode_dep_versions2\<close>. A version before any dependency is stored
  under the key None.
\<close>

record depver_state =
  dv_r :: "(string option, string list) dict"
  dv_lastdep :: "string option"
  dv_lastcmp :: string
  dv_lastver :: string
  dv_incmp :: bool
  dv_inversion :: bool

definition two_char_ops :: "string list" where
  "two_char_ops = [''<='', ''=<'', ''<<'', ''=='', ''!='', ''>='', ''=>'', ''>>'']"

text \<open>The part of the loop body after the comparison operator: inside a version.\<close>

definition depver_inversion :: "string \<Rightarrow> depver_state \<Rightarrow> depver_state" where
  "depver_inversion i s =
     (let closes = suffix '')'' i;
          i' = (if closes then butlast i else i);
          ver = (if closes \<and> dv_lastver s \<noteq> [] \<and> i' \<noteq> [] then dv_lastver s @ '' '' else dv_lastver s);
          s' = s\<lparr>dv_inversion := (if closes then False else dv_inversion s), dv_lastver := ver\<rparr>
      in if i' = [] then s'
         else let ver' = ver @ i'
              in s'\<lparr>dv_lastver := ver',
                   dv_r := dset (dv_lastdep s)
                     (ddefault (dv_r s) (dv_lastdep s) @ [dv_lastcmp s @ '' '' @ ver']) (dv_r s)\<rparr>)"

definition depver_newdep :: "string \<Rightarrow> depver_state \<Rightarrow> depver_state" where
  "depver_newdep i s =
     s\<lparr>dv_lastdep := Some i, dv_lastver := [], dv_lastcmp := [],
       dv_r := (if ddefault (dv_r s) (Some i) \<noteq> [] then dv_r s else dset (Some i) [] (dv_r s))\<rparr>"

definition depver_step :: "string \<Rightarrow> depver_state \<Rightarrow> depver_state res" where
  "depver_step i0 s0 =
     (let opens = (hd i0 = CHR ''('');
          i = (if opens then strip_of is_space (tl i0) else i0);
          s = (if opens then s0\<lparr>dv_incmp := True\<rparr> else s0)
      in if opens \<and> i = [] then Inr s
         else if dv_incmp s then
           (let s1 = s\<lparr>dv_incmp := False, dv_inversion := True\<rparr>
            in if take 2 i \<in> set two_char_ops then
                 (let s2 = s1\<lparr>dv_lastcmp := take 2 i\<rparr>
                  in Inr (if drop 2 i = [] then s2 else depver_inversion (drop 2 i) s2))
               else if take 1 i \<in> {''<'', ''>'', ''=''} then
                 (let s2 = s1\<lparr>dv_lastcmp := take 1 i\<rparr>
                  in Inr (if drop 1 i = [] then s2 else depver_inversion (drop 1 i) s2))
               else Inl VersionStringException)
         else if dv_inversion s then Inr (depver_inversion i s)
         else Inr (depver_newdep i s))"

definition explode_dep_versions2 :: "string \<Rightarrow> (string option, string list) dict res" where
  "explode_dep_versions2 str =
     rbind (rfold depver_step (split_ws (filter (\<lambda>c. c \<noteq> CHR '','') str))
        \<lparr>dv_r = [], dv_lastdep = None, dv_lastcmp = [], dv_lastver = [],
         dv_incmp = False, dv_inversion = False\<rparr>)
       (\<lambda>s. if None \<in> set (dkeys (dv_r s)) \<and> length (dv_r s) > 1 then Inl TypeError
            else Inr (sort_key (\<lambda>x. case fst x of None \<Rightarrow> [] | Some k \<Rightarrow> k) (dv_r s)))"

definition explode_dep_versions :: "string \<Rightarrow> (string option, string option) dict res" where
  "explode_dep_versions str =
     rbind (explode_dep_versions2 str)
       (\<lambda>r. Inr (map (\<lambda>(d, vs). (d, case vs of [] \<Rightarrow> None | v # _ \<Rightarrow> Some v)) r))"

datatype depval = DVNone | DVStr string | DVList "string list"

definition join_deps :: "(string, depval) dict \<Rightarrow> bool \<Rightarrow> string" where
  "join_deps deps commasep =
     join_with (if commasep then '', '' else '' '')
       (concat (map (\<lambda>(dep, val).
          case val of
            DVNone \<Rightarrow> [dep]
          | DVStr v \<Rightarrow> if v = [] then [dep] else [dep @ '' ('' @ v @ '')'']
          | DVList vs \<Rightarrow> if vs = [] then [dep] else map (\<lambda>v. dep @ '' ('' @ v @ '')'') vs) deps))"

end
