(* ===== verification/BB_Cache.thy ===== *)
theory BB_Cache
  imports BB_Version
begin

text \<open>
  The recipe cache, \<open>lib/bb/cache.py\<close>: what \<open>CoreRecipeInfo\<close> reads from the metadata of
  one recipe, the tables \<open>CacheData\<close> that \<open>add_cacheData\<close> fills from it and that the
  provider selection and the run queue read, and the names of virtual recipe files.
  The data store is an argument: \<open>md_var v\<close> is \<open>getVar(v, True)\<close>, \<open>md_flag\<close> is
  \<open>getVarFlag\<close>, the other fields are the values that are not strings. The
  \<open>defaultdict(list)\<close> tables are dictionaries read with \<open>ddefault\<close>.
\<close>

section \<open>The tables\<close>

record taskdeps =
  td_tasks :: "string list"
  td_parents :: "(string, string list) dict"
  td_flags :: "(string, (string, string) dict) dict"

record datacache =
  dc_task_deps :: "(string, taskdeps) dict"
  dc_pkg_fn :: "(string, string) dict"
  dc_pkg_pn :: "(string, string list) dict"
  dc_pkg_pepvpr :: "(string, pepvpr) dict"
  dc_pkg_dp :: "(string, int) dict"
  dc_stamp :: "(string, string) dict"
  dc_stampclean :: "(string, string) dict"
  dc_stamp_extrainfo :: "(string, (string, string option) dict) dict"
  dc_file_checksums :: "(string, (string, string option) dict) dict"
  dc_fn_provides :: "(string, string list) dict"
  dc_pn_provides :: "(string, string list) dict"
  dc_all_depends :: "string list"
  dc_deps :: "(string, string list) dict"
  dc_packages :: "(string, string list) dict"
  dc_providers :: "(string, string list) dict"
  dc_rproviders :: "(string, string list) dict"
  dc_packages_dynamic :: "(string, string list) dict"
  dc_rundeps :: "(string, (string, string list) dict) dict"
  dc_runrecs :: "(string, (string, string list) dict) dict"
  dc_possible_world :: "string list"
  dc_universe_target :: "string list"
  dc_hashfn :: "(string, string) dict"
  dc_basetaskhash :: "(string, string) dict"
  dc_inherits :: "(string, string list) dict"
  dc_fakerootenv :: "(string, string) dict"
  dc_fakerootnoenv :: "(string, string) dict"
  dc_fakerootdirs :: "(string, string) dict"
  dc_extradepsfunc :: "(string, string) dict"
  dc_preferred :: "(string, string) dict"
  dc_ignored_dependencies :: "string list"
  dc_world_target :: "string list"
  dc_bbfile_priority :: "(string, int) dict"

definition init_cacheData :: datacache where
  "init_cacheData =
     \<lparr>dc_task_deps = [], dc_pkg_fn = [], dc_pkg_pn = [], dc_pkg_pepvpr = [], dc_pkg_dp = [],
      dc_stamp = [], dc_stampclean = [], dc_stamp_extrainfo = [], dc_file_checksums = [],
      dc_fn_provides = [], dc_pn_provides = [], dc_all_depends = [], dc_deps = [],
      dc_packages = [], dc_providers = [], dc_rproviders = [], dc_packages_dynamic = [],
      dc_rundeps = [], dc_runrecs = [], dc_possible_world = [], dc_universe_target = [],
      dc_hashfn = [], dc_basetaskhash = [], dc_inherits = [], dc_fakerootenv = [],
      dc_fakerootnoenv = [], dc_fakerootdirs = [], dc_extradepsfunc = [], dc_preferred = [],
      dc_ignored_dependencies = [], dc_world_target = [], dc_bbfile_priority = []\<rparr>"

section \<open>One recipe\<close>

record metadata =
  md_var :: "string \<Rightarrow> string option"
  md_flag :: "string \<Rightarrow> string \<Rightarrow> string option"
  md_depends :: "(string \<times> int) list option"
  md_tasks :: "string list option"
  md_task_deps :: "taskdeps option"
  md_inherits :: "string list option"
  md_file_pn :: string
  md_mtime :: int

record recipe_head =
  rh_file_depends :: "(string \<times> int) list option"
  rh_timestamp :: int
  rh_variants :: "string list"
  rh_appends :: "string list"
  rh_nocache :: string
  rh_skipreason :: string
  rh_pn :: string
  rh_provides :: "string list"
  rh_rprovides :: "string list"

record recipe_core =
  ri_tasks :: "string list"
  ri_packages :: "string list"
  ri_basetaskhashes :: "(string, string) dict"
  ri_hashfilename :: string
  ri_task_deps :: taskdeps
  ri_pe :: string
  ri_pv :: string
  ri_pr :: string
  ri_defaultpref :: int
  ri_not_world :: string
  ri_stamp :: string
  ri_stampclean :: string
  ri_stamp_extrainfo :: "(string, string option) dict"
  ri_file_checksums :: "(string, string option) dict"
  ri_packages_dynamic :: "string list"
  ri_depends :: "string list"
  ri_rdepends :: "string list"
  ri_rrecommends :: "string list"
  ri_rprovides_pkg :: "(string, string list) dict"
  ri_rdepends_pkg :: "(string, string list) dict"
  ri_rrecommends_pkg :: "(string, string list) dict"
  ri_inherits :: "string list"
  ri_fakerootenv :: string
  ri_fakerootdirs :: string
  ri_fakerootnoenv :: string
  ri_extradepsfunc :: string

text \<open>A skipped recipe has only the attributes of \<open>recipe_head\<close>: the second part is None.\<close>

type_synonym recipe_info = "recipe_head \<times> recipe_core option"

definition getvar :: "metadata \<Rightarrow> string \<Rightarrow> string" where
  "getvar md v = (case md_var md v of None \<Rightarrow> [] | Some s \<Rightarrow> s)"

definition listvar :: "metadata \<Rightarrow> string \<Rightarrow> string list" where
  "listvar md v = split_ws (getvar md v)"

definition intvar :: "metadata \<Rightarrow> string \<Rightarrow> int res" where
  "intvar md v = (if getvar md v = [] then Inr 0 else py_int (getvar md v))"

definition depvar :: "metadata \<Rightarrow> string \<Rightarrow> string list" where
  "depvar md v = explode_deps (getvar md v)"

text \<open>\<open>dict((k, f(k)) for k in ks)\<close>: the last pair of a key that occurs twice stays.\<close>

definition dict_of :: "('k \<Rightarrow> 'v) \<Rightarrow> 'k list \<Rightarrow> ('k, 'v) dict" where
  "dict_of f ks = fold (\<lambda>k d. dset k (f k) d) ks []"

definition pkgvar :: "metadata \<Rightarrow> string \<Rightarrow> string list \<Rightarrow> (string, string list) dict" where
  "pkgvar md v pkgs = dict_of (\<lambda>pkg. depvar md (v @ ''_'' @ pkg)) pkgs"

definition taskvar :: "metadata \<Rightarrow> string \<Rightarrow> string list \<Rightarrow> (string, string) dict" where
  "taskvar md v tasks = dict_of (\<lambda>task. getvar md (v @ ''_task-'' @ task)) tasks"

definition flaglist :: "metadata \<Rightarrow> string \<Rightarrow> string list \<Rightarrow> bool \<Rightarrow> (string, string option) dict" where
  "flaglist md flag vs squash =
     (let out = dict_of (\<lambda>v. md_flag md v flag) vs
      in if squash then filter (\<lambda>(k, v). v \<noteq> None \<and> v \<noteq> Some []) out else out)"

definition recipe_packages :: "metadata \<Rightarrow> string list" where
  "recipe_packages md =
     (let ps = listvar md ''PACKAGES''; pn = getvar md ''PN''
      in if pn \<in> set ps then ps else ps @ [pn])"

definition read_core :: "metadata \<Rightarrow> string list \<Rightarrow> int \<Rightarrow> recipe_core" where
  "read_core md tasks dp =
     \<lparr>ri_tasks = tasks, ri_packages = recipe_packages md,
      ri_basetaskhashes = taskvar md ''BB_BASEHASH'' tasks,
      ri_hashfilename = getvar md ''BB_HASHFILENAME'',
      ri_task_deps = (case md_task_deps md of
                        None \<Rightarrow> \<lparr>td_tasks = [], td_parents = [], td_flags = []\<rparr> | Some t \<Rightarrow> t),
      ri_pe = getvar md ''PE'', ri_pv = getvar md ''PV'', ri_pr = getvar md ''PR'',
      ri_defaultpref = dp, ri_not_world = getvar md ''EXCLUDE_FROM_WORLD'',
      ri_stamp = getvar md ''STAMP'', ri_stampclean = getvar md ''STAMPCLEAN'',
      ri_stamp_extrainfo = flaglist md ''stamp-extra-info'' tasks False,
      ri_file_checksums = flaglist md ''file-checksums'' tasks True,
      ri_packages_dynamic = listvar md ''PACKAGES_DYNAMIC'',
      ri_depends = depvar md ''DEPENDS'', ri_rdepends = depvar md ''RDEPENDS'',
      ri_rrecommends = depvar md ''RRECOMMENDS'',
      ri_rprovides_pkg = pkgvar md ''RPROVIDES'' (recipe_packages md),
      ri_rdepends_pkg = pkgvar md ''RDEPENDS'' (recipe_packages md),
      ri_rrecommends_pkg = pkgvar md ''RRECOMMENDS'' (recipe_packages md),
      ri_inherits = (case md_inherits md of None \<Rightarrow> [] | Some l \<Rightarrow> l),
      ri_fakerootenv = getvar md ''FAKEROOTENV'', ri_fakerootdirs = getvar md ''FAKEROOTDIRS'',
      ri_fakerootnoenv = getvar md ''FAKEROOTNOENV'',
      ri_extradepsfunc = getvar md ''calculate_extra_depends''\<rparr>"

definition read_recipe :: "metadata \<Rightarrow> recipe_info res" where
  "read_recipe md =
     (let skipreason = getvar md ''__SKIPPED'';
          pn = getvar md ''PN'';
          head = \<lparr>rh_file_depends = md_depends md, rh_timestamp = md_mtime md,
                  rh_variants = listvar md ''__VARIANTS'' @ [[]],
                  rh_appends = listvar md ''__BBAPPEND'',
                  rh_nocache = getvar md ''BB_DONT_CACHE'', rh_skipreason = skipreason,
                  rh_pn = (if skipreason \<noteq> [] \<and> pn = [] then md_file_pn md else pn),
                  rh_provides = depvar md ''PROVIDES'', rh_rprovides = depvar md ''RPROVIDES''\<rparr>
      in if skipreason \<noteq> [] then Inr (head, None)
         else (case md_tasks md of
                 None \<Rightarrow> Inl TypeError
               | Some tasks \<Rightarrow> rbind (intvar md ''DEFAULT_PREFERENCE'')
                   (\<lambda>dp. Inr (head, Some (read_core md tasks dp)))))"

section \<open>Filling the tables\<close>

text \<open>\<open>d[k].append(x)\<close> on a \<open>defaultdict(list)\<close>, and the same unless x is there already.\<close>

definition dappend :: "'k \<Rightarrow> 'v \<Rightarrow> ('k, 'v list) dict \<Rightarrow> ('k, 'v list) dict" where
  "dappend k x d = dset k (ddefault d k @ [x]) d"

definition dappend_new :: "'k \<Rightarrow> 'v \<Rightarrow> ('k, 'v list) dict \<Rightarrow> ('k, 'v list) dict" where
  "dappend_new k x d = (if x \<in> set (ddefault d k) then d else dappend k x d)"

definition recipe_provides :: "recipe_head \<Rightarrow> string list" where
  "recipe_provides rh = fold sadd (rh_provides rh) [rh_pn rh]"

definition add_ident :: "recipe_head \<Rightarrow> recipe_core \<Rightarrow> string \<Rightarrow> datacache \<Rightarrow> datacache" where
  "add_ident rh rc fn dc =
     dc\<lparr>dc_task_deps := dset fn (ri_task_deps rc) (dc_task_deps dc),
        dc_pkg_fn := dset fn (rh_pn rh) (dc_pkg_fn dc),
        dc_pkg_pn := dappend (rh_pn rh) fn (dc_pkg_pn dc),
        dc_pkg_pepvpr := dset fn (EStr (ri_pe rc), ri_pv rc, ri_pr rc) (dc_pkg_pepvpr dc),
        dc_pkg_dp := dset fn (ri_defaultpref rc) (dc_pkg_dp dc),
        dc_stamp := dset fn (ri_stamp rc) (dc_stamp dc),
        dc_stampclean := dset fn (ri_stampclean rc) (dc_stampclean dc),
        dc_stamp_extrainfo := dset fn (ri_stamp_extrainfo rc) (dc_stamp_extrainfo dc),
        dc_file_checksums := dset fn (ri_file_checksums rc) (dc_file_checksums dc)\<rparr>"

definition add_provides :: "recipe_head \<Rightarrow> string \<Rightarrow> datacache \<Rightarrow> datacache" where
  "add_provides rh fn dc =
     fold (\<lambda>p dc. dc\<lparr>dc_providers := dappend p fn (dc_providers dc),
                      dc_pn_provides := dappend_new (rh_pn rh) p (dc_pn_provides dc)\<rparr>)
       (recipe_provides rh)
       (dc\<lparr>dc_fn_provides := dset fn (recipe_provides rh) (dc_fn_provides dc)\<rparr>)"

definition add_depends :: "recipe_core \<Rightarrow> string \<Rightarrow> datacache \<Rightarrow> datacache" where
  "add_depends rc fn dc =
     fold (\<lambda>dep dc. dc\<lparr>dc_deps := dappend_new fn dep (dc_deps dc),
                        dc_all_depends := sadd dep (dc_all_depends dc)\<rparr>) (ri_depends rc) dc"

text \<open>
  The list \<open>rprovides\<close> is the recipe's own attribute, which \<open>+=\<close> extends in place.
\<close>

definition add_packages ::
  "recipe_core \<Rightarrow> string \<Rightarrow> string list \<Rightarrow> datacache \<Rightarrow> (string list \<times> datacache) res" where
  "add_packages rc fn rprovides dc =
     rfold (\<lambda>package (rprovides, dc).
       rbind (ditem (ri_rprovides_pkg rc) package) (\<lambda>rp.
         Inr (rprovides @ rp, dc\<lparr>dc_packages := dappend package fn (dc_packages dc)\<rparr>)))
       (ri_packages rc) (rprovides, dc)"

definition add_rproviders :: "string \<Rightarrow> string list \<Rightarrow> datacache \<Rightarrow> datacache" where
  "add_rproviders fn rprovides dc =
     fold (\<lambda>rp dc. dc\<lparr>dc_rproviders := dappend_new rp fn (dc_rproviders dc)\<rparr>) rprovides dc"

definition add_dynamic :: "recipe_core \<Rightarrow> string \<Rightarrow> datacache \<Rightarrow> datacache" where
  "add_dynamic rc fn dc =
     fold (\<lambda>p dc. dc\<lparr>dc_packages_dynamic := dappend p fn (dc_packages_dynamic dc)\<rparr>)
       (ri_packages_dynamic rc) dc"

text \<open>\<open>d[fn][package] = v\<close> on a \<open>defaultdict\<close> of \<open>defaultdict\<close>s.\<close>

definition dset2 :: "'a \<Rightarrow> 'b \<Rightarrow> 'v \<Rightarrow> ('a, ('b, 'v) dict) dict \<Rightarrow> ('a, ('b, 'v) dict) dict" where
  "dset2 a b v d = dset a (dset b v (ddefault d a)) d"

definition add_rundeps :: "recipe_head \<Rightarrow> recipe_core \<Rightarrow> string \<Rightarrow> datacache \<Rightarrow> datacache res" where
  "add_rundeps rh rc fn dc =
     rfold (\<lambda>package dc.
       rbind (ditem (ri_rdepends_pkg rc) package) (\<lambda>rd.
       rbind (ditem (ri_rrecommends_pkg rc) package) (\<lambda>rr.
         Inr (dc\<lparr>dc_rundeps := dset2 fn package (ri_rdepends rc @ rd) (dc_rundeps dc),
                 dc_runrecs := dset2 fn package (ri_rrecommends rc @ rr) (dc_runrecs dc)\<rparr>))))
       (ri_packages rc @ [rh_pn rh]) dc"

definition add_rest :: "recipe_head \<Rightarrow> recipe_core \<Rightarrow> string \<Rightarrow> datacache \<Rightarrow> datacache" where
  "add_rest rh rc fn dc =
     dc\<lparr>dc_possible_world := (if ri_not_world rc \<noteq> [] then dc_possible_world dc
                               else dc_possible_world dc @ [fn]),
        dc_universe_target := dc_universe_target dc @ [rh_pn rh],
        dc_hashfn := dset fn (ri_hashfilename rc) (dc_hashfn dc),
        dc_basetaskhash := fold (\<lambda>(task, h). dset (fn @ ''.'' @ task) h) (ri_basetaskhashes rc)
                             (dc_basetaskhash dc),
        dc_inherits := dset fn (ri_inherits rc) (dc_inherits dc),
        dc_fakerootenv := dset fn (ri_fakerootenv rc) (dc_fakerootenv dc),
        dc_fakerootnoenv := dset fn (ri_fakerootnoenv rc) (dc_fakerootnoenv dc),
        dc_fakerootdirs := dset fn (ri_fakerootdirs rc) (dc_fakerootdirs dc),
        dc_extradepsfunc := dset fn (ri_extradepsfunc rc) (dc_extradepsfunc dc)\<rparr>"

definition add_cacheData :: "recipe_info \<Rightarrow> string \<Rightarrow> datacache \<Rightarrow> (datacache \<times> recipe_info) res" where
  "add_cacheData info fn dc =
     (case info of
        (rh, None) \<Rightarrow> Inl AttributeError
      | (rh, Some rc) \<Rightarrow>
          rbind (add_packages rc fn (rh_rprovides rh) (add_depends rc fn (add_provides rh fn (add_ident rh rc fn dc))))
            (\<lambda>(rprovides, dc).
              rbind (add_rundeps rh rc fn (add_dynamic rc fn (add_rproviders fn rprovides dc)))
                (\<lambda>dc. Inr (add_rest rh rc fn dc, (rh\<lparr>rh_rprovides := rprovides\<rparr>, Some rc)))))"

section \<open>Virtual recipe files\<close>

definition virtualfn2realfn :: "string \<Rightarrow> string \<times> string \<times> string" where
  "virtualfn2realfn virtualfn =
     (let (mc, v) = (if prefix ''multiconfig:'' virtualfn
                     then (let elems = split_on CHR '':'' virtualfn
                           in (elems ! 1, join_with '':'' (drop 2 elems)))
                     else ([], virtualfn))
      in if prefix ''virtual:'' v
         then (let elems = split_on CHR '':'' v
               in (last elems, join_with '':'' (butlast (tl elems)), mc))
         else (v, [], mc))"

definition realfn2virtual :: "string \<Rightarrow> string \<Rightarrow> string \<Rightarrow> string" where
  "realfn2virtual realfn cls mc =
     (let r = (if cls \<noteq> [] then ''virtual:'' @ cls @ '':'' @ realfn else realfn)
      in if mc \<noteq> [] then ''multiconfig:'' @ mc @ '':'' @ r else r)"

definition variant2virtual :: "string \<Rightarrow> string \<Rightarrow> string res" where
  "variant2virtual realfn variant =
     (if variant = [] then Inr realfn
      else if prefix ''multiconfig:'' variant
      then (let elems = split_on CHR '':'' variant
            in if length elems < 3 then Inl IndexError
               else if elems ! 2 \<noteq> []
               then Inr (''multiconfig:'' @ elems ! 1 @ '':virtual:'' @ join_with '':'' (drop 2 elems)
                         @ '':'' @ realfn)
               else Inr (''multiconfig:'' @ elems ! 1 @ '':'' @ realfn))
      else Inr (''virtual:'' @ variant @ '':'' @ realfn))"

section \<open>The effect of each step\<close>

lemma ddefault_dappend [dict_simps]:
  "ddefault (dappend k x d) k' = (if k' = k then ddefault d k @ [x] else ddefault d k')"
  by (simp add: dappend_def dict_simps)

lemma set_ddefault_dappend_new [dict_simps]:
  "set (ddefault (dappend_new k x d) k') =
     (if k' = k then insert x (set (ddefault d k)) else set (ddefault d k'))"
  by (auto simp: dappend_new_def dict_simps)

lemma ddefault_dappends:
  "distinct ks \<Longrightarrow>
     ddefault (fold (\<lambda>k. dappend k x) ks d) k' = ddefault d k' @ (if k' \<in> set ks then [x] else [])"
  by (induction ks arbitrary: d) (auto simp: dict_simps)

lemma set_ddefault_dappends:
  "set (ddefault (fold (\<lambda>k. dappend k x) ks d) k') =
     (if k' \<in> set ks then insert x (set (ddefault d k')) else set (ddefault d k'))"
  by (induction ks arbitrary: d) (auto simp: dict_simps)

lemma set_ddefault_dappends_new:
  "set (ddefault (fold (dappend_new k) xs d) k') =
     (if k' = k then set xs \<union> set (ddefault d k) else set (ddefault d k'))"
  by (induction xs arbitrary: d) (auto simp: dict_simps)

lemma set_ddefault_dappends_new':
  "set (ddefault (fold (\<lambda>k. dappend_new k x) ks d) k') =
     (if k' \<in> set ks then insert x (set (ddefault d k')) else set (ddefault d k'))"
  by (induction ks arbitrary: d) (auto simp: dict_simps)

lemma set_recipe_provides: "set (recipe_provides rh) = insert (rh_pn rh) (set (rh_provides rh))"
  by (auto simp: recipe_provides_def set_fold_sadd)

lemma distinct_recipe_provides: "distinct (recipe_provides rh)"
  by (simp add: recipe_provides_def distinct_fold_sadd)

lemma add_provides_eq:
  "add_provides rh fn dc =
     dc\<lparr>dc_fn_provides := dset fn (recipe_provides rh) (dc_fn_provides dc),
        dc_providers := fold (\<lambda>p. dappend p fn) (recipe_provides rh) (dc_providers dc),
        dc_pn_provides := fold (dappend_new (rh_pn rh)) (recipe_provides rh) (dc_pn_provides dc)\<rparr>"
proof -
  have "fold (\<lambda>p dc. dc\<lparr>dc_providers := dappend p fn (dc_providers dc),
                        dc_pn_provides := dappend_new (rh_pn rh) p (dc_pn_provides dc)\<rparr>) ps dc =
     dc\<lparr>dc_providers := fold (\<lambda>p. dappend p fn) ps (dc_providers dc),
        dc_pn_provides := fold (dappend_new (rh_pn rh)) ps (dc_pn_provides dc)\<rparr>" for ps and dc :: datacache
    by (induction ps arbitrary: dc) simp_all
  then show ?thesis by (simp add: add_provides_def)
qed

lemma add_depends_eq:
  "add_depends rc fn dc =
     dc\<lparr>dc_deps := fold (dappend_new fn) (ri_depends rc) (dc_deps dc),
        dc_all_depends := fold sadd (ri_depends rc) (dc_all_depends dc)\<rparr>"
proof -
  have "fold (\<lambda>dep dc. dc\<lparr>dc_deps := dappend_new fn dep (dc_deps dc),
                          dc_all_depends := sadd dep (dc_all_depends dc)\<rparr>) ds dc =
     dc\<lparr>dc_deps := fold (dappend_new fn) ds (dc_deps dc),
        dc_all_depends := fold sadd ds (dc_all_depends dc)\<rparr>" for ds dc
    by (induction ds arbitrary: dc) simp_all
  then show ?thesis by (simp add: add_depends_def)
qed

lemma add_rproviders_eq:
  "add_rproviders fn rps dc =
     dc\<lparr>dc_rproviders := fold (\<lambda>rp. dappend_new rp fn) rps (dc_rproviders dc)\<rparr>"
  by (induction rps arbitrary: dc) (simp_all add: add_rproviders_def)

lemma add_dynamic_eq:
  "add_dynamic rc fn dc =
     dc\<lparr>dc_packages_dynamic := fold (\<lambda>p. dappend p fn) (ri_packages_dynamic rc) (dc_packages_dynamic dc)\<rparr>"
proof -
  have "fold (\<lambda>p dc. dc\<lparr>dc_packages_dynamic := dappend p fn (dc_packages_dynamic dc)\<rparr>) ps dc =
    dc\<lparr>dc_packages_dynamic := fold (\<lambda>p. dappend p fn) ps (dc_packages_dynamic dc)\<rparr>" for ps and dc :: datacache
    by (induction ps arbitrary: dc) simp_all
  then show ?thesis by (simp add: add_dynamic_def)
qed

lemma add_packages_eq:
  assumes "set (ri_packages rc) \<subseteq> set (dkeys (ri_rprovides_pkg rc))"
  shows "add_packages rc fn rps dc =
    Inr (rps @ concat (map (\<lambda>p. the (dget (ri_rprovides_pkg rc) p)) (ri_packages rc)),
         dc\<lparr>dc_packages := fold (\<lambda>p. dappend p fn) (ri_packages rc) (dc_packages dc)\<rparr>)"
proof -
  have "set ps \<subseteq> set (dkeys (ri_rprovides_pkg rc)) \<Longrightarrow>
    rfold (\<lambda>package (rprovides, dc).
       rbind (ditem (ri_rprovides_pkg rc) package) (\<lambda>rp.
         Inr (rprovides @ rp, dc\<lparr>dc_packages := dappend package fn (dc_packages dc)\<rparr>))) ps (rps, dc) =
    Inr (rps @ concat (map (\<lambda>p. the (dget (ri_rprovides_pkg rc) p)) ps),
         dc\<lparr>dc_packages := fold (\<lambda>p. dappend p fn) ps (dc_packages dc)\<rparr>)" for ps
  proof (induction ps arbitrary: rps dc)
    case (Cons p ps)
    then have "p \<in> set (dkeys (ri_rprovides_pkg rc))" by simp
    then obtain v where "dget (ri_rprovides_pkg rc) p = Some v" unfolding dget_Some_key by blast
    with Cons show ?case by (simp add: ditem_def del: list.set_map)
  qed simp
  with assms show ?thesis by (simp add: add_packages_def)
qed

lemma add_packages_keys:
  assumes "add_packages rc fn rps dc = Inr (rps', dc')"
  shows "set (ri_packages rc) \<subseteq> set (dkeys (ri_rprovides_pkg rc))"
proof -
  have "rfold (\<lambda>package (rprovides, dc).
       rbind (ditem (ri_rprovides_pkg rc) package) (\<lambda>rp.
         Inr (rprovides @ rp, dc\<lparr>dc_packages := dappend package fn (dc_packages dc)\<rparr>))) ps (rps, dc) =
    Inr r \<Longrightarrow> set ps \<subseteq> set (dkeys (ri_rprovides_pkg rc))" for ps r
  proof (induction ps arbitrary: rps dc)
    case (Cons p ps)
    from Cons.prems obtain v where "dget (ri_rprovides_pkg rc) p = Some v" by (auto simp: res_simps)
    then have "p \<in> set (dkeys (ri_rprovides_pkg rc))" unfolding dget_Some_key by blast
    with Cons.IH Cons.prems show ?case by (auto simp: res_simps)
  qed simp
  with assms show ?thesis unfolding add_packages_def by blast
qed

definition has_pkg :: "(string, (string, 'v) dict) dict \<Rightarrow> string \<Rightarrow> string \<Rightarrow> bool" where
  "has_pkg R fn pkg \<longleftrightarrow> pkg \<in> set (dkeys (ddefault R fn))"

lemma has_pkg_dset2 [simp]:
  "has_pkg (dset2 fn pkg v R) fn' pkg' \<longleftrightarrow> (fn' = fn \<and> pkg' = pkg) \<or> has_pkg R fn' pkg'"
  unfolding has_pkg_def dset2_def ddefault_dset
  using set_dkeys_dset [of pkg v "ddefault R fn"] by auto

lemma add_rundeps_eq:
  assumes "add_rundeps rh rc fn dc = Inr dc'"
  shows "\<exists>R S. dc' = dc\<lparr>dc_rundeps := R, dc_runrecs := S\<rparr> \<and>
    (\<forall>g pkg. has_pkg R g pkg \<longleftrightarrow> has_pkg (dc_rundeps dc) g pkg \<or> (g = fn \<and> pkg \<in> insert (rh_pn rh) (set (ri_packages rc)))) \<and>
    (\<forall>g pkg. has_pkg S g pkg \<longleftrightarrow> has_pkg (dc_runrecs dc) g pkg \<or> (g = fn \<and> pkg \<in> insert (rh_pn rh) (set (ri_packages rc))))"
proof -
  have "rfold (\<lambda>package dc.
       rbind (ditem (ri_rdepends_pkg rc) package) (\<lambda>rd.
       rbind (ditem (ri_rrecommends_pkg rc) package) (\<lambda>rr.
         Inr (dc\<lparr>dc_rundeps := dset2 fn package (ri_rdepends rc @ rd) (dc_rundeps dc),
                 dc_runrecs := dset2 fn package (ri_rrecommends rc @ rr) (dc_runrecs dc)\<rparr>))))
       ps dc = Inr dc' \<Longrightarrow>
     \<exists>R S. dc' = dc\<lparr>dc_rundeps := R, dc_runrecs := S\<rparr> \<and>
      (\<forall>g pkg. has_pkg R g pkg \<longleftrightarrow> has_pkg (dc_rundeps dc) g pkg \<or> (g = fn \<and> pkg \<in> set ps)) \<and>
      (\<forall>g pkg. has_pkg S g pkg \<longleftrightarrow> has_pkg (dc_runrecs dc) g pkg \<or> (g = fn \<and> pkg \<in> set ps))" for ps
  proof (induction ps arbitrary: dc)
    case Nil
    then have "dc' = dc\<lparr>dc_rundeps := dc_rundeps dc, dc_runrecs := dc_runrecs dc\<rparr>" by simp
    then show ?case by (metis empty_iff list.set(1))
  next
    case (Cons p ps)
    from Cons.prems obtain rd rr where
      "rfold (\<lambda>package dc.
       rbind (ditem (ri_rdepends_pkg rc) package) (\<lambda>rd.
       rbind (ditem (ri_rrecommends_pkg rc) package) (\<lambda>rr.
         Inr (dc\<lparr>dc_rundeps := dset2 fn package (ri_rdepends rc @ rd) (dc_rundeps dc),
                 dc_runrecs := dset2 fn package (ri_rrecommends rc @ rr) (dc_runrecs dc)\<rparr>))))
       ps (dc\<lparr>dc_rundeps := dset2 fn p (ri_rdepends rc @ rd) (dc_rundeps dc),
              dc_runrecs := dset2 fn p (ri_rrecommends rc @ rr) (dc_runrecs dc)\<rparr>) = Inr dc'"
      by (auto simp: res_simps)
    from Cons.IH [OF this] obtain R S where
      "dc' = dc\<lparr>dc_rundeps := R, dc_runrecs := S\<rparr>"
      "\<forall>g pkg. has_pkg R g pkg \<longleftrightarrow> (g = fn \<and> pkg = p) \<or> has_pkg (dc_rundeps dc) g pkg \<or> (g = fn \<and> pkg \<in> set ps)"
      "\<forall>g pkg. has_pkg S g pkg \<longleftrightarrow> (g = fn \<and> pkg = p) \<or> has_pkg (dc_runrecs dc) g pkg \<or> (g = fn \<and> pkg \<in> set ps)"
      by auto
    then show ?case by (intro exI [of _ R] exI [of _ S]) auto
  qed
  from this [of "ri_packages rc @ [rh_pn rh]"] assms show ?thesis
    by (simp add: add_rundeps_def)
qed

section \<open>Consistency of the tables\<close>

text \<open>
  \<open>cache_wf\<close>: the provider tables, the table of package names and the tables by recipe file
  speak of the same recipes; \<open>keyed\<close> collects the tables every listed recipe has an entry in.
\<close>

definition keyed :: "datacache \<Rightarrow> string \<Rightarrow> bool" where
  "keyed dc fn \<longleftrightarrow> fn \<in> set (dkeys (dc_task_deps dc)) \<and> fn \<in> set (dkeys (dc_pkg_pepvpr dc)) \<and>
     fn \<in> set (dkeys (dc_pkg_dp dc)) \<and> fn \<in> set (dkeys (dc_stamp dc)) \<and>
     fn \<in> set (dkeys (dc_fn_provides dc)) \<and> fn \<in> set (dkeys (dc_extradepsfunc dc)) \<and>
     fn \<in> set (dkeys (dc_hashfn dc)) \<and> fn \<in> set (dkeys (dc_inherits dc))"

definition cache_wf :: "datacache \<Rightarrow> bool" where
  "cache_wf dc \<longleftrightarrow>
     (\<forall>fn. fn \<in> set (dkeys (dc_pkg_fn dc)) \<longrightarrow> keyed dc fn) \<and>
     (\<forall>fn. fn \<notin> set (dkeys (dc_pkg_fn dc)) \<longrightarrow> ddefault (dc_fn_provides dc) fn = []) \<and>
     (\<forall>pn fn. fn \<in> set (ddefault (dc_pkg_pn dc) pn) \<longleftrightarrow> dget (dc_pkg_fn dc) fn = Some pn) \<and>
     (\<forall>pn. distinct (ddefault (dc_pkg_pn dc) pn)) \<and>
     (\<forall>p fn. fn \<in> set (ddefault (dc_providers dc) p) \<longleftrightarrow> p \<in> set (ddefault (dc_fn_provides dc) fn)) \<and>
     (\<forall>p. distinct (ddefault (dc_providers dc) p)) \<and>
     (\<forall>pn p. p \<in> set (ddefault (dc_pn_provides dc) pn) \<longleftrightarrow>
        (\<exists>fn. dget (dc_pkg_fn dc) fn = Some pn \<and> p \<in> set (ddefault (dc_fn_provides dc) fn))) \<and>
     (\<forall>pkg fn. fn \<in> set (ddefault (dc_packages dc) pkg) \<longrightarrow>
        has_pkg (dc_rundeps dc) fn pkg \<and> has_pkg (dc_runrecs dc) fn pkg) \<and>
     (\<forall>rp fn. fn \<in> set (ddefault (dc_rproviders dc) rp) \<longrightarrow> fn \<in> set (dkeys (dc_pkg_fn dc))) \<and>
     (\<forall>fn. fn \<in> set (dc_possible_world dc) \<longrightarrow> fn \<in> set (dkeys (dc_pkg_fn dc)))"

definition recipe_wf :: "recipe_core \<Rightarrow> bool" where
  "recipe_wf rc \<longleftrightarrow> set (ri_packages rc) \<subseteq> set (dkeys (ri_rprovides_pkg rc)) \<and>
     set (ri_packages rc) \<subseteq> set (dkeys (ri_rdepends_pkg rc)) \<and>
     set (ri_packages rc) \<subseteq> set (dkeys (ri_rrecommends_pkg rc))"

lemma fst_set_dsets [simp]: "fst ` set (fold (\<lambda>k. dset k (f k)) ks d) = set ks \<union> fst ` set d"
  by (induction ks arbitrary: d) auto

lemma fst_set_dict_of [simp]: "fst ` set (dict_of f ks) = set ks"
  by (simp add: dict_of_def)

lemma recipe_wf_read_core: "recipe_wf (read_core md tasks dp)"
  by (simp add: recipe_wf_def read_core_def pkgvar_def)

lemma pn_in_recipe_packages: "getvar md ''PN'' \<in> set (recipe_packages md)"
  by (simp add: recipe_packages_def Let_def)

text \<open>What \<open>add_cacheData\<close> does to the tables the invariant speaks of.\<close>

lemma add_cacheData_effect:
  assumes "add_cacheData (rh, Some rc) fn dc = Inr (dc', info')"
  shows "\<exists>R S rps. (\<forall>g pkg. has_pkg R g pkg \<longleftrightarrow> has_pkg (dc_rundeps dc) g pkg \<or>
             (g = fn \<and> pkg \<in> insert (rh_pn rh) (set (ri_packages rc)))) \<and>
    (\<forall>g pkg. has_pkg S g pkg \<longleftrightarrow> has_pkg (dc_runrecs dc) g pkg \<or>
             (g = fn \<and> pkg \<in> insert (rh_pn rh) (set (ri_packages rc)))) \<and>
    dc' = add_rest rh rc fn (add_dynamic rc fn (add_rproviders fn rps
      (add_depends rc fn (add_provides rh fn (add_ident rh rc fn dc))
        \<lparr>dc_packages := fold (\<lambda>p. dappend p fn) (ri_packages rc) (dc_packages dc)\<rparr>)))
      \<lparr>dc_rundeps := R, dc_runrecs := S\<rparr>"
proof -
  let ?d = "add_depends rc fn (add_provides rh fn (add_ident rh rc fn dc))"
  from assms obtain rps d1 d2 where
    p: "add_packages rc fn (rh_rprovides rh) ?d = Inr (rps, d1)"
    and r: "add_rundeps rh rc fn (add_dynamic rc fn (add_rproviders fn rps d1)) = Inr d2"
    and dc': "dc' = add_rest rh rc fn d2"
    unfolding add_cacheData_def by (auto simp: res_simps)
  have d1: "d1 = ?d\<lparr>dc_packages := fold (\<lambda>p. dappend p fn) (ri_packages rc) (dc_packages dc)\<rparr>"
    using add_packages_eq [OF add_packages_keys [OF p], of fn "rh_rprovides rh" ?d] p
    by (simp add: add_depends_eq add_provides_eq add_ident_def)
  from add_rundeps_eq [OF r] obtain R S where
    R: "\<forall>g pkg. has_pkg R g pkg \<longleftrightarrow> has_pkg (dc_rundeps dc) g pkg \<or>
             (g = fn \<and> pkg \<in> insert (rh_pn rh) (set (ri_packages rc)))"
    and S: "\<forall>g pkg. has_pkg S g pkg \<longleftrightarrow> has_pkg (dc_runrecs dc) g pkg \<or>
             (g = fn \<and> pkg \<in> insert (rh_pn rh) (set (ri_packages rc)))"
    and d2: "d2 = add_dynamic rc fn (add_rproviders fn rps d1)\<lparr>dc_rundeps := R, dc_runrecs := S\<rparr>"
    by (auto simp: add_dynamic_eq add_rproviders_eq d1 add_depends_eq add_provides_eq add_ident_def)
  show ?thesis
    by (rule exI [of _ R], rule exI [of _ S], rule exI [of _ rps], intro conjI, rule R, rule S)
      (simp add: dc' d2 d1 add_rest_def)
qed

lemmas cache_effects = add_rest_def add_dynamic_eq add_rproviders_eq add_depends_eq
  add_provides_eq add_ident_def

lemma keys_dset_iff: "x \<in> set (dkeys (dset k v d)) \<longleftrightarrow> x = k \<or> x \<in> set (dkeys d)"
  by simp

lemma ddefault_notin: "k \<notin> set (dkeys d) \<Longrightarrow> ddefault d k = []"
  unfolding dget_Some_key by (auto simp: ddefault_def split: option.splits)

lemma cache_wf_init: "cache_wf init_cacheData"
  by (simp add: cache_wf_def init_cacheData_def ddefault_def)

lemma ddefault_dget: "dget d k = Some v \<Longrightarrow> ddefault d k = v"
  by (simp add: ddefault_def)

lemma cache_wf_add:
  assumes wf: "cache_wf dc" and new: "fn \<notin> set (dkeys (dc_pkg_fn dc))"
    and add: "add_cacheData (rh, Some rc) fn dc = Inr (dc', info')"
  shows "cache_wf dc'"
proof -
  from add_cacheData_effect [OF add] obtain R S rps where
    R: "\<And>g pkg. has_pkg R g pkg \<longleftrightarrow> has_pkg (dc_rundeps dc) g pkg \<or>
             (g = fn \<and> pkg \<in> insert (rh_pn rh) (set (ri_packages rc)))"
    and S: "\<And>g pkg. has_pkg S g pkg \<longleftrightarrow> has_pkg (dc_runrecs dc) g pkg \<or>
             (g = fn \<and> pkg \<in> insert (rh_pn rh) (set (ri_packages rc)))"
    and dc': "dc' = add_rest rh rc fn (add_dynamic rc fn (add_rproviders fn rps
      (add_depends rc fn (add_provides rh fn (add_ident rh rc fn dc))
        \<lparr>dc_packages := fold (\<lambda>p. dappend p fn) (ri_packages rc) (dc_packages dc)\<rparr>)))
      \<lparr>dc_rundeps := R, dc_runrecs := S\<rparr>"
    by blast
  note eff = dc' [unfolded cache_effects, simplified]
  from new have no: "dget (dc_pkg_fn dc) fn = None" by (simp add: map_of_eq_None_iff)
  from wf have w: "\<And>g. g \<in> set (dkeys (dc_pkg_fn dc)) \<Longrightarrow> keyed dc g"
    "\<And>g. g \<notin> set (dkeys (dc_pkg_fn dc)) \<Longrightarrow> ddefault (dc_fn_provides dc) g = []"
    "\<And>pn g. g \<in> set (ddefault (dc_pkg_pn dc) pn) \<longleftrightarrow> dget (dc_pkg_fn dc) g = Some pn"
    "\<And>pn. distinct (ddefault (dc_pkg_pn dc) pn)"
    "\<And>p g. g \<in> set (ddefault (dc_providers dc) p) \<longleftrightarrow> p \<in> set (ddefault (dc_fn_provides dc) g)"
    "\<And>p. distinct (ddefault (dc_providers dc) p)"
    "\<And>pn p. p \<in> set (ddefault (dc_pn_provides dc) pn) \<longleftrightarrow>
        (\<exists>g. dget (dc_pkg_fn dc) g = Some pn \<and> p \<in> set (ddefault (dc_fn_provides dc) g))"
    "\<And>pkg g. g \<in> set (ddefault (dc_packages dc) pkg) \<Longrightarrow>
        has_pkg (dc_rundeps dc) g pkg \<and> has_pkg (dc_runrecs dc) g pkg"
    "\<And>rp g. g \<in> set (ddefault (dc_rproviders dc) rp) \<Longrightarrow> g \<in> set (dkeys (dc_pkg_fn dc))"
    "\<And>g. g \<in> set (dc_possible_world dc) \<Longrightarrow> g \<in> set (dkeys (dc_pkg_fn dc))"
    unfolding cache_wf_def by blast+
  have w2: "ddefault (dc_fn_provides dc) fn = []" using w(2) new by blast
  show ?thesis unfolding cache_wf_def
  proof (intro conjI allI)
    fix g pkg
    show "g \<in> set (dkeys (dc_pkg_fn dc')) \<longrightarrow> keyed dc' g"
      using w(1) [of g] by (auto simp: eff keyed_def)
    show "g \<notin> set (dkeys (dc_pkg_fn dc')) \<longrightarrow> ddefault (dc_fn_provides dc') g = []"
      using w(2) [of g] by (auto simp: eff dict_simps)
    show "g \<in> set (ddefault (dc_pkg_pn dc') pkg) \<longleftrightarrow> dget (dc_pkg_fn dc') g = Some pkg"
      using w(3) no by (auto simp: eff dict_simps)
    show "distinct (ddefault (dc_pkg_pn dc') pkg)"
      using w(3,4) no by (auto simp: eff dict_simps)
    show "g \<in> set (ddefault (dc_providers dc') pkg) \<longleftrightarrow> pkg \<in> set (ddefault (dc_fn_provides dc') g)"
      using w(5) w2 by (auto simp: eff dict_simps ddefault_dappends [OF distinct_recipe_provides])
    show "distinct (ddefault (dc_providers dc') pkg)"
      using w(5,6) w2 by (auto simp: eff ddefault_dappends [OF distinct_recipe_provides])
    show "pkg \<in> set (ddefault (dc_pn_provides dc') g) \<longleftrightarrow>
        (\<exists>f. dget (dc_pkg_fn dc') f = Some g \<and> pkg \<in> set (ddefault (dc_fn_provides dc') f))"
      using w(7) no by (auto simp: eff dict_simps set_ddefault_dappends_new) (metis option.distinct(1))+
    show "g \<in> set (ddefault (dc_packages dc') pkg) \<longrightarrow>
        has_pkg (dc_rundeps dc') g pkg \<and> has_pkg (dc_runrecs dc') g pkg"
      using w(8) [of g pkg] R S by (auto simp: eff set_ddefault_dappends split: if_splits)
    show "g \<in> set (ddefault (dc_rproviders dc') pkg) \<longrightarrow> g \<in> set (dkeys (dc_pkg_fn dc'))"
      using w(9) by (auto simp: eff set_ddefault_dappends_new' split: if_splits)
    show "g \<in> set (dc_possible_world dc') \<longrightarrow> g \<in> set (dkeys (dc_pkg_fn dc'))"
      using w(10) by (auto simp: eff split: if_splits)
  qed
qed

lemma add_rundeps_total:
  assumes "recipe_wf rc" "rh_pn rh \<in> set (ri_packages rc)"
  shows "\<exists>dc'. add_rundeps rh rc fn dc = Inr dc'"
proof -
  have "\<exists>t. add_rundeps rh rc fn dc = Inr t \<and> True" unfolding add_rundeps_def
  proof (rule rfold_total, goal_cases)
    case (2 x s)
    then have "x \<in> set (ri_packages rc)" using assms(2) by auto
    then have "x \<in> set (dkeys (ri_rdepends_pkg rc))" "x \<in> set (dkeys (ri_rrecommends_pkg rc))"
      using assms(1) unfolding recipe_wf_def by blast+
    then obtain v w where "dget (ri_rdepends_pkg rc) x = Some v" "dget (ri_rrecommends_pkg rc) x = Some w"
      unfolding dget_Some_key by blast
    then show ?case by (simp add: ditem_def)
  qed simp
  then show ?thesis by simp
qed

lemma add_cacheData_total:
  assumes "recipe_wf rc" "rh_pn rh \<in> set (ri_packages rc)"
  shows "\<exists>r. add_cacheData (rh, Some rc) fn dc = Inr r"
proof -
  have "set (ri_packages rc) \<subseteq> set (dkeys (ri_rprovides_pkg rc))" using assms by (simp add: recipe_wf_def)
  from add_packages_eq [OF this] obtain rps d1 where
    "add_packages rc fn (rh_rprovides rh) (add_depends rc fn (add_provides rh fn (add_ident rh rc fn dc))) =
      Inr (rps, d1)" by blast
  moreover from add_rundeps_total [OF assms] obtain d2 where
    "add_rundeps rh rc fn (add_dynamic rc fn (add_rproviders fn rps d1)) = Inr d2" by blast
  ultimately show ?thesis by (simp add: add_cacheData_def)
qed

text \<open>
  C33: a recipe that was read and not skipped is always added without an exception, and adding it
  keeps the tables consistent: providers, package names, provided names and the dependency tables
  agree on the recipes they list and on what those provide.
\<close>

theorem add_recipe_consistent:
  assumes "read_recipe md = Inr (rh, Some rc)" "cache_wf dc" "fn \<notin> set (dkeys (dc_pkg_fn dc))"
  shows "\<exists>dc' info'. add_cacheData (rh, Some rc) fn dc = Inr (dc', info') \<and> cache_wf dc' \<and>
    dget (dc_pkg_fn dc') fn = Some (rh_pn rh) \<and>
    dget (dc_fn_provides dc') fn = Some (recipe_provides rh)"
proof -
  from assms(1) obtain tasks dp where rc: "rc = read_core md tasks dp" and pn: "rh_pn rh = getvar md ''PN''"
    by (auto simp: read_recipe_def Let_def res_simps split: if_splits option.splits)
  have "recipe_wf rc" "rh_pn rh \<in> set (ri_packages rc)"
    using recipe_wf_read_core pn_in_recipe_packages by (simp_all add: rc pn read_core_def)
  from add_cacheData_total [OF this] obtain dc' info' where
    add: "add_cacheData (rh, Some rc) fn dc = Inr (dc', info')" by (metis surj_pair)
  from add_cacheData_effect [OF add]
  have "dget (dc_pkg_fn dc') fn = Some (rh_pn rh)" "dget (dc_fn_provides dc') fn = Some (recipe_provides rh)"
    by (auto simp: cache_effects dict_simps)
  with cache_wf_add [OF assms(2,3) add] add show ?thesis by blast
qed

definition demo_recipe :: metadata where
  "demo_recipe =
     \<lparr>md_var = map_of [(''PN'', ''bash''), (''PACKAGES'', ''bash bash-doc''), (''PROVIDES'', ''bash sh''),
        (''PV'', ''4.4''), (''DEPENDS'', ''ncurses (>= 5.0) bison-native''), (''RPROVIDES_bash-doc'', ''sh-doc'')],
      md_flag = (\<lambda>v f. None), md_depends = None, md_tasks = Some [''do_fetch'', ''do_build''],
      md_task_deps = None, md_inherits = None, md_file_pn = [], md_mtime = 0\<rparr>"

theorem add_recipe_consistent_witness:
  "case read_recipe demo_recipe of
     Inr (rh, Some rc) \<Rightarrow> (case add_cacheData (rh, Some rc) ''/bash.bb'' init_cacheData of
        Inr (dc', _) \<Rightarrow> cache_wf dc' \<and> dget (dc_fn_provides dc') ''/bash.bb'' = Some (recipe_provides rh) \<and>
          ddefault (dc_providers dc') ''sh'' = [''/bash.bb''] \<and>
          ddefault (dc_rproviders dc') ''sh-doc'' = [''/bash.bb'']
      | Inl _ \<Rightarrow> False)
   | _ \<Rightarrow> False"
proof -
  have "case read_recipe demo_recipe of
     Inr (rh, Some rc) \<Rightarrow> (case add_cacheData (rh, Some rc) ''/bash.bb'' init_cacheData of
        Inr (dc', _) \<Rightarrow> ddefault (dc_providers dc') ''sh'' = [''/bash.bb''] \<and>
          ddefault (dc_rproviders dc') ''sh-doc'' = [''/bash.bb'']
      | Inl _ \<Rightarrow> False)
   | _ \<Rightarrow> False" by code_simp
  then obtain rh rc dc' i where r: "read_recipe demo_recipe = Inr (rh, Some rc)"
      "add_cacheData (rh, Some rc) ''/bash.bb'' init_cacheData = Inr (dc', i)"
      "ddefault (dc_providers dc') ''sh'' = [''/bash.bb'']"
      "ddefault (dc_rproviders dc') ''sh-doc'' = [''/bash.bb'']"
    by (auto split: sum.split_asm prod.split_asm option.split_asm) (metis sum.exhaust surj_pair)
  have "''/bash.bb'' \<notin> set (dkeys (dc_pkg_fn init_cacheData))" by (simp add: init_cacheData_def)
  from add_recipe_consistent [OF r(1) cache_wf_init this] r show ?thesis by simp
qed

section \<open>Names of virtual recipes\<close>

lemma split_on_append_any: "split_on c (a @ c # b) = split_on c a @ split_on c b"
  by (induction a) (auto split: list.splits)

text \<open>
  the three parts of a recipe name survive being put together and taken apart: the real
  file, the class extension (which may itself contain colons) and the configuration.
\<close>

theorem virtual_name_roundtrip:
  assumes "CHR '':'' \<notin> set mc" "\<not> prefix ''multiconfig:'' fn" "\<not> prefix ''virtual:'' fn"
    and "cls \<noteq> [] \<Longrightarrow> CHR '':'' \<notin> set fn"
  shows "virtualfn2realfn (realfn2virtual fn cls mc) = (fn, cls, mc)"
proof -
  define r where "r = (if cls \<noteq> [] then ''virtual:'' @ cls @ '':'' @ fn else fn)"
  have r: "\<not> prefix ''multiconfig:'' r" using assms(2) by (simp add: r_def)
  have inner: "(if prefix ''virtual:'' r
         then (let elems = split_on CHR '':'' r
               in (last elems, join_with '':'' (butlast (tl elems)), m))
         else (r, [], m)) = (fn, cls, m)" for m
  proof (cases "cls = []")
    case False
    have "split_on CHR '':'' r = ''virtual'' # split_on CHR '':'' cls @ [fn]"
      using split_on_append [of "CHR '':''" "''virtual''" "cls @ '':'' @ fn"] False assms(4)
      by (simp add: r_def split_on_append_any split_on_free)
    moreover have "prefix ''virtual:'' r" using False by (simp add: r_def)
    ultimately show ?thesis using join_split_on [of "CHR '':''" cls] by (simp add: butlast_append)
  qed (use assms(3) r_def in simp)
  show ?thesis
  proof (cases "mc = []")
    case True
    then have rv: "realfn2virtual fn cls mc = r" by (simp add: realfn2virtual_def r_def)
    show ?thesis using r inner [of "[]"] True unfolding rv virtualfn2realfn_def by (simp add: Let_def)
  next
    case False
    have rv: "realfn2virtual fn cls mc = ''multiconfig:'' @ mc @ '':'' @ r"
      using False by (simp add: realfn2virtual_def r_def)
    have "split_on CHR '':'' (''multiconfig:'' @ mc @ '':'' @ r) = ''multiconfig'' # mc # split_on CHR '':'' r"
      using split_on_append [of "CHR '':''" "''multiconfig''" "mc @ '':'' @ r"]
        split_on_append [OF assms(1), of r] by simp
    then show ?thesis
      using inner [of mc] join_split_on [of "CHR '':''" r]
      unfolding rv virtualfn2realfn_def by (simp add: Let_def)
  qed
qed

theorem virtual_name_roundtrip_witness:
  "virtualfn2realfn (realfn2virtual ''/r/gcc.bb'' ''nativesdk:debug'' ''arm'') =
     (''/r/gcc.bb'', ''nativesdk:debug'', ''arm'')"
  by (rule virtual_name_roundtrip) simp_all

end
