(* ===== verification/BB_Providers.thy ===== *)
theory BB_Providers
  imports BB_Cache
begin

text \<open>
  \<open>lib/bb/providers.py\<close>: the choice of a recipe for a target. Configuration lookups
  (\<open>cfgData.getVar(v, True)\<close>) are the argument \<open>gv\<close>; log messages are left out. Where the
  code sorts or reorders a caller's list in place the model returns the list.
\<close>

section \<open>Selecting a version\<close>

definition allProviders :: "datacache \<Rightarrow> (string, (pepvpr \<times> string) list) dict res" where
  "allProviders dc =
     rfold (\<lambda>(fn, pn) ps. rbind (ditem (dc_pkg_pepvpr dc) fn) (\<lambda>ver.
       Inr (dappend pn (ver, fn) ps))) (dc_pkg_fn dc) []"

text \<open>An argument \<open>pkg_pn\<close> that is None or empty stands for the table of the cache.\<close>

definition pkg_pn_files :: "datacache \<Rightarrow> (string, string list) dict option \<Rightarrow> string \<Rightarrow> string list res" where
  "pkg_pn_files dc pkg_pn pn =
     (case pkg_pn of
        None \<Rightarrow> Inr (ddefault (dc_pkg_pn dc) pn)
      | Some [] \<Rightarrow> Inr (ddefault (dc_pkg_pn dc) pn)
      | Some (x # d) \<Rightarrow> ditem (x # d) pn)"

definition sort_add :: "datacache \<Rightarrow> string \<Rightarrow> (int, (int, string list) dict) dict \<Rightarrow>
    (int, (int, string list) dict) dict res" where
  "sort_add dc f priorities =
     rbind (ditem (dc_bbfile_priority dc) f) (\<lambda>priority.
     rbind (ditem (dc_pkg_dp dc) f) (\<lambda>preference.
       Inr (dset priority (dappend preference f (ddefault priorities priority)) priorities)))"

definition sort_collect :: "(int, (int, string list) dict) dict \<Rightarrow> string list list" where
  "sort_collect priorities =
     fold (\<lambda>pri tmp_pn. concat (map (ddefault (ddefault priorities pri))
                            (sort (dkeys (ddefault priorities pri)))) # tmp_pn)
       (sort (dkeys priorities)) []"

definition sortPriorities ::
  "string \<Rightarrow> datacache \<Rightarrow> (string, string list) dict option \<Rightarrow> string list list res" where
  "sortPriorities pn dc pkg_pn =
     rbind (pkg_pn_files dc pkg_pn pn) (\<lambda>files.
     rbind (rfold (sort_add dc) files []) (\<lambda>priorities. Inr (sort_collect priorities)))"

definition preferredVersionMatch ::
  "epoch \<Rightarrow> string \<Rightarrow> string \<Rightarrow> string option \<Rightarrow> string option \<Rightarrow> string option \<Rightarrow> bool" where
  "preferredVersionMatch pe pv pr preferred_e preferred_v preferred_r =
     ((Some pr = preferred_r \<or> preferred_r = None) \<and>
      (preferred_e = None \<or> pe = EStr (the preferred_e)) \<and>
      (case preferred_v of
         None \<Rightarrow> False
       | Some v \<Rightarrow> v = pv \<or> (suffix ''%'' v \<and> prefix (butlast v) pv)))"

text \<open>
  \<open>re.match('(\d+:)*(.*)(_.*)*', s)\<close> always matches: the last repetition of the first group
  without its colon, the rest of the line for the second, and nothing for the third, because the
  second has consumed the line.
\<close>

function match_epochs :: "string option \<Rightarrow> string \<Rightarrow> string option \<times> string" where
  "match_epochs g s =
     (case dropWhile is_digit s of
        [] \<Rightarrow> (g, s)
      | c # rest \<Rightarrow> if c = CHR '':'' \<and> takeWhile is_digit s \<noteq> []
                    then match_epochs (Some (takeWhile is_digit s)) rest else (g, s))"
  by pat_completeness auto
termination
proof (relation "measure (\<lambda>(g, s). length s)")
  fix g s c and rest :: string
  assume "dropWhile is_digit s = c # rest"
  moreover have "length (dropWhile is_digit s) \<le> length s" by (rule length_dropWhile_le)
  ultimately show "((Some (takeWhile is_digit s), rest), g, s) \<in> measure (\<lambda>(g, s). length s)"
    by simp
qed simp

definition match_version :: "string \<Rightarrow> string option \<times> string \<times> string option" where
  "match_version s =
     (case match_epochs None s of (g, rest) \<Rightarrow> (g, takeWhile (\<lambda>c. c \<noteq> CHR 10) rest, None))"

definition truthy :: "string option \<Rightarrow> bool" where
  "truthy s = (s \<noteq> None \<and> s \<noteq> Some [])"

definition preferred_setting :: "(string \<Rightarrow> string option) \<Rightarrow> string \<Rightarrow> string option" where
  "preferred_setting gv pn =
     (let v = gv (''PREFERRED_VERSION_pn-'' @ pn);
          v = (if truthy v then v else gv (''PREFERRED_VERSION_'' @ pn))
      in if truthy v then v else gv ''PREFERRED_VERSION'')"

fun first_preferred :: "datacache \<Rightarrow> string option \<times> string \<times> string option \<Rightarrow> string list \<Rightarrow>
    (pepvpr \<times> string) option res" where
  "first_preferred dc pref [] = Inr None"
| "first_preferred dc pref (f # fs) =
     rbind (ditem (dc_pkg_pepvpr dc) f) (\<lambda>(pe, pv, pr).
       if preferredVersionMatch pe pv pr (fst pref) (Some (fst (snd pref))) (snd (snd pref))
       then Inr (Some ((pe, pv, pr), f)) else first_preferred dc pref fs)"

fun first_preferred_set :: "datacache \<Rightarrow> string option \<times> string \<times> string option \<Rightarrow> string list list \<Rightarrow>
    (pepvpr \<times> string) option \<Rightarrow> (pepvpr \<times> string) option res" where
  "first_preferred_set dc pref [] cur = Inr cur"
| "first_preferred_set dc pref (fs # sets) cur =
     rbind (first_preferred dc pref fs) (\<lambda>m.
       let cur' = (if m = None then cur else m)
       in if truthy (map_option snd cur') then Inr cur'
          else first_preferred_set dc pref sets cur')"

text \<open>The pair (version, file) of the code: None stands for \<open>(None, None)\<close>.\<close>

definition findPreferredProvider ::
  "string \<Rightarrow> (string \<Rightarrow> string option) \<Rightarrow> datacache \<Rightarrow> string list list \<Rightarrow> (pepvpr \<times> string) option res" where
  "findPreferredProvider pn gv dc pkg_pn =
     (if truthy (preferred_setting gv pn)
      then first_preferred_set dc (match_version (the (preferred_setting gv pn))) pkg_pn None
      else Inr None)"

record latest =
  lt_ver :: "(pepvpr \<times> string) option"
  lt_dp :: int

definition latest_step :: "datacache \<Rightarrow> string \<Rightarrow> latest \<Rightarrow> latest res" where
  "latest_step dc file_name s =
     rbind (ditem (dc_pkg_pepvpr dc) file_name) (\<lambda>ver.
     rbind (ditem (dc_pkg_dp dc) file_name) (\<lambda>dp.
       let new = \<lparr>lt_ver = Some (ver, file_name), lt_dp = dp\<rparr>
       in case lt_ver s of
            None \<Rightarrow> Inr new
          | Some (v, _) \<Rightarrow>
              if lt_dp s = dp
              then rbind (vercmp v ver) (\<lambda>r. Inr (if r < 0 then new else s))
              else Inr (if dp > lt_dp s then new else s)))"

definition findLatestProvider :: "datacache \<Rightarrow> string list \<Rightarrow> (pepvpr \<times> string) option res" where
  "findLatestProvider dc file_set =
     rbind (rfold (latest_step dc) file_set \<lparr>lt_ver = None, lt_dp = 0\<rparr>) (\<lambda>s. Inr (lt_ver s))"

definition findBestProvider ::
  "string \<Rightarrow> (string \<Rightarrow> string option) \<Rightarrow> datacache \<Rightarrow> (string, string list) dict option \<Rightarrow>
     ((pepvpr \<times> string) option \<times> (pepvpr \<times> string) option) res" where
  "findBestProvider pn gv dc pkg_pn =
     rbind (sortPriorities pn dc pkg_pn) (\<lambda>sets.
     rbind (findPreferredProvider pn gv dc sets) (\<lambda>preferred.
       case sets of
         [] \<Rightarrow> Inl IndexError
       | fs # _ \<Rightarrow> rbind (findLatestProvider dc fs) (\<lambda>latest.
           Inr (latest, if preferred = None then latest else preferred))))"

definition findProviders ::
  "(string \<Rightarrow> string option) \<Rightarrow> datacache \<Rightarrow> (string, string list) dict option \<Rightarrow>
     ((string, (pepvpr \<times> string) option) dict \<times> (string, (pepvpr \<times> string) option) dict) res" where
  "findProviders gv dc pkg_pn =
     rfold (\<lambda>pn (latest, preferred).
       rbind (findBestProvider pn gv dc pkg_pn) (\<lambda>(last, pref).
         Inr (dset pn last latest, dset pn pref preferred)))
       (case pkg_pn of Some (x # d) \<Rightarrow> dkeys (x # d) | _ \<Rightarrow> dkeys (dc_pkg_pn dc)) ([], [])"

section \<open>Filtering and ordering the providers of an item\<close>

definition collate :: "datacache \<Rightarrow> string list \<Rightarrow> (string, string list) dict res" where
  "collate dc providers =
     rfold (\<lambda>p d. rbind (ditem (dc_pkg_fn dc) p) (\<lambda>pn. Inr (dappend pn p d))) providers []"

record filter_state =
  fs_sortpkg :: "(string, string list list) dict"
  fs_versions :: "(string, (pepvpr \<times> string) option) dict"
  fs_eligible :: "string list"

definition preferred_step :: "(string \<Rightarrow> string option) \<Rightarrow> datacache \<Rightarrow> (string, string list) dict \<Rightarrow>
    string \<Rightarrow> filter_state \<Rightarrow> filter_state res" where
  "preferred_step gv dc pkg_pn pn s =
     rbind (sortPriorities pn dc (Some pkg_pn)) (\<lambda>sets.
     rbind (findPreferredProvider pn gv dc sets) (\<lambda>v.
       Inr (s\<lparr>fs_sortpkg := dset pn sets (fs_sortpkg s),
              fs_versions := dset pn v (fs_versions s),
              fs_eligible := fs_eligible s @
                (if truthy (map_option snd v) then [snd (the v)] else [])\<rparr>)))"

text \<open>The file sets are never empty, so neither IndexError nor appending None happens.\<close>

definition latest_version_step :: "datacache \<Rightarrow> string \<Rightarrow> filter_state \<Rightarrow> filter_state res" where
  "latest_version_step dc pn s =
     (if (case dget (fs_versions s) pn of None \<Rightarrow> False | Some v \<Rightarrow> truthy (map_option snd v)) then Inr s
      else rbind (ditem (fs_sortpkg s) pn) (\<lambda>sets. case sets of
             [] \<Rightarrow> Inl IndexError
           | fs # _ \<Rightarrow> rbind (findLatestProvider dc fs) (\<lambda>v. case v of
               None \<Rightarrow> Inl TypeError
             | Some (ver, f) \<Rightarrow> Inr (s\<lparr>fs_versions := dset pn v (fs_versions s),
                                       fs_eligible := fs_eligible s @ [f]\<rparr>))))"

definition to_front :: "string \<Rightarrow> string list \<Rightarrow> string list" where
  "to_front f eligible = f # remove1 f eligible"

definition item_step :: "datacache \<Rightarrow> string \<Rightarrow> (string, (pepvpr \<times> string) option) dict \<Rightarrow>
    string \<Rightarrow> string list \<Rightarrow> string list res" where
  "item_step dc item versions p eligible =
     rbind (ditem (dc_pkg_fn dc) p) (\<lambda>pn.
       if pn \<noteq> item then Inr eligible
       else rbind (ditem versions pn) (\<lambda>v. case v of
              None \<Rightarrow> Inr eligible
            | Some (_, fn) \<Rightarrow> Inr (if fn \<notin> set eligible then eligible else to_front fn eligible)))"

text \<open>The caller's list is sorted in place; the value 0 for no eligible provider is None.\<close>

definition filter_eligible :: "(string \<Rightarrow> string option) \<Rightarrow> datacache \<Rightarrow> string \<Rightarrow> string list \<Rightarrow>
    string list option res" where
  "filter_eligible gv dc item providers =
     rbind (collate dc (sort providers)) (\<lambda>pkg_pn.
     rbind (rfold (preferred_step gv dc pkg_pn) (dkeys pkg_pn)
              \<lparr>fs_sortpkg = [], fs_versions = [], fs_eligible = []\<rparr>) (\<lambda>s1.
     rbind (rfold (latest_version_step dc) (dkeys (fs_sortpkg s1)) s1) (\<lambda>s2.
       if fs_eligible s2 = [] then Inr None
       else rbind (rfold (item_step dc item (fs_versions s2)) (sort providers) (fs_eligible s2))
              (\<lambda>eligible. Inr (Some eligible)))))"

fun select_pn :: "datacache \<Rightarrow> string \<Rightarrow> string list \<Rightarrow> string list \<Rightarrow> (string list \<times> bool) res" where
  "select_pn dc pref [] eligible = Inr (eligible, False)"
| "select_pn dc pref (p # ps) eligible =
     rbind (ditem (dc_pkg_fn dc) p) (\<lambda>pn.
       if pref = pn then Inr (to_front p eligible, True) else select_pn dc pref ps eligible)"

text \<open>The answer holds the cache with its new preference, the eligible files and foundUnique.\<close>

definition filterProviders :: "(string \<Rightarrow> string option) \<Rightarrow> string list \<Rightarrow> string \<Rightarrow> datacache \<Rightarrow>
    (datacache \<times> string list option \<times> bool) res" where
  "filterProviders gv providers item dc =
     rbind (filter_eligible gv dc item providers) (\<lambda>eligible.
       let prefervar = gv (''PREFERRED_PROVIDER_'' @ item);
           dc' = (if truthy prefervar
                  then dc\<lparr>dc_preferred := dset item (the prefervar) (dc_preferred dc)\<rparr> else dc)
       in case dget (dc_preferred dc') item of
            None \<Rightarrow> Inr (dc', eligible, False)
          | Some pref \<Rightarrow> (case eligible of
              None \<Rightarrow> Inl TypeError
            | Some es \<Rightarrow> rbind (select_pn dc' pref es es) (\<lambda>(es', found). Inr (dc', Some es', found))))"

text \<open>
  The second loop of \<open>filterProvidersRunTime\<close>. It iterates over the list object eligible; the
  first \<open>eligible.remove\<close> takes an element out of that very list (aliased), afterwards eligible is
  a new list. So the state has the list iterated over, the position in it, the current eligible
  list and whether they are still the same object.
\<close>

definition rt_preferred :: "(string \<Rightarrow> string option) \<Rightarrow> (string, string) dict \<Rightarrow> string list \<Rightarrow>
    string list \<Rightarrow> string option" where
  "rt_preferred gv pns provides preferred =
     (case dropWhile (\<lambda>provide. case gv (''PREFERRED_PROVIDER_'' @ provide) of
             None \<Rightarrow> True
           | Some v \<Rightarrow> (case dget pns v of None \<Rightarrow> True | Some f \<Rightarrow> f \<in> set preferred)) provides of
        [] \<Rightarrow> None
      | provide # _ \<Rightarrow> dget pns (the (gv (''PREFERRED_PROVIDER_'' @ provide))))"

function rt_loop :: "(string \<Rightarrow> string option) \<Rightarrow> datacache \<Rightarrow> (string, string) dict \<Rightarrow>
    string list \<Rightarrow> nat \<Rightarrow> bool \<Rightarrow> string list \<Rightarrow> string list \<Rightarrow> (string list \<times> string list) res" where
  "rt_loop gv dc pns iterated i aliased eligible preferred =
     (if i \<ge> length iterated then Inr (eligible, preferred)
      else rbind (ditem (dc_pkg_fn dc) (iterated ! i)) (\<lambda>pn.
        case rt_preferred gv pns (ddefault (dc_pn_provides dc) pn) preferred of
          None \<Rightarrow> rt_loop gv dc pns iterated (Suc i) aliased eligible preferred
        | Some pref \<Rightarrow>
            if pref \<notin> set eligible then Inl ValueError
            else rt_loop gv dc pns (if aliased then remove1 pref iterated else iterated) (Suc i) False
                   (to_front pref eligible) (preferred @ [pref])))"
  by pat_completeness auto
termination
  by (relation "measure (\<lambda>(gv, dc, pns, iterated, i, aliased, eligible, preferred). length iterated - i)")
    (auto simp: length_remove1)

definition rt_pns :: "datacache \<Rightarrow> string list \<Rightarrow> (string, string) dict res" where
  "rt_pns dc eligible =
     rfold (\<lambda>p pns. rbind (ditem (dc_pkg_fn dc) p) (\<lambda>pn. Inr (dset pn p pns))) eligible []"

definition filterProvidersRunTime :: "(string \<Rightarrow> string option) \<Rightarrow> string list \<Rightarrow> string \<Rightarrow> datacache \<Rightarrow>
    (string list option \<times> nat) res" where
  "filterProvidersRunTime gv providers item dc =
     rbind (filter_eligible gv dc item providers) (\<lambda>eligible.
       let prefervar = gv (''PREFERRED_RPROVIDER_'' @ item)
       in case eligible of
            None \<Rightarrow> Inl TypeError
          | Some es \<Rightarrow>
              rbind (if truthy prefervar then select_pn dc (the prefervar) es es else Inr (es, False))
                (\<lambda>(es', found).
                  if found then Inr (Some es', 1)
                  else rbind (rt_pns dc es') (\<lambda>pns.
                       rbind (rt_loop gv dc pns es' 0 True es' []) (\<lambda>(es'', preferred).
                         Inr (Some es'', length preferred)))))"

section \<open>Runtime providers and the world target\<close>

text \<open>
  Regular expressions are an argument: \<open>rx pattern\<close> is None when the pattern does not compile,
  otherwise its match test. Reading a missing key of the \<open>defaultdict\<close> packages_dynamic inserts
  it, which ends the iteration over that dictionary with RuntimeError at its next step.
\<close>

definition escape_plus :: "string \<Rightarrow> string" where
  "escape_plus pattern = concat (map (\<lambda>c. if c = CHR ''+'' then [CHR 92, CHR ''+''] else [c]) pattern)"

fun dynamic_providers :: "(string \<Rightarrow> (string \<Rightarrow> bool) option) \<Rightarrow> datacache \<Rightarrow> string \<Rightarrow>
    string list \<Rightarrow> string list \<Rightarrow> string list res" where
  "dynamic_providers rx dc rdepend [] rproviders = Inr rproviders"
| "dynamic_providers rx dc rdepend (pattern # ps) rproviders =
     (case rx (escape_plus pattern) of
        None \<Rightarrow> Inl RegexError
      | Some m \<Rightarrow>
          if \<not> m rdepend then dynamic_providers rx dc rdepend ps rproviders
          else (case dget (dc_packages_dynamic dc) (escape_plus pattern) of
                  None \<Rightarrow> Inl RuntimeError
                | Some fns \<Rightarrow> dynamic_providers rx dc rdepend ps (rproviders @ fns)))"

definition getRuntimeProviders :: "(string \<Rightarrow> (string \<Rightarrow> bool) option) \<Rightarrow> datacache \<Rightarrow> string \<Rightarrow>
    string list res" where
  "getRuntimeProviders rx dc rdepend =
     (let rproviders = ddefault (dc_rproviders dc) rdepend @ ddefault (dc_packages dc) rdepend
      in if rproviders \<noteq> [] then Inr rproviders
         else dynamic_providers rx dc rdepend (dkeys (dc_packages_dynamic dc)) [])"

fun same_pn :: "datacache \<Rightarrow> string \<Rightarrow> string list \<Rightarrow> bool res" where
  "same_pn dc pn [] = Inr True"
| "same_pn dc pn (pf # pfs) =
     rbind (ditem (dc_pkg_fn dc) pf) (\<lambda>pn'. if pn' \<noteq> pn then Inr False else same_pn dc pn pfs)"

fun world_provides :: "datacache \<Rightarrow> string \<Rightarrow> string list \<Rightarrow> bool \<Rightarrow> bool res" where
  "world_provides dc pn [] terminal = Inr terminal"
| "world_provides dc pn (p # ps) terminal =
     (if prefix ''virtual/'' p then Inr False
      else rbind (same_pn dc pn (ddefault (dc_providers dc) p)) (\<lambda>same.
             world_provides dc pn ps (terminal \<and> same)))"

definition world_step :: "datacache \<Rightarrow> string option \<Rightarrow> string \<Rightarrow> string list \<Rightarrow> string list res" where
  "world_step dc task f world =
     rbind (ditem (dc_pkg_fn dc) f) (\<lambda>pn.
     rbind (case task of
              None \<Rightarrow> Inr True
            | Some [] \<Rightarrow> Inr True
            | Some t \<Rightarrow> rbind (ditem (dc_task_deps dc) f) (\<lambda>td. Inr (t \<in> set (td_tasks td)))) (\<lambda>terminal.
     rbind (world_provides dc pn (ddefault (dc_pn_provides dc) pn) terminal) (\<lambda>terminal.
       Inr (if terminal then sadd pn world else world))))"

definition buildWorldTargetList :: "datacache \<Rightarrow> string option \<Rightarrow> datacache res" where
  "buildWorldTargetList dc task =
     (if dc_world_target dc \<noteq> [] then Inr dc
      else rbind (rfold (world_step dc task) (dc_possible_world dc) (dc_world_target dc))
             (\<lambda>w. Inr (dc\<lparr>dc_world_target := w\<rparr>)))"

section \<open>Sorting by priority\<close>

definition group_sorted :: "('a \<Rightarrow> int) \<Rightarrow> 'a list \<Rightarrow> 'a list list" where
  "group_sorted p fs = map (\<lambda>k. filter (\<lambda>f. p f = k) fs) (sorted_list_of_set (p ` set fs))"

lemma filter_filter_key: "filter (\<lambda>y. p y = k) (filter (\<lambda>f. p f = k') fs) =
  (if k = k' then filter (\<lambda>f. p f = k) fs else [])"
  by (induction fs) auto

lemma filter_concat_groups:
  "distinct ks \<Longrightarrow> filter (\<lambda>y. p y = k) (concat (map (\<lambda>k. filter (\<lambda>f. p f = k) fs) ks)) =
     (if k \<in> set ks then filter (\<lambda>f. p f = k) fs else [])"
proof (induction ks)
  case (Cons k' ks)
  then show ?case by (auto simp: filter_filter_key simp del: filter_filter)
qed simp

lemma sorted_concat_groups:
  "sorted ks \<Longrightarrow> sorted (map p (concat (map (\<lambda>k. filter (\<lambda>f. p f = k) fs) ks)))" for p :: "'a \<Rightarrow> int"
proof (induction ks)
  case (Cons k ks)
  have "sorted (map p (filter (\<lambda>f. p f = k) fs))" by (induction fs) auto
  with Cons show ?case by (auto simp: sorted_append)
qed simp

text \<open>A stable sort is the concatenation of the groups in the order of their keys.\<close>

lemma sort_key_groups: "sort_key p fs = concat (group_sorted p fs)" for p :: "'a \<Rightarrow> int"
proof (rule properties_for_sort_key)
  show "sorted (map p (concat (group_sorted p fs)))"
    unfolding group_sorted_def by (rule sorted_concat_groups) simp
  have e: "filter (\<lambda>y. p y = k) fs = []" if "k \<notin> p ` set fs" for k
    using that by (auto simp: filter_empty_conv)
  have f: "filter (\<lambda>y. p y = k) (concat (group_sorted p fs)) = filter (\<lambda>y. p y = k) fs" for k
    using filter_concat_groups [of "sorted_list_of_set (p ` set fs)" p k fs]
    by (simp add: group_sorted_def e)
  show "filter (\<lambda>y. p k = p y) (concat (group_sorted p fs)) = filter (\<lambda>y. p k = p y) fs" for k
    using f [of "p k"] by (simp add: eq_commute)
  show "mset (concat (group_sorted p fs)) = mset fs"
    by (rule multiset_eqI) (metis (mono_tags) f count_filter_mset mset_filter)
qed

lemma sort_dkeys: "distinct ks \<Longrightarrow> sort ks = sorted_list_of_set (set ks)" for ks :: "int list"
  by (simp add: sorted_list_of_set_sort_remdups distinct_remdups_id)

text \<open>The nested dictionary after the loop of \<open>sortPriorities\<close>.\<close>

definition sort_table :: "(string \<Rightarrow> int) \<Rightarrow> (string \<Rightarrow> int) \<Rightarrow> string list \<Rightarrow> (int, (int, string list) dict) dict \<Rightarrow> bool" where
  "sort_table prio dp fs ps \<longleftrightarrow>
     dwf ps \<and> set (dkeys ps) = prio ` set fs \<and>
     (\<forall>pri. dwf (ddefault ps pri) \<and> set (dkeys (ddefault ps pri)) = dp ` {f \<in> set fs. prio f = pri}) \<and>
     (\<forall>pri pref. ddefault (ddefault ps pri) pref = filter (\<lambda>f. prio f = pri \<and> dp f = pref) fs)"

lemma sort_table_step:
  assumes "sort_table prio dp fs ps"
  shows "sort_table prio dp (fs @ [f]) (dset (prio f) (dappend (dp f) f (ddefault ps (prio f))) ps)"
  using assms unfolding sort_table_def
  by (auto simp: dict_simps dappend_def)

lemma sort_table_fold:
  assumes "\<forall>f \<in> set fs. dget (dc_bbfile_priority dc) f = Some (prio f) \<and> dget (dc_pkg_dp dc) f = Some (dp f)"
  shows "\<exists>ps. rfold (sort_add dc) fs [] = Inr ps \<and> sort_table prio dp fs ps"
  using assms
proof (induction fs rule: rev_induct)
  case Nil
  then show ?case by (simp add: sort_table_def ddefault_def)
next
  case (snoc f fs)
  then obtain ps where "rfold (sort_add dc) fs [] = Inr ps" "sort_table prio dp fs ps" by auto
  moreover have "sort_add dc f ps = Inr (dset (prio f) (dappend (dp f) f (ddefault ps (prio f))) ps)"
    using snoc.prems by (simp add: sort_add_def ditem_def)
  ultimately show ?case using sort_table_step [of prio dp fs ps f] by (simp add: rfold_append)
qed

lemma fold_Cons_map: "fold (\<lambda>x acc. g x # acc) xs acc = rev (map g xs) @ acc"
  by (induction xs arbitrary: acc) simp_all

lemma sort_collect_table:
  assumes "sort_table prio dp fs ps"
  shows "sort_collect ps = map (sort_key dp) (rev (group_sorted prio fs))"
proof -
  have k: "sort (dkeys ps) = sorted_list_of_set (prio ` set fs)"
    using assms sort_dkeys [of "dkeys ps"] by (simp add: sort_table_def)
  have "concat (map (ddefault (ddefault ps pri)) (sort (dkeys (ddefault ps pri)))) =
      sort_key dp (filter (\<lambda>f. prio f = pri) fs)" for pri
  proof -
    have "sort (dkeys (ddefault ps pri)) = sorted_list_of_set (dp ` set (filter (\<lambda>f. prio f = pri) fs))"
      using assms sort_dkeys [of "dkeys (ddefault ps pri)"] by (simp add: sort_table_def)
    moreover have "ddefault (ddefault ps pri) = (\<lambda>k. filter (\<lambda>f. dp f = k) (filter (\<lambda>f. prio f = pri) fs))"
      using assms by (intro ext) (auto simp: sort_table_def intro: filter_cong)
    ultimately show ?thesis unfolding sort_key_groups group_sorted_def by simp
  qed
  then show ?thesis
    by (simp add: sort_collect_def k fold_Cons_map group_sorted_def rev_map)
qed


lemma mset_concat_map: "(\<And>x. mset (f x) = mset x) \<Longrightarrow> mset (concat (map f xs)) = mset (concat xs)"
  by (induction xs) simp_all

lemma mset_concat_rev: "mset (concat (rev xs)) = mset (concat xs)"
  by (induction xs) (simp_all add: ac_simps)

text \<open>
  \<open>sortPriorities\<close> groups the recipe files of a package by layer priority, highest first,
  and sorts each group stably by ascending DEFAULT_PREFERENCE; no file is lost or repeated.
\<close>

theorem sortPriorities_groups:
  assumes "pkg_pn_files dc pkg_pn pn = Inr files"
    and "\<forall>f \<in> set files. dget (dc_bbfile_priority dc) f = Some (prio f) \<and> dget (dc_pkg_dp dc) f = Some (dp f)"
  shows "\<exists>sets. sortPriorities pn dc pkg_pn = Inr sets \<and>
    sets = map (\<lambda>pri. sort_key dp (filter (\<lambda>f. prio f = pri) files)) (rev (sorted_list_of_set (prio ` set files))) \<and>
    mset (concat sets) = mset files"
proof -
  from sort_table_fold [OF assms(2)] obtain ps where
    ps: "rfold (sort_add dc) files [] = Inr ps" "sort_table prio dp files ps" by blast
  then have "sortPriorities pn dc pkg_pn = Inr (map (sort_key dp) (rev (group_sorted prio files)))"
    using sort_collect_table [OF ps(2)] by (simp add: sortPriorities_def assms(1))
  moreover have "mset (concat (map (sort_key dp) (rev (group_sorted prio files)))) = mset files"
    using mset_concat_map [of "sort_key dp" "rev (group_sorted prio files)"]
    by (simp add: mset_concat_rev flip: sort_key_groups)
  ultimately show ?thesis by (simp add: group_sorted_def rev_map)
qed

definition demo_cache :: datacache where
  "demo_cache = init_cacheData
     \<lparr>dc_pkg_fn := [(''a1'', ''a''), (''a2'', ''a''), (''a3'', ''a''), (''b1'', ''b'')],
      dc_pkg_pn := [(''a'', [''a1'', ''a2'', ''a3'']), (''b'', [''b1''])],
      dc_pkg_pepvpr := [(''a1'', (EStr [], ''1.0'', ''r0'')), (''a2'', (EStr [], ''1.2'', ''r0'')),
                        (''a3'', (EStr [], ''1.10'', ''r0'')), (''b1'', (EStr [], ''2.0'', ''r0''))],
      dc_pkg_dp := [(''a1'', 0), (''a2'', 0), (''a3'', 0), (''b1'', 0)],
      dc_bbfile_priority := [(''a1'', 5), (''a2'', 7), (''a3'', 7), (''b1'', 5)],
      dc_providers := [(''x'', [''a1'', ''a2'', ''a3'', ''b1''])]\<rparr>"

theorem sortPriorities_groups_witness:
  "sortPriorities ''a'' demo_cache None = Inr [[''a2'', ''a3''], [''a1'']]"
proof -
  let ?p = "\<lambda>f. if f = ''a1'' then 5 else 7 :: int"
  have f: "pkg_pn_files demo_cache None ''a'' = Inr [''a1'', ''a2'', ''a3'']" by code_simp
  have "\<forall>f \<in> set [''a1'', ''a2'', ''a3'']. dget (dc_bbfile_priority demo_cache) f = Some (?p f) \<and>
    dget (dc_pkg_dp demo_cache) f = Some 0" by code_simp
  from sortPriorities_groups [OF f this] show ?thesis by (auto simp: sort_key_const)
qed

section \<open>The latest version\<close>

definition is_latest :: "(string \<Rightarrow> pepvpr) \<Rightarrow> (string \<Rightarrow> int) \<Rightarrow> string list \<Rightarrow> string \<Rightarrow> bool" where
  "is_latest ver dp fs f \<longleftrightarrow> f \<in> set fs \<and>
     (\<forall>g \<in> set fs. dp g \<le> dp f \<and> (dp g = dp f \<longrightarrow> (\<exists>z. vercmp (ver g) (ver f) = Inr z \<and> z \<le> 0)))"

lemma is_latest_extend:
  assumes "is_latest ver dp fs f" "\<forall>g \<in> set (fs @ [h]). pepvpr_ok (ver g)"
    and "dp f = dp h" "vercmp (ver f) (ver h) = Inr r"
  shows "is_latest ver dp (fs @ [h]) (if r < 0 then h else f)"
proof -
  let ?S = "ver ` {g \<in> set fs. dp g = dp f}"
  have S: "\<forall>s \<in> ?S. pepvpr_ok s \<and> (\<exists>z. vercmp s (ver f) = Inr z \<and> z \<le> 0)"
    using assms(1,2) by (auto simp: is_latest_def)
  have "pepvpr_ok (ver f)" "pepvpr_ok (ver h)" using assms(1,2) by (auto simp: is_latest_def)
  from vercmp.upper_extend [OF this S assms(4)] show ?thesis
    using assms(1,3) by (auto simp: is_latest_def)
qed

lemma latest_step_eq:
  assumes "dget (dc_pkg_pepvpr dc) h = Some w" "dget (dc_pkg_dp dc) h = Some d"
  shows "latest_step dc h \<lparr>lt_ver = Some (v, f), lt_dp = p\<rparr> =
    (if p = d then rbind (vercmp v w) (\<lambda>r. Inr (if r < 0 then \<lparr>lt_ver = Some (w, h), lt_dp = d\<rparr>
                                              else \<lparr>lt_ver = Some (v, f), lt_dp = p\<rparr>))
     else Inr (if d > p then \<lparr>lt_ver = Some (w, h), lt_dp = d\<rparr> else \<lparr>lt_ver = Some (v, f), lt_dp = p\<rparr>))"
    "latest_step dc h \<lparr>lt_ver = None, lt_dp = p\<rparr> = Inr \<lparr>lt_ver = Some (w, h), lt_dp = d\<rparr>"
  using assms by (simp_all add: latest_step_def ditem_def)

lemma latest_fold:
  assumes "fs \<noteq> []" and "\<forall>g \<in> set fs. dget (dc_pkg_pepvpr dc) g = Some (ver g) \<and>
    dget (dc_pkg_dp dc) g = Some (dp g) \<and> pepvpr_ok (ver g)"
  shows "(\<exists>f \<in> set fs. \<exists>g \<in> set fs. \<exists>e. vercmp (ver f) (ver g) = Inl e \<and>
       rfold (latest_step dc) fs \<lparr>lt_ver = None, lt_dp = 0\<rparr> = Inl e) \<or>
    (\<exists>f. is_latest ver dp fs f \<and>
       rfold (latest_step dc) fs \<lparr>lt_ver = None, lt_dp = 0\<rparr> = Inr \<lparr>lt_ver = Some (ver f, f), lt_dp = dp f\<rparr>)"
    (is "?err fs \<or> ?ok fs")
  using assms
proof (induction fs rule: rev_induct)
  case (snoc h fs)
  have h: "dget (dc_pkg_pepvpr dc) h = Some (ver h)" "dget (dc_pkg_dp dc) h = Some (dp h)"
    "pepvpr_ok (ver h)" using snoc.prems(2) by simp_all
  consider "fs = []" | "?err fs" | "?ok fs" using snoc by fastforce
  then show ?case
  proof cases
    case 1
    then have "is_latest ver dp (fs @ [h]) h"
      using vercmp.cmp_refl [OF h(3)] by (simp add: is_latest_def)
    with 1 show ?thesis by (auto simp: latest_step_eq [OF h(1,2)])
  next
    case 2
    then have "?err (fs @ [h])" by (fastforce simp: rfold_snoc)
    then show ?thesis ..
  next
    case 3
    then obtain f where f: "is_latest ver dp fs f"
      and r: "rfold (latest_step dc) fs \<lparr>lt_ver = None, lt_dp = 0\<rparr> = Inr \<lparr>lt_ver = Some (ver f, f), lt_dp = dp f\<rparr>"
      by blast
    note step = rfold_snoc [of "latest_step dc" fs h, unfolded r] latest_step_eq [OF h(1,2)]
    consider (raise) e where "dp f = dp h" "vercmp (ver f) (ver h) = Inl e"
      | (compared) r where "dp f = dp h" "vercmp (ver f) (ver h) = Inr r" | (differ) "dp f \<noteq> dp h"
      by (cases "vercmp (ver f) (ver h)") auto
    then show ?thesis
    proof cases
      case raise
      have "f \<in> set (fs @ [h])" using f by (simp add: is_latest_def)
      with raise have "?err (fs @ [h])" by (auto simp: step r)
      then show ?thesis ..
    next
      case compared
      from is_latest_extend [OF f _ compared] snoc.prems(2)
      have "is_latest ver dp (fs @ [h]) (if r < 0 then h else f)" by auto
      with compared have "?ok (fs @ [h])" by (auto simp: step r split: if_splits)
      then show ?thesis ..
    next
      case differ
      have "is_latest ver dp (fs @ [h]) (if dp h > dp f then h else f)"
        using f differ vercmp.cmp_refl [OF h(3)] by (fastforce simp: is_latest_def)
      with differ have "?ok (fs @ [h])" by (auto simp: step r split: if_splits)
      then show ?thesis ..
    qed
  qed
qed simp

text \<open>
  C35: \<open>findLatestProvider\<close> picks a file of the set with the greatest DEFAULT_PREFERENCE and,
  among those, a version no other file exceeds; it raises only what a comparison of two of the
  versions raises.
\<close>

theorem findLatestProvider_latest:
  assumes "fs \<noteq> []" and "\<forall>g \<in> set fs. dget (dc_pkg_pepvpr dc) g = Some (ver g) \<and>
    dget (dc_pkg_dp dc) g = Some (dp g) \<and> pepvpr_ok (ver g)"
  shows "(\<exists>f \<in> set fs. \<exists>g \<in> set fs. \<exists>e. vercmp (ver f) (ver g) = Inl e \<and> findLatestProvider dc fs = Inl e) \<or>
    (\<exists>f \<in> set fs. findLatestProvider dc fs = Inr (Some (ver f, f)) \<and>
       (\<forall>g \<in> set fs. dp g \<le> dp f \<and> (dp g = dp f \<longrightarrow> (\<exists>z. vercmp (ver g) (ver f) = Inr z \<and> z \<le> 0))))"
  using latest_fold [OF assms] by (fastforce simp: findLatestProvider_def is_latest_def)

theorem findLatestProvider_latest_witness:
  "findLatestProvider demo_cache [''a1'', ''a2'', ''a3''] = Inr (Some ((EStr [], ''1.10'', ''r0''), ''a3'')) \<and>
   (\<exists>z. vercmp (EStr [], ''1.2'', ''r0'') (EStr [], ''1.10'', ''r0'') = Inr z \<and> z \<le> 0)"
proof -
  let ?fs = "[''a1'', ''a2'', ''a3'']"
  let ?v = "\<lambda>g. if g = ''a1'' then (EStr [], ''1.0'', ''r0'') else if g = ''a2'' then (EStr [], ''1.2'', ''r0'')
    else (EStr [], ''1.10'', ''r0'')"
  have "\<forall>g \<in> set ?fs. dget (dc_pkg_pepvpr demo_cache) g = Some (?v g) \<and>
    dget (dc_pkg_dp demo_cache) g = Some 0 \<and> pepvpr_ok (?v g)" by code_simp
  note max = findLatestProvider_latest [OF _ this]
  have "findLatestProvider demo_cache ?fs = Inr (Some ((EStr [], ''1.10'', ''r0''), ''a3''))" by code_simp
  with max show ?thesis by (auto split: if_splits)
qed

section \<open>The preferred version\<close>

definition pn_of :: "datacache \<Rightarrow> string \<Rightarrow> string" where
  "pn_of dc f = the (dget (dc_pkg_fn dc) f)"

definition ver_of :: "datacache \<Rightarrow> string \<Rightarrow> pepvpr" where
  "ver_of dc f = the (dget (dc_pkg_pepvpr dc) f)"

definition dp_of :: "datacache \<Rightarrow> string \<Rightarrow> int" where
  "dp_of dc f = the (dget (dc_pkg_dp dc) f)"

definition prio_of :: "datacache \<Rightarrow> string \<Rightarrow> int" where
  "prio_of dc f = the (dget (dc_bbfile_priority dc) f)"

text \<open>A recipe file every table knows, with a name and a version that can be compared.\<close>

definition listed :: "datacache \<Rightarrow> string \<Rightarrow> bool" where
  "listed dc f \<longleftrightarrow> f \<noteq> [] \<and> dget (dc_pkg_fn dc) f = Some (pn_of dc f) \<and>
     dget (dc_pkg_pepvpr dc) f = Some (ver_of dc f) \<and> dget (dc_pkg_dp dc) f = Some (dp_of dc f) \<and>
     dget (dc_bbfile_priority dc) f = Some (prio_of dc f) \<and> pepvpr_ok (ver_of dc f)"

definition version_matches :: "datacache \<Rightarrow> string option \<times> string \<times> string option \<Rightarrow> string \<Rightarrow> bool" where
  "version_matches dc pref f =
     (case ver_of dc f of (pe, pv, pr) \<Rightarrow>
        preferredVersionMatch pe pv pr (fst pref) (Some (fst (snd pref))) (snd (snd pref)))"

lemma first_preferred_find:
  "\<forall>f \<in> set fs. listed dc f \<Longrightarrow>
     first_preferred dc pref fs = Inr (map_option (\<lambda>f. (ver_of dc f, f)) (find (version_matches dc pref) fs))"
  by (induction fs)
    (auto simp: listed_def ditem_def version_matches_def split: prod.splits)

lemma find_append: "find P (xs @ ys) = (case find P xs of None \<Rightarrow> find P ys | Some x \<Rightarrow> Some x)"
  by (induction xs) auto

lemma find_Some_set: "find P xs = Some x \<Longrightarrow> x \<in> set xs"
  by (metis find_Some_iff nth_mem)

lemma first_preferred_set_find:
  "\<forall>fs \<in> set sets. \<forall>f \<in> set fs. listed dc f \<Longrightarrow>
     first_preferred_set dc pref sets None =
       Inr (map_option (\<lambda>f. (ver_of dc f, f)) (find (version_matches dc pref) (concat sets)))"
proof (induction sets)
  case (Cons fs sets)
  show ?case
  proof (cases "find (version_matches dc pref) fs")
    case None
    with Cons show ?thesis by (simp add: first_preferred_find find_append truthy_def)
  next
    case (Some f)
    moreover have "f \<noteq> []" using find_Some_set [OF Some] Cons.prems by (auto simp: listed_def)
    ultimately show ?thesis
      using Cons by (cases "ver_of dc f") (simp add: first_preferred_find find_append truthy_def)
  qed
qed simp

lemma findPreferredProvider_cases:
  assumes "\<forall>fs \<in> set sets. \<forall>f \<in> set fs. listed dc f"
  shows "\<exists>r. findPreferredProvider pn gv dc sets = Inr r \<and>
    (r = None \<or> (\<exists>f \<in> set (concat sets). r = Some (ver_of dc f, f)))"
proof (cases "truthy (preferred_setting gv pn)")
  case True
  then show ?thesis
    using first_preferred_set_find [OF assms] find_Some_set [of _ "concat sets"]
    by (cases "find (version_matches dc (match_version (the (preferred_setting gv pn)))) (concat sets)")
      (auto simp: findPreferredProvider_def)
qed (simp add: findPreferredProvider_def)

text \<open>
  with a PREFERRED_VERSION set, \<open>findPreferredProvider\<close> takes the first file that matches
  it, going through the sets in the given order of priority.
\<close>

theorem findPreferredProvider_first:
  assumes "\<forall>f \<in> set (concat sets). listed dc f"
    and "preferred_setting gv pn = Some v" "v \<noteq> []"
  shows "findPreferredProvider pn gv dc sets =
    Inr (map_option (\<lambda>f. (ver_of dc f, f)) (find (version_matches dc (match_version v)) (concat sets)))"
  using first_preferred_set_find [of sets dc "match_version v"] assms
  by (simp add: findPreferredProvider_def truthy_def)

theorem findPreferredProvider_first_witness:
  "findPreferredProvider ''a'' [''PREFERRED_VERSION_a'' \<mapsto> ''1.%''] demo_cache [[''a2'', ''a3''], [''a1'']] =
     Inr (Some ((EStr [], ''1.2'', ''r0''), ''a2''))"
proof -
  have l: "\<forall>f \<in> set (concat [[''a2'', ''a3''], [''a1'']]). listed demo_cache f" by code_simp
  have p: "preferred_setting [''PREFERRED_VERSION_a'' \<mapsto> ''1.%''] ''a'' = Some ''1.%''" by code_simp
  have "find (version_matches demo_cache (match_version ''1.%'')) (concat [[''a2'', ''a3''], [''a1'']]) = Some ''a2''"
    "ver_of demo_cache ''a2'' = (EStr [], ''1.2'', ''r0'')" by code_simp+
  with findPreferredProvider_first [OF l p] show ?thesis by simp
qed

section \<open>Filtering the providers\<close>

lemma dget_ddefault: "k \<in> set (dkeys d) \<Longrightarrow> dget d k = Some (ddefault d k)"
  unfolding dget_Some_key by (auto simp: ddefault_def)

lemma collate_ok:
  assumes "\<forall>p \<in> set ps. listed dc p"
  shows "\<exists>d. collate dc ps = Inr d \<and> set (dkeys d) = pn_of dc ` set ps \<and> dwf d \<and>
    (\<forall>pn. ddefault d pn = filter (\<lambda>p. pn_of dc p = pn) ps)"
  using assms
proof (induction ps rule: rev_induct)
  case (snoc p ps)
  then have "\<forall>p \<in> set ps. listed dc p" by simp
  from snoc.IH [OF this] obtain d where d: "collate dc ps = Inr d" "set (dkeys d) = pn_of dc ` set ps" "dwf d"
    "\<forall>pn. ddefault d pn = filter (\<lambda>p. pn_of dc p = pn) ps" by blast
  have "collate dc (ps @ [p]) = Inr (dappend (pn_of dc p) p d)"
    using d(1) snoc.prems by (simp add: collate_def rfold_snoc listed_def ditem_def)
  then show ?case using d(2-4) by (auto simp: dappend_def dict_simps)
qed (simp add: collate_def ddefault_def)

definition chosen :: "(string, (pepvpr \<times> string) option) dict \<Rightarrow> string \<Rightarrow> string option" where
  "chosen vs pn = (case dget vs pn of Some (Some (_, f)) \<Rightarrow> Some f | _ \<Rightarrow> None)"

text \<open>
  The state of \<open>_filterProviders\<close> after the packages \<open>ks\<close> in the first loop: one file per
  package that has a preferred version.
\<close>

definition filter_inv :: "datacache \<Rightarrow> string list \<Rightarrow> string list \<Rightarrow> filter_state \<Rightarrow> bool" where
  "filter_inv dc ps ks s \<longleftrightarrow>
     set (dkeys (fs_sortpkg s)) = set ks \<and> dwf (fs_sortpkg s) \<and>
     (\<forall>pn \<in> set ks. \<exists>fs sets. dget (fs_sortpkg s) pn = Some (fs # sets) \<and> fs \<noteq> [] \<and>
        set fs \<subseteq> {p \<in> set ps. pn_of dc p = pn}) \<and>
     (\<forall>pn. pn \<in> set (dkeys (fs_versions s)) \<longleftrightarrow> pn \<in> set ks) \<and>
     (\<forall>pn f. chosen (fs_versions s) pn = Some f \<longrightarrow> f \<in> set ps \<and> pn_of dc f = pn \<and> pn \<in> set ks) \<and>
     distinct (fs_eligible s) \<and> (\<forall>f. f \<in> set (fs_eligible s) \<longleftrightarrow> (\<exists>pn. chosen (fs_versions s) pn = Some f))"

lemma sort_sets:
  assumes "\<forall>f \<in> set files. listed dc f" "files \<noteq> []" "pkg_pn_files dc pkg_pn pn = Inr files"
  shows "\<exists>fs sets. sortPriorities pn dc pkg_pn = Inr (fs # sets) \<and> fs \<noteq> [] \<and>
    set (concat (fs # sets)) = set files"
proof -
  have "\<forall>f \<in> set files. dget (dc_bbfile_priority dc) f = Some (prio_of dc f) \<and> dget (dc_pkg_dp dc) f = Some (dp_of dc f)"
    using assms(1) by (auto simp: listed_def)
  from sort_table_fold [OF this] obtain ps where
    ps: "rfold (sort_add dc) files [] = Inr ps" "sort_table (prio_of dc) (dp_of dc) files ps" by blast
  let ?gs = "rev (group_sorted (prio_of dc) files)"
  have r: "sortPriorities pn dc pkg_pn = Inr (map (sort_key (dp_of dc)) ?gs)"
    using ps sort_collect_table [OF ps(2)] by (simp add: sortPriorities_def assms(3))
  have ne: "\<forall>g \<in> set ?gs. g \<noteq> []" by (auto simp: group_sorted_def filter_empty_conv)
  have "?gs \<noteq> []" using assms(2) by (simp add: group_sorted_def)
  then obtain g gs where g: "?gs = g # gs" by (cases ?gs) auto
  have "set (concat (map (sort_key (dp_of dc)) ?gs)) = set files"
    by (auto simp: group_sorted_def)
  with r g ne show ?thesis by (auto simp flip: set_empty)
qed


lemma pkg_pn_files_Some:
  "k \<in> set (dkeys d) \<Longrightarrow> pkg_pn_files dc (Some d) k = Inr (ddefault d k)"
  using dget_ddefault [of k d] by (cases d) (auto simp: pkg_pn_files_def ditem_def)

lemma preferred_step_inv:
  assumes ps: "\<forall>p \<in> set ps. listed dc p"
    and d: "set (dkeys d) = pn_of dc ` set ps" "\<forall>pn. ddefault d pn = filter (\<lambda>p. pn_of dc p = pn) ps"
    and pn: "pn \<in> set (dkeys d)" "pn \<notin> set ks"
    and inv: "filter_inv dc ps ks s"
  shows "\<exists>s'. preferred_step gv dc d pn s = Inr s' \<and> filter_inv dc ps (ks @ [pn]) s'"
proof -
  have files: "pkg_pn_files dc (Some d) pn = Inr (filter (\<lambda>p. pn_of dc p = pn) ps)"
    using pkg_pn_files_Some [OF pn(1)] d(2) by simp
  have ne: "filter (\<lambda>p. pn_of dc p = pn) ps \<noteq> []" using pn(1) d(1) by (auto simp: filter_empty_conv)
  from sort_sets [OF _ ne files] ps obtain fs sets where
    sp: "sortPriorities pn dc (Some d) = Inr (fs # sets)" and fs: "fs \<noteq> []"
    and c: "set (concat (fs # sets)) = {p \<in> set ps. pn_of dc p = pn}" by auto
  have "\<forall>g \<in> set (fs # sets). \<forall>f \<in> set g. listed dc f" using c ps by auto
  from findPreferredProvider_cases [OF this] obtain r where
    r: "findPreferredProvider pn gv dc (fs # sets) = Inr r"
    "r = None \<or> (\<exists>f \<in> set (concat (fs # sets)). r = Some (ver_of dc f, f))" by blast
  let ?s = "s\<lparr>fs_sortpkg := dset pn (fs # sets) (fs_sortpkg s), fs_versions := dset pn r (fs_versions s),
    fs_eligible := fs_eligible s @ (if truthy (map_option snd r) then [snd (the r)] else [])\<rparr>"
  have step: "preferred_step gv dc d pn s = Inr ?s" by (simp add: preferred_step_def sp r(1))
  have ch: "chosen (fs_versions ?s) k = (if k = pn then map_option snd r else chosen (fs_versions s) k)" for k
    by (auto simp: chosen_def dict_simps split: option.splits)
  have t: "truthy (map_option snd r) \<longleftrightarrow> r \<noteq> None"
    using r(2) c ps by (auto simp: truthy_def listed_def)
  have none: "chosen (fs_versions s) pn = None" using inv pn(2) unfolding filter_inv_def
    by (metis not_None_eq)
  have "filter_inv dc ps (ks @ [pn]) ?s"
    unfolding filter_inv_def
  proof (intro conjI allI ballI)
    show "set (dkeys (fs_sortpkg ?s)) = set (ks @ [pn])"
      using inv by (simp add: filter_inv_def)
    show "dwf (fs_sortpkg ?s)" using inv by (simp add: filter_inv_def dwf_dset)
    show "\<exists>fs sets. dget (fs_sortpkg ?s) k = Some (fs # sets) \<and> fs \<noteq> [] \<and>
        set fs \<subseteq> {p \<in> set ps. pn_of dc p = k}" if "k \<in> set (ks @ [pn])" for k
      using inv that fs c by (auto simp: filter_inv_def dict_simps)
    show "k \<in> set (dkeys (fs_versions ?s)) \<longleftrightarrow> k \<in> set (ks @ [pn])" for k
      using inv by (auto simp: filter_inv_def)
    show "chosen (fs_versions ?s) k = Some f \<longrightarrow> f \<in> set ps \<and> pn_of dc f = k \<and> k \<in> set (ks @ [pn])" for k f
      unfolding ch using inv r(2) c by (auto simp: filter_inv_def)
    show "distinct (fs_eligible ?s)"
      using inv none t r(2) c pn(2) by (auto simp: filter_inv_def)
    show "f \<in> set (fs_eligible ?s) \<longleftrightarrow> (\<exists>k. chosen (fs_versions ?s) k = Some f)" for f
    proof -
      have "f \<in> set (fs_eligible s) \<longleftrightarrow> (\<exists>k. k \<noteq> pn \<and> chosen (fs_versions s) k = Some f)"
        using inv none unfolding filter_inv_def by (metis option.distinct(1))
      moreover have "(\<exists>k. chosen (fs_versions ?s) k = Some f) \<longleftrightarrow>
        map_option snd r = Some f \<or> (\<exists>k. k \<noteq> pn \<and> chosen (fs_versions s) k = Some f)"
        unfolding ch by auto
      ultimately show ?thesis using t by (cases r) auto
    qed
  qed
  with step show ?thesis by blast
qed

lemma preferred_phase:
  assumes ps: "\<forall>p \<in> set ps. listed dc p"
    and d: "set (dkeys d) = pn_of dc ` set ps" "\<forall>pn. ddefault d pn = filter (\<lambda>p. pn_of dc p = pn) ps"
    and "set ks \<subseteq> set (dkeys d)" "distinct ks"
  shows "\<exists>s. rfold (preferred_step gv dc d) ks \<lparr>fs_sortpkg = [], fs_versions = [], fs_eligible = []\<rparr> = Inr s \<and>
    filter_inv dc ps ks s"
  using assms(4,5)
proof (induction ks rule: rev_induct)
  case (snoc k ks)
  then obtain s where s: "rfold (preferred_step gv dc d) ks \<lparr>fs_sortpkg = [], fs_versions = [], fs_eligible = []\<rparr> = Inr s"
    "filter_inv dc ps ks s" by auto
  have "k \<in> set (dkeys d)" "k \<notin> set ks" using snoc.prems by auto
  from preferred_step_inv [OF ps d this s(2), of gv] s(1) show ?case by (auto simp: rfold_snoc)
qed (simp add: filter_inv_def chosen_def)

definition vercmp_error :: "datacache \<Rightarrow> string list \<Rightarrow> exc \<Rightarrow> bool" where
  "vercmp_error dc ps e \<longleftrightarrow> (\<exists>f \<in> set ps. \<exists>g \<in> set ps. vercmp (ver_of dc f) (ver_of dc g) = Inl e)"

lemma latest_cases:
  assumes "fs \<noteq> []" "\<forall>g \<in> set fs. listed dc g" "set fs \<subseteq> set ps"
  obtains (err) e where "vercmp_error dc ps e" "findLatestProvider dc fs = Inl e"
    | (ok) f where "f \<in> set fs" "findLatestProvider dc fs = Inr (Some (ver_of dc f, f))"
proof -
  have "\<forall>g \<in> set fs. dget (dc_pkg_pepvpr dc) g = Some (ver_of dc g) \<and>
    dget (dc_pkg_dp dc) g = Some (dp_of dc g) \<and> pepvpr_ok (ver_of dc g)"
    using assms(2) by (auto simp: listed_def)
  from latest_fold [OF assms(1) this] show ?thesis
  proof (elim disjE exE conjE bexE)
    fix f g e
    assume "f \<in> set fs" "g \<in> set fs" "vercmp (ver_of dc f) (ver_of dc g) = Inl e"
      "rfold (latest_step dc) fs \<lparr>lt_ver = None, lt_dp = 0\<rparr> = Inl e"
    then show ?thesis using err [of e] assms(3) by (auto simp: vercmp_error_def findLatestProvider_def)
  next
    fix f
    assume "is_latest (ver_of dc) (dp_of dc) fs f"
      "rfold (latest_step dc) fs \<lparr>lt_ver = None, lt_dp = 0\<rparr> = Inr \<lparr>lt_ver = Some (ver_of dc f, f), lt_dp = dp_of dc f\<rparr>"
    then show ?thesis using ok [of f] by (auto simp: is_latest_def findLatestProvider_def)
  qed
qed

lemma latest_version_step_inv:
  assumes ps: "\<forall>p \<in> set ps. listed dc p" and inv: "filter_inv dc ps ks s" and pn: "pn \<in> set ks"
  shows "(\<exists>e. vercmp_error dc ps e \<and> latest_version_step dc pn s = Inl e) \<or>
    (\<exists>s'. latest_version_step dc pn s = Inr s' \<and> filter_inv dc ps ks s' \<and>
       fs_sortpkg s' = fs_sortpkg s \<and> chosen (fs_versions s') pn \<noteq> None \<and>
       (\<forall>k. chosen (fs_versions s) k \<noteq> None \<longrightarrow> chosen (fs_versions s') k \<noteq> None))"
proof (cases "chosen (fs_versions s) pn")
  case (Some f)
  then have "f \<in> set ps" using inv by (simp add: filter_inv_def)
  then have "f \<noteq> []" using ps by (simp add: listed_def)
  with Some have "latest_version_step dc pn s = Inr s"
    by (auto simp: latest_version_step_def chosen_def truthy_def split: option.splits)
  with Some inv show ?thesis by blast
next
  case None
  then have step: "latest_version_step dc pn s = rbind (ditem (fs_sortpkg s) pn) (\<lambda>sets. case sets of
             [] \<Rightarrow> Inl IndexError
           | fs # _ \<Rightarrow> rbind (findLatestProvider dc fs) (\<lambda>v. case v of
               None \<Rightarrow> Inl TypeError
             | Some (ver, f) \<Rightarrow> Inr (s\<lparr>fs_versions := dset pn v (fs_versions s),
                                       fs_eligible := fs_eligible s @ [f]\<rparr>)))"
    by (auto simp: latest_version_step_def chosen_def truthy_def split: option.splits)
  from inv pn obtain fs sets where fs: "dget (fs_sortpkg s) pn = Some (fs # sets)" "fs \<noteq> []"
    and sub: "set fs \<subseteq> {p \<in> set ps. pn_of dc p = pn}" by (auto simp: filter_inv_def)
  have "\<forall>g \<in> set fs. listed dc g" "set fs \<subseteq> set ps" using sub ps by auto
  consider (err) e where "vercmp_error dc ps e" "findLatestProvider dc fs = Inl e"
    | (ok) f where "f \<in> set fs" "findLatestProvider dc fs = Inr (Some (ver_of dc f, f))"
    by (rule latest_cases [OF fs(2) \<open>\<forall>g \<in> set fs. listed dc g\<close> \<open>set fs \<subseteq> set ps\<close>])
  then show ?thesis
  proof cases
    case (err e)
    then show ?thesis by (simp add: step ditem_def fs(1))
  next
    case (ok f)
    let ?s = "s\<lparr>fs_versions := dset pn (Some (ver_of dc f, f)) (fs_versions s), fs_eligible := fs_eligible s @ [f]\<rparr>"
    have f: "f \<in> set ps" "pn_of dc f = pn" using ok(1) sub by auto
    have ch: "chosen (fs_versions ?s) k = (if k = pn then Some f else chosen (fs_versions s) k)" for k
      by (auto simp: chosen_def dict_simps split: option.splits)
    have new: "f \<notin> set (fs_eligible s)" using inv None f(2) by (auto simp: filter_inv_def)
    have "filter_inv dc ps ks ?s" unfolding filter_inv_def
    proof (intro conjI allI ballI)
      show "k \<in> set (dkeys (fs_versions ?s)) \<longleftrightarrow> k \<in> set ks" for k
        using inv pn by (auto simp: filter_inv_def)
      show "chosen (fs_versions ?s) k = Some g \<longrightarrow> g \<in> set ps \<and> pn_of dc g = k \<and> k \<in> set ks" for k g
        unfolding ch using inv f pn by (auto simp: filter_inv_def)
      show "g \<in> set (fs_eligible ?s) \<longleftrightarrow> (\<exists>k. chosen (fs_versions ?s) k = Some g)" for g
      proof -
        have "g \<in> set (fs_eligible s) \<longleftrightarrow> (\<exists>k. k \<noteq> pn \<and> chosen (fs_versions s) k = Some g)"
          using inv None unfolding filter_inv_def by (metis option.distinct(1))
        then show ?thesis unfolding ch by auto
      qed
    qed (use inv new in \<open>auto simp: filter_inv_def\<close>)
    moreover have "latest_version_step dc pn s = Inr ?s" by (simp add: step ditem_def fs(1) ok(2))
    ultimately show ?thesis using ch [simplified]
      by (intro disjI2 exI [of _ ?s]) auto
  qed
qed

lemma latest_phase:
  assumes ps: "\<forall>p \<in> set ps. listed dc p" and inv: "filter_inv dc ps ks s" and "set ks' \<subseteq> set ks"
  shows "(\<exists>e. vercmp_error dc ps e \<and> rfold (latest_version_step dc) ks' s = Inl e) \<or>
    (\<exists>s'. rfold (latest_version_step dc) ks' s = Inr s' \<and> filter_inv dc ps ks s' \<and>
       fs_sortpkg s' = fs_sortpkg s \<and> (\<forall>k \<in> set ks'. chosen (fs_versions s') k \<noteq> None))"
  using assms(3)
proof (induction ks' rule: rev_induct)
  case Nil
  then show ?case using inv by simp
next
  case (snoc k ks')
  then consider (err) e where "vercmp_error dc ps e" "rfold (latest_version_step dc) ks' s = Inl e"
    | (ok) s' where "rfold (latest_version_step dc) ks' s = Inr s'" "filter_inv dc ps ks s'"
      "fs_sortpkg s' = fs_sortpkg s" "\<forall>k \<in> set ks'. chosen (fs_versions s') k \<noteq> None" by auto
  then show ?case
  proof cases
    case err
    then show ?thesis by (simp add: rfold_snoc)
  next
    case ok
    have "k \<in> set ks" using snoc.prems by simp
    from latest_version_step_inv [OF ps ok(2) this] ok show ?thesis
      by (auto simp: rfold_snoc)
  qed
qed

lemma item_phase:
  assumes ps: "\<forall>p \<in> set ps. listed dc p" "set qs \<subseteq> set ps" and ch: "chosen vs item = (if item \<in> pn_of dc ` set ps then Some fn else None)"
    and fn: "item \<in> pn_of dc ` set ps \<Longrightarrow> fn \<in> set es" and "es \<noteq> []"
  shows "\<exists>es'. rfold (item_step dc item vs) qs es = Inr es' \<and> mset es' = mset es \<and>
    (item \<in> pn_of dc ` set qs \<longrightarrow> hd es' = fn)"
  using ps(2)
proof (induction qs rule: rev_induct)
  case (snoc q qs)
  then obtain es' where es': "rfold (item_step dc item vs) qs es = Inr es'" "mset es' = mset es"
    "item \<in> pn_of dc ` set qs \<longrightarrow> hd es' = fn" by auto
  have q: "dget (dc_pkg_fn dc) q = Some (pn_of dc q)" using snoc.prems ps(1) by (auto simp: listed_def)
  show ?case
  proof (cases "pn_of dc q = item")
    case True
    then have i: "item \<in> pn_of dc ` set ps" using snoc.prems by auto
    with ch obtain ver where v: "dget vs item = Some (Some (ver, fn))"
      by (auto simp: chosen_def split: option.splits)
    have "fn \<in> set es'" using fn [OF i] es'(2) by (metis set_mset_mset)
    then have "item_step dc item vs q es' = Inr (to_front fn es')"
      using True q v by (simp add: item_step_def ditem_def)
    moreover have "mset (to_front fn es') = mset es" unfolding es'(2) [symmetric]
      using \<open>fn \<in> set es'\<close> by (simp add: to_front_def)
    ultimately show ?thesis using es'(1) by (simp add: rfold_snoc to_front_def)
  next
    case False
    then have "item_step dc item vs q es' = Inr es'" using q by (simp add: item_step_def ditem_def)
    with False es' show ?thesis by (simp add: rfold_snoc image_iff)
  qed
qed simp

text \<open>
  \<open>_filterProviders\<close> keeps exactly one recipe file per package name among the providers and
  puts the one of the package named like the item first; it never answers 0 for a non-empty list,
  and raises only what comparing two versions raises.
\<close>

theorem filter_eligible_one_per_package:
  assumes ps: "\<forall>p \<in> set providers. listed dc p" and ne: "providers \<noteq> []"
  shows "(\<exists>e. vercmp_error dc providers e \<and> filter_eligible gv dc item providers = Inl e) \<or>
    (\<exists>es. filter_eligible gv dc item providers = Inr (Some es) \<and> distinct es \<and> set es \<subseteq> set providers \<and>
       bij_betw (pn_of dc) (set es) (pn_of dc ` set providers) \<and>
       (item \<in> pn_of dc ` set providers \<longrightarrow> es \<noteq> [] \<and> pn_of dc (hd es) = item))"
proof -
  let ?ps = "sort providers"
  have ps': "\<forall>p \<in> set ?ps. listed dc p" using ps by simp
  from collate_ok [OF ps'] obtain d where d: "collate dc ?ps = Inr d" "set (dkeys d) = pn_of dc ` set ?ps"
    "dwf d" "\<forall>pn. ddefault d pn = filter (\<lambda>p. pn_of dc p = pn) ?ps" by blast
  from preferred_phase [OF ps' d(2,4) subset_refl d(3)] obtain s1 where
    s1: "rfold (preferred_step gv dc d) (dkeys d) \<lparr>fs_sortpkg = [], fs_versions = [], fs_eligible = []\<rparr> = Inr s1"
    "filter_inv dc ?ps (dkeys d) s1" by blast
  have k1: "set (dkeys (fs_sortpkg s1)) = set (dkeys d)" using s1(2) by (simp add: filter_inv_def)
  from latest_phase [OF ps' s1(2), of "dkeys (fs_sortpkg s1)", unfolded k1, OF subset_refl]
  consider (err) e where "vercmp_error dc ?ps e" "rfold (latest_version_step dc) (dkeys (fs_sortpkg s1)) s1 = Inl e"
    | (ok) s2 where "rfold (latest_version_step dc) (dkeys (fs_sortpkg s1)) s1 = Inr s2"
      "filter_inv dc ?ps (dkeys d) s2" "\<forall>k \<in> set (dkeys d). chosen (fs_versions s2) k \<noteq> None" by blast
  then show ?thesis
  proof cases
    case err
    then show ?thesis using d(1) s1(1) by (auto simp: filter_eligible_def vercmp_error_def)
  next
    case ok
    have el: "f \<in> set (fs_eligible s2) \<longleftrightarrow> (\<exists>k. chosen (fs_versions s2) k = Some f)" for f
      using ok(2) by (simp add: filter_inv_def)
    have ch: "chosen (fs_versions s2) k = Some f \<Longrightarrow> f \<in> set ?ps \<and> pn_of dc f = k" for k f
      using ok(2) by (simp add: filter_inv_def)
    have all: "k \<in> pn_of dc ` set ?ps \<Longrightarrow> \<exists>f. chosen (fs_versions s2) k = Some f" for k
      using ok(3) [unfolded d(2)] by blast
    have ne2: "fs_eligible s2 \<noteq> []"
      using all [of "pn_of dc (hd providers)"] el ne by fastforce
    define fn where "fn = the (chosen (fs_versions s2) item)"
    have c: "chosen (fs_versions s2) item = (if item \<in> pn_of dc ` set ?ps then Some fn else None)"
    proof (cases "item \<in> pn_of dc ` set ?ps")
      case True
      then show ?thesis using all [OF True] by (auto simp: fn_def)
    next
      case False
      then have "chosen (fs_versions s2) item \<noteq> Some f" for f using ch [of item f] by blast
      with False show ?thesis by (cases "chosen (fs_versions s2) item") auto
    qed
    have "item \<in> pn_of dc ` set ?ps \<Longrightarrow> fn \<in> set (fs_eligible s2)" using el c by auto
    from item_phase [OF ps' subset_refl c this ne2] obtain es where
      es: "rfold (item_step dc item (fs_versions s2)) ?ps (fs_eligible s2) = Inr es"
      "mset es = mset (fs_eligible s2)" "item \<in> pn_of dc ` set ?ps \<longrightarrow> hd es = fn" by blast
    have r: "filter_eligible gv dc item providers = Inr (Some es)"
      using d(1) s1(1) ok(1) ne2 es(1) by (simp add: filter_eligible_def)
    have set_es: "set es = set (fs_eligible s2)" using es(2) by (metis set_mset_mset)
    have "distinct es" using es(2) ok(2) by (metis filter_inv_def mset_eq_imp_distinct_iff)
    moreover have "set es \<subseteq> set providers" using set_es el ch by auto
    moreover have "bij_betw (pn_of dc) (set es) (pn_of dc ` set providers)"
      unfolding bij_betw_def set_es
    proof
      show "inj_on (pn_of dc) (set (fs_eligible s2))"
        by (rule inj_onI) (metis ch el option.inject)
      show "pn_of dc ` set (fs_eligible s2) = pn_of dc ` set providers"
      proof (intro equalityI subsetI)
        fix k assume "k \<in> pn_of dc ` set (fs_eligible s2)"
        then obtain f k' where "k = pn_of dc f" "chosen (fs_versions s2) k' = Some f" using el by blast
        with ch [of k' f] show "k \<in> pn_of dc ` set providers" by auto
      next
        fix k assume "k \<in> pn_of dc ` set providers"
        then obtain f where "chosen (fs_versions s2) k = Some f" using all [of k] by auto
        with el ch [of k f] show "k \<in> pn_of dc ` set (fs_eligible s2)" by blast
      qed
    qed
    moreover have "item \<in> pn_of dc ` set providers \<longrightarrow> es \<noteq> [] \<and> pn_of dc (hd es) = item"
    proof
      assume i: "item \<in> pn_of dc ` set providers"
      then have "pn_of dc fn = item" using c ch [of item fn] by simp
      moreover have "es \<noteq> []" using es(2) ne2 by (cases es) auto
      ultimately show "es \<noteq> [] \<and> pn_of dc (hd es) = item" using es(3) i by simp
    qed
    ultimately show ?thesis using r by blast
  qed
qed


definition providers_x :: "string list" where
  "providers_x = ddefault (dc_providers demo_cache) ''x''"

theorem filter_eligible_one_per_package_witness:
  "filter_eligible (\<lambda>v. None) demo_cache ''b'' providers_x = Inr (Some [''b1'', ''a3'']) \<and>
   pn_of demo_cache (hd [''b1'', ''a3'']) = ''b''"
proof -
  have p: "\<forall>p \<in> set providers_x. listed demo_cache p" "providers_x \<noteq> []" by code_simp+
  have r: "filter_eligible (\<lambda>v. None) demo_cache ''b'' providers_x = Inr (Some [''b1'', ''a3''])" by code_simp
  have "''b'' \<in> pn_of demo_cache ` set providers_x" by code_simp
  with filter_eligible_one_per_package [OF p, of "\<lambda>v. None" "''b''"] r show ?thesis by auto
qed

lemma select_pn_find:
  "\<forall>p \<in> set ps. dget (dc_pkg_fn dc) p = Some (pn_of dc p) \<Longrightarrow>
     select_pn dc pref ps es = Inr (case find (\<lambda>p. pn_of dc p = pref) ps of
       None \<Rightarrow> (es, False) | Some p \<Rightarrow> (to_front p es, True))"
  by (induction ps) (auto simp: ditem_def)

lemma mset_to_front: "p \<in> set es \<Longrightarrow> mset (to_front p es) = mset es"
  by (simp add: to_front_def)

lemma select_pn_result:
  assumes "\<forall>p \<in> set es. dget (dc_pkg_fn dc) p = Some (pn_of dc p)"
  shows "\<exists>es' found. select_pn dc pref es es = Inr (es', found) \<and> mset es' = mset es \<and>
    (found \<longleftrightarrow> pref \<in> pn_of dc ` set es) \<and> (found \<longrightarrow> es' \<noteq> [] \<and> pn_of dc (hd es') = pref)"
proof (cases "find (\<lambda>p. pn_of dc p = pref) es")
  case None
  then have "pref \<notin> pn_of dc ` set es" by (auto simp: find_None_iff)
  with None select_pn_find [OF assms] show ?thesis by auto
next
  case (Some p)
  then have "p \<in> set es" "pn_of dc p = pref" by (auto simp: find_Some_iff)
  then show ?thesis
    using select_pn_find [OF assms] Some by (auto simp: mset_to_front; simp add: to_front_def)
qed

text \<open>
  C34: \<open>filterProviders\<close> honours the preferred provider: it is found exactly when a provider of
  the preferred package exists, and then heads the answer, which still has one file per package.
  The preference is PREFERRED_PROVIDER of the item, remembered in the cache, or an earlier one.
\<close>

theorem filterProviders_preferred:
  assumes ps: "\<forall>p \<in> set providers. listed dc p" and ne: "providers \<noteq> []"
    and pref: "pref = (if truthy (gv (''PREFERRED_PROVIDER_'' @ item)) then gv (''PREFERRED_PROVIDER_'' @ item)
                       else dget (dc_preferred dc) item)"
  shows "(\<exists>e. vercmp_error dc providers e \<and> filterProviders gv providers item dc = Inl e) \<or>
    (\<exists>dc' es found. filterProviders gv providers item dc = Inr (dc', Some es, found) \<and>
       dget (dc_preferred dc') item = pref \<and> distinct es \<and>
       bij_betw (pn_of dc) (set es) (pn_of dc ` set providers) \<and>
       (found \<longleftrightarrow> (\<exists>pn \<in> pn_of dc ` set providers. pref = Some pn)) \<and>
       (found \<longrightarrow> es \<noteq> [] \<and> Some (pn_of dc (hd es)) = pref))"
proof -
  define dc' where "dc' = (if truthy (gv (''PREFERRED_PROVIDER_'' @ item))
    then dc\<lparr>dc_preferred := dset item (the (gv (''PREFERRED_PROVIDER_'' @ item))) (dc_preferred dc)\<rparr> else dc)"
  have p': "dget (dc_preferred dc') item = pref"
    by (auto simp: dc'_def pref dict_simps truthy_def)
  have fn: "dc_pkg_fn dc' = dc_pkg_fn dc" by (simp add: dc'_def)
  then have pn: "pn_of dc' = pn_of dc" by (intro ext) (simp add: pn_of_def)
  have eq: "filterProviders gv providers item dc = rbind (filter_eligible gv dc item providers)
    (\<lambda>eligible. case dget (dc_preferred dc') item of
            None \<Rightarrow> Inr (dc', eligible, False)
          | Some pref \<Rightarrow> (case eligible of
              None \<Rightarrow> Inl TypeError
            | Some es \<Rightarrow> rbind (select_pn dc' pref es es) (\<lambda>(es', found). Inr (dc', Some es', found))))"
    by (simp only: filterProviders_def Let_def dc'_def)
  from filter_eligible_one_per_package [OF ps ne, of gv item]
  consider (err) e where "vercmp_error dc providers e" "filter_eligible gv dc item providers = Inl e"
    | (ok) es where "filter_eligible gv dc item providers = Inr (Some es)" "distinct es"
      "set es \<subseteq> set providers" "bij_betw (pn_of dc) (set es) (pn_of dc ` set providers)" by blast
  then show ?thesis
  proof cases
    case err
    then show ?thesis by (auto simp: eq)
  next
    case ok
    have im: "pn_of dc ` set es = pn_of dc ` set providers" using ok(4) by (simp add: bij_betw_def)
    show ?thesis
    proof (cases pref)
      case None
      then have "filterProviders gv providers item dc = Inr (dc', Some es, False)"
        using ok(1) p' by (simp add: eq)
      with None ok p' show ?thesis by auto
    next
      case (Some pn)
      have "\<forall>p \<in> set es. dget (dc_pkg_fn dc') p = Some (pn_of dc' p)"
        using ps ok(3) unfolding fn pn by (auto simp: listed_def)
      from select_pn_result [OF this, of pn] obtain es' found where
        s: "select_pn dc' pn es es = Inr (es', found)" "mset es' = mset es"
          "found \<longleftrightarrow> pn \<in> pn_of dc ` set es" "found \<longrightarrow> es' \<noteq> [] \<and> pn_of dc (hd es') = pn"
        unfolding pn by blast
      have r: "filterProviders gv providers item dc = Inr (dc', Some es', found)"
        using ok(1) p' Some s(1) by (simp add: eq)
      have "set es' = set es" "distinct es'"
        using s(2) ok(2) by (metis set_mset_mset, metis mset_eq_imp_distinct_iff)
      with r p' ok s im Some show ?thesis by auto
    qed
  qed
qed

theorem filterProviders_preferred_witness:
  "\<exists>dc'. filterProviders [''PREFERRED_PROVIDER_x'' \<mapsto> ''b''] providers_x ''x'' demo_cache =
     Inr (dc', Some [''b1'', ''a3''], True) \<and> dget (dc_preferred dc') ''x'' = Some ''b''"
proof -
  let ?gv = "[''PREFERRED_PROVIDER_x'' \<mapsto> ''b'']"
  have p: "\<forall>p \<in> set providers_x. listed demo_cache p" "providers_x \<noteq> []" by code_simp+
  have g: "Some ''b'' = (if truthy (?gv (''PREFERRED_PROVIDER_'' @ ''x'')) then ?gv (''PREFERRED_PROVIDER_'' @ ''x'')
                       else dget (dc_preferred demo_cache) ''x'')" by code_simp
  have "map_sum (\<lambda>_. ()) snd (filterProviders ?gv providers_x ''x'' demo_cache) = Inr (Some [''b1'', ''a3''], True)"
    by code_simp
  with filterProviders_preferred [of providers_x demo_cache "Some ''b''" ?gv, OF p g] show ?thesis
    by (cases "filterProviders ?gv providers_x ''x'' demo_cache") auto
qed


section \<open>Runtime providers\<close>

text \<open>
  Two providers of a runtime item, each named by a PREFERRED_PROVIDER of something it provides.
\<close>

definition conflict_cache :: datacache where
  "conflict_cache = init_cacheData
     \<lparr>dc_pkg_fn := [(''f'', ''a''), (''g'', ''b'')],
      dc_pkg_pepvpr := [(''f'', (EStr [], ''1'', ''r0'')), (''g'', (EStr [], ''1'', ''r0''))],
      dc_pkg_dp := [(''f'', 0), (''g'', 0)],
      dc_pn_provides := [(''a'', [''va'']), (''b'', [''vb''])],
      dc_bbfile_priority := [(''f'', 5), (''g'', 5)]\<rparr>"

definition conflict_gv :: "string \<Rightarrow> string option" where
  "conflict_gv = [''PREFERRED_PROVIDER_va'' \<mapsto> ''a'', ''PREFERRED_PROVIDER_vb'' \<mapsto> ''b'']"

text \<open>
  \<open>filterProvidersRunTime\<close> can miss conflicting PREFERRED_PROVIDER entries. Both providers
  of the item are preferred here, but the first \<open>eligible.remove\<close> shortens the list the loop runs
  over, the second provider is never looked at, and the count reported is 1, not 2.
\<close>

theorem runtime_conflict_missed:
  "filterProvidersRunTime conflict_gv [''f'', ''g''] ''r'' conflict_cache = Inr (Some [''f'', ''g''], 1) \<and>
   rt_preferred conflict_gv [(''a'', ''f''), (''b'', ''g'')]
     (ddefault (dc_pn_provides conflict_cache) ''a'') [''f''] = None \<and>
   rt_preferred conflict_gv [(''a'', ''f''), (''b'', ''g'')]
     (ddefault (dc_pn_provides conflict_cache) ''b'') [''f''] = Some ''g''"
  by code_simp

text \<open>The moves of the second loop only reorder the eligible files.\<close>

lemma rt_loop_result:
  assumes "\<forall>p \<in> set iterated. dget (dc_pkg_fn dc) p \<noteq> None" "\<forall>f. (\<exists>pn. dget pns pn = Some f) \<longrightarrow> f \<in> set eligible"
    and "distinct preferred" "set preferred \<subseteq> set eligible"
  shows "\<exists>es' pref'. rt_loop gv dc pns iterated i aliased eligible preferred = Inr (es', pref') \<and>
    mset es' = mset eligible \<and> distinct pref' \<and> set pref' \<subseteq> set eligible \<and>
    (pref' = preferred \<and> es' = eligible \<or> es' \<noteq> [] \<and> pref' \<noteq> [] \<and> hd es' = last pref')"
  using assms
proof (induction gv dc pns iterated i aliased eligible preferred rule: rt_loop.induct)
  case (1 gv dc pns iterated i aliased eligible preferred)
  show ?case
  proof (cases "i \<ge> length iterated")
    case True
    then show ?thesis using "1.prems" by (subst rt_loop.simps) simp
  next
    case False
    then obtain pn where pn: "dget (dc_pkg_fn dc) (iterated ! i) = Some pn"
      using "1.prems"(1) by (metis not_less nth_mem option.exhaust)
    then have i: "ditem (dc_pkg_fn dc) (iterated ! i) = Inr pn" by (simp add: ditem_def)
    show ?thesis
    proof (cases "rt_preferred gv pns (ddefault (dc_pn_provides dc) pn) preferred")
      case None
      with "1.IH"(1) [OF False i None] "1.prems" False i show ?thesis
        by (subst rt_loop.simps) simp
    next
      case (Some f)
      have f: "(\<exists>pn. dget pns pn = Some f) \<and> f \<notin> set preferred"
      proof -
        from Some obtain v vs where v: "dropWhile (\<lambda>provide. case gv (''PREFERRED_PROVIDER_'' @ provide) of
             None \<Rightarrow> True
           | Some v \<Rightarrow> (case dget pns v of None \<Rightarrow> True | Some f \<Rightarrow> f \<in> set preferred))
           (ddefault (dc_pn_provides dc) pn) = v # vs" "dget pns (the (gv (''PREFERRED_PROVIDER_'' @ v))) = Some f"
          unfolding rt_preferred_def by (auto split: list.splits)
        from hd_dropWhile [of _ "ddefault (dc_pn_provides dc) pn"] v(1)
        have "\<not> (case gv (''PREFERRED_PROVIDER_'' @ v) of None \<Rightarrow> True
           | Some v \<Rightarrow> (case dget pns v of None \<Rightarrow> True | Some f \<Rightarrow> f \<in> set preferred))"
          by (metis (no_types, lifting) list.distinct(1) list.sel(1))
        with v(2) show ?thesis by (auto split: option.splits)
      qed
      then have el: "f \<in> set eligible" using "1.prems"(2) by blast
      then have m: "mset (to_front f eligible) = mset eligible" by (rule mset_to_front)
      then have s: "set (to_front f eligible) = set eligible" by (metis set_mset_mset)
      let ?it = "if aliased then remove1 f iterated else iterated"
      have it: "\<forall>p \<in> set ?it. dget (dc_pkg_fn dc) p \<noteq> None"
        using "1.prems"(1) set_remove1_subset [of f iterated] by (auto split: if_splits)
      have d: "distinct (preferred @ [f])" "set (preferred @ [f]) \<subseteq> set (to_front f eligible)"
        using "1.prems"(3,4) f el s by auto
      have p: "\<forall>g. (\<exists>pn. dget pns pn = Some g) \<longrightarrow> g \<in> set (to_front f eligible)"
        unfolding s by (rule "1.prems"(2))
      have "\<not> f \<notin> set eligible" using el by simp
      from "1.IH"(2) [OF False i Some this it p d] obtain es' pref' where
        r: "rt_loop gv dc pns ?it (Suc i) False (to_front f eligible) (preferred @ [f]) = Inr (es', pref')"
          "mset es' = mset eligible" "distinct pref'" "set pref' \<subseteq> set eligible"
          "pref' = preferred @ [f] \<and> es' = to_front f eligible \<or> es' \<noteq> [] \<and> pref' \<noteq> [] \<and> hd es' = last pref'"
        unfolding m s by blast
      have "rt_loop gv dc pns iterated i aliased eligible preferred = Inr (es', pref')"
        using False i Some el r(1) by (subst rt_loop.simps) simp
      with r(2-5) show ?thesis by (auto simp: to_front_def)
    qed
  qed
qed

lemma rt_pns_ok:
  assumes "\<forall>p \<in> set es. listed dc p"
  shows "\<exists>pns. rt_pns dc es = Inr pns \<and> (\<forall>f pn. dget pns pn = Some f \<longrightarrow> f \<in> set es)"
  using assms
proof (induction es rule: rev_induct)
  case (snoc p es)
  then obtain pns where "rt_pns dc es = Inr pns" "\<forall>f pn. dget pns pn = Some f \<longrightarrow> f \<in> set es" by auto
  moreover have "dget (dc_pkg_fn dc) p = Some (pn_of dc p)" using snoc.prems by (simp add: listed_def)
  ultimately show ?case by (auto simp: rt_pns_def rfold_snoc ditem_def dict_simps split: if_splits)
qed (simp add: rt_pns_def)

text \<open>
  \<open>filterProvidersRunTime\<close> keeps one file per package as well, raises only what comparing
  versions raises, and honours PREFERRED_RPROVIDER: if a provider belongs to that package it comes
  first and is reported as the only preferred one.
\<close>

theorem filterProvidersRunTime_result:
  assumes ps: "\<forall>p \<in> set providers. listed dc p" and ne: "providers \<noteq> []"
  shows "(\<exists>e. vercmp_error dc providers e \<and> filterProvidersRunTime gv providers item dc = Inl e) \<or>
    (\<exists>es n. filterProvidersRunTime gv providers item dc = Inr (Some es, n) \<and> distinct es \<and> n \<le> length es \<and>
       bij_betw (pn_of dc) (set es) (pn_of dc ` set providers) \<and>
       (\<forall>pn \<in> pn_of dc ` set providers. gv (''PREFERRED_RPROVIDER_'' @ item) = Some pn \<and> pn \<noteq> [] \<longrightarrow>
          n = 1 \<and> pn_of dc (hd es) = pn))"
proof -
  from filter_eligible_one_per_package [OF ps ne, of gv item]
  consider (err) e where "vercmp_error dc providers e" "filter_eligible gv dc item providers = Inl e"
    | (ok) es where "filter_eligible gv dc item providers = Inr (Some es)" "distinct es"
      "set es \<subseteq> set providers" "bij_betw (pn_of dc) (set es) (pn_of dc ` set providers)" by blast
  then show ?thesis
  proof cases
    case err
    then show ?thesis by (auto simp: filterProvidersRunTime_def)
  next
    case ok
    define pv where "pv = gv (''PREFERRED_RPROVIDER_'' @ item)"
    have im: "pn_of dc ` set es = pn_of dc ` set providers" using ok(4) by (simp add: bij_betw_def)
    have l: "\<forall>p \<in> set es. dget (dc_pkg_fn dc) p = Some (pn_of dc p)" using ps ok(3) by (auto simp: listed_def)
    have eq: "filterProvidersRunTime gv providers item dc =
      rbind (if truthy pv then select_pn dc (the pv) es es else Inr (es, False))
                (\<lambda>(es', found).
                  if found then Inr (Some es', 1)
                  else rbind (rt_pns dc es') (\<lambda>pns.
                       rbind (rt_loop gv dc pns es' 0 True es' []) (\<lambda>(es'', preferred).
                         Inr (Some es'', length preferred))))"
      using ok(1) by (simp only: filterProvidersRunTime_def pv_def Let_def rbind_Inr option.case)
    from select_pn_result [OF l, of "the pv"] obtain es1 found where
      s: "(if truthy pv then select_pn dc (the pv) es es else Inr (es, False)) = Inr (es1, found)"
      "mset es1 = mset es" "found \<longrightarrow> truthy pv \<and> es1 \<noteq> [] \<and> pn_of dc (hd es1) = the pv"
      "truthy pv \<and> the pv \<in> pn_of dc ` set es \<longrightarrow> found" by (cases "truthy pv") auto
    have set1: "set es1 = set es" "distinct es1"
      using s(2) ok(2) by (metis set_mset_mset, metis mset_eq_imp_distinct_iff)
    show ?thesis
    proof (cases found)
      case True
      have "length es1 \<ge> 1" using s(3) True by (cases es1) auto
      with True s set1 ok(4) eq show ?thesis by (auto simp: pv_def truthy_def)
    next
      case False
      have l1: "\<forall>p \<in> set es1. listed dc p" using ps ok(3) set1 by auto
      from rt_pns_ok [OF l1] obtain pns where pns: "rt_pns dc es1 = Inr pns"
        "\<forall>f pn. dget pns pn = Some f \<longrightarrow> f \<in> set es1" by blast
      have a: "\<forall>p \<in> set es1. dget (dc_pkg_fn dc) p \<noteq> None" using l1 by (auto simp: listed_def)
      have b: "\<forall>f. (\<exists>pn. dget pns pn = Some f) \<longrightarrow> f \<in> set es1" using pns(2) by blast
      from rt_loop_result [OF a b, of "[]" gv 0 True] obtain es2 pr where
        r: "rt_loop gv dc pns es1 0 True es1 [] = Inr (es2, pr)" "mset es2 = mset es1" "distinct pr"
          "set pr \<subseteq> set es1" by auto
      have "length pr \<le> length es2"
        using r(2-4) by (metis distinct_card card_mono List.finite_set card_length le_trans mset_eq_length set1(2))
      moreover have "set es2 = set es" "distinct es2"
        using r(2) set1 by (metis set_mset_mset, metis mset_eq_imp_distinct_iff)
      ultimately show ?thesis
        using False s pns(1) r(1) eq ok(4) im by (auto simp: pv_def truthy_def)
    qed
  qed
qed

theorem filterProvidersRunTime_result_witness:
  "filterProvidersRunTime [''PREFERRED_RPROVIDER_x'' \<mapsto> ''b''] providers_x ''x'' demo_cache =
     Inr (Some [''b1'', ''a3''], 1) \<and> bij_betw (pn_of demo_cache) {''b1'', ''a3''} {''a'', ''b''}"
proof -
  let ?gv = "[''PREFERRED_RPROVIDER_x'' \<mapsto> ''b'']"
  have p: "\<forall>p \<in> set providers_x. listed demo_cache p" "providers_x \<noteq> []" by code_simp+
  have r: "filterProvidersRunTime ?gv providers_x ''x'' demo_cache = Inr (Some [''b1'', ''a3''], 1)" by code_simp
  have "pn_of demo_cache ` set providers_x = {''a'', ''b''}" by code_simp
  with filterProvidersRunTime_result [OF p, of ?gv "''x''"] r show ?thesis by auto
qed

lemma dynamic_providers_eq:
  assumes "\<forall>p \<in> set ps. rx (escape_plus p) \<noteq> None"
  shows "dynamic_providers rx dc rdepend ps acc =
    (if \<exists>p \<in> set ps. the (rx (escape_plus p)) rdepend \<and> dget (dc_packages_dynamic dc) (escape_plus p) = None
     then Inl RuntimeError
     else Inr (acc @ concat (map (\<lambda>p. ddefault (dc_packages_dynamic dc) (escape_plus p))
                               (filter (\<lambda>p. the (rx (escape_plus p)) rdepend) ps))))"
  using assms by (induction ps arbitrary: acc) (auto simp: ddefault_def split: option.splits)

text \<open>
  for an item without static runtime providers, \<open>getRuntimeProviders\<close> answers the recipes
  of all matching PACKAGES_DYNAMIC patterns; but if a pattern whose escaped form is not itself a
  key (one with a plus sign) matches, it raises RuntimeError instead.
\<close>

theorem getRuntimeProviders_dynamic:
  assumes "ddefault (dc_rproviders dc) item = []" "ddefault (dc_packages dc) item = []"
    and "\<forall>p \<in> set (dkeys (dc_packages_dynamic dc)). rx (escape_plus p) \<noteq> None"
  shows "getRuntimeProviders rx dc item =
    (if \<exists>p \<in> set (dkeys (dc_packages_dynamic dc)). the (rx (escape_plus p)) item \<and>
          escape_plus p \<notin> set (dkeys (dc_packages_dynamic dc))
     then Inl RuntimeError
     else Inr (concat (map (\<lambda>p. ddefault (dc_packages_dynamic dc) (escape_plus p))
            (filter (\<lambda>p. the (rx (escape_plus p)) item) (dkeys (dc_packages_dynamic dc))))))"
proof -
  have "dget (dc_packages_dynamic dc) k = None \<longleftrightarrow> k \<notin> set (dkeys (dc_packages_dynamic dc))" for k
    by (simp add: map_of_eq_None_iff)
  with dynamic_providers_eq [OF assms(3)] assms(1,2) show ?thesis
    by (simp add: getRuntimeProviders_def del: list.set_map)
qed

definition plus_cache :: datacache where
  "plus_cache = init_cacheData\<lparr>dc_packages_dynamic := [(''^lib-.*'', [''/l.bb'']), (''^c++-.*'', [''/c.bb''])]\<rparr>"

definition plus_rx :: "string \<Rightarrow> (string \<Rightarrow> bool) option" where
  "plus_rx p = Some (\<lambda>s. prefix (filter (\<lambda>c. is_ascii_letter c \<or> c = CHR ''+'' \<or> c = CHR ''-'') p) s)"

theorem getRuntimeProviders_dynamic_witness:
  "getRuntimeProviders plus_rx plus_cache ''lib-dev'' = Inr [''/l.bb''] \<and>
   getRuntimeProviders plus_rx plus_cache ''c++-dev'' = Inl RuntimeError"
proof -
  have h: "ddefault (dc_rproviders plus_cache) i = []" "ddefault (dc_packages plus_cache) i = []" for i
    by (simp_all add: plus_cache_def init_cacheData_def ddefault_def)
  have rx: "\<forall>p \<in> set (dkeys (dc_packages_dynamic plus_cache)). plus_rx (escape_plus p) \<noteq> None"
    by (simp add: plus_rx_def)
  have "(\<exists>p \<in> set (dkeys (dc_packages_dynamic plus_cache)). the (plus_rx (escape_plus p)) ''c++-dev'' \<and>
          escape_plus p \<notin> set (dkeys (dc_packages_dynamic plus_cache)))" by code_simp
  moreover have "\<not> (\<exists>p \<in> set (dkeys (dc_packages_dynamic plus_cache)). the (plus_rx (escape_plus p)) ''lib-dev'' \<and>
          escape_plus p \<notin> set (dkeys (dc_packages_dynamic plus_cache)))" by code_simp
  moreover have "concat (map (\<lambda>p. ddefault (dc_packages_dynamic plus_cache) (escape_plus p))
            (filter (\<lambda>p. the (plus_rx (escape_plus p)) ''lib-dev'') (dkeys (dc_packages_dynamic plus_cache)))) = [''/l.bb'']"
    by code_simp
  ultimately show ?thesis
    unfolding getRuntimeProviders_dynamic [OF h rx] by (simp del: list.set_map)
qed

section \<open>The world target\<close>

definition world_terminal :: "datacache \<Rightarrow> string option \<Rightarrow> string \<Rightarrow> bool" where
  "world_terminal dc task f \<longleftrightarrow>
     (\<forall>t. task = Some t \<and> t \<noteq> [] \<longrightarrow> t \<in> set (td_tasks (the (dget (dc_task_deps dc) f)))) \<and>
     (\<forall>p \<in> set (ddefault (dc_pn_provides dc) (pn_of dc f)).
        \<not> prefix ''virtual/'' p \<and> (\<forall>g \<in> set (ddefault (dc_providers dc) p). pn_of dc g = pn_of dc f))"

lemma same_pn_eq:
  "\<forall>g \<in> set gs. g \<in> set (dkeys (dc_pkg_fn dc)) \<Longrightarrow>
     same_pn dc pn gs = Inr (\<forall>g \<in> set gs. pn_of dc g = pn)"
proof (induction gs)
  case (Cons g gs)
  then have "g \<in> set (dkeys (dc_pkg_fn dc))" by simp
  then obtain p where "dget (dc_pkg_fn dc) g = Some p" unfolding dget_Some_key by blast
  with Cons show ?case by (auto simp: ditem_def pn_of_def)
qed simp

lemma world_provides_eq:
  assumes "\<forall>p \<in> set ps. \<forall>g \<in> set (ddefault (dc_providers dc) p). g \<in> set (dkeys (dc_pkg_fn dc))"
  shows "world_provides dc pn ps b = Inr (b \<and> (\<forall>p \<in> set ps. \<not> prefix ''virtual/'' p \<and>
    (\<forall>g \<in> set (ddefault (dc_providers dc) p). pn_of dc g = pn)))"
  using assms
proof (induction ps arbitrary: b)
  case (Cons p ps)
  then have "same_pn dc pn (ddefault (dc_providers dc) p) =
    Inr (\<forall>g \<in> set (ddefault (dc_providers dc) p). pn_of dc g = pn)" by (intro same_pn_eq) simp
  with Cons show ?case by auto
qed simp

lemma cache_wf_lookup:
  assumes "cache_wf dc" "fn \<in> set (dkeys (dc_pkg_fn dc))"
  shows "dget (dc_pkg_fn dc) fn = Some (pn_of dc fn)" "\<exists>td. dget (dc_task_deps dc) fn = Some td"
proof -
  show "dget (dc_pkg_fn dc) fn = Some (pn_of dc fn)"
    using assms(2) unfolding dget_Some_key pn_of_def by auto
  have "fn \<in> set (dkeys (dc_task_deps dc))" using assms by (simp add: cache_wf_def keyed_def)
  then show "\<exists>td. dget (dc_task_deps dc) fn = Some td" unfolding dget_Some_key .
qed

lemma cache_wf_provider:
  "cache_wf dc \<Longrightarrow> g \<in> set (ddefault (dc_providers dc) p) \<Longrightarrow> g \<in> set (dkeys (dc_pkg_fn dc))"
  unfolding cache_wf_def by (metis empty_iff list.set(1))

lemma world_step_eq:
  assumes wf: "cache_wf dc" and f: "f \<in> set (dkeys (dc_pkg_fn dc))"
  shows "world_step dc task f w = Inr (if world_terminal dc task f then sadd (pn_of dc f) w else w)"
proof -
  from cache_wf_lookup [OF assms] obtain td where
    l: "dget (dc_pkg_fn dc) f = Some (pn_of dc f)" "dget (dc_task_deps dc) f = Some td" by blast
  have "\<forall>p \<in> set (ddefault (dc_pn_provides dc) (pn_of dc f)). \<forall>g \<in> set (ddefault (dc_providers dc) p).
    g \<in> set (dkeys (dc_pkg_fn dc))" using cache_wf_provider [OF wf] by blast
  note wp = world_provides_eq [OF this]
  show ?thesis
  proof (cases task)
    case None
    then show ?thesis by (simp add: world_step_def l ditem_def wp world_terminal_def)
  next
    case (Some t)
    then show ?thesis by (cases t) (auto simp: world_step_def l ditem_def wp world_terminal_def)
  qed
qed

text \<open>
  on consistent tables \<open>buildWorldTargetList\<close> never raises, and the world consists of the
  packages of those possible recipes that have the task, provide nothing under virtual/ and share
  none of the names they provide with another package.
\<close>

theorem buildWorldTargetList_world:
  assumes "cache_wf dc" "dc_world_target dc = []"
  shows "\<exists>dc'. buildWorldTargetList dc task = Inr dc' \<and>
    set (dc_world_target dc') = pn_of dc ` {f \<in> set (dc_possible_world dc). world_terminal dc task f}"
proof -
  have "set fs \<subseteq> set (dkeys (dc_pkg_fn dc)) \<Longrightarrow>
    \<exists>w. rfold (world_step dc task) fs [] = Inr w \<and>
      set w = pn_of dc ` {f \<in> set fs. world_terminal dc task f}" for fs
  proof (induction fs rule: rev_induct)
    case (snoc f fs)
    then obtain w where w: "rfold (world_step dc task) fs [] = Inr w"
      "set w = pn_of dc ` {f \<in> set fs. world_terminal dc task f}" by auto
    have "f \<in> set (dkeys (dc_pkg_fn dc))" using snoc.prems by simp
    from world_step_eq [OF assms(1) this, of task w] w show ?case by (auto simp: rfold_snoc)
  qed simp
  moreover have "set (dc_possible_world dc) \<subseteq> set (dkeys (dc_pkg_fn dc))"
    using assms(1) unfolding cache_wf_def by blast
  ultimately obtain w where "rfold (world_step dc task) (dc_possible_world dc) [] = Inr w"
    "set w = pn_of dc ` {f \<in> set (dc_possible_world dc). world_terminal dc task f}" by blast
  then show ?thesis by (simp add: buildWorldTargetList_def assms(2))
qed

text \<open>Two recipes added to an empty cache; the second provides a virtual name.\<close>

definition world_add :: "string \<Rightarrow> string \<Rightarrow> string \<Rightarrow> datacache \<Rightarrow> datacache" where
  "world_add fn pn provides dc =
     (case read_recipe (demo_recipe\<lparr>md_var := [''PN'' \<mapsto> pn, ''PROVIDES'' \<mapsto> provides]\<rparr>) of
        Inr (rh, Some rc) \<Rightarrow> (case add_cacheData (rh, Some rc) fn dc of Inr (dc', _) \<Rightarrow> dc' | Inl _ \<Rightarrow> dc)
      | _ \<Rightarrow> dc)"

definition world_cache :: datacache where
  "world_cache = world_add ''/linux.bb'' ''linux'' ''virtual/kernel'' (world_add ''/bash.bb'' ''bash'' ''sh'' init_cacheData)"

lemma cache_wf_world_add:
  "cache_wf dc \<Longrightarrow> fn \<notin> set (dkeys (dc_pkg_fn dc)) \<Longrightarrow> cache_wf (world_add fn pn provides dc)"
  by (auto simp: world_add_def intro: cache_wf_add [unfolded list.set_map] split: sum.split option.split prod.split)

theorem buildWorldTargetList_world_witness:
  "\<exists>dc'. buildWorldTargetList world_cache None = Inr dc' \<and> set (dc_world_target dc') = {''bash''}"
proof -
  have "''/bash.bb'' \<notin> set (dkeys (dc_pkg_fn init_cacheData))" by code_simp
  from cache_wf_world_add [OF cache_wf_init this]
  have w: "cache_wf (world_add ''/bash.bb'' ''bash'' ''sh'' init_cacheData)" .
  have "''/linux.bb'' \<notin> set (dkeys (dc_pkg_fn (world_add ''/bash.bb'' ''bash'' ''sh'' init_cacheData)))" by code_simp
  from cache_wf_world_add [OF w this] have "cache_wf world_cache" by (simp add: world_cache_def)
  moreover have "dc_world_target world_cache = []" by code_simp
  moreover have "dc_possible_world world_cache = [''/bash.bb'', ''/linux.bb'']"
    "ddefault (dc_pn_provides world_cache) (pn_of world_cache ''/bash.bb'') = [''bash'', ''sh'']"
    "ddefault (dc_pn_provides world_cache) (pn_of world_cache ''/linux.bb'') = [''linux'', ''virtual/kernel'']"
    "ddefault (dc_providers world_cache) ''bash'' = [''/bash.bb'']" "ddefault (dc_providers world_cache) ''sh'' = [''/bash.bb'']"
    "pn_of world_cache ''/bash.bb'' = ''bash''" by code_simp+
  ultimately have "{f \<in> set (dc_possible_world world_cache). world_terminal world_cache None f} = {''/bash.bb''}"
    "pn_of world_cache ''/bash.bb'' = ''bash''"
    by (auto simp: world_terminal_def)
  with buildWorldTargetList_world [of world_cache None] \<open>cache_wf world_cache\<close> \<open>dc_world_target world_cache = []\<close>
  show ?thesis by simp
qed

end
