(* ===== verification/BB_Effects.thy ===== *)
theory BB_Effects
  imports BB_Base
begin

text \<open>
  Code that mutates its state and may raise: a function from a state to an outcome and the state
  it leaves behind. An exception does not undo what was done before it, so a handler sees the
  state as the raising code left it. \<open>valid m s Q E\<close> is the weakest precondition: from state s,
  m either returns with Q or raises with E.
\<close>

type_synonym ('s, 'a) eff = "'s \<Rightarrow> 'a res \<times> 's"

definition mret :: "'a \<Rightarrow> ('s, 'a) eff" where
  "mret x = (\<lambda>s. (Inr x, s))"

definition mraise :: "exc \<Rightarrow> ('s, 'a) eff" where
  "mraise e = (\<lambda>s. (Inl e, s))"

definition mbind :: "('s, 'a) eff \<Rightarrow> ('a \<Rightarrow> ('s, 'b) eff) \<Rightarrow> ('s, 'b) eff" where
  "mbind m f = (\<lambda>s. case m s of (Inl e, s') \<Rightarrow> (Inl e, s') | (Inr x, s') \<Rightarrow> f x s')"

definition mget :: "('s \<Rightarrow> 'a) \<Rightarrow> ('s, 'a) eff" where
  "mget f = (\<lambda>s. (Inr (f s), s))"

definition mmod :: "('s \<Rightarrow> 's) \<Rightarrow> ('s, unit) eff" where
  "mmod f = (\<lambda>s. (Inr (), f s))"

definition mlift :: "'a res \<Rightarrow> ('s, 'a) eff" where
  "mlift r = (\<lambda>s. (r, s))"

definition mtry :: "('s, 'a) eff \<Rightarrow> (exc \<Rightarrow> ('s, 'a) eff) \<Rightarrow> ('s, 'a) eff" where
  "mtry m h = (\<lambda>s. case m s of (Inl e, s') \<Rightarrow> h e s' | (Inr x, s') \<Rightarrow> (Inr x, s'))"

abbreviation mwhen :: "bool \<Rightarrow> ('s, unit) eff \<Rightarrow> ('s, unit) eff" where
  "mwhen b m \<equiv> (if b then m else mret ())"

abbreviation mseq :: "('s, 'a) eff \<Rightarrow> ('s, 'b) eff \<Rightarrow> ('s, 'b) eff" where
  "mseq m n \<equiv> mbind m (\<lambda>_. n)"

fun mfor :: "'x list \<Rightarrow> ('x \<Rightarrow> ('s, unit) eff) \<Rightarrow> ('s, unit) eff" where
  "mfor [] f = mret ()"
| "mfor (x # xs) f = mseq (f x) (mfor xs f)"

text \<open>A loop whose body may leave it: it stops after the first True and answers whether it did.\<close>

fun mfor_until :: "'x list \<Rightarrow> ('x \<Rightarrow> ('s, bool) eff) \<Rightarrow> ('s, bool) eff" where
  "mfor_until [] f = mret False"
| "mfor_until (x # xs) f = mbind (f x) (\<lambda>b. if b then mret True else mfor_until xs f)"

fun mmap :: "('x \<Rightarrow> ('s, 'y) eff) \<Rightarrow> 'x list \<Rightarrow> ('s, 'y list) eff" where
  "mmap f [] = mret []"
| "mmap f (x # xs) = mbind (f x) (\<lambda>y. mbind (mmap f xs) (\<lambda>ys. mret (y # ys)))"

lemma mbind_cong [fundef_cong]:
  assumes "m s = m' s'" "s = s'" "\<And>x t. m' s' = (Inr x, t) \<Longrightarrow> f x t = g x t"
  shows "mbind m f s = mbind m' g s'"
  using assms by (auto simp: mbind_def split: prod.split sum.split)

section \<open>Weakest preconditions\<close>

definition valid :: "('s, 'a) eff \<Rightarrow> 's \<Rightarrow> ('a \<Rightarrow> 's \<Rightarrow> bool) \<Rightarrow> (exc \<Rightarrow> 's \<Rightarrow> bool) \<Rightarrow> bool" where
  "valid m s Q E \<longleftrightarrow> (case m s of (Inl e, s') \<Rightarrow> E e s' | (Inr x, s') \<Rightarrow> Q x s')"

named_theorems wp \<open>weakest preconditions of the combinators\<close>

lemma valid_mret [wp, simp]: "valid (mret x) s Q E \<longleftrightarrow> Q x s"
  by (simp add: valid_def mret_def)

lemma valid_mraise [wp, simp]: "valid (mraise e) s Q E \<longleftrightarrow> E e s"
  by (simp add: valid_def mraise_def)

lemma valid_mget [wp, simp]: "valid (mget f) s Q E \<longleftrightarrow> Q (f s) s"
  by (simp add: valid_def mget_def)

lemma valid_mmod [wp, simp]: "valid (mmod f) s Q E \<longleftrightarrow> Q () (f s)"
  by (simp add: valid_def mmod_def)

lemma valid_mlift [wp, simp]:
  "valid (mlift r) s Q E \<longleftrightarrow> (case r of Inl e \<Rightarrow> E e s | Inr x \<Rightarrow> Q x s)"
  by (simp add: valid_def mlift_def)

lemma valid_mbind [wp, simp]: "valid (mbind m f) s Q E \<longleftrightarrow> valid m s (\<lambda>x s'. valid (f x) s' Q E) E"
  by (auto simp: valid_def mbind_def split: prod.split sum.split)

lemma valid_mtry [wp, simp]: "valid (mtry m h) s Q E \<longleftrightarrow> valid m s Q (\<lambda>e s'. valid (h e) s' Q E)"
  by (auto simp: valid_def mtry_def split: prod.split sum.split)

lemma valid_conseq:
  assumes "valid m s Q E" "\<And>x s'. Q x s' \<Longrightarrow> Q' x s'" "\<And>e s'. E e s' \<Longrightarrow> E' e s'"
  shows "valid m s Q' E'"
  using assms by (auto simp: valid_def split: prod.splits sum.splits)

lemma valid_bindI:
  assumes "valid m s R E" "\<And>x t. R x t \<Longrightarrow> valid (f x) t Q E"
  shows "valid (mbind m f) s Q E"
  unfolding valid_mbind by (rule valid_conseq [OF assms(1)]) (use assms(2) in auto)

lemma valid_conj:
  "valid m s Q E \<Longrightarrow> valid m s Q' E' \<Longrightarrow> valid m s (\<lambda>x s'. Q x s' \<and> Q' x s') (\<lambda>e s'. E e s' \<and> E' e s')"
  by (auto simp: valid_def split: prod.splits sum.splits)

text \<open>The invariant of a loop speaks of the elements done so far.\<close>

lemma valid_mfor:
  assumes "I [] s"
    and "\<And>pre x post t. xs = pre @ x # post \<Longrightarrow> I pre t \<Longrightarrow> valid (f x) t (\<lambda>_. I (pre @ [x])) E"
  shows "valid (mfor xs f) s (\<lambda>_. I xs) E"
proof -
  have "valid (mfor ys f) t (\<lambda>_. I xs) E" if "xs = pre @ ys" "I pre t" for pre ys t
    using that
  proof (induction ys arbitrary: pre t)
    case (Cons y ys)
    then have "valid (f y) t (\<lambda>_. I (pre @ [y])) E" by (intro assms(2)) auto
    moreover have "valid (mfor ys f) t' (\<lambda>_. I xs) E" if "I (pre @ [y]) t'" for t'
      using Cons that by (intro Cons.IH) auto
    ultimately show ?case by (auto intro: valid_conseq)
  qed simp
  from this [of "[]" xs s] assms(1) show ?thesis by simp
qed

lemma valid_mfor_simple:
  assumes "I s" and "\<And>x t. x \<in> set xs \<Longrightarrow> I t \<Longrightarrow> valid (f x) t (\<lambda>_. I) E"
  shows "valid (mfor xs f) s (\<lambda>_. I) E"
  using assms by (intro valid_mfor [where I = "\<lambda>_. I"]) auto

lemma valid_mmap_simple:
  assumes "I s" and "\<And>x t. x \<in> set xs \<Longrightarrow> I t \<Longrightarrow> valid (f x) t (\<lambda>_. I) E"
  shows "valid (mmap f xs) s (\<lambda>_. I) E"
  using assms
proof (induction xs arbitrary: s)
  case (Cons x xs)
  then have v: "valid (f x) s (\<lambda>_. I) E" by simp
  have w: "valid (mmap f xs) t (\<lambda>_. I) E" if "I t" for t
    using Cons.IH [OF that] Cons.prems(2) by simp
  show ?case by (simp, rule valid_conseq [OF v]) (use w in auto)
qed simp

lemma valid_mmap:
  assumes "I [] [] s"
    and "\<And>pre x post ys t. xs = pre @ x # post \<Longrightarrow> I pre ys t \<Longrightarrow>
           valid (f x) t (\<lambda>y. I (pre @ [x]) (ys @ [y])) E"
  shows "valid (mmap f xs) s (I xs) E"
proof -
  have "valid (mmap f zs) t (\<lambda>ws. I xs (ys @ ws)) E" if "xs = pre @ zs" "I pre ys t" for pre ys zs t
    using that
  proof (induction zs arbitrary: pre ys t)
    case (Cons z zs)
    then have v: "valid (f z) t (\<lambda>y. I (pre @ [z]) (ys @ [y])) E" by (intro assms(2)) auto
    have w: "valid (mmap f zs) t' (\<lambda>ws. I xs ((ys @ [y]) @ ws)) E" if "I (pre @ [z]) (ys @ [y]) t'" for y t'
      using Cons that by (intro Cons.IH) auto
    show ?case by (simp, rule valid_conseq [OF v]) (use w in auto)
  qed simp
  from this [of "[]" xs "[]" s] assms(1) show ?thesis by simp
qed

lemma valid_mfor_until:
  assumes "I [] s"
    and "\<And>pre x post t. xs = pre @ x # post \<Longrightarrow> I pre t \<Longrightarrow>
           valid (f x) t (\<lambda>b t'. if b then J t' else I (pre @ [x]) t') E"
  shows "valid (mfor_until xs f) s (\<lambda>b t. if b then J t else I xs t) E"
proof -
  have "valid (mfor_until ys f) t (\<lambda>b t. if b then J t else I xs t) E" if "xs = pre @ ys" "I pre t" for pre ys t
    using that
  proof (induction ys arbitrary: pre t)
    case (Cons y ys)
    then have v: "valid (f y) t (\<lambda>b t'. if b then J t' else I (pre @ [y]) t') E" by (intro assms(2)) auto
    have w: "valid (mfor_until ys f) t' (\<lambda>b t. if b then J t else I xs t) E" if "I (pre @ [y]) t'" for t'
      using Cons that by (intro Cons.IH) auto
    show ?case unfolding mfor_until.simps valid_mbind
    proof (rule valid_conseq [OF v])
      fix b t' assume "if b then J t' else I (pre @ [y]) t'"
      then show "valid (if b then mret True else mfor_until ys f) t' (\<lambda>b t. if b then J t else I xs t) E"
        using w [of t'] by (cases b) simp_all
    qed
  qed simp
  from this [of "[]" xs s] assms(1) show ?thesis by simp
qed

lemma validD:
  "valid m s Q E \<Longrightarrow> m s = (r, s') \<Longrightarrow> (case r of Inl e \<Rightarrow> E e s' | Inr x \<Rightarrow> Q x s')"
  by (simp add: valid_def split: sum.splits)

lemma valid_no_raise:
  "valid m s Q (\<lambda>_ _. False) \<Longrightarrow> \<exists>x s'. m s = (Inr x, s') \<and> Q x s'"
  by (auto simp: valid_def split: prod.splits sum.splits)

end
