(* ===== verification/BB_TaskData.thy ===== *)
theory BB_TaskData
  imports BB_Providers BB_Tid BB_Effects
begin

text \<open>
  \<open>TaskData\<close> of \<open>lib/bb/taskdata.py\<close>: it resolves build and runtime targets to recipe files,
  collects the tasks of those files, and removes files and targets that turn out to be
  unbuildable. The state is the object together with the recipe cache, which provider selection
  writes to. Arguments: \<open>gv\<close> reads the configuration, \<open>rx\<close> compiles and matches a regular
  expression, \<open>xd\<close> runs the metadata function \<open>calculate_extra_depends\<close>, \<open>lim\<close> bounds the
  recursion of \<open>fail_fn\<close> (beyond it the interpreter raises RecursionError). Sets are enumerated
  in insertion order; events and log messages (and \<open>missing_list\<close>, which is only logged) are
  left out.
\<close>

section \<open>State\<close>

record taskentry =
  te_tdepends :: "string list"
  te_idepends :: "(string \<times> string) list"
  te_irdepends :: "(string \<times> string) list"

record taskdata =
  tk_build_targets :: "(string, string list) dict"
  tk_run_targets :: "(string, string list) dict"
  tk_external_targets :: "string list"
  tk_seenfns :: "string list"
  tk_taskentries :: "(string, taskentry) dict"
  tk_depids :: "(string, string list) dict"
  tk_rdepids :: "(string, string list) dict"
  tk_consider :: "string list"
  tk_failed_deps :: "string list"
  tk_failed_rdeps :: "string list"
  tk_failed_fns :: "string list"
  tk_abort :: bool
  tk_tryaltconfigs :: bool
  tk_allowincomplete :: bool

record tkstate = taskdata +
  tk_cache :: datacache

definition taskdata_init :: "bool \<Rightarrow> bool \<Rightarrow> bool \<Rightarrow> datacache \<Rightarrow> tkstate" where
  "taskdata_init abort tryaltconfigs allowincomplete dc =
     \<lparr>tk_build_targets = [], tk_run_targets = [], tk_external_targets = [], tk_seenfns = [],
      tk_taskentries = [], tk_depids = [], tk_rdepids = [], tk_consider = [], tk_failed_deps = [],
      tk_failed_rdeps = [], tk_failed_fns = [], tk_abort = abort, tk_tryaltconfigs = tryaltconfigs,
      tk_allowincomplete = allowincomplete, tk_cache = dc\<rparr>"

definition have_build_target :: "string \<Rightarrow> 'a taskdata_scheme \<Rightarrow> bool" where
  "have_build_target target s = (ddefault (tk_build_targets s) target \<noteq> [])"

definition have_runtime_target :: "string \<Rightarrow> 'a taskdata_scheme \<Rightarrow> bool" where
  "have_runtime_target target s = (ddefault (tk_run_targets s) target \<noteq> [])"

definition seen_target :: "string \<Rightarrow> (string, string list) dict \<Rightarrow> (string, string list) dict" where
  "seen_target name ts = (if name \<in> set (dkeys ts) then ts else dset name [] ts)"

definition add_target :: "string \<Rightarrow> string \<Rightarrow> (string, string list) dict \<Rightarrow> (string, string list) dict" where
  "add_target fn item ts =
     (case dget ts item of
        Some fns \<Rightarrow> if fn \<in> set fns then ts else dset item (fns @ [fn]) ts
      | None \<Rightarrow> dset item [fn] ts)"

definition seen_build_target :: "string \<Rightarrow> (tkstate, unit) eff" where
  "seen_build_target name = mmod (\<lambda>s. s\<lparr>tk_build_targets := seen_target name (tk_build_targets s)\<rparr>)"

definition seen_run_target :: "string \<Rightarrow> (tkstate, unit) eff" where
  "seen_run_target name = mmod (\<lambda>s. s\<lparr>tk_run_targets := seen_target name (tk_run_targets s)\<rparr>)"

definition add_build_target :: "string \<Rightarrow> string \<Rightarrow> (tkstate, unit) eff" where
  "add_build_target fn item = mmod (\<lambda>s. s\<lparr>tk_build_targets := add_target fn item (tk_build_targets s)\<rparr>)"

definition add_runtime_target :: "string \<Rightarrow> string \<Rightarrow> (tkstate, unit) eff" where
  "add_runtime_target fn item = mmod (\<lambda>s. s\<lparr>tk_run_targets := add_target fn item (tk_run_targets s)\<rparr>)"

definition mark_external_target :: "string \<Rightarrow> (tkstate, unit) eff" where
  "mark_external_target target = mmod (\<lambda>s. s\<lparr>tk_external_targets := sadd target (tk_external_targets s)\<rparr>)"

fun re_match_strings :: "(string \<Rightarrow> (string \<Rightarrow> bool) option) \<Rightarrow> string \<Rightarrow> string list \<Rightarrow> bool res" where
  "re_match_strings rx target [] = Inr False"
| "re_match_strings rx target (name # names) =
     (if name = target then Inr True
      else (case rx name of
              None \<Rightarrow> Inl RegexError
            | Some m \<Rightarrow> if m target then Inr True else re_match_strings rx target names))"

definition unresolved_targets :: "(string \<Rightarrow> (string \<Rightarrow> bool) option) \<Rightarrow> string list \<Rightarrow> string list \<Rightarrow>
    (string, string list) dict \<Rightarrow> string list res" where
  "unresolved_targets rx ignored failed ts =
     rfold (\<lambda>target unresolved.
       rbind (re_match_strings rx target ignored) (\<lambda>m.
         Inr (if m \<or> target \<in> set failed \<or> ddefault ts target \<noteq> [] then unresolved
              else unresolved @ [target])))
       (dkeys ts) []"

definition get_unresolved_build_targets ::
  "(string \<Rightarrow> (string \<Rightarrow> bool) option) \<Rightarrow> tkstate \<Rightarrow> string list res" where
  "get_unresolved_build_targets rx s =
     unresolved_targets rx (dc_ignored_dependencies (tk_cache s)) (tk_failed_deps s) (tk_build_targets s)"

definition get_unresolved_run_targets ::
  "(string \<Rightarrow> (string \<Rightarrow> bool) option) \<Rightarrow> tkstate \<Rightarrow> string list res" where
  "get_unresolved_run_targets rx s =
     unresolved_targets rx (dc_ignored_dependencies (tk_cache s)) (tk_failed_rdeps s) (tk_run_targets s)"

definition get_provider :: "string \<Rightarrow> 'a taskdata_scheme \<Rightarrow> string list res" where
  "get_provider item s = ditem (tk_build_targets s) item"

definition dependees :: "string \<Rightarrow> (string, string list) dict \<Rightarrow> string list" where
  "dependees item ids = filter (\<lambda>fn. item \<in> set (ddefault ids fn)) (dkeys ids)"

definition get_dependees :: "string \<Rightarrow> 'a taskdata_scheme \<Rightarrow> string list" where
  "get_dependees item s = dependees item (tk_depids s)"

definition get_rdependees :: "string \<Rightarrow> 'a taskdata_scheme \<Rightarrow> string list" where
  "get_rdependees item s = dependees item (tk_rdepids s)"

definition get_providermap :: "string option \<Rightarrow> 'a taskdata_scheme \<Rightarrow> (string, string) dict" where
  "get_providermap pre s =
     fold (\<lambda>name m. if (case pre of None \<Rightarrow> False | Some p \<Rightarrow> p \<noteq> [] \<and> \<not> prefix p name) then m
                    else (case ddefault (tk_build_targets s) name of [] \<Rightarrow> m | fn # _ \<Rightarrow> dset name fn m))
       (dkeys (tk_build_targets s)) []"

section \<open>Removing what cannot be built\<close>

text \<open>
  \<open>fail_fn\<close>, \<open>remove_buildtarget\<close> and \<open>remove_runtarget\<close> call each other; the last two take the
  call of the first as an argument.
\<close>

definition fail_idepends :: "(string \<Rightarrow> (tkstate, unit) eff) \<Rightarrow> (taskentry \<Rightarrow> (string \<times> string) list) \<Rightarrow>
    string \<Rightarrow> (tkstate, unit) eff" where
  "fail_idepends fail sel target =
     mbind (mget (\<lambda>s. dkeys (tk_taskentries s))) (\<lambda>tids. mfor tids (\<lambda>tid.
     mbind (mget (\<lambda>s. case dget (tk_taskentries s) tid of None \<Rightarrow> [] | Some e \<Rightarrow> sel e)) (\<lambda>ids.
       mfor ids (\<lambda>(idepend, _). mwhen (idepend = target) (fail (fn_from_tid tid))))))"

definition remove_buildtarget_with :: "(string \<Rightarrow> (tkstate, unit) eff) \<Rightarrow> string \<Rightarrow> (tkstate, unit) eff" where
  "remove_buildtarget_with fail target =
     mseq (mmod (\<lambda>s. s\<lparr>tk_failed_deps := tk_failed_deps s @ [target]\<rparr>))
     (mseq (mbind (mget (get_dependees target)) (\<lambda>fns. mfor fns fail))
     (mseq (fail_idepends fail te_idepends target)
     (mbind (mget (\<lambda>s. tk_abort s \<and> target \<in> set (tk_external_targets s))) (\<lambda>b.
       mwhen b (mraise (NoProvider target))))))"

definition remove_runtarget_with :: "(string \<Rightarrow> (tkstate, unit) eff) \<Rightarrow> string \<Rightarrow> (tkstate, unit) eff" where
  "remove_runtarget_with fail target =
     mseq (mmod (\<lambda>s. s\<lparr>tk_failed_rdeps := tk_failed_rdeps s @ [target]\<rparr>))
     (mseq (mbind (mget (get_rdependees target)) (\<lambda>fns. mfor fns fail))
     (fail_idepends fail te_irdepends target))"

definition fail_from_build :: "(string \<Rightarrow> (tkstate, unit) eff) \<Rightarrow> string \<Rightarrow> string \<Rightarrow> (tkstate, unit) eff" where
  "fail_from_build fail fn target =
     mbind (mget (\<lambda>s. ddefault (tk_build_targets s) target)) (\<lambda>fns.
       mwhen (fn \<in> set fns)
         (mseq (mmod (\<lambda>s. s\<lparr>tk_build_targets := dset target (remove1 fn fns) (tk_build_targets s)\<rparr>))
           (mwhen (remove1 fn fns = []) (remove_buildtarget_with fail target))))"

definition fail_from_run :: "(string \<Rightarrow> (tkstate, unit) eff) \<Rightarrow> string \<Rightarrow> string \<Rightarrow> (tkstate, unit) eff" where
  "fail_from_run fail fn target =
     mbind (mget (\<lambda>s. ddefault (tk_run_targets s) target)) (\<lambda>fns.
       mwhen (fn \<in> set fns)
         (mseq (mmod (\<lambda>s. s\<lparr>tk_run_targets := dset target (remove1 fn fns) (tk_run_targets s)\<rparr>))
           (mwhen (remove1 fn fns = []) (remove_runtarget_with fail target))))"

fun fail_fn :: "nat \<Rightarrow> string \<Rightarrow> (tkstate, unit) eff" where
  "fail_fn 0 fn = mraise RecursionError"
| "fail_fn (Suc lim) fn =
     mbind (mget (\<lambda>s. fn \<in> set (tk_failed_fns s))) (\<lambda>failed.
       mwhen (\<not> failed)
         (mseq (mmod (\<lambda>s. s\<lparr>tk_failed_fns := tk_failed_fns s @ [fn]\<rparr>))
         (mseq (mbind (mget (\<lambda>s. dkeys (tk_build_targets s))) (\<lambda>ts. mfor ts (fail_from_build (fail_fn lim) fn)))
         (mbind (mget (\<lambda>s. dkeys (tk_run_targets s))) (\<lambda>ts. mfor ts (fail_from_run (fail_fn lim) fn))))))"

definition remove_buildtarget :: "nat \<Rightarrow> string \<Rightarrow> (tkstate, unit) eff" where
  "remove_buildtarget lim target = remove_buildtarget_with (fail_fn lim) target"

definition remove_runtarget :: "nat \<Rightarrow> string \<Rightarrow> (tkstate, unit) eff" where
  "remove_runtarget lim target = remove_runtarget_with (fail_fn lim) target"

section \<open>Adding recipe files\<close>

definition flag_value :: "taskdeps \<Rightarrow> string \<Rightarrow> string \<Rightarrow> string option" where
  "flag_value td flag task = (case dget (td_flags td) flag of None \<Rightarrow> None | Some d \<Rightarrow> dget d task)"

definition upd_entry :: "string \<Rightarrow> (taskentry \<Rightarrow> taskentry) \<Rightarrow> (tkstate, unit) eff" where
  "upd_entry tid f = mmod (\<lambda>s. case dget (tk_taskentries s) tid of
     None \<Rightarrow> s | Some e \<Rightarrow> s\<lparr>tk_taskentries := dset tid (f e) (tk_taskentries s)\<rparr>)"

definition split_dep :: "string \<Rightarrow> (string \<times> string) res" where
  "split_dep dep =
     (if CHR '':'' \<notin> set dep then Inl (MsgFatal ''TaskData'')
      else Inr (split_on CHR '':'' dep ! 0, split_on CHR '':'' dep ! 1))"

text \<open>The dependencies of a task on tasks of other targets, \<open>depends\<close> or \<open>rdepends\<close>.\<close>

definition flag_deps :: "(string \<Rightarrow> (tkstate, unit) eff) \<Rightarrow> string option \<Rightarrow> (tkstate, (string \<times> string) list) eff" where
  "flag_deps seen v =
     (case v of
        None \<Rightarrow> mret []
      | Some deps \<Rightarrow> mmap (\<lambda>dep. mbind (mlift (split_dep dep)) (\<lambda>p. mseq (seen (fst p)) (mret p)))
                       (split_ws deps))"

definition add_task :: "string \<Rightarrow> taskdeps \<Rightarrow> string \<Rightarrow> (tkstate, unit) eff" where
  "add_task fn td task =
     (let tid = fn @ '':'' @ task
      in mseq (mmod (\<lambda>s. s\<lparr>tk_taskentries := dset tid \<lparr>te_tdepends = [], te_idepends = [], te_irdepends = []\<rparr>
                                              (tk_taskentries s)\<rparr>))
         (mbind (mlift (ditem (td_parents td) task)) (\<lambda>parents.
          mseq (upd_entry tid (\<lambda>e. e\<lparr>te_tdepends := te_tdepends e @
                   map (\<lambda>dep. fn @ '':'' @ dep) (filter (\<lambda>dep. dep \<in> set (td_tasks td)) parents)\<rparr>))
          (mbind (flag_deps seen_build_target (flag_value td ''depends'' task)) (\<lambda>ids.
           mseq (upd_entry tid (\<lambda>e. e\<lparr>te_idepends := te_idepends e @ ids\<rparr>))
           (mbind (flag_deps seen_run_target (flag_value td ''rdepends'' task)) (\<lambda>ids.
            upd_entry tid (\<lambda>e. e\<lparr>te_irdepends := te_irdepends e @ ids\<rparr>))))))))"

definition note_depids :: "string \<Rightarrow> tkstate \<Rightarrow> tkstate" where
  "note_depids fn s =
     (if fn \<in> set (dkeys (tk_depids s)) then s
      else s\<lparr>tk_depids := dset fn (fold sadd (ddefault (dc_deps (tk_cache s)) fn) []) (tk_depids s)\<rparr>)"

definition note_rdepids :: "string \<Rightarrow> tkstate \<Rightarrow> tkstate" where
  "note_rdepids fn s =
     (if fn \<in> set (dkeys (tk_rdepids s)) then s
      else s\<lparr>tk_rdepids := dset fn
               (fold sadd (concat (map snd (ddefault (dc_rundeps (tk_cache s)) fn)) @
                           concat (map snd (ddefault (dc_runrecs (tk_cache s)) fn))) []) (tk_rdepids s)\<rparr>)"

text \<open>\<open>xd func deps world_target pkg_pn self_pn\<close> is the changed list of dependencies.\<close>

type_synonym extra_deps =
  "string \<Rightarrow> string list \<Rightarrow> string list \<Rightarrow> (string, string list) dict \<Rightarrow> string \<Rightarrow> string list res"

definition extra_deps_of :: "extra_deps \<Rightarrow> string \<Rightarrow> datacache \<Rightarrow> datacache res" where
  "extra_deps_of xd fn dc =
     (case dget (dc_extradepsfunc dc) fn of
        None \<Rightarrow> Inr dc
      | Some [] \<Rightarrow> Inr dc
      | Some (c # func) \<Rightarrow>
          rbind (buildWorldTargetList dc None) (\<lambda>dc.
          rbind (ditem (dc_pkg_fn dc) fn) (\<lambda>pn.
          rbind (xd (c # func) (ddefault (dc_deps dc) fn) (dc_world_target dc) (dc_pkg_pn dc) pn) (\<lambda>deps.
            Inr (dc\<lparr>dc_deps := dset fn deps (dc_deps dc)\<rparr>)))))"

definition add_extra_deps :: "extra_deps \<Rightarrow> string \<Rightarrow> (tkstate, unit) eff" where
  "add_extra_deps xd fn =
     mbind (mget (\<lambda>s. extra_deps_of xd fn (tk_cache s))) (\<lambda>r.
     mbind (mlift r) (\<lambda>dc. mmod (\<lambda>s. s\<lparr>tk_cache := dc\<rparr>)))"

definition check_dep :: "nat \<Rightarrow> string \<Rightarrow> (string \<Rightarrow> (tkstate, unit) eff) \<Rightarrow> (tkstate \<Rightarrow> string list) \<Rightarrow>
    string \<Rightarrow> (tkstate, bool) eff" where
  "check_dep lim fn seen failed dep =
     mseq (seen dep) (mbind (mget (\<lambda>s. dep \<in> set (failed s))) (\<lambda>b.
       if b then mseq (fail_fn lim fn) (mret True) else mret False))"

definition add_tasks :: "extra_deps \<Rightarrow> nat \<Rightarrow> string \<Rightarrow> (tkstate, unit) eff" where
  "add_tasks xd lim fn =
     mbind (mget (\<lambda>s. ditem (dc_task_deps (tk_cache s)) fn)) (\<lambda>r. mbind (mlift r) (\<lambda>td.
     mbind (mget (\<lambda>s. fn \<in> set (tk_failed_fns s))) (\<lambda>failed.
     if failed then mraise (MsgFatal ''TaskData'')
     else mbind (mget (\<lambda>s. fn \<in> set (tk_seenfns s))) (\<lambda>seen.
       mwhen (\<not> seen)
         (mseq (mmod (\<lambda>s. s\<lparr>tk_seenfns := tk_seenfns s @ [fn]\<rparr>))
         (mseq (add_extra_deps xd fn)
         (mseq (mfor (td_tasks td) (add_task fn td))
         (mseq (mmod (note_depids fn))
         (mseq (mmod (note_rdepids fn))
         (mbind (mget (\<lambda>s. ddefault (tk_depids s) fn)) (\<lambda>deps.
          mbind (mfor_until deps (check_dep lim fn seen_build_target tk_failed_deps)) (\<lambda>stop.
          mwhen (\<not> stop)
            (mbind (mget (\<lambda>s. ddefault (tk_rdepids s) fn)) (\<lambda>rdeps.
             mbind (mfor_until rdeps (check_dep lim fn seen_run_target tk_failed_rdeps)) (\<lambda>_.
               mret ())))))))))))))))"

section \<open>Resolving targets\<close>

definition close_match_check :: "(string \<Rightarrow> (string \<Rightarrow> bool) option) \<Rightarrow> string \<Rightarrow> datacache \<Rightarrow> unit res" where
  "close_match_check rx item dc =
     rbind (getRuntimeProviders rx dc item) (\<lambda>all_p.
     rbind (rmap (ditem (dc_pkg_fn dc)) all_p) (\<lambda>_. Inr ()))"

definition add_one_provider :: "extra_deps \<Rightarrow> nat \<Rightarrow> (string \<Rightarrow> string \<Rightarrow> (tkstate, unit) eff) \<Rightarrow>
    string \<Rightarrow> string \<Rightarrow> (tkstate, unit) eff" where
  "add_one_provider xd lim add item fn =
     mbind (mget (\<lambda>s. fn \<in> set (tk_failed_fns s))) (\<lambda>failed.
       mwhen (\<not> failed) (mseq (add fn item) (add_tasks xd lim fn)))"

definition note_choice :: "bool \<Rightarrow> string \<Rightarrow> (tkstate, unit) eff" where
  "note_choice b item = mwhen b (mmod (\<lambda>s. s\<lparr>tk_consider := tk_consider s @ [item]\<rparr>))"

definition eligible_files :: "string list option \<Rightarrow> (tkstate, string list) eff" where
  "eligible_files eligible =
     (case eligible of
        None \<Rightarrow> mraise TypeError
      | Some es \<Rightarrow> mget (\<lambda>s. filter (\<lambda>p. p \<notin> set (tk_failed_fns s)) es))"

definition add_provider_internal :: "(string \<Rightarrow> string option) \<Rightarrow> (string \<Rightarrow> (string \<Rightarrow> bool) option) \<Rightarrow>
    extra_deps \<Rightarrow> nat \<Rightarrow> string \<Rightarrow> (tkstate, unit) eff" where
  "add_provider_internal gv rx xd lim item =
     mbind (mget (\<lambda>s. re_match_strings rx item (dc_ignored_dependencies (tk_cache s)))) (\<lambda>r.
     mbind (mlift r) (\<lambda>ignored. mwhen (\<not> ignored)
     (mbind (mget (\<lambda>s. dget (dc_providers (tk_cache s)) item)) (\<lambda>all_p. case all_p of
        None \<Rightarrow> mbind (mget (\<lambda>s. close_match_check rx item (tk_cache s))) (\<lambda>r.
                mbind (mlift r) (\<lambda>_. mraise (NoProvider item)))
      | Some all_p \<Rightarrow> mbind (mget (have_build_target item)) (\<lambda>have. mwhen (\<not> have)
          (mbind (mget (\<lambda>s. filterProviders gv all_p item (tk_cache s))) (\<lambda>r.
           mbind (mlift r) (\<lambda>(dc, eligible, foundUnique).
           mseq (mmod (\<lambda>s. s\<lparr>tk_cache := dc\<lparr>dc_providers := dset item (sort all_p) (dc_providers dc)\<rparr>\<rparr>))
           (mbind (eligible_files eligible) (\<lambda>es.
            if es = [] then mraise (NoProvider item)
            else mseq (note_choice (length es > 1 \<and> \<not> foundUnique) item)
                 (mfor es (add_one_provider xd lim add_build_target item))))))))))))"

definition add_provider :: "(string \<Rightarrow> string option) \<Rightarrow> (string \<Rightarrow> (string \<Rightarrow> bool) option) \<Rightarrow>
    extra_deps \<Rightarrow> nat \<Rightarrow> string \<Rightarrow> (tkstate, unit) eff" where
  "add_provider gv rx xd lim item =
     mseq (mtry (add_provider_internal gv rx xd lim item)
            (\<lambda>e. case e of
               NoProvider x \<Rightarrow> mbind (mget tk_abort) (\<lambda>abort.
                 if abort then mraise (NoProvider x) else remove_buildtarget lim item)
             | _ \<Rightarrow> mraise e))
          (mark_external_target item)"

definition add_rprovider :: "(string \<Rightarrow> string option) \<Rightarrow> (string \<Rightarrow> (string \<Rightarrow> bool) option) \<Rightarrow>
    extra_deps \<Rightarrow> nat \<Rightarrow> string \<Rightarrow> (tkstate, unit) eff" where
  "add_rprovider gv rx xd lim item =
     mbind (mget (\<lambda>s. re_match_strings rx item (dc_ignored_dependencies (tk_cache s)))) (\<lambda>r.
     mbind (mlift r) (\<lambda>ignored. mwhen (\<not> ignored)
     (mbind (mget (have_runtime_target item)) (\<lambda>have. mwhen (\<not> have)
     (mbind (mget (\<lambda>s. getRuntimeProviders rx (tk_cache s) item)) (\<lambda>r.
     mbind (mlift r) (\<lambda>all_p.
       if all_p = [] then mraise (NoRProvider item)
       else mbind (mget (\<lambda>s. filterProvidersRunTime gv all_p item (tk_cache s))) (\<lambda>r.
            mbind (mlift r) (\<lambda>(eligible, numberPreferred).
            mbind (eligible_files eligible) (\<lambda>es.
            if es = [] then mraise (NoRProvider item)
            else mseq (note_choice (length es > 1 \<and> numberPreferred = 0) item)
                 (mseq (note_choice (numberPreferred > 1) item)
                 (if numberPreferred > 1 then mraise (MultipleRProvider item)
                  else mfor es (add_one_provider xd lim add_runtime_target item)))))))))))))"

definition resolve_build :: "(string \<Rightarrow> string option) \<Rightarrow> (string \<Rightarrow> (string \<Rightarrow> bool) option) \<Rightarrow>
    extra_deps \<Rightarrow> nat \<Rightarrow> string \<Rightarrow> (tkstate, bool) eff" where
  "resolve_build gv rx xd lim target =
     mtry (mseq (add_provider_internal gv rx xd lim target) (mret True))
       (\<lambda>e. case e of
          NoProvider x \<Rightarrow>
            mbind (mget (\<lambda>s. tk_abort s \<and> target \<in> set (tk_external_targets s) \<and> \<not> tk_allowincomplete s)) (\<lambda>b.
            if b then mraise (NoProvider x)
            else mbind (mget tk_allowincomplete) (\<lambda>incomplete.
                 mseq (mwhen (\<not> incomplete) (remove_buildtarget lim target)) (mret False)))
        | _ \<Rightarrow> mraise e)"

definition resolve_run :: "(string \<Rightarrow> string option) \<Rightarrow> (string \<Rightarrow> (string \<Rightarrow> bool) option) \<Rightarrow>
    extra_deps \<Rightarrow> nat \<Rightarrow> string \<Rightarrow> (tkstate, bool) eff" where
  "resolve_run gv rx xd lim target =
     mtry (mseq (add_rprovider gv rx xd lim target) (mret True))
       (\<lambda>e. case e of
          NoRProvider x \<Rightarrow> mseq (remove_runtarget lim target) (mret False)
        | MultipleRProvider x \<Rightarrow> mseq (remove_runtarget lim target) (mret False)
        | _ \<Rightarrow> mraise e)"

definition resolve_round :: "(string \<Rightarrow> string option) \<Rightarrow> (string \<Rightarrow> (string \<Rightarrow> bool) option) \<Rightarrow>
    extra_deps \<Rightarrow> nat \<Rightarrow> (tkstate, nat) eff" where
  "resolve_round gv rx xd lim =
     mbind (mget (get_unresolved_build_targets rx)) (\<lambda>r. mbind (mlift r) (\<lambda>bts.
     mbind (mmap (resolve_build gv rx xd lim) bts) (\<lambda>bs.
     mbind (mget (get_unresolved_run_targets rx)) (\<lambda>r. mbind (mlift r) (\<lambda>rts.
     mbind (mmap (resolve_run gv rx xd lim) rts) (\<lambda>rs.
       mret (length (filter id (bs @ rs)))))))))"

text \<open>The loop of \<open>add_unresolved\<close>; None means that the fuel ran out.\<close>

fun add_unresolved :: "nat \<Rightarrow> (string \<Rightarrow> string option) \<Rightarrow> (string \<Rightarrow> (string \<Rightarrow> bool) option) \<Rightarrow>
    extra_deps \<Rightarrow> nat \<Rightarrow> tkstate \<Rightarrow> (unit res \<times> tkstate) option" where
  "add_unresolved 0 gv rx xd lim s = None"
| "add_unresolved (Suc fuel) gv rx xd lim s =
     (case resolve_round gv rx xd lim s of
        (Inl e, s') \<Rightarrow> Some (Inl e, s')
      | (Inr added, s') \<Rightarrow> if added = 0 then Some (Inr (), s') else add_unresolved fuel gv rx xd lim s')"

section \<open>Removal keeps the tables consistent\<close>

text \<open>
  While \<open>fail_fn\<close> works on the files F, and \<open>remove_buildtarget\<close> and \<open>remove_runtarget\<close> on the
  targets G and H, those may break the invariant: every other failed file is gone from all
  provider lists, and every file that depends on another failed target has failed.
\<close>

definition lists_ok :: "(string, string list) dict \<Rightarrow> string list \<Rightarrow> string set \<Rightarrow> bool" where
  "lists_ok ts failed F \<longleftrightarrow>
     (\<forall>t. distinct (ddefault ts t) \<and> (\<forall>fn \<in> set (ddefault ts t). fn \<in> set failed \<longrightarrow> fn \<in> F))"

definition closed :: "(string, string list) dict \<Rightarrow> string list \<Rightarrow> string list \<Rightarrow> string set \<Rightarrow> bool" where
  "closed ids fdeps failed G \<longleftrightarrow>
     (\<forall>t \<in> set fdeps. t \<notin> G \<longrightarrow> (\<forall>fn. t \<in> set (ddefault ids fn) \<longrightarrow> fn \<in> set failed))"

definition tkinv :: "string set \<Rightarrow> string set \<Rightarrow> string set \<Rightarrow> tkstate \<Rightarrow> bool" where
  "tkinv F G H s \<longleftrightarrow>
     lists_ok (tk_build_targets s) (tk_failed_fns s) F \<and> lists_ok (tk_run_targets s) (tk_failed_fns s) F \<and>
     closed (tk_depids s) (tk_failed_deps s) (tk_failed_fns s) G \<and>
     closed (tk_rdepids s) (tk_failed_rdeps s) (tk_failed_fns s) H"

definition shrink :: "(string, string list) dict \<Rightarrow> (string, string list) dict \<Rightarrow> string list \<Rightarrow> bool" where
  "shrink ts ts' fdeps' \<longleftrightarrow> dkeys ts' = dkeys ts \<and>
     (\<forall>t. set (ddefault ts' t) \<subseteq> set (ddefault ts t) \<and>
          (ddefault ts t \<noteq> [] \<and> ddefault ts' t = [] \<longrightarrow> t \<in> set fdeps'))"

definition fail_frame :: "tkstate \<Rightarrow> tkstate \<Rightarrow> bool" where
  "fail_frame s s' \<longleftrightarrow>
     tk_depids s' = tk_depids s \<and> tk_rdepids s' = tk_rdepids s \<and> tk_taskentries s' = tk_taskentries s \<and>
     tk_abort s' = tk_abort s \<and> tk_external_targets s' = tk_external_targets s \<and>
     tk_seenfns s' = tk_seenfns s \<and> tk_allowincomplete s' = tk_allowincomplete s \<and>
     tk_cache s' = tk_cache s \<and> tk_consider s' = tk_consider s \<and> tk_tryaltconfigs s' = tk_tryaltconfigs s"

text \<open>What a removal may do: provider lists shrink, and a list that becomes empty marks its target.\<close>

definition fail_rel0 :: "tkstate \<Rightarrow> tkstate \<Rightarrow> bool" where
  "fail_rel0 s s' \<longleftrightarrow> fail_frame s s' \<and>
     shrink (tk_build_targets s) (tk_build_targets s') (tk_failed_deps s') \<and>
     shrink (tk_run_targets s) (tk_run_targets s') (tk_failed_rdeps s') \<and>
     set (tk_failed_fns s) \<subseteq> set (tk_failed_fns s') \<and>
     set (tk_failed_deps s) \<subseteq> set (tk_failed_deps s') \<and>
     set (tk_failed_rdeps s) \<subseteq> set (tk_failed_rdeps s')"

text \<open>The tasks that name a target in the flag \<open>sel\<close> reads belong to failed files; every target that becomes
  failed leaves the table so.\<close>

definition tasks_failed :: "(taskentry \<Rightarrow> (string \<times> string) list) \<Rightarrow> tkstate \<Rightarrow> string \<Rightarrow> bool" where
  "tasks_failed sel s t \<longleftrightarrow>
     (\<forall>tid e q. dget (tk_taskentries s) tid = Some e \<longrightarrow> (t, q) \<in> set (sel e) \<longrightarrow>
        fn_from_tid tid \<in> set (tk_failed_fns s))"

definition fail_rel :: "tkstate \<Rightarrow> tkstate \<Rightarrow> bool" where
  "fail_rel s s' \<longleftrightarrow> fail_rel0 s s' \<and>
     (\<forall>t \<in> set (tk_failed_deps s') - set (tk_failed_deps s). tasks_failed te_idepends s' t) \<and>
     (\<forall>t \<in> set (tk_failed_rdeps s') - set (tk_failed_rdeps s). tasks_failed te_irdepends s' t)"

lemmas fail_rel_defs = fail_rel_def fail_rel0_def

text \<open>The files a removal can reach.\<close>

definition known_fns :: "tkstate \<Rightarrow> string set" where
  "known_fns s = set (dkeys (tk_depids s)) \<union> set (dkeys (tk_rdepids s)) \<union>
     fn_from_tid ` set (dkeys (tk_taskentries s))"

lemma shrink_refl: "shrink ts ts fdeps"
  by (simp add: shrink_def)

lemma shrink_trans:
  "shrink ts ts' fd' \<Longrightarrow> shrink ts' ts'' fd'' \<Longrightarrow> set fd' \<subseteq> set fd'' \<Longrightarrow> shrink ts ts'' fd''"
  unfolding shrink_def by (metis subset_trans subsetD)

lemma fail_rel_refl [simp]: "fail_rel s s"
  by (simp add: fail_rel_defs fail_frame_def shrink_refl)

lemma fail_frame_trans: "fail_frame s s' \<Longrightarrow> fail_frame s' s'' \<Longrightarrow> fail_frame s s''"
  by (simp add: fail_frame_def)

lemma fail_rel_frame: "fail_rel s s' \<Longrightarrow> fail_frame s s'"
  by (simp add: fail_rel_defs)

lemma fail_rel_eqs:
  assumes "fail_rel s s'"
  shows "tk_depids s' = tk_depids s" "tk_rdepids s' = tk_rdepids s" "tk_taskentries s' = tk_taskentries s"
    "tk_abort s' = tk_abort s" "tk_external_targets s' = tk_external_targets s" "tk_seenfns s' = tk_seenfns s"
    "tk_allowincomplete s' = tk_allowincomplete s" "tk_cache s' = tk_cache s"
  using assms by (simp_all add: fail_rel_defs fail_frame_def)

lemma fail_rel0_trans: "fail_rel0 s s' \<Longrightarrow> fail_rel0 s' s'' \<Longrightarrow> fail_rel0 s s''"
  unfolding fail_rel0_def using fail_frame_trans shrink_trans by blast

lemma tasks_failed_more: "tasks_failed sel s t \<Longrightarrow> fail_rel0 s s' \<Longrightarrow> tasks_failed sel s' t"
  unfolding tasks_failed_def fail_rel0_def fail_frame_def by (metis subsetD)

lemma fail_rel_trans:
  assumes "fail_rel s s'" "fail_rel s' s''"
  shows "fail_rel s s''"
  unfolding fail_rel_def
proof (intro conjI ballI)
  have r: "fail_rel0 s s'" "fail_rel0 s' s''" using assms by (simp_all add: fail_rel_def)
  then show "fail_rel0 s s''" by (rule fail_rel0_trans)
  show "tasks_failed te_idepends s'' t" if "t \<in> set (tk_failed_deps s'') - set (tk_failed_deps s)" for t
    using that assms r tasks_failed_more [OF _ r(2)] by (cases "t \<in> set (tk_failed_deps s')") (auto simp: fail_rel_def)
  show "tasks_failed te_irdepends s'' t" if "t \<in> set (tk_failed_rdeps s'') - set (tk_failed_rdeps s)" for t
    using that assms r tasks_failed_more [OF _ r(2)] by (cases "t \<in> set (tk_failed_rdeps s')") (auto simp: fail_rel_def)
qed

text \<open>A step that marks one target and then fails the tasks that name it.\<close>

lemma fail_rel_mark:
  assumes "fail_rel0 s s1" "fail_rel s1 s'"
    and "set (tk_failed_deps s1) \<subseteq> insert t (set (tk_failed_deps s))" "set (tk_failed_rdeps s1) = set (tk_failed_rdeps s)"
    and "tasks_failed te_idepends s' t"
  shows "fail_rel s s'"
  using assms fail_rel0_trans [of s s1 s'] unfolding fail_rel_def by blast

lemma fail_rel_rmark:
  assumes "fail_rel0 s s1" "fail_rel s1 s'"
    and "set (tk_failed_rdeps s1) \<subseteq> insert t (set (tk_failed_rdeps s))" "set (tk_failed_deps s1) = set (tk_failed_deps s)"
    and "tasks_failed te_irdepends s' t"
  shows "fail_rel s s'"
  using assms fail_rel0_trans [of s s1 s'] unfolding fail_rel_def by blast

lemma known_fns_fail_rel: "fail_rel s s' \<Longrightarrow> known_fns s' = known_fns s"
  by (simp add: known_fns_def fail_rel_eqs)

lemma lists_ok_more: "lists_ok ts failed F \<Longrightarrow> set failed' \<subseteq> set failed \<union> F' \<Longrightarrow> lists_ok ts failed' (F \<union> F')"
  unfolding lists_ok_def by blast

lemma closed_more: "closed ids fd failed G \<Longrightarrow> set failed \<subseteq> set failed' \<Longrightarrow> closed ids fd failed' G"
  unfolding closed_def by blast


definition good_fail :: "string set \<Rightarrow> nat \<Rightarrow> (string \<Rightarrow> (tkstate, unit) eff) \<Rightarrow> bool" where
  "good_fail U lim fail \<longleftrightarrow>
     (\<forall>F G H s fn. \<not> tk_abort s \<longrightarrow> tkinv F G H s \<longrightarrow> known_fns s \<subseteq> U \<longrightarrow> fn \<in> U \<longrightarrow>
        card (U - set (tk_failed_fns s)) < lim \<longrightarrow>
        valid (fail fn) s (\<lambda>_ s'. tkinv F G H s' \<and> fail_rel s s' \<and> fn \<in> set (tk_failed_fns s')) (\<lambda>_ _. False))"

text \<open>The state a removal works in, and how it moves on.\<close>

definition fail_pre :: "string set \<Rightarrow> nat \<Rightarrow> string set \<Rightarrow> string set \<Rightarrow> string set \<Rightarrow> tkstate \<Rightarrow> bool" where
  "fail_pre U lim F G H s \<longleftrightarrow> \<not> tk_abort s \<and> tkinv F G H s \<and> known_fns s \<subseteq> U \<and>
     card (U - set (tk_failed_fns s)) < lim"

lemma fail_pre_step0:
  assumes "finite U" "fail_pre U lim F G H s" "fail_rel0 s s'" "tkinv F' G' H' s'"
  shows "fail_pre U lim F' G' H' s'"
proof -
  have "card (U - set (tk_failed_fns s')) \<le> card (U - set (tk_failed_fns s))"
    using assms(1,3) by (intro card_mono) (auto simp: fail_rel0_def)
  with assms show ?thesis by (simp add: fail_pre_def fail_rel0_def fail_frame_def known_fns_def)
qed

lemma fail_pre_step:
  "finite U \<Longrightarrow> fail_pre U lim F G H s \<Longrightarrow> fail_rel s s' \<Longrightarrow> tkinv F' G' H' s' \<Longrightarrow> fail_pre U lim F' G' H' s'"
  using fail_pre_step0 [of U lim F G H s s'] by (simp add: fail_rel_def)

lemma good_fail_valid:
  assumes "good_fail U lim fail" "fail_pre U lim F G H s" "fn \<in> U" "finite U"
  shows "valid (fail fn) s (\<lambda>_ s'. fail_pre U lim F G H s' \<and> fail_rel s s' \<and> fn \<in> set (tk_failed_fns s')) (\<lambda>_ _. False)"
proof -
  have "valid (fail fn) s (\<lambda>_ s'. tkinv F G H s' \<and> fail_rel s s' \<and> fn \<in> set (tk_failed_fns s')) (\<lambda>_ _. False)"
    using assms by (simp add: good_fail_def fail_pre_def)
  then show ?thesis using fail_pre_step [OF assms(4,2)] by (auto elim: valid_conseq)
qed

lemma good_fail_loop:
  assumes gf: "good_fail U lim fail" "finite U" and "fail_pre U lim F G H s" "set fns \<subseteq> U"
  shows "valid (mfor fns fail) s (\<lambda>_ s'. fail_pre U lim F G H s' \<and> fail_rel s s' \<and>
    set fns \<subseteq> set (tk_failed_fns s')) (\<lambda>_ _. False)"
proof (rule valid_mfor [where I = "\<lambda>pre s'. fail_pre U lim F G H s' \<and> fail_rel s s' \<and> set pre \<subseteq> set (tk_failed_fns s')"])
  show "fail_pre U lim F G H s \<and> fail_rel s s \<and> set [] \<subseteq> set (tk_failed_fns s)" using assms(3) by simp
next
  fix pre fn post t
  assume "fns = pre @ fn # post" and t: "fail_pre U lim F G H t \<and> fail_rel s t \<and> set pre \<subseteq> set (tk_failed_fns t)"
  then have "fn \<in> U" using assms(4) by auto
  from good_fail_valid [OF gf(1) _ this gf(2)] t
  have v: "valid (fail fn) t (\<lambda>_ s'. fail_pre U lim F G H s' \<and> fail_rel t s' \<and> fn \<in> set (tk_failed_fns s')) (\<lambda>_ _. False)"
    by blast
  show "valid (fail fn) t (\<lambda>_ s'. fail_pre U lim F G H s' \<and> fail_rel s s' \<and>
      set (pre @ [fn]) \<subseteq> set (tk_failed_fns s')) (\<lambda>_ _. False)"
  proof (rule valid_conseq [OF v])
    fix s' assume "fail_pre U lim F G H s' \<and> fail_rel t s' \<and> fn \<in> set (tk_failed_fns s')"
    moreover from this have "set (tk_failed_fns t) \<subseteq> set (tk_failed_fns s')" by (simp add: fail_rel_defs)
    ultimately show "fail_pre U lim F G H s' \<and> fail_rel s s' \<and> set (pre @ [fn]) \<subseteq> set (tk_failed_fns s')"
      using t fail_rel_trans [of s t s'] by auto
  qed simp
qed

text \<open>The inner loops over the tasks change nothing the invariant speaks of but through \<open>fail\<close>.\<close>

lemma fail_idepends_valid:
  assumes gf: "good_fail U lim fail" "finite U" and pre: "fail_pre U lim F G H s"
  shows "valid (fail_idepends fail sel target) s
    (\<lambda>_ s'. fail_pre U lim F G H s' \<and> fail_rel s s' \<and> tasks_failed sel s' target) (\<lambda>_ _. False)"
proof -
  let ?I = "\<lambda>s'. fail_pre U lim F G H s' \<and> fail_rel s s'"
  let ?entry = "\<lambda>u tid. case dget (tk_taskentries u) tid of None \<Rightarrow> [] | Some e \<Rightarrow> sel e"
  let ?done = "\<lambda>tids u. \<forall>tid \<in> set tids. \<forall>q. (target, q) \<in> set (?entry s tid) \<longrightarrow> fn_from_tid tid \<in> set (tk_failed_fns u)"
  let ?tids = "dkeys (tk_taskentries s)"
  have grow: "?done tids u'" if "?done tids u" "fail_rel u u'" for tids u u'
    using that by (auto simp: fail_rel_defs)
  have "valid (mfor ?tids (\<lambda>tid. mbind (mget (\<lambda>s. ?entry s tid)) (\<lambda>ids.
       mfor ids (\<lambda>(idepend, _). mwhen (idepend = target) (fail (fn_from_tid tid)))))) s
     (\<lambda>_ u. ?I u \<and> ?done ?tids u) (\<lambda>_ _. False)"
  proof (rule valid_mfor [where I = "\<lambda>tids u. ?I u \<and> ?done tids u"])
    show "?I s \<and> ?done [] s" using pre by simp
  next
    fix tids tid rest t
    assume split: "?tids = tids @ tid # rest" and t: "?I t \<and> ?done tids t"
    have "tid \<in> set ?tids" unfolding split by simp
    then have U: "fn_from_tid tid \<in> U" using pre unfolding fail_pre_def known_fns_def by blast
    let ?ids = "?entry s tid"
    have "tk_taskentries t = tk_taskentries s" using t fail_rel_eqs(3) by blast
    then have same: "?entry t tid = ?ids" by simp
    let ?hit = "\<lambda>(ids :: (string \<times> string) list) u. target \<in> fst ` set ids \<longrightarrow> fn_from_tid tid \<in> set (tk_failed_fns u)"
    have "valid (mfor ?ids (\<lambda>(idepend, _). mwhen (idepend = target) (fail (fn_from_tid tid)))) t
      (\<lambda>_ u. ?I u \<and> ?done tids u \<and> ?hit ?ids u) (\<lambda>_ _. False)"
    proof (rule valid_mfor [where I = "\<lambda>ids u. ?I u \<and> ?done tids u \<and> ?hit ids u"])
      show "?I t \<and> ?done tids t \<and> ?hit [] t" using t by simp
    next
      fix ids more :: "(string \<times> string) list" and x :: "string \<times> string" and u
      assume u: "?I u \<and> ?done tids u \<and> ?hit ids u"
      obtain d q where x: "x = (d, q)" by (cases x)
      show "valid (case x of (idepend, _) \<Rightarrow> mwhen (idepend = target) (fail (fn_from_tid tid))) u
        (\<lambda>_ u. ?I u \<and> ?done tids u \<and> ?hit (ids @ [x]) u) (\<lambda>_ _. False)"
      proof (cases "d = target")
        case False
        then show ?thesis using u x by simp
      next
        case True
        have v: "valid (fail (fn_from_tid tid)) u
          (\<lambda>_ u'. fail_pre U lim F G H u' \<and> fail_rel u u' \<and> fn_from_tid tid \<in> set (tk_failed_fns u')) (\<lambda>_ _. False)"
          using u by (intro good_fail_valid [OF gf(1) _ U gf(2)]) simp
        have "valid (fail (fn_from_tid tid)) u (\<lambda>_ u. ?I u \<and> ?done tids u \<and> ?hit (ids @ [x]) u) (\<lambda>_ _. False)"
          by (rule valid_conseq [OF v]) (use u fail_rel_trans grow in blast)+
        then show ?thesis using True x by simp
      qed
    qed
    then have "valid (mfor ?ids (\<lambda>(idepend, _). mwhen (idepend = target) (fail (fn_from_tid tid)))) t
      (\<lambda>_ u. ?I u \<and> ?done (tids @ [tid]) u) (\<lambda>_ _. False)"
      by (rule valid_conseq) force+
    then show "valid (mbind (mget (\<lambda>s. ?entry s tid)) (\<lambda>ids.
       mfor ids (\<lambda>(idepend, _). mwhen (idepend = target) (fail (fn_from_tid tid))))) t
      (\<lambda>_ u. ?I u \<and> ?done (tids @ [tid]) u) (\<lambda>_ _. False)"
      by (simp add: same)
  qed
  then have "valid (fail_idepends fail sel target) s (\<lambda>_ u. ?I u \<and> ?done ?tids u) (\<lambda>_ _. False)"
    by (simp add: fail_idepends_def)
  then show ?thesis
  proof (rule valid_conseq)
    fix u assume u: "?I u \<and> ?done ?tids u"
    have "fn_from_tid tid \<in> set (tk_failed_fns u)"
      if "dget (tk_taskentries u) tid = Some e" "(target, q) \<in> set (sel e)" for tid e q
    proof -
      have "tk_taskentries u = tk_taskentries s" using u fail_rel_eqs(3) by blast
      with that(1) have e: "dget (tk_taskentries s) tid = Some e" by simp
      then have "tid \<in> set ?tids" using dget_Some_key by metis
      with u e that(2) show ?thesis by force
    qed
    with u show "fail_pre U lim F G H u \<and> fail_rel s u \<and> tasks_failed sel u target"
      unfolding tasks_failed_def by blast
  qed simp
qed


lemma in_dependees: "t \<in> set (ddefault ids fn) \<longleftrightarrow> fn \<in> set (dependees t ids)"
proof -
  have "ddefault ids fn \<noteq> [] \<Longrightarrow> fn \<in> set (dkeys ids)" by (metis ddefault_notin)
  then show ?thesis by (cases "ddefault ids fn = []") (auto simp: dependees_def)
qed

lemma closed_done:
  assumes "closed ids fd failed (insert t G)" "set (dependees t ids) \<subseteq> set failed"
  shows "closed ids fd failed G"
  unfolding closed_def
proof (intro ballI impI allI)
  fix u fn
  assume "u \<in> set fd" "u \<notin> G" "u \<in> set (ddefault ids fn)"
  with assms show "fn \<in> set failed"
    by (cases "u = t") (auto simp: closed_def in_dependees [of t])
qed

lemma dependees_keys: "set (dependees t ids) \<subseteq> set (dkeys ids)"
  by (auto simp: dependees_def)

lemma remove_buildtarget_with_valid:
  assumes gf: "good_fail U lim fail" "finite U" and pre: "fail_pre U lim F G H s"
  shows "valid (remove_buildtarget_with fail target) s
    (\<lambda>_ s'. fail_pre U lim F G H s' \<and> fail_rel s s' \<and> target \<in> set (tk_failed_deps s')) (\<lambda>_ _. False)"
proof -
  define s1 where "s1 = s\<lparr>tk_failed_deps := tk_failed_deps s @ [target]\<rparr>"
  have r1: "fail_rel0 s s1" by (simp add: s1_def fail_rel0_def fail_frame_def shrink_refl subset_insertI)
  have i1: "tkinv F (insert target G) H s1" using pre by (auto simp: fail_pre_def tkinv_def s1_def closed_def)
  have p1: "fail_pre U lim F (insert target G) H s1" by (rule fail_pre_step0 [OF gf(2) pre r1 i1])
  have d: "set (get_dependees target s1) \<subseteq> U"
    using p1 dependees_keys [of target "tk_depids s1"]
    unfolding fail_pre_def known_fns_def get_dependees_def by blast
  let ?J = "\<lambda>s'. fail_pre U lim F (insert target G) H s' \<and> fail_rel s1 s' \<and>
     set (get_dependees target s1) \<subseteq> set (tk_failed_fns s')"
  let ?K = "\<lambda>s'. fail_pre U lim F G H s' \<and> fail_rel s1 s'"
  have close: "?K s'" if "?J s'" for s'
  proof -
    have "tkinv F G H s'" using that closed_done [of "tk_depids s'" _ _ target G]
      by (auto simp: fail_pre_def tkinv_def get_dependees_def fail_rel_eqs)
    with that fail_pre_step [OF gf(2), of lim F "insert target G" H s' s'] show ?thesis by simp
  qed
  have v1: "valid (mfor (get_dependees target s1) fail) s1 (\<lambda>_. ?K) (\<lambda>_ _. False)"
    using good_fail_loop [OF gf p1 d] by (rule valid_conseq) (use close in blast)+
  have v2: "valid (fail_idepends fail te_idepends target) t (\<lambda>_ s'. ?K s' \<and> tasks_failed te_idepends s' target) (\<lambda>_ _. False)" if "?K t" for t
    using that by (intro valid_conseq [OF fail_idepends_valid [OF gf]]) (auto intro: fail_rel_trans)
  have na: "\<not> tk_abort t" if "?K t" for t using that by (simp add: fail_pre_def)
  have t1: "target \<in> set (tk_failed_deps t)" if "?K t" for t using that by (auto simp: s1_def fail_rel_defs)
  have "valid (remove_buildtarget_with fail target) s (\<lambda>_ s'. ?K s' \<and> tasks_failed te_idepends s' target) (\<lambda>_ _. False)"
    unfolding remove_buildtarget_with_def
    apply (simp flip: s1_def)
    apply (rule valid_conseq [OF v1])
     apply (rule valid_conseq [OF v2])
       apply (use na in auto)
    done
  then show ?thesis
  proof (rule valid_conseq)
    fix s' assume s': "?K s' \<and> tasks_failed te_idepends s' target"
    have "fail_rel s s'" by (rule fail_rel_mark [OF r1, of s' target]) (use s' in \<open>auto simp: s1_def\<close>)
    with s' t1 show "fail_pre U lim F G H s' \<and> fail_rel s s' \<and> target \<in> set (tk_failed_deps s')" by blast
  qed simp
qed

lemma remove_runtarget_with_valid:
  assumes gf: "good_fail U lim fail" "finite U" and pre: "fail_pre U lim F G H s"
  shows "valid (remove_runtarget_with fail target) s
    (\<lambda>_ s'. fail_pre U lim F G H s' \<and> fail_rel s s' \<and> target \<in> set (tk_failed_rdeps s')) (\<lambda>_ _. False)"
proof -
  define s1 where "s1 = s\<lparr>tk_failed_rdeps := tk_failed_rdeps s @ [target]\<rparr>"
  have r1: "fail_rel0 s s1" by (simp add: s1_def fail_rel0_def fail_frame_def shrink_refl subset_insertI)
  have i1: "tkinv F G (insert target H) s1" using pre by (auto simp: fail_pre_def tkinv_def s1_def closed_def)
  have p1: "fail_pre U lim F G (insert target H) s1" by (rule fail_pre_step0 [OF gf(2) pre r1 i1])
  have d: "set (get_rdependees target s1) \<subseteq> U"
    using p1 dependees_keys [of target "tk_rdepids s1"]
    unfolding fail_pre_def known_fns_def get_rdependees_def by blast
  let ?J = "\<lambda>s'. fail_pre U lim F G (insert target H) s' \<and> fail_rel s1 s' \<and>
     set (get_rdependees target s1) \<subseteq> set (tk_failed_fns s')"
  let ?K = "\<lambda>s'. fail_pre U lim F G H s' \<and> fail_rel s1 s'"
  have close: "?K s'" if "?J s'" for s'
  proof -
    have "tkinv F G H s'" using that closed_done [of "tk_rdepids s'" _ _ target H]
      by (auto simp: fail_pre_def tkinv_def get_rdependees_def fail_rel_eqs)
    with that fail_pre_step [OF gf(2), of lim F G "insert target H" s' s'] show ?thesis by simp
  qed
  have v1: "valid (mfor (get_rdependees target s1) fail) s1 (\<lambda>_. ?K) (\<lambda>_ _. False)"
    using good_fail_loop [OF gf p1 d] by (rule valid_conseq) (use close in blast)+
  have v2: "valid (fail_idepends fail te_irdepends target) t (\<lambda>_ s'. ?K s' \<and> tasks_failed te_irdepends s' target) (\<lambda>_ _. False)" if "?K t" for t
    using that by (intro valid_conseq [OF fail_idepends_valid [OF gf]]) (auto intro: fail_rel_trans)
  have t1: "target \<in> set (tk_failed_rdeps t)" if "?K t" for t using that by (auto simp: s1_def fail_rel_defs)
  have "valid (remove_runtarget_with fail target) s (\<lambda>_ s'. ?K s' \<and> tasks_failed te_irdepends s' target) (\<lambda>_ _. False)"
    unfolding remove_runtarget_with_def
    apply (simp flip: s1_def)
    apply (rule valid_conseq [OF v1])
     apply (rule valid_conseq [OF v2])
       apply auto
    done
  then show ?thesis
  proof (rule valid_conseq)
    fix s' assume s': "?K s' \<and> tasks_failed te_irdepends s' target"
    have "fail_rel s s'" by (rule fail_rel_rmark [OF r1, of s' target]) (use s' in \<open>auto simp: s1_def\<close>)
    with s' t1 show "fail_pre U lim F G H s' \<and> fail_rel s s' \<and> target \<in> set (tk_failed_rdeps s')" by blast
  qed simp
qed


declare ddefault_dset [simp]

lemma lists_ok_remove: "lists_ok ts failed F \<Longrightarrow> lists_ok (dset t (remove1 fn (ddefault ts t)) ts) failed F"
  using set_remove1_subset [of fn "ddefault ts t"] by (auto simp: lists_ok_def)

lemma shrink_remove:
  assumes "t \<in> set (dkeys ts)" "remove1 fn (ddefault ts t) = [] \<Longrightarrow> t \<in> set fd"
  shows "shrink ts (dset t (remove1 fn (ddefault ts t)) ts) fd"
  using assms set_remove1_subset [of fn "ddefault ts t"]
  by (auto simp: shrink_def dkeys_dset_mem simp del: list.set_map)

lemma fail_from_build_valid:
  assumes gf: "good_fail U lim fail" "finite U" and pre: "fail_pre U lim F G H s"
    and t: "target \<in> set (dkeys (tk_build_targets s))"
  shows "valid (fail_from_build fail fn target) s
    (\<lambda>_ s'. fail_pre U lim F G H s' \<and> fail_rel s s' \<and> fn \<notin> set (ddefault (tk_build_targets s') target)) (\<lambda>_ _. False)"
proof (cases "fn \<in> set (ddefault (tk_build_targets s) target)")
  case False
  then show ?thesis using pre by (simp add: fail_from_build_def)
next
  case True
  let ?l = "remove1 fn (ddefault (tk_build_targets s) target)"
  define s1 where "s1 = s\<lparr>tk_build_targets := dset target ?l (tk_build_targets s)\<rparr>"
  have dl: "distinct (ddefault (tk_build_targets s) target)"
    using pre by (simp add: fail_pre_def tkinv_def lists_ok_def)
  have i1: "tkinv F G H s1"
    using pre lists_ok_remove [of "tk_build_targets s"] by (simp add: fail_pre_def tkinv_def s1_def)
  have p1: "fail_pre U lim F G H s1"
    using pre i1 by (simp add: fail_pre_def s1_def known_fns_def)
  have gone: "fn \<notin> set (ddefault (tk_build_targets s') target)" if "fail_rel s1 s'" for s'
  proof -
    have "set (ddefault (tk_build_targets s') target) \<subseteq> set (ddefault (tk_build_targets s1) target)"
      using that unfolding fail_rel_defs shrink_def by blast
    then have "set (ddefault (tk_build_targets s') target) \<subseteq> set ?l" by (simp add: s1_def)
    with dl show ?thesis by auto
  qed
  have rel: "fail_rel s s'" if "fail_rel s1 s'" "?l = [] \<Longrightarrow> target \<in> set (tk_failed_deps s')" for s'
  proof -
    have "shrink (tk_build_targets s) (tk_build_targets s1) (tk_failed_deps s')"
      using shrink_remove [OF t that(2)] by (simp add: s1_def)
    moreover have "shrink (tk_build_targets s1) (tk_build_targets s') (tk_failed_deps s')"
      using that(1) by (simp add: fail_rel_defs)
    ultimately have "shrink (tk_build_targets s) (tk_build_targets s') (tk_failed_deps s')"
      by (rule shrink_trans) simp
    with that(1) show ?thesis by (simp add: fail_rel_defs fail_frame_def s1_def)
  qed
  show ?thesis
  proof (cases "?l = []")
    case False
    then show ?thesis using True p1 gone rel dl
      by (simp add: fail_from_build_def flip: s1_def)
  next
    case empty: True
    have "valid (remove_buildtarget_with fail target) s1
      (\<lambda>_ s'. fail_pre U lim F G H s' \<and> fail_rel s s' \<and> fn \<notin> set (ddefault (tk_build_targets s') target)) (\<lambda>_ _. False)"
      by (rule valid_conseq [OF remove_buildtarget_with_valid [OF gf p1]]) (use gone rel in blast)+
    then show ?thesis using True by (simp add: fail_from_build_def empty flip: s1_def [unfolded empty])
  qed
qed
lemma fail_from_run_valid:
  assumes gf: "good_fail U lim fail" "finite U" and pre: "fail_pre U lim F G H s"
    and t: "target \<in> set (dkeys (tk_run_targets s))"
  shows "valid (fail_from_run fail fn target) s
    (\<lambda>_ s'. fail_pre U lim F G H s' \<and> fail_rel s s' \<and> fn \<notin> set (ddefault (tk_run_targets s') target)) (\<lambda>_ _. False)"
proof (cases "fn \<in> set (ddefault (tk_run_targets s) target)")
  case False
  then show ?thesis using pre by (simp add: fail_from_run_def)
next
  case True
  let ?l = "remove1 fn (ddefault (tk_run_targets s) target)"
  define s1 where "s1 = s\<lparr>tk_run_targets := dset target ?l (tk_run_targets s)\<rparr>"
  have dl: "distinct (ddefault (tk_run_targets s) target)"
    using pre by (simp add: fail_pre_def tkinv_def lists_ok_def)
  have i1: "tkinv F G H s1"
    using pre lists_ok_remove [of "tk_run_targets s"] by (simp add: fail_pre_def tkinv_def s1_def)
  have p1: "fail_pre U lim F G H s1"
    using pre i1 by (simp add: fail_pre_def s1_def known_fns_def)
  have gone: "fn \<notin> set (ddefault (tk_run_targets s') target)" if "fail_rel s1 s'" for s'
  proof -
    have "set (ddefault (tk_run_targets s') target) \<subseteq> set (ddefault (tk_run_targets s1) target)"
      using that unfolding fail_rel_defs shrink_def by blast
    then have "set (ddefault (tk_run_targets s') target) \<subseteq> set ?l" by (simp add: s1_def)
    with dl show ?thesis by auto
  qed
  have rel: "fail_rel s s'" if "fail_rel s1 s'" "?l = [] \<Longrightarrow> target \<in> set (tk_failed_rdeps s')" for s'
  proof -
    have "shrink (tk_run_targets s) (tk_run_targets s1) (tk_failed_rdeps s')"
      using shrink_remove [OF t that(2)] by (simp add: s1_def)
    moreover have "shrink (tk_run_targets s1) (tk_run_targets s') (tk_failed_rdeps s')"
      using that(1) by (simp add: fail_rel_defs)
    ultimately have "shrink (tk_run_targets s) (tk_run_targets s') (tk_failed_rdeps s')"
      by (rule shrink_trans) simp
    with that(1) show ?thesis by (simp add: fail_rel_defs fail_frame_def s1_def)
  qed
  show ?thesis
  proof (cases "?l = []")
    case False
    then show ?thesis using True p1 gone rel dl
      by (simp add: fail_from_run_def flip: s1_def)
  next
    case empty: True
    have "valid (remove_runtarget_with fail target) s1
      (\<lambda>_ s'. fail_pre U lim F G H s' \<and> fail_rel s s' \<and> fn \<notin> set (ddefault (tk_run_targets s') target)) (\<lambda>_ _. False)"
      by (rule valid_conseq [OF remove_runtarget_with_valid [OF gf p1]]) (use gone rel in blast)+
    then show ?thesis using True by (simp add: fail_from_run_def empty flip: s1_def [unfolded empty])
  qed
qed

lemma fail_loop:
  assumes gf: "good_fail U lim fail" "finite U"
    and body: "\<And>t u. fail_pre U lim F G H u \<Longrightarrow> t \<in> set (dkeys (sel u)) \<Longrightarrow>
      valid (body t) u (\<lambda>_ s'. fail_pre U lim F G H s' \<and> fail_rel u s' \<and> fn \<notin> set (ddefault (sel s') t)) (\<lambda>_ _. False)"
    and sel: "\<And>u u'. fail_rel u u' \<Longrightarrow> dkeys (sel u') = dkeys (sel u) \<and>
      (\<forall>t. set (ddefault (sel u') t) \<subseteq> set (ddefault (sel u) t))"
    and pre: "fail_pre U lim F G H s"
  shows "valid (mfor (dkeys (sel s)) body) s
    (\<lambda>_ s'. fail_pre U lim F G H s' \<and> fail_rel s s' \<and> (\<forall>t. fn \<notin> set (ddefault (sel s') t))) (\<lambda>_ _. False)"
proof -
  let ?I = "\<lambda>dn s'. fail_pre U lim F G H s' \<and> fail_rel s s' \<and> (\<forall>t \<in> set dn. fn \<notin> set (ddefault (sel s') t))"
  have "valid (mfor (dkeys (sel s)) body) s (\<lambda>_. ?I (dkeys (sel s))) (\<lambda>_ _. False)"
  proof (rule valid_mfor)
    show "?I [] s" using pre by simp
  next
    fix dn t post u
    assume split: "dkeys (sel s) = dn @ t # post" and u: "?I dn u"
    then have "t \<in> set (dkeys (sel s))" by simp
    then have "t \<in> set (dkeys (sel u))" using sel [of s u] u by simp
    with body u have v: "valid (body t) u (\<lambda>_ s'. fail_pre U lim F G H s' \<and> fail_rel u s' \<and>
      fn \<notin> set (ddefault (sel s') t)) (\<lambda>_ _. False)" by blast
    show "valid (body t) u (\<lambda>_. ?I (dn @ [t])) (\<lambda>_ _. False)"
    proof (rule valid_conseq [OF v])
      fix s' assume "fail_pre U lim F G H s' \<and> fail_rel u s' \<and> fn \<notin> set (ddefault (sel s') t)"
      with u sel [of u s'] fail_rel_trans [of s u s'] show "?I (dn @ [t]) s'" by auto
    qed simp
  qed
  then show ?thesis
  proof (rule valid_conseq)
    fix s' assume I: "?I (dkeys (sel s)) s'"
    have "fn \<notin> set (ddefault (sel s') t)" for t
    proof (cases "t \<in> set (dkeys (sel s))")
      case True
      with I show ?thesis by blast
    next
      case False
      then have "t \<notin> set (dkeys (sel s'))" using sel [of s s'] I by simp
      then show ?thesis by (simp add: ddefault_notin)
    qed
    with I show "fail_pre U lim F G H s' \<and> fail_rel s s' \<and> (\<forall>t. fn \<notin> set (ddefault (sel s') t))" by blast
  qed simp
qed

lemma lists_ok_drop:
  "lists_ok ts failed (insert fn F) \<Longrightarrow> \<forall>t. fn \<notin> set (ddefault ts t) \<Longrightarrow> lists_ok ts failed F"
  unfolding lists_ok_def by (metis insert_iff)

lemma fail_rel_lists:
  assumes "fail_rel u u'"
  shows "dkeys (tk_build_targets u') = dkeys (tk_build_targets u) \<and>
      (\<forall>t. set (ddefault (tk_build_targets u') t) \<subseteq> set (ddefault (tk_build_targets u) t))"
    "dkeys (tk_run_targets u') = dkeys (tk_run_targets u) \<and>
      (\<forall>t. set (ddefault (tk_run_targets u') t) \<subseteq> set (ddefault (tk_run_targets u) t))"
  using assms unfolding fail_rel_defs shrink_def by blast+

lemma good_fail_fn:
  assumes U: "finite U"
  shows "good_fail U lim (fail_fn lim)"
proof (induction lim)
  case (Suc lim)
  note gf = Suc U
  show ?case unfolding good_fail_def
  proof (intro allI impI)
    fix F G H s fn
    assume na: "\<not> tk_abort s" and inv: "tkinv F G H s" and U2: "known_fns s \<subseteq> U" "fn \<in> U"
      and c: "card (U - set (tk_failed_fns s)) < Suc lim"
    let ?Q = "\<lambda>s'. tkinv F G H s' \<and> fail_rel s s' \<and> fn \<in> set (tk_failed_fns s')"
    show "valid (fail_fn (Suc lim) fn) s (\<lambda>_. ?Q) (\<lambda>_ _. False)"
    proof (cases "fn \<in> set (tk_failed_fns s)")
      case True
      then show ?thesis using inv by simp
    next
      case False
      define s1 where "s1 = s\<lparr>tk_failed_fns := tk_failed_fns s @ [fn]\<rparr>"
      have r1: "fail_rel s s1" by (simp add: s1_def fail_rel_defs fail_frame_def shrink_refl subset_insertI)
      have i1: "tkinv (insert fn F) G H s1"
        using inv by (auto simp: tkinv_def s1_def lists_ok_def intro: closed_more)
      have "card (U - set (tk_failed_fns s1)) < card (U - set (tk_failed_fns s))"
        using False U2(2) U by (intro psubset_card_mono) (auto simp: s1_def)
      then have p1: "fail_pre U lim (insert fn F) G H s1"
        using na i1 U2(1) c by (simp add: fail_pre_def s1_def known_fns_def)
      let ?J = "\<lambda>s'. fail_pre U lim (insert fn F) G H s' \<and> fail_rel s1 s'"
      have k: "tk_build_targets s1 = tk_build_targets s" by (simp add: s1_def)
      have v1: "valid (mfor (dkeys (tk_build_targets s1)) (fail_from_build (fail_fn lim) fn)) s1
        (\<lambda>_ s'. ?J s' \<and> (\<forall>t. fn \<notin> set (ddefault (tk_build_targets s') t))) (\<lambda>_ _. False)"
        by (rule valid_conseq [OF fail_loop [where sel = tk_build_targets and fn = fn, OF gf fail_from_build_valid [OF gf] _ p1]])
          (use fail_rel_lists(1) in blast)+
      have v2: "valid (mfor (dkeys (tk_run_targets u)) (fail_from_run (fail_fn lim) fn)) u
        (\<lambda>_ s'. ?J s' \<and> (\<forall>t. fn \<notin> set (ddefault (tk_build_targets s') t)) \<and>
           (\<forall>t. fn \<notin> set (ddefault (tk_run_targets s') t))) (\<lambda>_ _. False)"
        if u: "?J u \<and> (\<forall>t. fn \<notin> set (ddefault (tk_build_targets u) t))" for u
      proof (rule valid_conseq [OF fail_loop [where sel = tk_run_targets and fn = fn, OF gf fail_from_run_valid [OF gf]]])
        fix s'
        assume "fail_pre U lim (insert fn F) G H s' \<and> fail_rel u s' \<and> (\<forall>t. fn \<notin> set (ddefault (tk_run_targets s') t))"
        with u fail_rel_trans [of s1 u s'] fail_rel_lists(1) [of u s']
        show "?J s' \<and> (\<forall>t. fn \<notin> set (ddefault (tk_build_targets s') t)) \<and>
           (\<forall>t. fn \<notin> set (ddefault (tk_run_targets s') t))" by blast
      qed (use u fail_rel_lists(2) in blast)+
      have fin: "?Q s'" if "?J s' \<and> (\<forall>t. fn \<notin> set (ddefault (tk_build_targets s') t)) \<and>
           (\<forall>t. fn \<notin> set (ddefault (tk_run_targets s') t))" for s'
      proof -
        have "tkinv F G H s'" using that lists_ok_drop unfolding fail_pre_def tkinv_def by blast
        moreover have "fn \<in> set (tk_failed_fns s')" using that by (auto simp: fail_rel_defs s1_def)
        ultimately show ?thesis using that fail_rel_trans [OF r1, of s'] by blast
      qed
      have "valid (fail_fn (Suc lim) fn) s (\<lambda>_ s'. ?J s' \<and> (\<forall>t. fn \<notin> set (ddefault (tk_build_targets s') t)) \<and>
           (\<forall>t. fn \<notin> set (ddefault (tk_run_targets s') t))) (\<lambda>_ _. False)"
        using False
        apply (simp flip: s1_def)
        apply (rule valid_conseq [OF v1 [unfolded k]])
         apply (rule valid_conseq [OF v2])
           apply auto
        done
      then show ?thesis by (rule valid_conseq) (use fin in blast)+
    qed
  qed
qed (simp add: good_fail_def)

section \<open>Resolution\<close>

text \<open>
  The names of the cache lie in the set U: dependencies of recipes, of packages and of tasks; and
  no task name has a colon.
\<close>

definition flags_in :: "string set \<Rightarrow> taskdeps \<Rightarrow> bool" where
  "flags_in U td \<longleftrightarrow> (\<forall>task \<in> set (td_tasks td). CHR '':'' \<notin> set task) \<and>
     (\<forall>flag task v dep p. flag_value td flag task = Some v \<longrightarrow> dep \<in> set (split_ws v) \<longrightarrow>
        split_dep dep = Inr p \<longrightarrow> fst p \<in> U)"

definition cache_names :: "string set \<Rightarrow> datacache \<Rightarrow> bool" where
  "cache_names U dc \<longleftrightarrow>
     (\<forall>fn. set (ddefault (dc_deps dc) fn) \<subseteq> U) \<and>
     (\<forall>fn. set (concat (map snd (ddefault (dc_rundeps dc) fn))) \<subseteq> U) \<and>
     (\<forall>fn. set (concat (map snd (ddefault (dc_runrecs dc) fn))) \<subseteq> U) \<and>
     (\<forall>fn td. dget (dc_task_deps dc) fn = Some td \<longrightarrow> flags_in U td)"

text \<open>The exceptions the resolution catches are the noisy ones.\<close>

definition quiet :: "exc \<Rightarrow> bool" where
  "quiet e = (case e of NoProvider _ \<Rightarrow> False | NoRProvider _ \<Rightarrow> False | MultipleRProvider _ \<Rightarrow> False | _ \<Rightarrow> True)"

text \<open>What the metadata function may do: names stay in U, and it raises nothing that is caught.\<close>

definition extra_ok :: "string set \<Rightarrow> extra_deps \<Rightarrow> bool" where
  "extra_ok U xd \<longleftrightarrow>
     (\<forall>f deps w p pn. (case xd f deps w p pn of Inl e \<Rightarrow> quiet e | Inr deps' \<Rightarrow> set deps \<subseteq> U \<longrightarrow> set deps' \<subseteq> U))"

text \<open>
  The state between the operations: \<open>deps_seen\<close>: the dependencies of every file that was added
  and did not fail are known targets; \<open>lists_seen\<close>: every provider was added. The files in D and L
  are exempt while they are being added.
\<close>

definition deps_seen :: "string set \<Rightarrow> tkstate \<Rightarrow> bool" where
  "deps_seen D s \<longleftrightarrow> (\<forall>fn \<in> set (tk_seenfns s). fn \<notin> set (tk_failed_fns s) \<longrightarrow> fn \<notin> D \<longrightarrow>
     set (ddefault (tk_depids s) fn) \<subseteq> set (dkeys (tk_build_targets s)) \<and>
     set (ddefault (tk_rdepids s) fn) \<subseteq> set (dkeys (tk_run_targets s)))"

definition lists_seen :: "string set \<Rightarrow> tkstate \<Rightarrow> bool" where
  "lists_seen L s \<longleftrightarrow> (\<forall>t. set (ddefault (tk_build_targets s) t) \<subseteq> set (tk_seenfns s) \<union> L \<and>
     set (ddefault (tk_run_targets s) t) \<subseteq> set (tk_seenfns s) \<union> L)"

definition good :: "string set \<Rightarrow> string set \<Rightarrow> string set \<Rightarrow> string set \<Rightarrow> string set \<Rightarrow> tkstate \<Rightarrow> bool" where
  "good U G H D L s \<longleftrightarrow> \<not> tk_abort s \<and> \<not> tk_allowincomplete s \<and> tkinv {} G H s \<and> deps_seen D s \<and> lists_seen L s \<and>
     cache_names U (tk_cache s) \<and> known_fns s \<subseteq> set (dkeys (dc_task_deps (tk_cache s))) \<and>
     set (dkeys (tk_build_targets s)) \<subseteq> U \<and> set (dkeys (tk_run_targets s)) \<subseteq> U \<and>
     (\<forall>fn. set (ddefault (tk_depids s) fn) \<subseteq> U \<and> set (ddefault (tk_rdepids s) fn) \<subseteq> U)"

text \<open>Progress: a target that has a provider or has failed stays so.\<close>

definition settled_build :: "string \<Rightarrow> tkstate \<Rightarrow> bool" where
  "settled_build t s \<longleftrightarrow> ddefault (tk_build_targets s) t \<noteq> [] \<or> t \<in> set (tk_failed_deps s)"

definition settled_run :: "string \<Rightarrow> tkstate \<Rightarrow> bool" where
  "settled_run t s \<longleftrightarrow> ddefault (tk_run_targets s) t \<noteq> [] \<or> t \<in> set (tk_failed_rdeps s)"

definition settles :: "tkstate \<Rightarrow> tkstate \<Rightarrow> bool" where
  "settles s s' \<longleftrightarrow> (\<forall>t. settled_build t s \<longrightarrow> settled_build t s') \<and> (\<forall>t. settled_run t s \<longrightarrow> settled_run t s') \<and>
     dkeys (dc_task_deps (tk_cache s')) = dkeys (dc_task_deps (tk_cache s)) \<and>
     dc_ignored_dependencies (tk_cache s') = dc_ignored_dependencies (tk_cache s)"

lemma settles_refl [simp]: "settles s s"
  by (simp add: settles_def)

lemma settles_trans: "settles s s' \<Longrightarrow> settles s' s'' \<Longrightarrow> settles s s''"
  by (simp add: settles_def)

lemma fail_rel_settles: "fail_rel s s' \<Longrightarrow> settles s s'"
  unfolding settles_def settled_build_def settled_run_def
  by (auto simp: fail_rel_eqs) (auto simp: fail_rel_defs shrink_def)

lemma good_fail_rel:
  assumes "good U G H D L s" "fail_rel s s'" "tkinv {} G H s'"
  shows "good U G H D L s'"
proof -
  have "deps_seen D s'" using assms(1,2) fail_rel_lists [OF assms(2)]
    by (auto simp: good_def deps_seen_def fail_rel_defs fail_frame_def)
  moreover have "lists_seen L s'" using assms(1,2) fail_rel_lists [OF assms(2)]
    unfolding good_def lists_seen_def fail_rel_defs fail_frame_def by (metis subset_trans)
  ultimately show ?thesis
    using assms fail_rel_lists [OF assms(2)] by (simp add: good_def fail_rel_eqs known_fns_fail_rel)
qed

text \<open>Enough recursion depth for the files of the cache.\<close>

lemma good_fail_pre:
  assumes "good U G H D L s" "length (dc_task_deps (tk_cache s)) < lim"
  shows "fail_pre (set (dkeys (dc_task_deps (tk_cache s)))) lim {} G H s"
proof -
  let ?V = "set (dkeys (dc_task_deps (tk_cache s)))"
  have "card (?V - set (tk_failed_fns s)) \<le> card ?V" by (intro card_mono) auto
  also have "\<dots> \<le> length (dc_task_deps (tk_cache s))" by (metis card_length length_map)
  finally show ?thesis using assms by (simp add: fail_pre_def good_def)
qed

lemma fail_fn_good:
  assumes g: "good U G H D L s" and lim: "length (dc_task_deps (tk_cache s)) < lim"
    and fn: "fn \<in> set (dkeys (dc_task_deps (tk_cache s)))"
  shows "valid (fail_fn lim fn) s
    (\<lambda>_ s'. good U G H D L s' \<and> fail_rel s s' \<and> fn \<in> set (tk_failed_fns s')) (\<lambda>_ _. False)"
  by (rule valid_conseq [OF good_fail_valid [OF good_fail_fn good_fail_pre [OF g lim] fn]])
    (auto simp: fail_pre_def intro: good_fail_rel [OF g])

lemma remove_buildtarget_good:
  assumes g: "good U G H D L s" and lim: "length (dc_task_deps (tk_cache s)) < lim"
  shows "valid (remove_buildtarget lim t) s
    (\<lambda>_ s'. good U G H D L s' \<and> fail_rel s s' \<and> t \<in> set (tk_failed_deps s')) (\<lambda>_ _. False)"
  unfolding remove_buildtarget_def
  by (rule valid_conseq [OF remove_buildtarget_with_valid [OF good_fail_fn _ good_fail_pre [OF g lim]]])
    (auto simp: fail_pre_def intro: good_fail_rel [OF g])

lemma remove_runtarget_good:
  assumes g: "good U G H D L s" and lim: "length (dc_task_deps (tk_cache s)) < lim"
  shows "valid (remove_runtarget lim t) s
    (\<lambda>_ s'. good U G H D L s' \<and> fail_rel s s' \<and> t \<in> set (tk_failed_rdeps s')) (\<lambda>_ _. False)"
  unfolding remove_runtarget_def
  by (rule valid_conseq [OF remove_runtarget_with_valid [OF good_fail_fn _ good_fail_pre [OF g lim]]])
    (auto simp: fail_pre_def intro: good_fail_rel [OF g])


section \<open>Adding a file\<close>

lemma same_pn_quiet: "same_pn dc pn gs = Inl e \<Longrightarrow> quiet e"
  by (induction gs) (auto simp: res_simps quiet_def split: if_splits)

lemma world_provides_quiet: "world_provides dc pn ps b = Inl e \<Longrightarrow> quiet e"
  by (induction ps arbitrary: b) (auto simp: res_simps dest: same_pn_quiet split: if_splits)

lemma world_step_quiet: "world_step dc task f w = Inl e \<Longrightarrow> quiet e"
  by (auto simp: world_step_def res_simps quiet_def[of "KeyError _"] dest: world_provides_quiet
      split: option.splits list.splits)

lemma buildWorldTargetList_quiet: "buildWorldTargetList dc task = Inl e \<Longrightarrow> quiet e"
  by (auto simp: buildWorldTargetList_def res_simps dest!: rfold_Inl dest: world_step_quiet split: if_splits)

lemma buildWorldTargetList_cache:
  "buildWorldTargetList dc task = Inr dc' \<Longrightarrow> dc' = dc\<lparr>dc_world_target := dc_world_target dc'\<rparr>"
  by (auto simp: buildWorldTargetList_def res_simps split: if_splits)

lemma extra_deps_of_cases:
  assumes "extra_ok U xd" "cache_names U dc"
  shows "case extra_deps_of xd fn dc of Inl e \<Rightarrow> quiet e
    | Inr dc' \<Rightarrow> cache_names U dc' \<and> dc_task_deps dc' = dc_task_deps dc \<and>
        dc_ignored_dependencies dc' = dc_ignored_dependencies dc"
proof (cases "extra_deps_of xd fn dc")
  case (Inl e)
  then show ?thesis using assms(1)
    by (auto simp: extra_deps_of_def res_simps extra_ok_def quiet_def [of "KeyError _"] dest: buildWorldTargetList_quiet
        split: option.splits list.splits sum.splits)
next
  case (Inr dc')
  show ?thesis
  proof (cases "\<exists>c func. dget (dc_extradepsfunc dc) fn = Some (c # func)")
    case False
    then have "dc' = dc" using Inr by (auto simp: extra_deps_of_def split: option.splits list.splits)
    then show ?thesis using assms(2) Inr by simp
  next
    case True
    then obtain c func where "dget (dc_extradepsfunc dc) fn = Some (c # func)" by blast
    with Inr obtain dc1 pn deps where
      b: "buildWorldTargetList dc None = Inr dc1"
      and x: "xd (c # func) (ddefault (dc_deps dc1) fn) (dc_world_target dc1) (dc_pkg_pn dc1) pn = Inr deps"
      and d: "dc' = dc1\<lparr>dc_deps := dset fn deps (dc_deps dc1)\<rparr>"
      by (auto simp: extra_deps_of_def res_simps)
    from buildWorldTargetList_cache [OF b] obtain w where w: "dc1 = dc\<lparr>dc_world_target := w\<rparr>" by blast
    have "set (ddefault (dc_deps dc1) fn) \<subseteq> U" using assms(2) by (simp add: w cache_names_def)
    then have "set deps \<subseteq> U" using assms(1) x by (auto simp: extra_ok_def split: sum.splits)
    then show ?thesis using assms(2) Inr by (simp add: d w cache_names_def)
  qed
qed

definition task_rel :: "tkstate \<Rightarrow> tkstate \<Rightarrow> bool" where
  "task_rel s s' \<longleftrightarrow>
     tk_failed_fns s' = tk_failed_fns s \<and> tk_failed_deps s' = tk_failed_deps s \<and>
     tk_failed_rdeps s' = tk_failed_rdeps s \<and> tk_seenfns s' = tk_seenfns s \<and>
     tk_depids s' = tk_depids s \<and> tk_rdepids s' = tk_rdepids s \<and> tk_cache s' = tk_cache s \<and>
     tk_abort s' = tk_abort s \<and> tk_allowincomplete s' = tk_allowincomplete s \<and>
     (\<forall>t. ddefault (tk_build_targets s') t = ddefault (tk_build_targets s) t) \<and>
     (\<forall>t. ddefault (tk_run_targets s') t = ddefault (tk_run_targets s) t) \<and>
     set (dkeys (tk_build_targets s)) \<subseteq> set (dkeys (tk_build_targets s')) \<and>
     set (dkeys (tk_run_targets s)) \<subseteq> set (dkeys (tk_run_targets s'))"

lemma task_rel_refl [simp]: "task_rel s s"
  by (simp add: task_rel_def)

lemma task_rel_trans: "task_rel s s' \<Longrightarrow> task_rel s' s'' \<Longrightarrow> task_rel s s''"
  unfolding task_rel_def by (elim conjE, intro conjI) (simp | blast)+

lemma task_rel_settles: "task_rel s s' \<Longrightarrow> settles s s'"
  by (simp add: task_rel_def settles_def settled_build_def settled_run_def)

lemma good_task_rel:
  assumes g: "good U G H D L s" and r: "task_rel s s'"
    and k: "known_fns s' \<subseteq> set (dkeys (dc_task_deps (tk_cache s)))"
    "set (dkeys (tk_build_targets s')) \<subseteq> U" "set (dkeys (tk_run_targets s')) \<subseteq> U"
  shows "good U G H D L s'"
proof -
  have "tkinv {} G H s'" using g r by (simp add: good_def tkinv_def lists_ok_def task_rel_def)
  moreover have "deps_seen D s'"
  proof -
    have e: "tk_seenfns s' = tk_seenfns s" "tk_failed_fns s' = tk_failed_fns s" "tk_depids s' = tk_depids s"
      "tk_rdepids s' = tk_rdepids s" and sub: "set (dkeys (tk_build_targets s)) \<subseteq> set (dkeys (tk_build_targets s'))"
      "set (dkeys (tk_run_targets s)) \<subseteq> set (dkeys (tk_run_targets s'))" and d: "deps_seen D s"
      using g r unfolding good_def task_rel_def by blast+
    show ?thesis unfolding deps_seen_def e
    proof (intro ballI impI)
      fix fn assume "fn \<in> set (tk_seenfns s)" "fn \<notin> set (tk_failed_fns s)" "fn \<notin> D"
      then have "set (ddefault (tk_depids s) fn) \<subseteq> set (dkeys (tk_build_targets s)) \<and>
        set (ddefault (tk_rdepids s) fn) \<subseteq> set (dkeys (tk_run_targets s))"
        using d unfolding deps_seen_def by blast
      then show "set (ddefault (tk_depids s) fn) \<subseteq> set (dkeys (tk_build_targets s')) \<and>
        set (ddefault (tk_rdepids s) fn) \<subseteq> set (dkeys (tk_run_targets s'))" using sub by blast
    qed
  qed
  moreover have "lists_seen L s'" using g r by (simp add: good_def lists_seen_def task_rel_def)
  ultimately show ?thesis using g r k by (simp add: good_def task_rel_def)
qed

lemma ddefault_seen_target [simp]: "ddefault (seen_target n ts) t = ddefault ts t"
  using ddefault_notin [of n ts] by (auto simp: seen_target_def simp del: list.set_map)

lemma keys_seen_target: "set (dkeys (seen_target n ts)) = insert n (set (dkeys ts))"
  unfolding seen_target_def by (auto simp del: list.set_map simp: set_dkeys_dset)

lemma seen_build_valid:
  assumes "good U G H D L s" "n \<in> U"
  shows "valid (seen_build_target n) s (\<lambda>_ s'. good U G H D L s' \<and> task_rel s s' \<and>
    n \<in> set (dkeys (tk_build_targets s'))) E"
proof -
  let ?s = "s\<lparr>tk_build_targets := seen_target n (tk_build_targets s)\<rparr>"
  have k: "set (dkeys (tk_build_targets ?s)) = insert n (set (dkeys (tk_build_targets s)))"
    using keys_seen_target [of n "tk_build_targets s"] by simp
  have "task_rel s ?s" unfolding task_rel_def k by auto
  moreover have "good U G H D L ?s" using assms k
    by (intro good_task_rel [OF assms(1) \<open>task_rel s ?s\<close>]) (auto simp: good_def known_fns_def)
  ultimately show ?thesis using k by (simp add: seen_build_target_def del: list.set_map)
qed

lemma seen_run_valid:
  assumes "good U G H D L s" "n \<in> U"
  shows "valid (seen_run_target n) s (\<lambda>_ s'. good U G H D L s' \<and> task_rel s s' \<and>
    n \<in> set (dkeys (tk_run_targets s'))) E"
proof -
  let ?s = "s\<lparr>tk_run_targets := seen_target n (tk_run_targets s)\<rparr>"
  have k: "set (dkeys (tk_run_targets ?s)) = insert n (set (dkeys (tk_run_targets s)))"
    using keys_seen_target [of n "tk_run_targets s"] by simp
  have "task_rel s ?s" unfolding task_rel_def k by auto
  moreover have "good U G H D L ?s" using assms k
    by (intro good_task_rel [OF assms(1) \<open>task_rel s ?s\<close>]) (auto simp: good_def known_fns_def)
  ultimately show ?thesis using k by (simp add: seen_run_target_def del: list.set_map)
qed

lemma flag_deps_valid:
  assumes seen: "\<And>n t. n \<in> U \<Longrightarrow> K t \<Longrightarrow> valid (seen n) t (\<lambda>_. K) (\<lambda>e _. quiet e)" and "K s"
    and v: "\<And>w dep p. v = Some w \<Longrightarrow> dep \<in> set (split_ws w) \<Longrightarrow> split_dep dep = Inr p \<Longrightarrow> fst p \<in> U"
  shows "valid (flag_deps seen v) s (\<lambda>_. K) (\<lambda>e _. quiet e)"
proof (cases v)
  case (Some w)
  have "valid (mbind (mlift (split_dep dep)) (\<lambda>p. mseq (seen (fst p)) (mret p))) t (\<lambda>_. K) (\<lambda>e _. quiet e)"
    if "dep \<in> set (split_ws w)" "K t" for dep t
  proof (cases "split_dep dep")
    case (Inl e)
    then have "e = MsgFatal ''TaskData''" by (auto simp: split_dep_def split: if_splits)
    then show ?thesis by (simp add: Inl quiet_def)
  next
    case (Inr p)
    then show ?thesis using v [OF Some that(1) Inr] that(2) seen [of "fst p" t] by simp
  qed
  then show ?thesis using assms(2) by (simp add: flag_deps_def Some valid_mmap_simple)
qed (use assms(2) in \<open>simp add: flag_deps_def\<close>)

lemma known_fns_entries:
  "known_fns (s\<lparr>tk_taskentries := dset tid e (tk_taskentries s)\<rparr>) = insert (fn_from_tid tid) (known_fns s)"
  by (auto simp: known_fns_def)

lemma upd_entry_valid:
  assumes "good U G H D L s"
  shows "valid (upd_entry tid f) s (\<lambda>_ s'. good U G H D L s' \<and> task_rel s s') E"
proof (cases "dget (tk_taskentries s) tid")
  case (Some e)
  let ?s = "s\<lparr>tk_taskentries := dset tid (f e) (tk_taskentries s)\<rparr>"
  have "task_rel s ?s" by (simp add: task_rel_def)
  moreover have "tid \<in> set (dkeys (tk_taskentries s))" using Some unfolding dget_Some_key by blast
  then have "fn_from_tid tid \<in> known_fns s" unfolding known_fns_def by blast
  then have "known_fns ?s = known_fns s" by (simp add: known_fns_entries insert_absorb)
  then have "good U G H D L ?s" using assms
    by (intro good_task_rel [OF assms \<open>task_rel s ?s\<close>]) (auto simp: good_def)
  ultimately show ?thesis using Some by (simp add: upd_entry_def)
qed (use assms in \<open>simp add: upd_entry_def\<close>)

lemma add_task_valid:
  assumes g: "good U G H D L s" and fn: "fn \<in> set (dkeys (dc_task_deps (tk_cache s)))"
    and td: "flags_in U td" "task \<in> set (td_tasks td)"
  shows "valid (add_task fn td task) s (\<lambda>_ s'. good U G H D L s' \<and> task_rel s s') (\<lambda>e _. quiet e)"
proof -
  let ?tid = "fn @ '':'' @ task"
  let ?K = "\<lambda>s'. good U G H D L s' \<and> task_rel s s'"
  define s1 where "s1 = s\<lparr>tk_taskentries := dset ?tid \<lparr>te_tdepends = [], te_idepends = [], te_irdepends = []\<rparr> (tk_taskentries s)\<rparr>"
  have "fn_from_tid ?tid = fn" using td by (simp add: flags_in_def)
  then have "known_fns s1 = insert fn (known_fns s)" unfolding s1_def known_fns_entries by simp
  then have k1: "?K s1" using g fn
    by (intro conjI good_task_rel [OF g]) (auto simp: good_def s1_def task_rel_def)
  have u: "valid (upd_entry ?tid f) t (\<lambda>_. ?K) (\<lambda>e _. quiet e)" if "?K t" for t f
    using that by (intro valid_conseq [OF upd_entry_valid]) (auto intro: task_rel_trans)
  have sb: "valid (seen_build_target n) t (\<lambda>_. ?K) (\<lambda>e _. quiet e)" if "n \<in> U" "?K t" for n t
    using that by (intro valid_conseq [OF seen_build_valid [of U G H D L t n "\<lambda>e _. quiet e"]]) (auto intro: task_rel_trans)
  have sr: "valid (seen_run_target n) t (\<lambda>_. ?K) (\<lambda>e _. quiet e)" if "n \<in> U" "?K t" for n t
    using that by (intro valid_conseq [OF seen_run_valid [of U G H D L t n "\<lambda>e _. quiet e"]]) (auto intro: task_rel_trans)
  have fb: "valid (flag_deps seen_build_target (flag_value td flag task)) t (\<lambda>_. ?K) (\<lambda>e _. quiet e)" if "?K t" for t flag
    by (rule flag_deps_valid [OF sb]) (use that td(1) in \<open>auto simp: flags_in_def\<close>)
  have fr: "valid (flag_deps seen_run_target (flag_value td flag task)) t (\<lambda>_. ?K) (\<lambda>e _. quiet e)" if "?K t" for t flag
    by (rule flag_deps_valid [OF sr]) (use that td(1) in \<open>auto simp: flags_in_def\<close>)
  have p: "valid (mlift (ditem (td_parents td) task)) s1 (\<lambda>_. ?K) (\<lambda>e _. quiet e)"
    using k1 by (auto simp: res_simps quiet_def split: sum.split)
  have m: "valid (mmod (\<lambda>s. s\<lparr>tk_taskentries := dset ?tid \<lparr>te_tdepends = [], te_idepends = [], te_irdepends = []\<rparr>
    (tk_taskentries s)\<rparr>)) s (\<lambda>_ t. t = s1) (\<lambda>e _. quiet e)" by (simp add: s1_def)
  show ?thesis unfolding add_task_def Let_def
    by (rule valid_bindI [OF m], simp only:, rule valid_bindI [OF p], rule valid_bindI [OF u], assumption,
        rule valid_bindI [OF fb], assumption, rule valid_bindI [OF u], assumption,
        rule valid_bindI [OF fr], assumption, rule u)
qed

text \<open>
  While fn is added its own dependencies may have failed already; the files other than fn that
  depend on those have failed too.
\<close>

definition others :: "string \<Rightarrow> string set \<Rightarrow> string set \<Rightarrow> tkstate \<Rightarrow> bool" where
  "others fn G H s \<longleftrightarrow>
     (\<forall>x \<in> G. \<forall>g. g \<noteq> fn \<longrightarrow> x \<in> set (ddefault (tk_depids s) g) \<longrightarrow> g \<in> set (tk_failed_fns s)) \<and>
     (\<forall>x \<in> H. \<forall>g. g \<noteq> fn \<longrightarrow> x \<in> set (ddefault (tk_rdepids s) g) \<longrightarrow> g \<in> set (tk_failed_fns s))"

lemma good_reclose:
  assumes g: "good U G H {fn} L s" and o: "others fn G H s"
    and fn: "fn \<in> set (tk_failed_fns s) \<or>
      (set (ddefault (tk_depids s) fn) \<subseteq> set (dkeys (tk_build_targets s)) - G \<and>
       set (ddefault (tk_rdepids s) fn) \<subseteq> set (dkeys (tk_run_targets s)) - H)"
  shows "good U {} {} {} L s"
proof -
  have "closed (tk_depids s) (tk_failed_deps s) (tk_failed_fns s) {}"
    unfolding closed_def
  proof (intro ballI impI allI)
    fix t h assume "t \<in> set (tk_failed_deps s)" "t \<in> set (ddefault (tk_depids s) h)"
    with g o fn show "h \<in> set (tk_failed_fns s)"
      by (cases "t \<in> G"; cases "h = fn") (auto simp: good_def tkinv_def closed_def others_def)
  qed
  moreover have "closed (tk_rdepids s) (tk_failed_rdeps s) (tk_failed_fns s) {}"
    unfolding closed_def
  proof (intro ballI impI allI)
    fix t h assume "t \<in> set (tk_failed_rdeps s)" "t \<in> set (ddefault (tk_rdepids s) h)"
    with g o fn show "h \<in> set (tk_failed_fns s)"
      by (cases "t \<in> H"; cases "h = fn") (auto simp: good_def tkinv_def closed_def others_def)
  qed
  moreover have "deps_seen {} s" using g fn unfolding good_def deps_seen_def by blast
  ultimately show ?thesis using g by (simp add: good_def tkinv_def)
qed

lemma others_fail_rel: "others fn G H s \<Longrightarrow> fail_rel s s' \<Longrightarrow> others fn G H s'"
  unfolding others_def by (auto simp: fail_rel_eqs) (auto simp: fail_rel_defs)

lemma others_task_rel: "others fn G H s \<Longrightarrow> task_rel s s' \<Longrightarrow> others fn G H s'"
  by (simp add: others_def task_rel_def)

lemma settles_lim: "settles s s' \<Longrightarrow> length (dc_task_deps (tk_cache s')) = length (dc_task_deps (tk_cache s))"
  unfolding settles_def by (metis length_map)

text \<open>One of the two loops over the dependencies of the new file.\<close>

lemma check_loop_valid:
  assumes g: "good U G H {fn} {} s" and o: "others fn G H s" and lim: "length (dc_task_deps (tk_cache s)) < lim"
    and fn: "fn \<in> set (dkeys (dc_task_deps (tk_cache s)))" "fn \<notin> set (tk_failed_fns s)" and ds: "set deps \<subseteq> U"
    and seen: "\<And>n t. n \<in> U \<Longrightarrow> good U G H {fn} {} t \<Longrightarrow> valid (seen n) t
      (\<lambda>_ t'. good U G H {fn} {} t' \<and> task_rel t t' \<and> n \<in> set (dkeys (sel t'))) (\<lambda>_ _. False)"
    and F: "\<And>t t'. task_rel t t' \<Longrightarrow> set (failed t') = set (failed t)"
    and S: "\<And>t t'. task_rel t t' \<Longrightarrow> set (dkeys (sel t)) \<subseteq> set (dkeys (sel t'))"
  shows "valid (mfor_until deps (check_dep lim fn seen failed)) s
    (\<lambda>stop s'. if stop then good U {} {} {} {} s' \<and> settles s s'
      else good U G H {fn} {} s' \<and> task_rel s s' \<and> (\<forall>d \<in> set deps. d \<in> set (dkeys (sel s')) \<and> d \<notin> set (failed s)))
    (\<lambda>_ _. False)"
proof (rule valid_mfor_until)
  show "good U G H {fn} {} s \<and> task_rel s s \<and> (\<forall>d \<in> set []. d \<in> set (dkeys (sel s)) \<and> d \<notin> set (failed s))"
    using g by simp
next
  fix pre d post t
  assume split: "deps = pre @ d # post"
    and t: "good U G H {fn} {} t \<and> task_rel s t \<and> (\<forall>d \<in> set pre. d \<in> set (dkeys (sel t)) \<and> d \<notin> set (failed s))"
  then have "d \<in> U" using ds by auto
  show "valid (check_dep lim fn seen failed d) t
    (\<lambda>b t'. if b then good U {} {} {} {} t' \<and> settles s t'
      else good U G H {fn} {} t' \<and> task_rel s t' \<and> (\<forall>d \<in> set (pre @ [d]). d \<in> set (dkeys (sel t')) \<and> d \<notin> set (failed s)))
    (\<lambda>_ _. False)"
    unfolding check_dep_def
  proof (rule valid_bindI [OF seen [OF \<open>d \<in> U\<close>]])
    show "good U G H {fn} {} t" using t by blast
  next
    fix t1 assume "good U G H {fn} {} t1 \<and> task_rel t t1 \<and> d \<in> set (dkeys (sel t1))"
    then have t1: "good U G H {fn} {} t1" "task_rel s t1" "d \<in> set (dkeys (sel t1))" "task_rel t t1"
      using t task_rel_trans by blast+
    show "valid (mbind (mget (\<lambda>s. d \<in> set (failed s))) (\<lambda>b.
       if b then mseq (fail_fn lim fn) (mret True) else mret False)) t1
     (\<lambda>b t'. if b then good U {} {} {} {} t' \<and> settles s t'
      else good U G H {fn} {} t' \<and> task_rel s t' \<and> (\<forall>d \<in> set (pre @ [d]). d \<in> set (dkeys (sel t')) \<and> d \<notin> set (failed s)))
     (\<lambda>_ _. False)"
    proof (cases "d \<in> set (failed t1)")
      case True
      have "tk_cache t1 = tk_cache s" using t1(2) by (simp add: task_rel_def)
      then have v: "valid (fail_fn lim fn) t1 (\<lambda>_ s'. good U G H {fn} {} s' \<and> fail_rel t1 s' \<and> fn \<in> set (tk_failed_fns s')) (\<lambda>_ _. False)"
        using fail_fn_good [OF t1(1), of lim fn] lim fn(1) by simp
      have "good U {} {} {} {} s' \<and> settles s s'"
        if "good U G H {fn} {} s' \<and> fail_rel t1 s' \<and> fn \<in> set (tk_failed_fns s')" for s'
        using that o t1(2) good_reclose others_task_rel others_fail_rel
          settles_trans task_rel_settles fail_rel_settles by metis
      then show ?thesis using True by (simp, intro valid_conseq [OF v]) auto
    next
      case False
      then have "d \<notin> set (failed s)" using F [OF t1(2)] by simp
      moreover have "\<forall>d \<in> set pre. d \<in> set (dkeys (sel t1)) \<and> d \<notin> set (failed s)"
        using t S [OF t1(4)] by blast
      ultimately show ?thesis using False t1 by (simp del: list.set_map)
    qed
  qed
qed


lemma add_extra_deps_valid:
  assumes x: "extra_ok U xd" and g: "good U G H D L s"
  shows "valid (add_extra_deps xd fn) s (\<lambda>_ s'. good U G H D L s' \<and> settles s s' \<and>
    tk_failed_fns s' = tk_failed_fns s \<and> dc_task_deps (tk_cache s') = dc_task_deps (tk_cache s)) (\<lambda>e _. quiet e)"
proof -
  have "cache_names U (tk_cache s)" using g by (simp add: good_def)
  from extra_deps_of_cases [OF x this, of fn] show ?thesis
    using g by (cases "extra_deps_of xd fn (tk_cache s)")
      (auto simp: add_extra_deps_def good_def tkinv_def deps_seen_def lists_seen_def known_fns_def settles_def
        settled_build_def settled_run_def)
qed

lemma note_ids_good:
  assumes g: "good U {} {} {fn} {} s" and fn: "fn \<in> set (dkeys (dc_task_deps (tk_cache s)))"
  defines "s' \<equiv> note_rdepids fn (note_depids fn s)"
  shows "good U (set (tk_failed_deps s)) (set (tk_failed_rdeps s)) {fn} {} s' \<and>
    others fn (set (tk_failed_deps s)) (set (tk_failed_rdeps s)) s' \<and> settles s s' \<and>
    tk_failed_fns s' = tk_failed_fns s \<and> tk_failed_deps s' = tk_failed_deps s \<and>
    tk_failed_rdeps s' = tk_failed_rdeps s \<and> tk_cache s' = tk_cache s"
proof -
  let ?s1 = "note_depids fn s"
  have n: "set (ddefault (dc_deps (tk_cache s)) f) \<subseteq> U"
    "set (concat (map snd (ddefault (dc_rundeps (tk_cache s)) f))) \<subseteq> U"
    "set (concat (map snd (ddefault (dc_runrecs (tk_cache s)) f))) \<subseteq> U" for f
    using g by (simp_all only: good_def cache_names_def)
  have d: "tk_depids s' = tk_depids ?s1" "tk_rdepids ?s1 = tk_rdepids s"
    by (simp_all add: s'_def note_depids_def note_rdepids_def)
  have c: "tk_cache s' = tk_cache s" "tk_cache ?s1 = tk_cache s"
    by (simp_all add: s'_def note_depids_def note_rdepids_def)
  have same: "ddefault (tk_depids s') f = ddefault (tk_depids s) f \<and> ddefault (tk_rdepids s') f = ddefault (tk_rdepids s) f"
    if "f \<noteq> fn" for f using that by (auto simp: s'_def note_depids_def note_rdepids_def)
  have sub: "set (ddefault (tk_depids s') fn) \<subseteq> U" "set (ddefault (tk_rdepids s') fn) \<subseteq> U"
    using g n [of fn] by (auto simp: s'_def note_depids_def note_rdepids_def good_def set_fold_sadd)
  have keys: "set (dkeys (tk_depids s')) \<subseteq> insert fn (set (dkeys (tk_depids s)))"
    "set (dkeys (tk_rdepids s')) \<subseteq> insert fn (set (dkeys (tk_rdepids s)))"
    by (auto simp: s'_def note_depids_def note_rdepids_def)
  have rest: "tk_failed_fns s' = tk_failed_fns s" "tk_failed_deps s' = tk_failed_deps s"
    "tk_failed_rdeps s' = tk_failed_rdeps s" "tk_build_targets s' = tk_build_targets s"
    "tk_run_targets s' = tk_run_targets s" "tk_seenfns s' = tk_seenfns s" "tk_abort s' = tk_abort s"
    "tk_allowincomplete s' = tk_allowincomplete s" "tk_taskentries s' = tk_taskentries s"
    by (simp_all add: s'_def note_depids_def note_rdepids_def)
  have all: "set (ddefault (tk_depids s') f) \<subseteq> U \<and> set (ddefault (tk_rdepids s') f) \<subseteq> U" for f
    using sub same [of f] g by (cases "f = fn") (auto simp: good_def)
  have "tkinv {} (set (tk_failed_deps s)) (set (tk_failed_rdeps s)) s'"
    using g by (auto simp: good_def tkinv_def rest closed_def)
  moreover have "deps_seen {fn} s'" using g same by (auto simp: good_def deps_seen_def rest)
  moreover have "lists_seen {} s'" using g by (simp add: good_def lists_seen_def rest)
  moreover have "known_fns s' \<subseteq> set (dkeys (dc_task_deps (tk_cache s)))"
    using g keys fn unfolding good_def known_fns_def rest by blast
  ultimately have "good U (set (tk_failed_deps s)) (set (tk_failed_rdeps s)) {fn} {} s'"
    using g all by (simp add: good_def rest c)
  moreover have "others fn (set (tk_failed_deps s)) (set (tk_failed_rdeps s)) s'"
    using g same unfolding good_def tkinv_def closed_def others_def rest by (metis empty_iff)
  moreover have "settles s s'" by (simp add: settles_def settled_build_def settled_run_def rest c)
  ultimately show ?thesis by (simp add: rest c)
qed

lemma add_tasks_valid:
  assumes x: "extra_ok U xd" and g: "good U {} {} {} {fn} s" and lim: "length (dc_task_deps (tk_cache s)) < lim"
    and nf: "fn \<notin> set (tk_failed_fns s)"
  shows "valid (add_tasks xd lim fn) s (\<lambda>_ s'. good U {} {} {} {} s' \<and> settles s s') (\<lambda>e _. quiet e)"
proof (cases "dget (dc_task_deps (tk_cache s)) fn")
  case None
  then show ?thesis by (simp add: add_tasks_def ditem_def quiet_def)
next
  case (Some td)
  then have fn: "fn \<in> set (dkeys (dc_task_deps (tk_cache s)))" unfolding dget_Some_key by blast
  have fl: "flags_in U td" using g Some by (auto simp: good_def cache_names_def)
  show ?thesis
  proof (cases "fn \<in> set (tk_seenfns s)")
    case True
    then have "good U {} {} {} {} s" using g by (auto simp: good_def lists_seen_def)
    with True nf Some show ?thesis by (simp add: add_tasks_def ditem_def)
  next
    case False
    let ?K = "\<lambda>t. good U {} {} {fn} {} t \<and> settles s t \<and> tk_failed_fns t = tk_failed_fns s \<and>
      dc_task_deps (tk_cache t) = dc_task_deps (tk_cache s)"
    let ?P = "\<lambda>t. good U (set (tk_failed_deps t)) (set (tk_failed_rdeps t)) {fn} {} t \<and>
      others fn (set (tk_failed_deps t)) (set (tk_failed_rdeps t)) t \<and> settles s t \<and> fn \<notin> set (tk_failed_fns t) \<and>
      dc_task_deps (tk_cache t) = dc_task_deps (tk_cache s)"
    let ?Q = "\<lambda>t. good U {} {} {} {} t \<and> settles s t"
    define s1 where "s1 = s\<lparr>tk_seenfns := tk_seenfns s @ [fn]\<rparr>"
    have k1: "?K s1" using g
      by (auto simp: s1_def good_def tkinv_def deps_seen_def lists_seen_def known_fns_def settles_def
          settled_build_def settled_run_def)
    have e': "valid (add_extra_deps xd fn) u (\<lambda>_. ?K) (\<lambda>e _. quiet e)" if "?K u" for u
      using that by (intro valid_conseq [OF add_extra_deps_valid [OF x, of "{}" "{}" "{fn}" "{}" u]]) (auto intro: settles_trans)
    have t: "valid (mfor (td_tasks td) (add_task fn td)) u (\<lambda>_. ?K) (\<lambda>e _. quiet e)" if "?K u" for u
    proof (rule valid_mfor_simple [where I = ?K, OF that])
      fix task v assume tv: "task \<in> set (td_tasks td)" "?K v"
      have v: "valid (add_task fn td task) v (\<lambda>_ s'. good U {} {} {fn} {} s' \<and> task_rel v s') (\<lambda>e _. quiet e)"
        using tv fn by (intro add_task_valid [OF _ _ fl]) auto
      have "?K s'" if "good U {} {} {fn} {} s' \<and> task_rel v s'" for s'
      proof -
        have "tk_failed_fns s' = tk_failed_fns v" "tk_cache s' = tk_cache v" "settles v s'"
          using that task_rel_settles by (simp_all add: task_rel_def)
        then show ?thesis using that tv(2) settles_trans [of s v s'] by simp
      qed
      then show "valid (add_task fn td task) v (\<lambda>_. ?K) (\<lambda>e _. quiet e)"
        by (intro valid_conseq [OF v]) blast+
    qed
    have n: "?P (note_rdepids fn (note_depids fn u))" if "?K u" for u
      using note_ids_good [of U fn u] that fn nf settles_trans by (auto simp del: list.set_map)
    have l1: "valid (mfor_until (ddefault (tk_depids u) fn) (check_dep lim fn seen_build_target tk_failed_deps)) u
      (\<lambda>stop v. if stop then ?Q v else ?P v \<and> set (ddefault (tk_depids v) fn) \<subseteq>
         set (dkeys (tk_build_targets v)) - set (tk_failed_deps v)) (\<lambda>e _. quiet e)" if "?P u" for u
    proof (rule valid_conseq [OF check_loop_valid [where sel = tk_build_targets and G = "set (tk_failed_deps u)"
            and H = "set (tk_failed_rdeps u)" and U = U]])
      show "length (dc_task_deps (tk_cache u)) < lim" "fn \<in> set (dkeys (dc_task_deps (tk_cache u)))"
        "set (ddefault (tk_depids u) fn) \<subseteq> U" using that lim fn by (auto simp: good_def)
      fix stop v
      assume v: "if stop then good U {} {} {} {} v \<and> settles u v
         else good U (set (tk_failed_deps u)) (set (tk_failed_rdeps u)) {fn} {} v \<and> task_rel u v \<and>
          (\<forall>d \<in> set (ddefault (tk_depids u) fn). d \<in> set (dkeys (tk_build_targets v)) \<and> d \<notin> set (tk_failed_deps u))"
      show "if stop then ?Q v else ?P v \<and> set (ddefault (tk_depids v) fn) \<subseteq>
         set (dkeys (tk_build_targets v)) - set (tk_failed_deps v)"
      proof (cases stop)
        case True
        with v that show ?thesis by (auto intro: settles_trans)
      next
        case False
        with v have r: "task_rel u v" "good U (set (tk_failed_deps u)) (set (tk_failed_rdeps u)) {fn} {} v"
          "\<forall>d \<in> set (ddefault (tk_depids u) fn). d \<in> set (dkeys (tk_build_targets v)) \<and> d \<notin> set (tk_failed_deps u)" by auto
        have eq: "tk_failed_deps v = tk_failed_deps u" "tk_failed_rdeps v = tk_failed_rdeps u"
          "tk_depids v = tk_depids u" "tk_failed_fns v = tk_failed_fns u" "tk_cache v = tk_cache u"
          using r(1) by (simp_all add: task_rel_def)
        show ?thesis using False r that others_task_rel [OF _ r(1)] settles_trans [OF _ task_rel_settles [OF r(1)]]
          by (auto simp: eq simp del: list.set_map)
      qed
    qed (use that seen_build_valid in \<open>auto simp: task_rel_def\<close>)
    have l2: "valid (mfor_until (ddefault (tk_rdepids u) fn) (check_dep lim fn seen_run_target tk_failed_rdeps)) u
      (\<lambda>_. ?Q) (\<lambda>e _. quiet e)"
      if u: "?P u \<and> set (ddefault (tk_depids u) fn) \<subseteq> set (dkeys (tk_build_targets u)) - set (tk_failed_deps u)" for u
    proof (rule valid_conseq [OF check_loop_valid [where sel = tk_run_targets and G = "set (tk_failed_deps u)"
            and H = "set (tk_failed_rdeps u)" and U = U]])
      show "length (dc_task_deps (tk_cache u)) < lim" "fn \<in> set (dkeys (dc_task_deps (tk_cache u)))"
        "set (ddefault (tk_rdepids u) fn) \<subseteq> U" using u lim fn by (auto simp: good_def)
      fix stop v
      assume v: "if stop then good U {} {} {} {} v \<and> settles u v
         else good U (set (tk_failed_deps u)) (set (tk_failed_rdeps u)) {fn} {} v \<and> task_rel u v \<and>
          (\<forall>d \<in> set (ddefault (tk_rdepids u) fn). d \<in> set (dkeys (tk_run_targets v)) \<and> d \<notin> set (tk_failed_rdeps u))"
      show "?Q v"
      proof (cases stop)
        case True
        with v u show ?thesis by (auto intro: settles_trans)
      next
        case False
        with v have r: "task_rel u v" "good U (set (tk_failed_deps u)) (set (tk_failed_rdeps u)) {fn} {} v"
          "\<forall>d \<in> set (ddefault (tk_rdepids u) fn). d \<in> set (dkeys (tk_run_targets v)) \<and> d \<notin> set (tk_failed_rdeps u)" by auto
        have eq: "tk_depids v = tk_depids u" "tk_rdepids v = tk_rdepids u" "set (dkeys (tk_build_targets u)) \<subseteq> set (dkeys (tk_build_targets v))"
          using r(1) unfolding task_rel_def by blast+
        have "set (ddefault (tk_depids v) fn) \<subseteq> set (dkeys (tk_build_targets v)) - set (tk_failed_deps u)"
          "set (ddefault (tk_rdepids v) fn) \<subseteq> set (dkeys (tk_run_targets v)) - set (tk_failed_rdeps u)"
          using u r(3) eq(3) unfolding eq(1,2) by blast+
        then have "good U {} {} {} {} v" using good_reclose [OF r(2)] u others_task_rel [OF _ r(1)] by blast
        with u settles_trans [OF _ task_rel_settles [OF r(1)]] show ?thesis by blast
      qed
    qed (use u seen_run_valid in \<open>auto simp: task_rel_def\<close>)
    have l3: "valid (mbind (mfor_until (ddefault (tk_depids u) fn) (check_dep lim fn seen_build_target tk_failed_deps)) (\<lambda>stop.
          mwhen (\<not> stop)
            (mbind (mget (\<lambda>s. ddefault (tk_rdepids s) fn)) (\<lambda>rdeps.
             mbind (mfor_until rdeps (check_dep lim fn seen_run_target tk_failed_rdeps)) (\<lambda>_.
               mret ()))))) u (\<lambda>_. ?Q) (\<lambda>e _. quiet e)" if "?P u" for u
    proof (rule valid_bindI [OF l1 [OF that]])
      fix stop v
      assume v: "if stop then ?Q v else ?P v \<and> set (ddefault (tk_depids v) fn) \<subseteq>
         set (dkeys (tk_build_targets v)) - set (tk_failed_deps v)"
      show "valid (mwhen (\<not> stop)
            (mbind (mget (\<lambda>s. ddefault (tk_rdepids s) fn)) (\<lambda>rdeps.
             mbind (mfor_until rdeps (check_dep lim fn seen_run_target tk_failed_rdeps)) (\<lambda>_.
               mret ())))) v (\<lambda>_. ?Q) (\<lambda>e _. quiet e)"
        using v l2 [of v] by (cases stop) auto
    qed
    have l4: "valid (mseq (mmod (note_depids fn)) (mseq (mmod (note_rdepids fn))
       (mbind (mget (\<lambda>s. ddefault (tk_depids s) fn)) (\<lambda>deps.
          mbind (mfor_until deps (check_dep lim fn seen_build_target tk_failed_deps)) (\<lambda>stop.
          mwhen (\<not> stop)
            (mbind (mget (\<lambda>s. ddefault (tk_rdepids s) fn)) (\<lambda>rdeps.
             mbind (mfor_until rdeps (check_dep lim fn seen_run_target tk_failed_rdeps)) (\<lambda>_.
               mret ())))))))) u (\<lambda>_. ?Q) (\<lambda>e _. quiet e)" if "?K u" for u
      using l3 [OF n [OF that]] unfolding valid_mbind [of "mmod _"] valid_mbind [of "mget _"] valid_mmod valid_mget .
    have "valid (mseq (mmod (\<lambda>s. s\<lparr>tk_seenfns := tk_seenfns s @ [fn]\<rparr>))
         (mseq (add_extra_deps xd fn)
         (mseq (mfor (td_tasks td) (add_task fn td)) (mseq (mmod (note_depids fn)) (mseq (mmod (note_rdepids fn))
       (mbind (mget (\<lambda>s. ddefault (tk_depids s) fn)) (\<lambda>deps.
          mbind (mfor_until deps (check_dep lim fn seen_build_target tk_failed_deps)) (\<lambda>stop.
          mwhen (\<not> stop)
            (mbind (mget (\<lambda>s. ddefault (tk_rdepids s) fn)) (\<lambda>rdeps.
             mbind (mfor_until rdeps (check_dep lim fn seen_run_target tk_failed_rdeps)) (\<lambda>_.
               mret ()))))))))))) s (\<lambda>_. ?Q) (\<lambda>e _. quiet e)"
      by (rule valid_bindI [where R = "\<lambda>_ u. ?K u"])
        (use k1 in \<open>simp add: s1_def\<close>, rule valid_bindI [OF e'], assumption, rule valid_bindI [OF t], assumption, rule l4)
    then show ?thesis
      by (simp only: add_tasks_def valid_mbind [of "mget _"] valid_mbind [of "mlift _"] valid_mget valid_mlift ditem_def Some
          option.case sum.case nf False if_False if_True simp_thms)
  qed
qed

end
