(* ===== verification/BB_Stamps.thy ===== *)
theory BB_Stamps
  imports BB_Weights BB_TaskData
begin

text \<open>
  Stamp files: \<open>stamp_internal\<close> of \<open>lib/bb/build.py\<close> (the file name of a task's stamp) and
  \<open>check_stamp_task\<close> of \<open>lib/bb/runqueue.py\<close> (whether a task needs to run again). The signature
  generator's naming scheme and the modification times of the file system are arguments.
\<close>

section \<open>Names of stamp files\<close>

definition suffix_of :: "string \<Rightarrow> string \<Rightarrow> bool" where
  "suffix_of x s \<longleftrightarrow> length x \<le> length s \<and> drop (length s - length x) s = x"

text \<open>\<open>s.replace(sub, "")\<close>.\<close>

function remove_sub :: "string \<Rightarrow> string \<Rightarrow> string" where
  "remove_sub sub [] = []"
| "remove_sub sub (c # cs) =
     (if sub \<noteq> [] \<and> prefix sub (c # cs) then remove_sub sub (drop (length sub) (c # cs)) else c # remove_sub sub cs)"
  by pat_completeness auto
termination
  by (relation "measure (length \<circ> snd)") auto

definition is_setscene :: "string \<Rightarrow> bool" where
  "is_setscene taskname \<longleftrightarrow> suffix_of ''_setscene'' taskname \<and> taskname \<noteq> ''do_setscene''"

type_synonym stamp_scheme = "string \<Rightarrow> string \<Rightarrow> string \<Rightarrow> string \<Rightarrow> string"

definition stamp_internal :: "stamp_scheme \<Rightarrow> string \<Rightarrow> datacache \<Rightarrow> string \<Rightarrow> bool \<Rightarrow> bool \<Rightarrow> string option res" where
  "stamp_internal sf taskname dc file_name baseonly noextra =
     (let taskflagname = (if is_setscene taskname then remove_sub ''_setscene'' taskname else taskname) in
      rbind (ditem (dc_stamp dc) file_name) (\<lambda>stamp.
      rbind (ditem (dc_stamp_extrainfo dc) file_name) (\<lambda>infos.
        let extrainfo = (case dget infos taskflagname of Some (Some x) \<Rightarrow> x | _ \<Rightarrow> []) in
        if baseonly then Inr (Some stamp)
        else if stamp = [] then Inr None
        else Inr (Some (sf stamp file_name taskname (if noextra then [] else extrainfo))))))"

definition stampfile :: "stamp_scheme \<Rightarrow> string \<Rightarrow> datacache \<Rightarrow> string \<Rightarrow> bool \<Rightarrow> string option res" where
  "stampfile sf taskname dc file_name noextra = stamp_internal sf taskname dc file_name False noextra"

text \<open>The naming scheme of the base class of the signature generators.\<close>

definition plain_stampfile :: stamp_scheme where
  "plain_stampfile stampbase file_name taskname extrainfo =
     rev (dropWhile (\<lambda>c. c = CHR ''.'') (rev (stampbase @ ''.'' @ taskname @ ''.'' @ extrainfo)))"

section \<open>Whether a task is current\<close>

record stampenv =
  se_caches :: "(string, datacache) dict"
  se_scheme :: stamp_scheme
  se_policy :: string
  se_whitelist :: "(string, string list) dict"

text \<open>The modification times of the files; None: there is no such file.\<close>

type_synonym files = "string \<Rightarrow> int option"

definition truthy_time :: "int option \<Rightarrow> bool" where
  "truthy_time t = (case t of None \<Rightarrow> False | Some x \<Rightarrow> x \<noteq> 0)"

definition stamp_time :: "stampenv \<Rightarrow> files \<Rightarrow> string \<Rightarrow> string \<Rightarrow> string \<Rightarrow> int option res" where
  "stamp_time env mt mc taskname taskfn =
     rbind (ditem (se_caches env) mc) (\<lambda>dc.
     rbind (stampfile (se_scheme env) taskname dc taskfn False) (\<lambda>f.
       Inr (case f of None \<Rightarrow> None | Some f \<Rightarrow> mt f)))"

text \<open>
  The loop body for one dependency. \<open>rec\<close> is the recursive call, with the cache of results threaded
  through; the first component of the state is \<open>iscurrent\<close>.
\<close>

definition check_stamp_dep :: "stampenv \<Rightarrow> files \<Rightarrow> bool \<Rightarrow> string \<Rightarrow> string list option \<Rightarrow> int option \<Rightarrow>
    (string \<Rightarrow> (string, bool) dict \<Rightarrow> (bool \<times> (string, bool) dict) res) \<Rightarrow> string \<Rightarrow>
    bool \<times> (string, bool) dict \<Rightarrow> (bool \<times> (string, bool) dict) res" where
  "check_stamp_dep env mt recurse fn whitelist t1 rec dep = (\<lambda>(iscurrent, cache).
     if \<not> iscurrent then Inr (iscurrent, cache)
     else rbind (split_tid_mcfn dep) (\<lambda>(mc2, fn2, taskname2, taskfn2).
       rbind (stamp_time env mt mc2 taskname2 taskfn2) (\<lambda>t2.
       rbind (stamp_time env mt mc2 (taskname2 @ ''_setscene'') taskfn2) (\<lambda>t3.
         if truthy_time t3 \<and> \<not> truthy_time t2 then Inr (iscurrent, cache)
         else if truthy_time t3 \<and> the t3 > the t2 then Inr (iscurrent, cache)
         else if fn = fn2 \<or> (case whitelist of None \<Rightarrow> False | Some wl \<Rightarrow> fn2 \<notin> set wl)
         then (if \<not> truthy_time t2 then Inr (False, cache)
               else if the t1 < the t2 then Inr (False, cache)
               else if recurse
               then (case dget cache dep of
                       Some b \<Rightarrow> Inr (b, cache)
                     | None \<Rightarrow> rbind (rec dep cache) (\<lambda>(b, cache). Inr (b, dset dep b cache)))
               else Inr (iscurrent, cache))
         else Inr (iscurrent, cache)))))"

fun check_stamp_task :: "nat \<Rightarrow> stampenv \<Rightarrow> files \<Rightarrow> runtasks \<Rightarrow> string \<Rightarrow> string option \<Rightarrow> bool \<Rightarrow>
    (string, bool) dict \<Rightarrow> (bool \<times> (string, bool) dict) res" where
  "check_stamp_task 0 env mt es tid taskname recurse cache = Inl RecursionError"
| "check_stamp_task (Suc lim) env mt es tid taskname0 recurse cache =
     rbind (split_tid_mcfn tid) (\<lambda>(mc, fn, tn, taskfn).
     let taskname = (case taskname0 of None \<Rightarrow> tn | Some x \<Rightarrow> x) in
     rbind (if se_policy env = ''perfile'' then Inr None
            else if se_policy env = ''whitelist'' then rbind (ditem (se_whitelist env) mc) (\<lambda>wl. Inr (Some wl))
            else Inr (Some [])) (\<lambda>whitelist.
     rbind (ditem (se_caches env) mc) (\<lambda>dc.
     rbind (stampfile (se_scheme env) taskname dc taskfn False) (\<lambda>stamp.
     case stamp of
       None \<Rightarrow> Inl TypeError
     | Some stampf \<Rightarrow>
         if mt stampf = None then Inr (False, cache)
         else rbind (ditem (dc_task_deps dc) taskfn) (\<lambda>td.
           if flag_value td ''nostamp'' taskname \<noteq> None then Inr (False, cache)
           else if is_setscene taskname then Inr (True, cache)
           else rbind (ditem es tid) (\<lambda>e.
             rbind (rfold (check_stamp_dep env mt recurse fn whitelist (mt stampf)
                        (\<lambda>dep cache. check_stamp_task lim env mt es dep None True cache)) (rt_depends e) (True, cache)) (\<lambda>(iscurrent, cache).
               Inr (iscurrent, if recurse then dset tid iscurrent cache else cache))))))))"

end
