(* ===== verification/BB_Exec.thy ===== *)
theory BB_Exec
  imports BB_Scheduler BB_Stamps
begin

text \<open>
  \<open>RunQueueExecute\<close> and \<open>RunQueueExecuteTasks\<close> of \<open>lib/bb/runqueue.py\<close>: the bookkeeping of running
  tasks. What the workers report when their pipes are read, the modification times of the files, and
  whether a fakeroot worker starts are arguments of a call of \<open>execute\<close>. The commands sent to the
  workers, the events fired and the stamps written or deleted are recorded in the order in which
  they are made.
\<close>

section \<open>The state\<close>

datatype rq_state =
    RqPrepare | RqSceneInit | RqSceneRun | RqRunInit | RqRunning | RqFailed | RqCleanUp | RqComplete

record execenv = stampenv +
  xe_taskdata :: "(string, taskdata) dict"
  xe_number_tasks :: int
  xe_dry_run :: bool
  xe_setscene_tids :: "string list"
  xe_whitelisted :: "(string \<Rightarrow> bool) option"
  xe_kind :: sched_kind

text \<open>What the data for a task's own use holds of a task: name, task, file, dependencies, provides.\<close>

type_synonym taskdepdata = "(string, string \<times> string \<times> string \<times> string list \<times> string list) dict"

text \<open>
  What the execution does to the outside: commands to the workers, stamp files, and the events
  \<open>runQueueTaskStarted\<close>, \<open>runQueueTaskCompleted\<close>, \<open>runQueueTaskFailed\<close>, \<open>runQueueTaskSkipped\<close> and
  \<open>runQueueExitWait\<close>. \<open>FinishNow\<close>: the command to every worker to kill what it runs.
\<close>

datatype action =
    RunTask string string bool taskdepdata
  | MakeStamp string
  | DelStamp string
  | StartFakeworker string
  | EvStarted string bool
  | EvCompleted string
  | EvFailed string int
  | EvSkipped string string
  | EvExitWait int
  | FinishNow

datatype retval = RTrue | RFalse | RFds

record exst =
  ex_entries :: runtasks
  ex_buildable :: "string list"
  ex_running :: "string list"
  ex_complete :: "string list"
  ex_build_stamps :: "(string, string option) dict"
  ex_build_stamps2 :: "string option list"
  ex_failed :: "string list"
  ex_stats :: rqstats
  ex_sched :: sched
  ex_covered :: "string list"
  ex_notcovered :: "string list"
  ex_stampcache :: "(string, bool) dict"
  ex_whitelist_checked :: bool
  ex_fakeworkers :: "string list"
  ex_state :: rq_state
  ex_actions :: "action list"

definition set_state :: "rq_state \<Rightarrow> (exst, unit) eff" where
  "set_state st = mmod (\<lambda>s. s\<lparr>ex_state := st\<rparr>)"

definition mdo :: "action \<Rightarrow> (exst, unit) eff" where
  "mdo a = mmod (\<lambda>s. s\<lparr>ex_actions := ex_actions s @ [a]\<rparr>)"

definition upd_stats :: "(rqstats \<Rightarrow> rqstats) \<Rightarrow> (exst, unit) eff" where
  "upd_stats f = mmod (\<lambda>s. s\<lparr>ex_stats := f (ex_stats s)\<rparr>)"

definition mitem_of :: "('s \<Rightarrow> (string, 'v) dict) \<Rightarrow> string \<Rightarrow> ('s, 'v) eff" where
  "mitem_of d k = mbind (mget (\<lambda>s. ditem (d s) k)) mlift"

section \<open>Completing tasks\<close>

definition setbuildable :: "string \<Rightarrow> (exst, unit) eff" where
  "setbuildable task =
     mmod (\<lambda>s. s\<lparr>ex_buildable := sadd task (ex_buildable s), ex_sched := newbuilable task (ex_sched s)\<rparr>)"

definition check_revdep :: "string \<Rightarrow> (exst, unit) eff" where
  "check_revdep revdep =
     mbind (mget (\<lambda>s. revdep \<in> set (ex_running s) \<or> revdep \<in> set (ex_buildable s))) (\<lambda>skip.
     mwhen (\<not> skip)
       (mbind (mitem_of ex_entries revdep) (\<lambda>e.
        mbind (mget (\<lambda>s. \<forall>dep \<in> set (rt_depends e). dep \<in> set (ex_complete s))) (\<lambda>alldeps.
        mwhen alldeps
          (mseq (setbuildable revdep) (mbind (mlift (taskname_from_tid revdep)) (\<lambda>_. mret ())))))))"

definition task_completeoutright :: "string \<Rightarrow> (exst, unit) eff" where
  "task_completeoutright task =
     mseq (mmod (\<lambda>s. s\<lparr>ex_complete := sadd task (ex_complete s)\<rparr>))
     (mbind (mitem_of ex_entries task) (\<lambda>e. mfor (rt_revdeps e) check_revdep))"

definition task_complete :: "string \<Rightarrow> (exst, unit) eff" where
  "task_complete task =
     mseq (upd_stats (taskCompleted 1)) (mseq (mdo (EvCompleted task)) (task_completeoutright task))"

definition task_fail :: "execenv \<Rightarrow> string \<Rightarrow> int \<Rightarrow> (exst, unit) eff" where
  "task_fail env task exitcode =
     mseq (upd_stats taskFailed)
     (mseq (mmod (\<lambda>s. s\<lparr>ex_failed := ex_failed s @ [task]\<rparr>))
     (mseq (mdo (EvFailed task exitcode))
     (mbind (mlift (ditem (xe_taskdata env) [])) (\<lambda>td. mwhen (tk_abort td) (set_state RqCleanUp)))))"

definition task_skip :: "string \<Rightarrow> string \<Rightarrow> (exst, unit) eff" where
  "task_skip task reason =
     mseq (mmod (\<lambda>s. s\<lparr>ex_running := sadd task (ex_running s)\<rparr>))
     (mseq (setbuildable task)
     (mseq (mdo (EvSkipped task reason))
     (mseq (task_completeoutright task)
     (mseq (upd_stats (taskCompleted 1)) (upd_stats (taskSkipped 1))))))"

section \<open>Reports of the workers\<close>

definition forget_stamp :: "string \<Rightarrow> (exst, unit) eff" where
  "forget_stamp task =
     mbind (mget (\<lambda>s. dget (ex_build_stamps s) task)) (\<lambda>st. case st of
        None \<Rightarrow> mret ()
      | Some stamp \<Rightarrow> mbind (mget (\<lambda>s. stamp \<in> set (ex_build_stamps2 s))) (\<lambda>b.
          if b then mmod (\<lambda>s. s\<lparr>ex_build_stamps2 := remove1 stamp (ex_build_stamps2 s),
                                ex_build_stamps := filter (\<lambda>(t, _). t \<noteq> task) (ex_build_stamps s)\<rparr>)
          else mraise ValueError))"

definition runqueue_process_waitpid :: "execenv \<Rightarrow> string \<times> int \<Rightarrow> (exst, unit) eff" where
  "runqueue_process_waitpid env = (\<lambda>(task, status).
     mseq (forget_stamp task) (if status \<noteq> 0 then task_fail env task status else task_complete task))"

definition finish_now :: "(exst, unit) eff" where
  "finish_now =
     mseq (mdo FinishNow)
     (mbind (mget (\<lambda>s. ex_failed s \<noteq> [])) (\<lambda>failed. set_state (if failed then RqFailed else RqComplete)))"

text \<open>
  Reading the pipes finds exit reports, and that a worker process has died, in any order; what is found
  depends on what the workers were told: a function of the state. A dead worker ends the run at once
  (\<open>finish_runqueue(True)\<close> of the run queue calls \<open>finish_now\<close> of its execution), and the reading
  goes on.
\<close>

datatype report = WorkerDied | TaskEnded string int

type_synonym pipes = "exst \<Rightarrow> report list"

definition take_report :: "execenv \<Rightarrow> report \<Rightarrow> (exst, unit) eff" where
  "take_report env r = (case r of
      WorkerDied \<Rightarrow> finish_now
    | TaskEnded task status \<Rightarrow> runqueue_process_waitpid env (task, status))"

definition read_workers :: "execenv \<Rightarrow> pipes \<Rightarrow> (exst, unit) eff" where
  "read_workers env pipe = mbind (mget pipe) (\<lambda>reports. mfor reports (take_report env))"

definition exec_finish :: "execenv \<Rightarrow> pipes \<Rightarrow> (exst, retval) eff" where
  "exec_finish env pipe =
     mseq (set_state RqCleanUp)
     (mbind (mget (\<lambda>s. st_active (ex_stats s) > 0)) (\<lambda>active.
      if active
      then mseq (mbind (mget (\<lambda>s. st_active (ex_stats s))) (\<lambda>n. mdo (EvExitWait n)))
                (mseq (read_workers env pipe) (mret RFds))
      else mbind (mget (\<lambda>s. ex_failed s \<noteq> [])) (\<lambda>failed.
           mseq (set_state (if failed then RqFailed else RqComplete)) (mret RTrue))))"

section \<open>The dependency data of a task\<close>

definition depdata_visit :: "execenv \<Rightarrow> runtasks \<Rightarrow> string \<Rightarrow> taskdepdata \<times> string list \<Rightarrow>
    (taskdepdata \<times> string list) res" where
  "depdata_visit env es revdep = (\<lambda>(tdd, additional).
     rbind (split_tid_mcfn revdep) (\<lambda>(mc, fn, taskname, taskfn).
     rbind (ditem (se_caches env) mc) (\<lambda>dc.
     rbind (ditem (dc_pkg_fn dc) taskfn) (\<lambda>pn.
     rbind (ditem es revdep) (\<lambda>e.
     rbind (ditem (dc_fn_provides dc) taskfn) (\<lambda>provides.
       let tdd = dset revdep (pn, taskname, fn, rt_depends e, provides) tdd
       in Inr (tdd, additional @ filter (\<lambda>d. d \<notin> set (dkeys tdd)) (rt_depends e))))))))"

fun depdata_loop :: "nat \<Rightarrow> execenv \<Rightarrow> runtasks \<Rightarrow> string list \<Rightarrow> taskdepdata \<Rightarrow> taskdepdata res option" where
  "depdata_loop 0 env es nxt tdd = None"
| "depdata_loop (Suc fuel) env es nxt tdd =
     (if nxt = [] then Some (Inr tdd)
      else (case rfold (depdata_visit env es) nxt (tdd, []) of
              Inl e \<Rightarrow> Some (Inl e)
            | Inr (tdd, additional) \<Rightarrow> depdata_loop fuel env es additional tdd))"

text \<open>\<open>next.add(task)\<close> adds the task to its own set of dependencies.\<close>

definition build_taskdepdata :: "execenv \<Rightarrow> string \<Rightarrow> (exst, taskdepdata) eff" where
  "build_taskdepdata env task =
     mbind (mitem_of ex_entries task) (\<lambda>e.
     let nxt = sadd task (rt_depends e) in
     mseq (mmod (\<lambda>s. s\<lparr>ex_entries := dset task (e\<lparr>rt_depends := nxt\<rparr>) (ex_entries s)\<rparr>))
     (mbind (mget (\<lambda>s. depdata_loop (Suc (Suc (length (ex_entries s)))) env (ex_entries s) nxt [])) (\<lambda>r.
        case r of None \<Rightarrow> mraise RecursionError | Some r \<Rightarrow> mlift r)))"

section \<open>One call of execute\<close>

definition next_task :: "execenv \<Rightarrow> (exst, string option) eff" where
  "next_task env =
     mbind (mget (\<lambda>s. sched_next (st_active (ex_stats s)) (xe_number_tasks env) (ex_running s)
                        (map snd (ex_build_stamps s)) (ex_entries s) (ex_sched s))) (\<lambda>r.
     mbind (mlift r) (\<lambda>(t, sched). mseq (mmod (\<lambda>s. s\<lparr>ex_sched := sched\<rparr>)) (mret t)))"

definition stamp_current :: "execenv \<Rightarrow> files \<Rightarrow> string \<Rightarrow> string \<Rightarrow> (exst, bool) eff" where
  "stamp_current env mt tid taskname =
     mbind (mget (\<lambda>s. check_stamp_task (Suc (length (ex_entries s))) (stampenv.truncate env) mt (ex_entries s) tid
                        (Some taskname) False (ex_stampcache s))) (\<lambda>r.
     mbind (mlift r) (\<lambda>(b, cache). mseq (mmod (\<lambda>s. s\<lparr>ex_stampcache := cache\<rparr>)) (mret b)))"

text \<open>A task that is not covered, has no current stamp, is not noexec and not in the whitelist.\<close>

definition check_norun_task :: "execenv \<Rightarrow> files \<Rightarrow> (string \<Rightarrow> bool) \<Rightarrow> string \<Rightarrow> (exst, bool) eff" where
  "check_norun_task env mt allowed tid =
     mbind (mlift (split_tid_mcfn tid)) (\<lambda>(mc, fn, taskname, taskfn).
     mbind (mget (\<lambda>s. tid \<in> set (ex_covered s))) (\<lambda>covered.
     if covered then mret False
     else mbind (stamp_current env mt tid taskname) (\<lambda>current.
       if current then mret False
       else mbind (mlift (ditem (se_caches env) mc)) (\<lambda>dc.
            mbind (mlift (ditem (dc_task_deps dc) taskfn)) (\<lambda>td.
            if flag_value td ''noexec'' taskname \<noteq> None then mret False
            else mbind (mlift (ditem (dc_pkg_fn dc) taskfn)) (\<lambda>pn.
                 mret (\<not> allowed (pn @ '':'' @ taskname))))))))"

fun skip_all :: "nat \<Rightarrow> execenv \<Rightarrow> files \<Rightarrow> (string \<Rightarrow> bool) \<Rightarrow> (exst, unit) eff" where
  "skip_all 0 env mt allowed = mraise RecursionError"
| "skip_all (Suc fuel) env mt allowed =
     mbind (next_task env) (\<lambda>t. case t of
        None \<Rightarrow> mret ()
      | Some task \<Rightarrow> mseq (check_norun_task env mt allowed task)
                      (mseq (task_skip task ''Setscene enforcement check'') (skip_all fuel env mt allowed)))"

text \<open>The check against the setscene whitelist; True: the call of execute ends here.\<close>

definition enforce_whitelist :: "execenv \<Rightarrow> files \<Rightarrow> (exst, bool) eff" where
  "enforce_whitelist env mt =
     (case xe_whitelisted env of
        None \<Rightarrow> mret False
      | Some allowed \<Rightarrow> mbind (mget ex_whitelist_checked) (\<lambda>checked.
          if checked then mret False
          else mseq (mmod (\<lambda>s. s\<lparr>ex_whitelist_checked := True\<rparr>))
               (mbind (mget (\<lambda>s. dkeys (ex_entries s))) (\<lambda>tids.
                mbind (mfor_until tids (check_norun_task env mt allowed)) (\<lambda>unexpected.
                if unexpected
                then mseq (skip_all (Suc (length tids)) env mt allowed)
                          (mseq (set_state RqCleanUp) (mret True))
                else mret False)))))"

definition start_task :: "execenv \<Rightarrow> bool \<Rightarrow> string \<Rightarrow> datacache \<Rightarrow> string \<times> string \<times> string \<times> string \<Rightarrow> (exst, retval option) eff" where
  "start_task env spawn task dc = (\<lambda>(mc, fn, taskname, taskfn).
     mbind (build_taskdepdata env task) (\<lambda>tdd.
     mbind (mlift (ditem (dc_task_deps dc) taskfn)) (\<lambda>td.
     let fakeroot = (flag_value td ''fakeroot'' taskname \<noteq> None \<and> \<not> xe_dry_run env) in
     mbind (mget (\<lambda>s. fakeroot \<and> mc \<notin> set (ex_fakeworkers s))) (\<lambda>need.
     if need \<and> \<not> spawn
     then mseq (set_state RqFailed) (mseq (upd_stats taskFailed) (mret (Some RTrue)))
     else
       mseq (mwhen need (mseq (mdo (StartFakeworker mc)) (mmod (\<lambda>s. s\<lparr>ex_fakeworkers := ex_fakeworkers s @ [mc]\<rparr>))))
       (mseq (mdo (RunTask taskfn task fakeroot tdd))
       (mbind (mlift (stampfile (se_scheme env) taskname dc taskfn True)) (\<lambda>stamp.
        mseq (mmod (\<lambda>s. s\<lparr>ex_build_stamps := dset task stamp (ex_build_stamps s),
                          ex_build_stamps2 := ex_build_stamps2 s @ [stamp],
                          ex_running := sadd task (ex_running s)\<rparr>))
        (mseq (upd_stats taskActive)
        (mbind (mget (\<lambda>s. st_active (ex_stats s) < xe_number_tasks env)) (\<lambda>more.
          mret (if more then Some RTrue else None)))))))))))"

text \<open>Dealing with the chosen task; None: the call of execute goes on after it.\<close>

definition run_task :: "execenv \<Rightarrow> files \<Rightarrow> bool \<Rightarrow> string \<Rightarrow> (exst, retval option) eff" where
  "run_task env mt spawn task =
     mbind (mlift (split_tid_mcfn task)) (\<lambda>(mc, fn, taskname, taskfn).
     mbind (mget (\<lambda>s. task \<in> set (ex_covered s))) (\<lambda>covered.
     if covered then mseq (task_skip task ''covered'') (mret (Some RTrue))
     else mbind (stamp_current env mt task taskname) (\<lambda>current.
       if current then mseq (task_skip task ''existing'') (mret (Some RTrue))
       else mbind (mlift (ditem (se_caches env) mc)) (\<lambda>dc.
            mbind (mlift (ditem (dc_task_deps dc) taskfn)) (\<lambda>td.
            if flag_value td ''noexec'' taskname \<noteq> None
            then mseq (mdo (EvStarted task True))
                 (mseq (mmod (\<lambda>s. s\<lparr>ex_running := sadd task (ex_running s)\<rparr>))
                 (mseq (upd_stats taskActive)
                 (mseq (mwhen (\<not> xe_dry_run env) (mdo (MakeStamp task)))
                 (mseq (task_complete task) (mret (Some RTrue))))))
            else mseq (mdo (EvStarted task False)) (start_task env spawn task dc (mc, fn, taskname, taskfn)))))))"

definition execute_rest :: "execenv \<Rightarrow> pipes \<Rightarrow> (exst, retval) eff" where
  "execute_rest env pipe =
     mbind (mget (\<lambda>s. st_active (ex_stats s) > 0)) (\<lambda>active.
     if active then mseq (read_workers env pipe) (mret RFds)
     else mbind (mget (\<lambda>s. ex_failed s \<noteq> [])) (\<lambda>failed.
          mseq (set_state (if failed then RqFailed else RqComplete)) (mret RTrue)))"

definition execute :: "execenv \<Rightarrow> files \<Rightarrow> bool \<Rightarrow> pipes \<Rightarrow> pipes \<Rightarrow> (exst, retval) eff" where
  "execute env mt spawn pipe1 pipe2 =
     mbind (enforce_whitelist env mt) (\<lambda>stop.
     if stop then mret RTrue
     else
       mseq (read_workers env pipe1)
       (mseq (mbind (mget (\<lambda>s. st_total (ex_stats s) = 0)) (\<lambda>none. mwhen none (set_state RqCleanUp)))
       (mbind (next_task env) (\<lambda>t.
        mbind (case t of None \<Rightarrow> mret None | Some task \<Rightarrow> run_task env mt spawn task) (\<lambda>r.
        case r of Some v \<Rightarrow> mret v | None \<Rightarrow> execute_rest env pipe2)))))"

section \<open>Starting the execution\<close>

text \<open>The tasks without dependencies, and the first pass over what the setscene tasks cover.\<close>

definition cover_start :: "runtasks \<Rightarrow> string list \<Rightarrow> string list \<times> string list" where
  "cover_start es covered =
     fold (\<lambda>(tid, e) (buildable, covered).
       (if rt_depends e = [] then sadd tid buildable else buildable,
        if rt_revdeps e \<noteq> [] \<and> set (rt_revdeps e) \<subseteq> set covered then sadd tid covered else covered)) es ([], covered)"

definition cover_round :: "runtasks \<Rightarrow> string list \<Rightarrow> string list \<Rightarrow> bool \<times> string list" where
  "cover_round es notcovered covered =
     fold (\<lambda>(tid, e) (found, covered).
       if tid \<in> set covered then (found, covered)
       else if rt_revdeps e \<noteq> [] \<and> set (rt_revdeps e) \<subseteq> set covered \<and> tid \<notin> set notcovered
       then (True, covered @ [tid])
       else (found, covered)) es (False, covered)"

fun cover_loop :: "nat \<Rightarrow> runtasks \<Rightarrow> string list \<Rightarrow> string list \<Rightarrow> string list option" where
  "cover_loop 0 es notcovered covered = None"
| "cover_loop (Suc fuel) es notcovered covered =
     (case cover_round es notcovered covered of
        (True, covered) \<Rightarrow> cover_loop fuel es notcovered covered
      | (False, covered) \<Rightarrow> Some covered)"

text \<open>The tasks that would have to run again, for the metadata's verification function.\<close>

definition invalid_task :: "execenv \<Rightarrow> files \<Rightarrow> runtasks \<Rightarrow> string \<Rightarrow> string list \<times> (string, bool) dict \<Rightarrow>
    (string list \<times> (string, bool) dict) res" where
  "invalid_task env mt es tid = (\<lambda>(invalid, cache).
     rbind (split_tid_mcfn tid) (\<lambda>(mc, fn, taskname, taskfn).
     rbind (ditem (se_caches env) mc) (\<lambda>dc.
     rbind (ditem (dc_task_deps dc) taskfn) (\<lambda>td.
       if flag_value td ''noexec'' taskname \<noteq> None then Inr (invalid, cache)
       else (let check = check_stamp_task (Suc (length es)) (stampenv.truncate env) mt es tid in
         rbind (check (Some (taskname @ ''_setscene'')) False cache) (\<lambda>(b, cache).
           if b then Inr (invalid, cache)
           else rbind (check (Some taskname) True cache) (\<lambda>(b, cache).
             Inr (if b then invalid else invalid @ [tid], cache))))))))"

text \<open>
  Giving up the covered tasks the metadata wants to run, and what they need: the state is the
  covered tasks, the next tasks to give up and the tasks whose setscene stamps were deleted.
\<close>

definition give_up :: "runtasks \<Rightarrow> string list \<Rightarrow> string list \<Rightarrow> string \<Rightarrow>
    string list \<times> string list \<times> string list \<Rightarrow> (string list \<times> string list \<times> string list) res" where
  "give_up es initial toremove task = (\<lambda>(covered, nxt, deleted).
     rbind (split_tid_mcfn task) (\<lambda>_.
     if task \<notin> set covered then Inl (KeyError task)
     else rbind (ditem es task) (\<lambda>e.
       let covered = removeAll task covered
       in Inr (covered,
          fold (\<lambda>d nxt. if d \<in> set covered \<and> d \<notin> set toremove \<and> d \<notin> set nxt \<and> d \<notin> set initial
                        then nxt @ [d] else nxt) (rt_depends e) nxt,
          deleted @ [task]))))"

fun give_up_loop :: "nat \<Rightarrow> runtasks \<Rightarrow> string list \<Rightarrow> string list \<Rightarrow> string list \<Rightarrow> string list \<Rightarrow>
    (string list \<times> string list) res option" where
  "give_up_loop 0 es initial toremove covered deleted = None"
| "give_up_loop (Suc fuel) es initial toremove covered deleted =
     (if toremove = [] then Some (Inr (covered, deleted))
      else (case rfold (give_up es initial toremove) toremove (covered, [], deleted) of
              Inl e \<Rightarrow> Some (Inl e)
            | Inr (covered, nxt, deleted) \<Rightarrow> give_up_loop fuel es initial nxt covered deleted))"

text \<open>
  \<open>verify\<close>: BB_SETSCENE_VERIFY_FUNCTION2, a function of the covered and the invalid tasks; the
  scheduler's stamps are those without the extra information.
\<close>

type_synonym verify = "string list \<Rightarrow> string list \<Rightarrow> string list res"

definition verified_cover :: "execenv \<Rightarrow> files \<Rightarrow> verify option \<Rightarrow> runtasks \<Rightarrow> string list \<Rightarrow> string list \<Rightarrow>
    (string list \<times> string list \<times> (string, bool) dict) res option" where
  "verified_cover env mt verify es initial covered =
     (case verify of
        None \<Rightarrow> Some (Inr (covered, [], []))
      | Some f \<Rightarrow>
          (case rfold (invalid_task env mt es) (dkeys es) ([], []) of
             Inl e \<Rightarrow> Some (Inl e)
           | Inr (invalid, cache) \<Rightarrow>
               (case f covered invalid of
                  Inl e \<Rightarrow> Some (Inl e)
                | Inr toremove \<Rightarrow> map_option (\<lambda>r. rbind r (\<lambda>(covered, deleted). Inr (covered, deleted, cache)))
                                    (give_up_loop (Suc (length covered)) es initial toremove covered []))))"

definition sched_stamp :: "execenv \<Rightarrow> string \<Rightarrow> string \<Rightarrow> string \<Rightarrow> string option res" where
  "sched_stamp env mc taskname taskfn =
     rbind (ditem (se_caches env) mc) (\<lambda>dc. stampfile (se_scheme env) taskname dc taskfn True)"

definition exec_init :: "execenv \<Rightarrow> files \<Rightarrow> verify option \<Rightarrow> runtasks \<Rightarrow> string list \<Rightarrow> string list \<Rightarrow> exst res option" where
  "exec_init env mt verify es covered0 notcovered =
     (if xe_number_tasks env \<le> 0 then Some (Inl BBHandledException)
      else let (buildable, covered) = cover_start es covered0 in
        (case cover_loop (Suc (length es)) es notcovered covered of
           None \<Rightarrow> None
         | Some covered \<Rightarrow>
             map_option (\<lambda>r. rbind r (\<lambda>(covered, deleted, cache).
               rbind (sched_init (xe_kind env) (sched_stamp env) buildable es) (\<lambda>sched.
                 Inr \<lparr>ex_entries = es, ex_buildable = buildable, ex_running = [], ex_complete = [],
                      ex_build_stamps = [], ex_build_stamps2 = [], ex_failed = [],
                      ex_stats = stats_init (int (length es)), ex_sched = sched,
                      ex_covered = covered, ex_notcovered = notcovered, ex_stampcache = cache,
                      ex_whitelist_checked = False, ex_fakeworkers = [], ex_state = RqRunning,
                      ex_actions = map DelStamp deleted\<rparr>)))
               (verified_cover env mt verify es covered0 covered)))"

end
