(* ===== verification/BB_ExecInv.thy ===== *)
theory BB_ExecInv
  imports BB_Exec
begin

text \<open>
  The invariant of the execution's bookkeeping (\<open>BB_Exec\<close>): the table, the sets of buildable,
  running, complete and failed tasks, the statistics, the stamps being built, the scheduler and the
  record of actions agree. Every operation preserves it, up to one call of \<open>execute\<close> or \<open>finish\<close>.
\<close>

section \<open>What the record of actions says\<close>

definition begun :: "action list \<Rightarrow> string list" where
  "begun log = concat (map (\<lambda>a. case a of EvStarted t _ \<Rightarrow> [t] | EvSkipped t _ \<Rightarrow> [t] | _ \<Rightarrow> []) log)"

definition sent :: "action list \<Rightarrow> string list" where
  "sent log = concat (map (\<lambda>a. case a of RunTask _ t _ _ \<Rightarrow> [t] | _ \<Rightarrow> []) log)"

definition succeeded :: "action list \<Rightarrow> string list" where
  "succeeded log = concat (map (\<lambda>a. case a of EvCompleted t \<Rightarrow> [t] | EvSkipped t _ \<Rightarrow> [t] | _ \<Rightarrow> []) log)"

definition ended :: "action list \<Rightarrow> string list" where
  "ended log = concat (map (\<lambda>a. case a of EvCompleted t \<Rightarrow> [t] | EvFailed t _ \<Rightarrow> [t] | _ \<Rightarrow> []) log)"

lemmas log_defs = begun_def sent_def succeeded_def ended_def

lemma log_append [simp]:
  "begun (xs @ ys) = begun xs @ begun ys" "sent (xs @ ys) = sent xs @ sent ys"
  "succeeded (xs @ ys) = succeeded xs @ succeeded ys" "ended (xs @ ys) = ended xs @ ended ys"
  by (simp_all add: log_defs)

lemma log_Nil [simp]: "begun [] = []" "sent [] = []" "succeeded [] = []" "ended [] = []"
  by (simp_all add: log_defs)

lemma log_single [simp]:
  "begun [EvStarted t b] = [t]" "begun [EvSkipped t r] = [t]" "begun [EvCompleted t] = []" "begun [EvFailed t i] = []"
  "begun [RunTask f t b d] = []" "begun [MakeStamp t] = []" "begun [DelStamp t] = []" "begun [StartFakeworker m] = []"
  "begun [EvExitWait i] = []" "begun [FinishNow] = []"
  "sent [EvStarted t b] = []" "sent [EvSkipped t r] = []" "sent [EvCompleted t] = []" "sent [EvFailed t i] = []"
  "sent [RunTask f t b d] = [t]" "sent [MakeStamp t] = []" "sent [DelStamp t] = []" "sent [StartFakeworker m] = []"
  "sent [EvExitWait i] = []" "sent [FinishNow] = []"
  "succeeded [EvStarted t b] = []" "succeeded [EvSkipped t r] = [t]" "succeeded [EvCompleted t] = [t]" "succeeded [EvFailed t i] = []"
  "succeeded [RunTask f t b d] = []" "succeeded [MakeStamp t] = []" "succeeded [DelStamp t] = []" "succeeded [StartFakeworker m] = []"
  "succeeded [EvExitWait i] = []" "succeeded [FinishNow] = []"
  "ended [EvStarted t b] = []" "ended [EvSkipped t r] = []" "ended [EvCompleted t] = [t]" "ended [EvFailed t i] = [t]"
  "ended [RunTask f t b d] = []" "ended [MakeStamp t] = []" "ended [DelStamp t] = []" "ended [StartFakeworker m] = []"
  "ended [EvExitWait i] = []" "ended [FinishNow] = []"
  by (simp_all add: log_defs)

lemma log_DelStamp [simp]:
  "begun (map DelStamp ts) = []" "sent (map DelStamp ts) = []" "succeeded (map DelStamp ts) = []" "ended (map DelStamp ts) = []"
  by (induction ts) (simp_all add: log_defs)

text \<open>Whatever starts a task comes after the success of all its dependencies.\<close>

definition in_order :: "runtasks \<Rightarrow> action list \<Rightarrow> bool" where
  "in_order es log \<longleftrightarrow> (\<forall>pre a post. log = pre @ a # post \<longrightarrow>
     (\<forall>t \<in> set (begun [a]) \<union> set (sent [a]). set (deps_of es t) \<subseteq> set (succeeded pre)))"

lemma in_order_snoc:
  "in_order es (log @ [a]) \<longleftrightarrow> in_order es log \<and>
     (\<forall>t \<in> set (begun [a]) \<union> set (sent [a]). set (deps_of es t) \<subseteq> set (succeeded log))"
  (is "?l \<longleftrightarrow> ?r")
proof
  assume l: ?l
  have "in_order es log" unfolding in_order_def
  proof (intro allI impI)
    fix pre b post assume "log = pre @ b # post"
    then have "log @ [a] = pre @ b # (post @ [a])" by simp
    then show "\<forall>t \<in> set (begun [b]) \<union> set (sent [b]). set (deps_of es t) \<subseteq> set (succeeded pre)"
      using l unfolding in_order_def by blast
  qed
  moreover have "log @ [a] = log @ a # []" by simp
  ultimately show ?r using l unfolding in_order_def by blast
next
  assume r: ?r
  show ?l unfolding in_order_def
  proof (intro allI impI)
    fix pre b post assume e: "log @ [a] = pre @ b # post"
    show "\<forall>t \<in> set (begun [b]) \<union> set (sent [b]). set (deps_of es t) \<subseteq> set (succeeded pre)"
    proof (cases post rule: rev_cases)
      case Nil
      then show ?thesis using e r by simp
    next
      case (snoc post' c)
      then have "log = pre @ b # post'" using e by (metis append_Cons append_assoc butlast_snoc)
      then show ?thesis using r unfolding in_order_def by blast
    qed
  qed
qed

lemma in_order_Nil [simp]: "in_order es []"
  by (simp add: in_order_def)

lemma in_order_DelStamp [simp]: "in_order es (map DelStamp ts)"
  by (induction ts rule: rev_induct) (simp_all add: in_order_snoc)

section \<open>The table during the execution\<close>

definition no_deps :: "runtasks \<Rightarrow> runtasks" where
  "no_deps es = map (\<lambda>(t, e). (t, e\<lparr>rt_depends := []\<rparr>)) es"

lemma dget_no_deps: "dget (no_deps es) t = map_option (\<lambda>e. e\<lparr>rt_depends := []\<rparr>) (dget es t)"
  by (induction es) (auto simp: no_deps_def)

lemma dkeys_no_deps: "dkeys (no_deps es) = dkeys es"
  by (induction es) (auto simp: no_deps_def)

definition table_inv :: "runtasks \<Rightarrow> string set \<Rightarrow> runtasks \<Rightarrow> bool" where
  "table_inv es0 R es \<longleftrightarrow> no_deps es = no_deps es0 \<and>
     (\<forall>t. set (deps_of es0 t) \<subseteq> set (deps_of es t) \<and> set (deps_of es t) \<subseteq> insert t (set (deps_of es0 t)) \<and>
          (t \<notin> R \<longrightarrow> set (deps_of es t) = set (deps_of es0 t)))"

lemma table_inv_facts:
  assumes "table_inv es0 R es"
  shows "dkeys es = dkeys es0" "revs_of es t = revs_of es0 t" "weight_of es t = weight_of es0 t"
proof -
  have n: "no_deps es = no_deps es0" using assms by (simp add: table_inv_def)
  show "dkeys es = dkeys es0" using dkeys_no_deps [of es] dkeys_no_deps [of es0] n by simp
  have "map_option (\<lambda>e. e\<lparr>rt_depends := []\<rparr>) (dget es t) = map_option (\<lambda>e. e\<lparr>rt_depends := []\<rparr>) (dget es0 t)"
    using dget_no_deps [of es t] dget_no_deps [of es0 t] n by simp
  then have "map_option rt_revdeps (dget es t) = map_option rt_revdeps (dget es0 t)"
    "map_option rt_weight (dget es t) = map_option rt_weight (dget es0 t)"
    by (cases "dget es t"; cases "dget es0 t"; force dest: arg_cong [of _ _ rt_revdeps] arg_cong [of _ _ rt_weight])+
  then show "revs_of es t = revs_of es0 t" "weight_of es t = weight_of es0 t"
    by (cases "dget es t"; cases "dget es0 t"; simp add: revs_of_def weight_of_def)+
qed

lemma table_inv_mono: "table_inv es0 R es \<Longrightarrow> R \<subseteq> R' \<Longrightarrow> table_inv es0 R' es"
  unfolding table_inv_def by blast

lemma no_deps_dset:
  "dget es t = Some e \<Longrightarrow> dwf es \<Longrightarrow> no_deps (dset t (e\<lparr>rt_depends := ds\<rparr>) es) = no_deps es"
proof (induction es)
  case (Cons x es)
  obtain a b where x: "x = (a, b)" by (cases x)
  show ?case
  proof (cases "t = a")
    case True
    then show ?thesis using Cons.prems by (simp add: x no_deps_def)
  next
    case False
    then show ?thesis using Cons by (simp add: x no_deps_def)
  qed
qed simp

lemma table_inv_self:
  assumes "table_inv es0 R es" "dget es t = Some e" "dwf es"
  shows "table_inv es0 (insert t R) (dset t (e\<lparr>rt_depends := sadd t (rt_depends e)\<rparr>) es)"
proof -
  have "deps_of (dset t (e\<lparr>rt_depends := sadd t (rt_depends e)\<rparr>) es) u = (if u = t then sadd t (rt_depends e) else deps_of es u)" for u
    by (simp add: deps_of_def dget_dset)
  moreover have d: "rt_depends e = deps_of es t" using assms(2) by (simp add: deps_of_def)
  ultimately show ?thesis using assms(1) no_deps_dset [OF assms(2,3)] unfolding table_inv_def d by auto
qed

lemma speed_tids_same:
  assumes "table_inv es0 R es" "dwf es0"
  shows "speed_tids es = speed_tids es0"
proof -
  have "dwf es" using assms(2) table_inv_facts(1) [OF assms(1)] by simp
  moreover have "weight_of es = weight_of es0" using table_inv_facts(3) [OF assms(1)] by (rule ext)
  ultimately show ?thesis using assms(2) table_inv_facts(1) [OF assms(1)] by (simp add: speed_tids_sort)
qed

section \<open>Completing a task\<close>

definition newly_buildable :: "exst \<Rightarrow> string \<Rightarrow> string set" where
  "newly_buildable s task =
     {r. r \<in> set (revs_of (ex_entries s) task) \<and> r \<notin> set (ex_running s) \<and> r \<notin> set (ex_buildable s) \<and>
         set (deps_of (ex_entries s) r) \<subseteq> insert task (set (ex_complete s))}"

definition more_buildable :: "string set \<Rightarrow> exst \<Rightarrow> exst \<Rightarrow> bool" where
  "more_buildable N s s' \<longleftrightarrow>
     (\<exists>B b. s' = s\<lparr>ex_buildable := B, ex_sched := (ex_sched s)\<lparr>sc_buildable := b\<rparr>\<rparr> \<and>
        set B = set (ex_buildable s) \<union> N \<and> set b = set (sc_buildable (ex_sched s)) \<union> N)"

lemma more_buildable_refl: "more_buildable {} s s"
  unfolding more_buildable_def by (intro exI [of _ "ex_buildable s"] exI [of _ "sc_buildable (ex_sched s)"]) simp

lemma more_buildable_frame:
  assumes "more_buildable N s s'"
  shows "ex_entries s' = ex_entries s" "ex_running s' = ex_running s" "ex_complete s' = ex_complete s"
    "ex_build_stamps s' = ex_build_stamps s" "ex_build_stamps2 s' = ex_build_stamps2 s" "ex_failed s' = ex_failed s"
    "ex_stats s' = ex_stats s" "ex_covered s' = ex_covered s" "ex_state s' = ex_state s" "ex_actions s' = ex_actions s"
    "ex_whitelist_checked s' = ex_whitelist_checked s"
    "sc_prio_map (ex_sched s') = sc_prio_map (ex_sched s)" "sc_stamps (ex_sched s') = sc_stamps (ex_sched s)"
    "sc_rev (ex_sched s') = sc_rev (ex_sched s)"
    "set (ex_buildable s') = set (ex_buildable s) \<union> N"
    "set (sc_buildable (ex_sched s')) = set (sc_buildable (ex_sched s)) \<union> N"
  using assms unfolding more_buildable_def by auto

lemma more_buildable_trans:
  assumes "more_buildable M s s'" "more_buildable N s' s''" shows "more_buildable (M \<union> N) s s''"
  using assms unfolding more_buildable_def by force

lemma setbuildable_more: "valid (setbuildable t) s (\<lambda>_ s'. more_buildable {t} s s') E"
  unfolding setbuildable_def valid_mmod more_buildable_def newbuilable_def
  by (intro exI [of _ "sadd t (ex_buildable s)"] exI [of _ "sc_buildable (ex_sched s) @ [t]"]) simp

lemma check_revdep_spec:
  "valid (check_revdep r) s
     (\<lambda>_ s'. more_buildable (if r \<notin> set (ex_running s) \<and> r \<notin> set (ex_buildable s) \<and>
        set (deps_of (ex_entries s) r) \<subseteq> set (ex_complete s) then {r} else {}) s s') (\<lambda>_ _. True)"
proof (cases "r \<in> set (ex_running s) \<or> r \<in> set (ex_buildable s)")
  case True
  then show ?thesis by (auto simp: check_revdep_def more_buildable_refl)
next
  case False
  show ?thesis
  proof (cases "dget (ex_entries s) r")
    case None
    then show ?thesis using False by (simp add: check_revdep_def mitem_of_def ditem_def)
  next
    case (Some e)
    then have d: "deps_of (ex_entries s) r = rt_depends e" by (simp add: deps_of_def)
    have sp: "valid (mseq (setbuildable r) (mbind (mlift (taskname_from_tid r)) (\<lambda>_. mret ()))) s (\<lambda>_ s'. more_buildable {r} s s') (\<lambda>_ _. True)"
      unfolding valid_mbind
      by (rule valid_conseq [OF setbuildable_more]) (auto split: sum.split)
    show ?thesis
    proof (cases "set (rt_depends e) \<subseteq> set (ex_complete s)")
      case True
      then show ?thesis using False Some sp by (simp add: check_revdep_def mitem_of_def ditem_def d subset_iff)
    next
      case nd: False
      then show ?thesis using False Some by (auto simp: check_revdep_def mitem_of_def ditem_def d more_buildable_refl)
    qed
  qed
qed

text \<open>Completing a task makes buildable exactly the waiting tasks whose last dependency it was.\<close>

lemma task_completeoutright_spec:
  "valid (task_completeoutright t) s
     (\<lambda>_ s'. more_buildable (newly_buildable s t) (s\<lparr>ex_complete := sadd t (ex_complete s)\<rparr>) s') (\<lambda>_ _. True)"
proof (cases "dget (ex_entries s) t")
  case None
  then show ?thesis by (simp add: task_completeoutright_def mitem_of_def ditem_def)
next
  case (Some e)
  let ?s1 = "s\<lparr>ex_complete := sadd t (ex_complete s)\<rparr>"
  let ?I = "\<lambda>pre s'. more_buildable (newly_buildable s t \<inter> set pre) ?s1 s'"
  have rv: "revs_of (ex_entries s) t = rt_revdeps e" using Some by (simp add: revs_of_def)
  have "valid (mfor (rt_revdeps e) check_revdep) ?s1 (\<lambda>_. ?I (rt_revdeps e)) (\<lambda>_ _. True)"
  proof (rule valid_mfor)
    show "?I [] ?s1" by (simp add: more_buildable_refl)
  next
    fix pre x post s' assume xs: "rt_revdeps e = pre @ x # post" and i: "?I pre s'"
    note f = more_buildable_frame [OF i]
    let ?N = "if x \<notin> set (ex_running s') \<and> x \<notin> set (ex_buildable s') \<and>
        set (deps_of (ex_entries s') x) \<subseteq> set (ex_complete s') then {x} else {}"
    have "newly_buildable s t \<inter> set pre \<union> ?N = newly_buildable s t \<inter> set (pre @ [x])"
      using f xs rv by (auto simp: newly_buildable_def)
    then have "more_buildable ?N s' s'' \<Longrightarrow> ?I (pre @ [x]) s''" for s''
      using more_buildable_trans [OF i, of ?N s''] by argo
    then show "valid (check_revdep x) s' (\<lambda>_. ?I (pre @ [x])) (\<lambda>_ _. True)"
      by (rule valid_conseq [OF check_revdep_spec]) simp_all
  qed
  moreover have "newly_buildable s t \<inter> set (rt_revdeps e) = newly_buildable s t" using rv by (auto simp: newly_buildable_def)
  ultimately show ?thesis using Some by (simp add: task_completeoutright_def mitem_of_def ditem_def)
qed

section \<open>The invariant\<close>

text \<open>The sets: buildable B, running R, complete C, failed F, and S the tasks the workers have.\<close>

definition sets_inv :: "runtasks \<Rightarrow> string set \<Rightarrow> string set \<Rightarrow> string set \<Rightarrow> string set \<Rightarrow> string set \<Rightarrow> bool" where
  "sets_inv es0 B R C F S \<longleftrightarrow> B \<subseteq> set (dkeys es0) \<and> (\<forall>t \<in> set (dkeys es0). t \<in> B \<longleftrightarrow> set (deps_of es0 t) \<subseteq> C) \<and>
     R \<subseteq> B \<and> R = C \<union> F \<union> S \<and> C \<inter> F = {} \<and> C \<inter> S = {} \<and> F \<inter> S = {}"

text \<open>The stamp of a task, without the extra information.\<close>

definition task_stamp :: "execenv \<Rightarrow> string \<Rightarrow> string option res" where
  "task_stamp env t = rbind (split_tid_mcfn t) (\<lambda>(mc, fn, tn, tf). sched_stamp env mc tn tf)"

definition stats_inv :: "execenv \<Rightarrow> runtasks \<Rightarrow> exst \<Rightarrow> bool" where
  "stats_inv env es0 s \<longleftrightarrow> dwf (ex_build_stamps s) \<and> st_active (ex_stats s) = int (length (ex_build_stamps s)) \<and>
     st_active (ex_stats s) \<le> xe_number_tasks env \<and> 0 < xe_number_tasks env \<and>
     st_completed (ex_stats s) = int (card (set (ex_complete s))) \<and>
     st_failed (ex_stats s) = int (length (ex_failed s)) \<and> st_total (ex_stats s) = int (length es0)"

definition stamps_inv :: "execenv \<Rightarrow> runtasks \<Rightarrow> exst \<Rightarrow> bool" where
  "stamps_inv env es0 s \<longleftrightarrow> mset (map snd (ex_build_stamps s)) = mset (ex_build_stamps2 s) \<and> distinct (ex_build_stamps2 s) \<and>
     (\<forall>t st. dget (ex_build_stamps s) t = Some st \<longrightarrow> dget (sc_stamps (ex_sched s)) t = Some st) \<and>
     (\<forall>t \<in> set (dkeys es0). \<exists>st. task_stamp env t = Inr st \<and> dget (sc_stamps (ex_sched s)) t = Some st)"

definition sched_inv :: "string list \<Rightarrow> runtasks \<Rightarrow> exst \<Rightarrow> bool" where
  "sched_inv prio es0 s \<longleftrightarrow> sched_wf prio es0 (ex_sched s) \<and>
     set (ex_buildable s) - set (ex_running s) \<subseteq> set (sc_buildable (ex_sched s)) \<and>
     set (sc_buildable (ex_sched s)) \<subseteq> set (ex_buildable s)"

definition log_inv :: "runtasks \<Rightarrow> exst \<Rightarrow> bool" where
  "log_inv es0 s \<longleftrightarrow> distinct (begun (ex_actions s)) \<and> set (begun (ex_actions s)) = set (ex_running s) \<and>
     set (succeeded (ex_actions s)) = set (ex_complete s) \<and>
     distinct (sent (ex_actions s)) \<and> set (sent (ex_actions s)) \<subseteq> set (ex_running s) \<and>
     set (dkeys (ex_build_stamps s)) = set (sent (ex_actions s)) - set (ended (ex_actions s)) \<and>
     set (ended (ex_actions s)) \<subseteq> set (ex_complete s) \<union> set (ex_failed s) \<and> in_order es0 (ex_actions s)"

text \<open>The run was told to stop: from outside, or because a worker died.\<close>

definition stopped :: "bool \<Rightarrow> exst \<Rightarrow> bool" where
  "stopped stop s \<longleftrightarrow> stop \<or> FinishNow \<in> set (ex_actions s)"

definition state_inv :: "bool \<Rightarrow> runtasks \<Rightarrow> exst \<Rightarrow> bool" where
  "state_inv stop es0 s \<longleftrightarrow> stopped stop s \<or> (ex_state s = RqRunning \<or> ex_state s = RqCleanUp) \<and>
     (ex_state s = RqCleanUp \<longrightarrow> ex_failed s \<noteq> [] \<or> set (ex_complete s) = set (dkeys es0))"

lemmas state_inv_defs = state_inv_def stopped_def

definition xcore :: "execenv \<Rightarrow> string list \<Rightarrow> runtasks \<Rightarrow> exst \<Rightarrow> bool" where
  "xcore env prio es0 s \<longleftrightarrow> table_inv es0 (set (ex_running s)) (ex_entries s) \<and>
     sets_inv es0 (set (ex_buildable s)) (set (ex_running s)) (set (ex_complete s)) (set (ex_failed s)) (set (dkeys (ex_build_stamps s))) \<and>
     stats_inv env es0 s \<and> stamps_inv env es0 s \<and> sched_inv prio es0 s \<and> log_inv es0 s"

definition xinv :: "bool \<Rightarrow> execenv \<Rightarrow> string list \<Rightarrow> runtasks \<Rightarrow> exst \<Rightarrow> bool" where
  "xinv stop env prio es0 s \<longleftrightarrow> xcore env prio es0 s \<and> state_inv stop es0 s \<and>
     (xe_whitelisted env = None \<or> ex_whitelist_checked s \<or> ex_running s = [])"

definition checked :: "execenv \<Rightarrow> exst \<Rightarrow> bool" where
  "checked env s \<longleftrightarrow> xe_whitelisted env = None \<or> ex_whitelist_checked s"

text \<open>What the invariant does not read.\<close>

lemma xcore_frame [simp]:
  "xcore env prio es0 (s\<lparr>ex_state := q\<rparr>) = xcore env prio es0 s"
  "xcore env prio es0 (s\<lparr>ex_whitelist_checked := w\<rparr>) = xcore env prio es0 s"
  "xcore env prio es0 (s\<lparr>ex_stampcache := c\<rparr>) = xcore env prio es0 s"
  "xcore env prio es0 (s\<lparr>ex_fakeworkers := ms\<rparr>) = xcore env prio es0 s"
  by (simp_all add: xcore_def stats_inv_def stamps_inv_def sched_inv_def log_inv_def del: list.set_map)

lemma xcore_action [simp]:
  assumes "begun [a] = []" "sent [a] = []" "succeeded [a] = []" "ended [a] = []"
  shows "xcore env prio es0 (s\<lparr>ex_actions := ex_actions s @ [a]\<rparr>) = xcore env prio es0 s"
  by (simp add: xcore_def stats_inv_def stamps_inv_def sched_inv_def log_inv_def in_order_snoc assms del: list.set_map)

section \<open>The sets under the steps\<close>

lemma sets_complete:
  assumes "sets_inv es0 B R C F S" "rt_wf es0" "t \<in> B" "t \<in> R" "t \<notin> C" "t \<notin> F"
    and N: "N = {r \<in> set (revs_of es0 t). r \<notin> R \<and> r \<notin> B \<and> set (deps_of es0 r) \<subseteq> insert t C}"
  shows "sets_inv es0 (B \<union> N) R (insert t C) F (S - {t})"
proof -
  have K: "set (revs_of es0 t) \<subseteq> set (dkeys es0)" and m: "\<And>u. t \<in> set (deps_of es0 u) \<longleftrightarrow> u \<in> set (revs_of es0 t)"
    using assms(2) unfolding rt_wf_def by blast+
  note i = assms(1) [unfolded sets_inv_def]
  have "u \<in> B \<union> N \<longleftrightarrow> set (deps_of es0 u) \<subseteq> insert t C" if "u \<in> set (dkeys es0)" for u
    using that i m [of u] unfolding N by blast
  moreover have "B \<union> N \<subseteq> set (dkeys es0)" using i K unfolding N by blast
  moreover have "R \<subseteq> B \<union> N" "R = insert t C \<union> F \<union> (S - {t})" "insert t C \<inter> F = {}" "insert t C \<inter> (S - {t}) = {}" "F \<inter> (S - {t}) = {}"
    using i assms(3-6) by blast+
  ultimately show ?thesis unfolding sets_inv_def by blast
qed

lemma sets_fail:
  assumes "sets_inv es0 B R C F S" "t \<in> S" shows "sets_inv es0 B R C (F \<union> {t}) (S - {t})"
  using assms unfolding sets_inv_def by blast

lemma sets_start:
  assumes "sets_inv es0 B R C F S" "t \<in> B" "t \<notin> R" shows "sets_inv es0 B (insert t R) C F (insert t S)"
  using assms unfolding sets_inv_def by blast

lemma sched_wf_more:
  "sched_wf prio es s \<Longrightarrow> set b \<subseteq> set (dkeys es) \<Longrightarrow> sched_wf prio es (s\<lparr>sc_buildable := b\<rparr>)"
  unfolding sched_wf_def by auto

section \<open>The invariant under the steps\<close>

lemma xcore_weaken_sched:
  assumes "more_buildable N s s'" "sched_inv prio es0 s" "N \<subseteq> set (dkeys es0)"
  shows "sched_inv prio es0 s'"
proof -
  obtain B b where s': "s' = s\<lparr>ex_buildable := B, ex_sched := (ex_sched s)\<lparr>sc_buildable := b\<rparr>\<rparr>"
    "set B = set (ex_buildable s) \<union> N" "set b = set (sc_buildable (ex_sched s)) \<union> N"
    using assms(1) unfolding more_buildable_def by blast
  have "set b \<subseteq> set (dkeys es0)" using assms(2,3) s'(3) unfolding sched_inv_def sched_wf_def by blast
  then show ?thesis using assms(2) s' sched_wf_more unfolding sched_inv_def by auto
qed

text \<open>The tasks that become buildable when t completes, over the table the execution started from.\<close>

lemma newly_buildable_table:
  assumes "table_inv es0 R (ex_entries s)" "R \<subseteq> insert t (set (ex_running s))" "t \<in> set (ex_running s)"
  shows "newly_buildable s t = {r \<in> set (revs_of es0 t). r \<notin> set (ex_running s) \<and> r \<notin> set (ex_buildable s) \<and>
    set (deps_of es0 r) \<subseteq> insert t (set (ex_complete s))}"
proof -
  have "set (deps_of (ex_entries s) r) = set (deps_of es0 r)" if "r \<notin> set (ex_running s)" for r
    using assms that unfolding table_inv_def by blast
  then show ?thesis using table_inv_facts(2) [OF assms(1)] by (auto simp: newly_buildable_def)
qed

lemma newly_buildable_keys:
  "table_inv es0 R (ex_entries s) \<Longrightarrow> rt_wf es0 \<Longrightarrow> newly_buildable s t \<subseteq> set (dkeys es0)"
  using table_inv_facts(2) [of es0 R "ex_entries s" t] unfolding newly_buildable_def rt_wf_def by auto

text \<open>
  Completing a running task t that no worker has (any more): what the invariant needs before and
  after, with the statistics and the record of actions already updated.
\<close>

definition before_complete :: "execenv \<Rightarrow> string list \<Rightarrow> runtasks \<Rightarrow> string \<Rightarrow> exst \<Rightarrow> bool" where
  "before_complete env prio es0 t s \<longleftrightarrow> table_inv es0 (set (ex_running s)) (ex_entries s) \<and>
     t \<in> set (ex_running s) \<and> t \<notin> set (ex_complete s) \<and> t \<notin> set (ex_failed s) \<and> t \<in> set (ex_buildable s) \<and>
     (\<exists>S. sets_inv es0 (set (ex_buildable s)) (set (ex_running s)) (set (ex_complete s)) (set (ex_failed s)) S \<and>
          S - {t} = set (dkeys (ex_build_stamps s))) \<and>
     stats_inv env es0 (s\<lparr>ex_complete := sadd t (ex_complete s)\<rparr>) \<and>
     stamps_inv env es0 s \<and> sched_inv prio es0 s \<and> log_inv es0 (s\<lparr>ex_complete := sadd t (ex_complete s)\<rparr>)"

lemma after_complete:
  assumes "before_complete env prio es0 t s" "rt_wf es0" "state_inv stop es0 s" "checked env s"
    and m: "more_buildable (newly_buildable s t) (s\<lparr>ex_complete := sadd t (ex_complete s)\<rparr>) s'"
  shows "xinv stop env prio es0 s' \<and> checked env s'"
proof -
  note f = more_buildable_frame [OF m, simplified]
  note b = assms(1) [unfolded before_complete_def]
  obtain S where S: "sets_inv es0 (set (ex_buildable s)) (set (ex_running s)) (set (ex_complete s)) (set (ex_failed s)) S"
    "S - {t} = set (dkeys (ex_build_stamps s))" using b by blast
  have tb: "table_inv es0 (set (ex_running s)) (ex_entries s)" using b by blast
  have N: "newly_buildable s t = {r \<in> set (revs_of es0 t). r \<notin> set (ex_running s) \<and> r \<notin> set (ex_buildable s) \<and>
    set (deps_of es0 r) \<subseteq> insert t (set (ex_complete s))}"
    by (rule newly_buildable_table [OF tb]) (use b in auto)
  have "sets_inv es0 (set (ex_buildable s) \<union> newly_buildable s t) (set (ex_running s)) (insert t (set (ex_complete s)))
      (set (ex_failed s)) (S - {t})"
    by (rule sets_complete [OF S(1) assms(2)]) (use b N in auto)
  then have sets: "sets_inv es0 (set (ex_buildable s')) (set (ex_running s')) (set (ex_complete s')) (set (ex_failed s')) (set (dkeys (ex_build_stamps s')))"
    unfolding f S(2) by simp
  have st: "stats_inv env es0 s'" using b unfolding stats_inv_def f by simp
  have sp: "stamps_inv env es0 s'" using b unfolding stamps_inv_def f by simp
  have lg: "log_inv es0 s'" using b unfolding log_inv_def f by simp
  have sc: "sched_inv prio es0 s'"
    by (rule xcore_weaken_sched [OF m _ newly_buildable_keys [OF tb assms(2)]]) (use b in \<open>simp add: sched_inv_def\<close>)
  have si: "state_inv stop es0 s'"
    using assms(3) b S(1) sets unfolding state_inv_defs sets_inv_def f by auto
  show ?thesis
    using sets st sp lg sc si tb assms(4) unfolding xinv_def xcore_def checked_def by (auto simp: f)
qed

lemma more_buildable_stats:
  "more_buildable N s s' \<Longrightarrow> more_buildable N (s\<lparr>ex_stats := X\<rparr>) (s'\<lparr>ex_stats := X\<rparr>)"
  unfolding more_buildable_def
proof (elim exE conjE, intro exI conjI)
  fix B b assume "s' = s\<lparr>ex_buildable := B, ex_sched := (ex_sched s)\<lparr>sc_buildable := b\<rparr>\<rparr>"
  then show "s'\<lparr>ex_stats := X\<rparr> = s\<lparr>ex_stats := X\<rparr>\<lparr>ex_buildable := B,
      ex_sched := (ex_sched (s\<lparr>ex_stats := X\<rparr>))\<lparr>sc_buildable := b\<rparr>\<rparr>" by simp
qed simp_all

text \<open>What completing a task leaves alone.\<close>

definition step_frame :: "exst \<Rightarrow> exst \<Rightarrow> bool" where
  "step_frame s s' \<longleftrightarrow> ex_build_stamps s' = ex_build_stamps s \<and> ex_failed s' = ex_failed s \<and>
     ex_entries s' = ex_entries s \<and> ex_state s' = ex_state s"

text \<open>The statistics may be brought up to date after the task was completed, as \<open>task_skip\<close> does.\<close>

lemma task_completeoutright_inv:
  assumes "before_complete env prio es0 t (s\<lparr>ex_stats := X\<rparr>)" "rt_wf es0" "state_inv stop es0 s" "checked env s"
  shows "valid (task_completeoutright t) s
    (\<lambda>_ s'. xinv stop env prio es0 (s'\<lparr>ex_stats := X\<rparr>) \<and> checked env s' \<and> ex_stats s' = ex_stats s \<and> step_frame s s') (\<lambda>_ _. True)"
proof (rule valid_conseq [OF task_completeoutright_spec])
  fix s' assume m: "more_buildable (newly_buildable s t) (s\<lparr>ex_complete := sadd t (ex_complete s)\<rparr>) s'"
  have "more_buildable (newly_buildable (s\<lparr>ex_stats := X\<rparr>) t)
      ((s\<lparr>ex_stats := X\<rparr>)\<lparr>ex_complete := sadd t (ex_complete (s\<lparr>ex_stats := X\<rparr>))\<rparr>) (s'\<lparr>ex_stats := X\<rparr>)"
  proof -
    have e1: "(s\<lparr>ex_stats := X\<rparr>)\<lparr>ex_complete := sadd t (ex_complete (s\<lparr>ex_stats := X\<rparr>))\<rparr> =
        (s\<lparr>ex_complete := sadd t (ex_complete s)\<rparr>)\<lparr>ex_stats := X\<rparr>" by simp
    have e2: "newly_buildable (s\<lparr>ex_stats := X\<rparr>) t = newly_buildable s t" by (simp add: newly_buildable_def)
    show ?thesis unfolding e1 e2 by (rule more_buildable_stats [OF m])
  qed
  from after_complete [OF assms(1,2) _ _ this] assms(3,4)
  show "xinv stop env prio es0 (s'\<lparr>ex_stats := X\<rparr>) \<and> checked env s' \<and> ex_stats s' = ex_stats s \<and> step_frame s s'"
    using more_buildable_frame [OF m] by (simp add: state_inv_defs checked_def step_frame_def)
qed simp

lemma log_inv_begin:
  assumes "log_inv es0 s" "sets_inv es0 B (set (ex_running s)) (set (ex_complete s)) (set (ex_failed s)) S" "t \<notin> set (ex_running s)"
  shows "t \<notin> set (begun (ex_actions s))" "t \<notin> set (sent (ex_actions s))" "t \<notin> set (ended (ex_actions s))"
    "t \<notin> set (succeeded (ex_actions s))"
proof -
  have l: "set (begun (ex_actions s)) = set (ex_running s)" "set (succeeded (ex_actions s)) = set (ex_complete s)"
    "set (sent (ex_actions s)) \<subseteq> set (ex_running s)" "set (ended (ex_actions s)) \<subseteq> set (ex_complete s) \<union> set (ex_failed s)"
    using assms(1) unfolding log_inv_def by simp_all
  have r: "set (ex_running s) = set (ex_complete s) \<union> set (ex_failed s) \<union> S"
    using assms(2) unfolding sets_inv_def by (elim conjE) assumption
  show "t \<notin> set (begun (ex_actions s))" "t \<notin> set (sent (ex_actions s))" using l(1,3) assms(3) by auto
  show "t \<notin> set (ended (ex_actions s))" "t \<notin> set (succeeded (ex_actions s))" using l(2,4) r assms(3) by auto
qed

lemma task_skip_inv:
  assumes x: "xinv stop env prio es0 s" and wf: "rt_wf es0" and c: "checked env s"
    and t: "t \<in> set (ex_buildable s)" "t \<notin> set (ex_running s)"
  shows "valid (task_skip t why) s (\<lambda>_ s'. xinv stop env prio es0 s' \<and> checked env s' \<and> step_frame s s') (\<lambda>_ _. True)"
proof -
  let ?s1 = "s\<lparr>ex_running := sadd t (ex_running s)\<rparr>"
  let ?X = "taskSkipped 1 (taskCompleted 1 (ex_stats s))"
  have rest: "valid (task_completeoutright t) (s2\<lparr>ex_actions := ex_actions s2 @ [EvSkipped t why]\<rparr>)
      (\<lambda>_ s'. xinv stop env prio es0 (s'\<lparr>ex_stats := ?X\<rparr>) \<and> checked env s' \<and> ex_stats s' = ex_stats s \<and> step_frame s s') (\<lambda>_ _. True)"
    if m: "more_buildable {t} ?s1 s2" for s2
  proof -
    let ?s3 = "s2\<lparr>ex_actions := ex_actions s2 @ [EvSkipped t why]\<rparr>"
    note f = more_buildable_frame [OF m, simplified]
    note i = x [unfolded xinv_def xcore_def]
    have sets: "sets_inv es0 (set (ex_buildable s)) (set (ex_running s)) (set (ex_complete s)) (set (ex_failed s)) (set (dkeys (ex_build_stamps s)))"
      using i by blast
    have tn: "t \<notin> set (dkeys (ex_build_stamps s))" "t \<notin> set (ex_complete s)" "t \<notin> set (ex_failed s)"
      using sets t(2) unfolding sets_inv_def by blast+
    have "before_complete env prio es0 t (?s3\<lparr>ex_stats := ?X\<rparr>)"
      unfolding before_complete_def
    proof (intro conjI)
      show "table_inv es0 (set (ex_running (?s3\<lparr>ex_stats := ?X\<rparr>))) (ex_entries (?s3\<lparr>ex_stats := ?X\<rparr>))"
        using table_inv_mono [of es0 "set (ex_running s)" "ex_entries s" "insert t (set (ex_running s))"] i by (auto simp: f)
      show "\<exists>S. sets_inv es0 (set (ex_buildable (?s3\<lparr>ex_stats := ?X\<rparr>))) (set (ex_running (?s3\<lparr>ex_stats := ?X\<rparr>)))
          (set (ex_complete (?s3\<lparr>ex_stats := ?X\<rparr>))) (set (ex_failed (?s3\<lparr>ex_stats := ?X\<rparr>))) S \<and>
          S - {t} = set (dkeys (ex_build_stamps (?s3\<lparr>ex_stats := ?X\<rparr>)))"
        using sets_start [OF sets t] tn(1) t(1)
        by (intro exI [of _ "insert t (set (dkeys (ex_build_stamps s)))"]) (simp add: f insert_absorb)
      show "stats_inv env es0 ((?s3\<lparr>ex_stats := ?X\<rparr>)\<lparr>ex_complete := sadd t (ex_complete (?s3\<lparr>ex_stats := ?X\<rparr>))\<rparr>)"
        using i tn unfolding stats_inv_def by (simp add: f stats_defs)
      show "stamps_inv env es0 (?s3\<lparr>ex_stats := ?X\<rparr>)"
        using i unfolding stamps_inv_def by (simp add: f)
      show "sched_inv prio es0 (?s3\<lparr>ex_stats := ?X\<rparr>)"
      proof -
        have tk: "{t} \<subseteq> set (dkeys es0)" using sets t(1) unfolding sets_inv_def by blast
        have "sched_inv prio es0 ?s1" using i unfolding sched_inv_def by auto
        from xcore_weaken_sched [OF m this tk] show ?thesis by (simp add: sched_inv_def)
      qed
      show "log_inv es0 ((?s3\<lparr>ex_stats := ?X\<rparr>)\<lparr>ex_complete := sadd t (ex_complete (?s3\<lparr>ex_stats := ?X\<rparr>))\<rparr>)"
      proof -
        have d: "set (deps_of es0 t) \<subseteq> set (ex_complete s)" using sets t(1) unfolding sets_inv_def by blast
        have l: "log_inv es0 s" using i by blast
        note b = log_inv_begin [OF l sets t(2)]
        show ?thesis using l d b unfolding log_inv_def by (simp add: f in_order_snoc) blast
      qed
    qed (use t tn in \<open>simp_all add: f\<close>)
    from task_completeoutright_inv [OF this wf] show ?thesis
      using x c by (simp add: f xinv_def state_inv_defs checked_def step_frame_def)
  qed
  show ?thesis unfolding task_skip_def upd_stats_def mdo_def valid_mbind valid_mmod
    by (rule valid_conseq [OF setbuildable_more], rule valid_conseq [OF rest]) (auto simp: checked_def step_frame_def)
qed

text \<open>Taking a report from the workers.\<close>

lemma forget_facts:
  fixes d :: "(string, 'v) dict"
  assumes "dwf d" "dget d t = Some v"
  shows "dkeys (filter (\<lambda>(u, _). u \<noteq> t) d) = filter (\<lambda>u. u \<noteq> t) (dkeys d)"
    "length d = Suc (length (filter (\<lambda>(u, _). u \<noteq> t) d))"
    "mset (map snd d) = add_mset v (mset (map snd (filter (\<lambda>(u, _). u \<noteq> t) d)))"
    "dget (filter (\<lambda>(u, _). u \<noteq> t) d) u = (if u = t then None else dget d u)"
proof -
  have f: "filter (\<lambda>(u, _). u \<noteq> t) d = d" if "t \<notin> set (dkeys d)" for d :: "(string, 'v) dict"
    using that by (induction d) auto
  show "dkeys (filter (\<lambda>(u, _). u \<noteq> t) d) = filter (\<lambda>u. u \<noteq> t) (dkeys d)" by (induction d) auto
  show "length d = Suc (length (filter (\<lambda>(u, _). u \<noteq> t) d))"
    "mset (map snd d) = add_mset v (mset (map snd (filter (\<lambda>(u, _). u \<noteq> t) d)))"
    using assms by (induction d) (auto simp: f simp del: mset_filter split: if_splits)
  show "dget (filter (\<lambda>(u, _). u \<noteq> t) d) u = (if u = t then None else dget d u)" by (induction d) auto
qed

definition forgotten :: "exst \<Rightarrow> string \<Rightarrow> exst" where
  "forgotten s t = s\<lparr>ex_build_stamps2 := remove1 (the (dget (ex_build_stamps s) t)) (ex_build_stamps2 s),
     ex_build_stamps := filter (\<lambda>(u, _). u \<noteq> t) (ex_build_stamps s)\<rparr>"

lemma forget_stamp_eq:
  assumes "stats_inv env es0 s" "stamps_inv env es0 s" "t \<in> set (dkeys (ex_build_stamps s))"
  shows "forget_stamp t s = (Inr (), forgotten s t)"
proof -
  obtain st where st: "dget (ex_build_stamps s) t = Some st" using assms(3) unfolding dget_Some_key by blast
  then have "st \<in># mset (map snd (ex_build_stamps s))" by (force dest: map_of_SomeD)
  then have "st \<in> set (ex_build_stamps2 s)" using assms(2) unfolding stamps_inv_def by (metis set_mset_mset)
  then show ?thesis using st by (simp add: forget_stamp_def mbind_def mget_def mmod_def forgotten_def)
qed

lemma forgotten_inv:
  assumes "stats_inv env es0 s" "stamps_inv env es0 s" "t \<in> set (dkeys (ex_build_stamps s))"
  shows "stamps_inv env es0 (forgotten s t)" "dwf (ex_build_stamps (forgotten s t))"
    "int (length (ex_build_stamps (forgotten s t))) = st_active (ex_stats s) - 1"
    "set (dkeys (ex_build_stamps (forgotten s t))) = set (dkeys (ex_build_stamps s)) - {t}"
proof -
  obtain st where st: "dget (ex_build_stamps s) t = Some st" using assms(3) unfolding dget_Some_key by blast
  have w: "dwf (ex_build_stamps s)" using assms(1) unfolding stats_inv_def by blast
  note f = forget_facts [OF w st]
  have m: "mset (map snd (ex_build_stamps s)) = mset (ex_build_stamps2 s)" "distinct (ex_build_stamps2 s)"
    using assms(2) unfolding stamps_inv_def by blast+
  have "mset (map snd (filter (\<lambda>(u, _). u \<noteq> t) (ex_build_stamps s))) = mset (remove1 st (ex_build_stamps2 s))"
    using m(1) unfolding f(3) by (metis add_mset_remove_trivial mset_remove1)
  then show "stamps_inv env es0 (forgotten s t)"
    using assms(2) st unfolding stamps_inv_def by (simp add: forgotten_def f(4))
  show "dwf (ex_build_stamps (forgotten s t))" using w by (simp add: forgotten_def f(1))
  show "int (length (ex_build_stamps (forgotten s t))) = st_active (ex_stats s) - 1"
    using assms(1) f(2) unfolding stats_inv_def by (simp add: forgotten_def)
  have "ex_build_stamps (forgotten s t) = filter (\<lambda>(u, _). u \<noteq> t) (ex_build_stamps s)" by (simp add: forgotten_def)
  then have "set (dkeys (ex_build_stamps (forgotten s t))) = set (filter (\<lambda>u. u \<noteq> t) (dkeys (ex_build_stamps s)))"
    by (simp only: f(1))
  then show "set (dkeys (ex_build_stamps (forgotten s t))) = set (dkeys (ex_build_stamps s)) - {t}" by auto
qed

lemma report_before:
  assumes x: "xinv stop env prio es0 s" and t: "t \<in> set (dkeys (ex_build_stamps s))"
    and s1: "s1 = (forgotten s t)\<lparr>ex_stats := taskCompleted 1 (ex_stats s), ex_actions := ex_actions s @ [EvCompleted t]\<rparr>"
  shows "before_complete env prio es0 t s1"
proof -
  note i = x [unfolded xinv_def xcore_def]
  have st: "stats_inv env es0 s" and sp: "stamps_inv env es0 s" and lg: "log_inv es0 s" and
    sets: "sets_inv es0 (set (ex_buildable s)) (set (ex_running s)) (set (ex_complete s)) (set (ex_failed s)) (set (dkeys (ex_build_stamps s)))"
    using i by blast+
  note f = forgotten_inv [OF st sp t]
  have fr: "ex_entries s1 = ex_entries s" "ex_running s1 = ex_running s" "ex_complete s1 = ex_complete s"
    "ex_failed s1 = ex_failed s" "ex_buildable s1 = ex_buildable s" "ex_sched s1 = ex_sched s"
    "ex_build_stamps s1 = ex_build_stamps (forgotten s t)" "ex_actions s1 = ex_actions s @ [EvCompleted t]"
    "ex_stats s1 = taskCompleted 1 (ex_stats s)" "ex_build_stamps2 s1 = ex_build_stamps2 (forgotten s t)"
    by (simp_all add: s1 forgotten_def)
  have tn: "t \<in> set (ex_running s)" "t \<notin> set (ex_complete s)" "t \<notin> set (ex_failed s)" "t \<in> set (ex_buildable s)"
    using sets t unfolding sets_inv_def by blast+
  show ?thesis unfolding before_complete_def
  proof (intro conjI)
    show "\<exists>S. sets_inv es0 (set (ex_buildable s1)) (set (ex_running s1)) (set (ex_complete s1)) (set (ex_failed s1)) S \<and>
        S - {t} = set (dkeys (ex_build_stamps s1))"
      using sets f(4) unfolding fr by blast
    show "stats_inv env es0 (s1\<lparr>ex_complete := sadd t (ex_complete s1)\<rparr>)"
      using st f(2,3) tn(2) unfolding stats_inv_def by (simp add: fr stats_defs)
    show "stamps_inv env es0 s1" using f(1) unfolding stamps_inv_def fr by (simp add: forgotten_def)
    show "sched_inv prio es0 s1" using i unfolding sched_inv_def fr by blast
    have "set (dkeys (ex_build_stamps s1)) = set (sent (ex_actions s)) - set (ended (ex_actions s)) - {t}"
      using lg f(4) unfolding log_inv_def fr by simp
    then show "log_inv es0 (s1\<lparr>ex_complete := sadd t (ex_complete s1)\<rparr>)"
      using lg unfolding log_inv_def by (simp add: fr in_order_snoc) blast
  qed (use i tn in \<open>simp_all add: fr\<close>)
qed

lemma report_fail:
  assumes x: "xinv stop env prio es0 s" and t: "t \<in> set (dkeys (ex_build_stamps s))"
    and s1: "s1 = (forgotten s t)\<lparr>ex_stats := taskFailed (ex_stats s), ex_failed := ex_failed s @ [t],
      ex_actions := ex_actions s @ [EvFailed t i]\<rparr>"
  shows "xinv stop env prio es0 s1 \<and> xinv stop env prio es0 (s1\<lparr>ex_state := RqCleanUp\<rparr>)"
proof -
  note i = x [unfolded xinv_def xcore_def]
  have st: "stats_inv env es0 s" and sp: "stamps_inv env es0 s" and lg: "log_inv es0 s" and
    sets: "sets_inv es0 (set (ex_buildable s)) (set (ex_running s)) (set (ex_complete s)) (set (ex_failed s)) (set (dkeys (ex_build_stamps s)))"
    using i by blast+
  note f = forgotten_inv [OF st sp t]
  have fr: "ex_entries s1 = ex_entries s" "ex_running s1 = ex_running s" "ex_complete s1 = ex_complete s"
    "ex_failed s1 = ex_failed s @ [t]" "ex_buildable s1 = ex_buildable s" "ex_sched s1 = ex_sched s"
    "ex_build_stamps s1 = ex_build_stamps (forgotten s t)" "ex_actions s1 = ex_actions s @ [EvFailed t i]"
    "ex_stats s1 = taskFailed (ex_stats s)" "ex_build_stamps2 s1 = ex_build_stamps2 (forgotten s t)" "ex_state s1 = ex_state s"
    "ex_whitelist_checked s1 = ex_whitelist_checked s"
    by (simp_all add: s1 forgotten_def)
  have tb: "table_inv es0 (set (ex_running s1)) (ex_entries s1)" using i unfolding fr by blast
  have se: "sets_inv es0 (set (ex_buildable s1)) (set (ex_running s1)) (set (ex_complete s1)) (set (ex_failed s1)) (set (dkeys (ex_build_stamps s1)))"
    using sets_fail [OF sets t] f(4) unfolding fr by simp
  have st': "stats_inv env es0 s1" using st f(2,3) unfolding stats_inv_def fr by (simp add: stats_defs)
  have sp': "stamps_inv env es0 s1" using f(1) unfolding stamps_inv_def fr by (simp add: forgotten_def)
  have sc: "sched_inv prio es0 s1" using i unfolding sched_inv_def fr by blast
  have "set (dkeys (ex_build_stamps s1)) = set (sent (ex_actions s)) - set (ended (ex_actions s)) - {t}"
    using lg f(4) unfolding log_inv_def fr by simp
  then have lg': "log_inv es0 s1"
    using lg unfolding log_inv_def by (simp add: fr in_order_snoc) blast
  have w: "xe_whitelisted env = None \<or> ex_whitelist_checked s1 \<or> ex_running s1 = []" using i unfolding fr by blast
  have "xcore env prio es0 s1" using tb se st' sp' sc lg' unfolding xcore_def by blast
  then show ?thesis using w i unfolding xinv_def by (auto simp: state_inv_defs fr simp del: list.set_map)
qed

lemma waitpid_inv:
  assumes x: "xinv stop env prio es0 s" and wf: "rt_wf es0" and t: "t \<in> set (dkeys (ex_build_stamps s))"
  shows "valid (runqueue_process_waitpid env (t, status)) s
    (\<lambda>_ s'. xinv stop env prio es0 s' \<and> checked env s' \<and> set (dkeys (ex_build_stamps s')) = set (dkeys (ex_build_stamps s)) - {t}) (\<lambda>_ _. True)"
proof -
  note i = x [unfolded xinv_def xcore_def]
  have st: "stats_inv env es0 s" and sp: "stamps_inv env es0 s" and
    sets: "sets_inv es0 (set (ex_buildable s)) (set (ex_running s)) (set (ex_complete s)) (set (ex_failed s)) (set (dkeys (ex_build_stamps s)))"
    using i by blast+
  have "t \<in> set (ex_running s)" using sets t unfolding sets_inv_def by blast
  then have c: "checked env s" using i by (auto simp: checked_def)
  note k = forgotten_inv(4) [OF st sp t]
  have fs: "ex_stats (forgotten s t) = ex_stats s" "ex_failed (forgotten s t) = ex_failed s" "ex_actions (forgotten s t) = ex_actions s"
    "ex_state (forgotten s t) = ex_state s" "ex_complete (forgotten s t) = ex_complete s" "ex_whitelist_checked (forgotten s t) = ex_whitelist_checked s"
    by (simp_all add: forgotten_def)
  show ?thesis
  proof (cases "status = 0")
    case True
    let ?s1 = "(forgotten s t)\<lparr>ex_stats := taskCompleted 1 (ex_stats s), ex_actions := ex_actions s @ [EvCompleted t]\<rparr>"
    have e: "?s1\<lparr>ex_stats := taskCompleted 1 (ex_stats s)\<rparr> = ?s1" by simp
    have b: "before_complete env prio es0 t (?s1\<lparr>ex_stats := taskCompleted 1 (ex_stats s)\<rparr>)"
      unfolding e by (rule report_before [OF x t refl])
    have "valid (task_completeoutright t) ?s1 (\<lambda>_ s'. xinv stop env prio es0 s' \<and> checked env s' \<and>
        set (dkeys (ex_build_stamps s')) = set (dkeys (ex_build_stamps s)) - {t}) (\<lambda>_ _. True)"
    proof (rule valid_conseq [OF task_completeoutright_inv [OF b wf]])
      show "state_inv stop es0 ?s1" "checked env ?s1" using i c by (simp_all add: state_inv_defs fs checked_def)
      fix s' :: exst
      assume a: "xinv stop env prio es0 (s'\<lparr>ex_stats := taskCompleted 1 (ex_stats s)\<rparr>) \<and> checked env s' \<and> ex_stats s' = ex_stats ?s1 \<and> step_frame ?s1 s'"
      then have eq: "s'\<lparr>ex_stats := taskCompleted 1 (ex_stats s)\<rparr> = s'" by simp
      have "ex_build_stamps s' = ex_build_stamps (forgotten s t)" using a by (simp add: step_frame_def)
      then show "xinv stop env prio es0 s' \<and> checked env s' \<and> set (dkeys (ex_build_stamps s')) = set (dkeys (ex_build_stamps s)) - {t}"
        using a k unfolding eq by simp
    qed simp
    then show ?thesis using True forget_stamp_eq [OF st sp t]
      by (simp add: runqueue_process_waitpid_def task_complete_def upd_stats_def mdo_def fs valid_def [of "forget_stamp t"])
  next
    case False
    show ?thesis using False forget_stamp_eq [OF st sp t] report_fail [OF x t refl, of status] k c
      by (simp add: runqueue_process_waitpid_def task_fail_def upd_stats_def mdo_def set_state_def fs valid_def [of "forget_stamp t"] checked_def
          split: sum.split)
  qed
qed

lemma xcore_finish_now: "xcore env prio es0 (s\<lparr>ex_actions := ex_actions s @ [FinishNow], ex_state := q\<rparr>) = xcore env prio es0 s"
proof -
  have "s\<lparr>ex_actions := ex_actions s @ [FinishNow], ex_state := q\<rparr> = s\<lparr>ex_actions := ex_actions s @ [FinishNow]\<rparr>\<lparr>ex_state := q\<rparr>" by simp
  then show ?thesis by (simp only: xcore_frame) (rule xcore_action, simp_all)
qed

lemma finish_now_eq:
  "finish_now s = (Inr (), s\<lparr>ex_actions := ex_actions s @ [FinishNow],
     ex_state := (if ex_failed s \<noteq> [] then RqFailed else RqComplete)\<rparr>)"
  by (simp add: finish_now_def mdo_def set_state_def mbind_def mget_def mmod_def)

lemma finish_now_inv:
  assumes "xinv stop env prio es0 s"
  shows "valid finish_now s (\<lambda>_ s'. xinv stop env prio es0 s' \<and> (checked env s \<longrightarrow> checked env s') \<and>
    ex_build_stamps s' = ex_build_stamps s) E"
  using assms by (simp add: valid_def finish_now_eq xinv_def xcore_finish_now state_inv_defs checked_def)

text \<open>The workers report only what they were given, once.\<close>

definition ended_tasks :: "report list \<Rightarrow> string list" where
  "ended_tasks rs = concat (map (\<lambda>r. case r of WorkerDied \<Rightarrow> [] | TaskEnded t _ \<Rightarrow> [t]) rs)"

lemma ended_tasks_simps [simp]:
  "ended_tasks [] = []" "ended_tasks (xs @ ys) = ended_tasks xs @ ended_tasks ys"
  "ended_tasks (WorkerDied # rs) = ended_tasks rs" "ended_tasks (TaskEnded t i # rs) = t # ended_tasks rs"
  by (simp_all add: ended_tasks_def)

definition pipe_ok :: "pipes \<Rightarrow> bool" where
  "pipe_ok pipe \<longleftrightarrow> (\<forall>s. distinct (ended_tasks (pipe s)) \<and> set (ended_tasks (pipe s)) \<subseteq> set (dkeys (ex_build_stamps s)))"

lemma read_workers_inv:
  assumes x: "xinv stop env prio es0 s" and wf: "rt_wf es0" and p: "pipe_ok pipe"
  shows "valid (read_workers env pipe) s (\<lambda>_ s'. xinv stop env prio es0 s' \<and> (checked env s \<longrightarrow> checked env s')) (\<lambda>_ _. True)"
proof -
  have d: "distinct (ended_tasks (pipe s))" "set (ended_tasks (pipe s)) \<subseteq> set (dkeys (ex_build_stamps s))"
    using p unfolding pipe_ok_def by blast+
  let ?I = "\<lambda>pre s'. xinv stop env prio es0 s' \<and> (checked env s \<longrightarrow> checked env s') \<and>
     set (dkeys (ex_build_stamps s')) = set (dkeys (ex_build_stamps s)) - set (ended_tasks pre)"
  have "valid (mfor (pipe s) (take_report env)) s (\<lambda>_. ?I (pipe s)) (\<lambda>_ _. True)"
  proof (rule valid_mfor)
    show "?I [] s" using x by simp
    fix pre m post s' assume e: "pipe s = pre @ m # post" and i: "?I pre s'"
    show "valid (take_report env m) s' (\<lambda>_. ?I (pre @ [m])) (\<lambda>_ _. True)"
    proof (cases m)
      case WorkerDied
      have "valid finish_now s' (\<lambda>_. ?I (pre @ [m])) (\<lambda>_ _. True)"
        by (rule valid_conseq [OF finish_now_inv [of stop env prio es0 s']]) (use i WorkerDied in auto)
      then show ?thesis by (simp add: take_report_def WorkerDied)
    next
      case (TaskEnded t status)
      have "t \<in> set (dkeys (ex_build_stamps s'))" using d e TaskEnded i by auto
      from waitpid_inv [OF _ wf this, of stop env prio status] i
      show ?thesis by (auto simp: take_report_def TaskEnded elim!: valid_conseq)
    qed
  qed
  then show ?thesis by (simp add: read_workers_def) (erule valid_conseq, simp_all)
qed

section \<open>Choosing a task\<close>

definition sched_prio :: "execenv \<Rightarrow> runtasks \<Rightarrow> string list \<Rightarrow> bool" where
  "sched_prio env es0 prio \<longleftrightarrow> xe_kind env = Speed \<and> prio = speed_tids es0 \<or>
     xe_kind env = Completion \<and> prio = completion_tids (speed_tids es0)"

definition picked :: "execenv \<Rightarrow> exst \<Rightarrow> string \<Rightarrow> bool" where
  "picked env s t \<longleftrightarrow> t \<in> set (ex_buildable s) \<and> t \<notin> set (ex_running s) \<and> st_active (ex_stats s) < xe_number_tasks env \<and>
     (\<exists>st. dget (sc_stamps (ex_sched s)) t = Some st \<and> st \<notin> snd ` set (ex_build_stamps s))"

text \<open>Every task that waits to start has the stamp of a task that is being built.\<close>

definition stalled :: "exst \<Rightarrow> bool" where
  "stalled s \<longleftrightarrow> (\<forall>t \<in> set (ex_buildable s). t \<notin> set (ex_running s) \<longrightarrow>
     (\<exists>st. dget (sc_stamps (ex_sched s)) t = Some st \<and> st \<in> snd ` set (ex_build_stamps s)))"

lemma sched_wf_keys: "dkeys es = dkeys es0 \<Longrightarrow> sched_wf prio es s \<longleftrightarrow> sched_wf prio es0 s"
  unfolding sched_wf_def by simp

lemma next_task_inv:
  assumes x: "xinv stop env prio es0 s" and wf: "rt_wf es0" and k: "sched_prio env es0 prio"
  shows "valid (next_task env) s (\<lambda>r s'. xinv stop env prio es0 s' \<and> (\<exists>sc. s' = s\<lparr>ex_sched := sc\<rparr>) \<and>
     (case r of None \<Rightarrow> st_active (ex_stats s) < xe_number_tasks env \<longrightarrow> stalled s' | Some t \<Rightarrow> picked env s' t)) (\<lambda>_ _. True)"
proof -
  note i = x [unfolded xinv_def xcore_def]
  let ?es = "ex_entries s" and ?bs = "map snd (ex_build_stamps s)" and ?sc = "ex_sched s" and ?n = "xe_number_tasks env"
  let ?a = "st_active (ex_stats s)"
  have tb: "table_inv es0 (set (ex_running s)) ?es" and sci: "sched_inv prio es0 s" using i by blast+
  have bk: "set (ex_buildable s) \<subseteq> set (dkeys es0)" using i unfolding sets_inv_def by blast
  have w0: "dwf es0" using wf unfolding rt_wf_def by blast
  note tf = table_inv_facts(1) [OF tb]
  have w: "dwf ?es" using w0 tf by simp
  have kp: "xe_kind env = Speed \<and> prio = speed_tids ?es \<or> xe_kind env = Completion \<and> prio = completion_tids (speed_tids ?es)"
    using k speed_tids_same [OF tb w0] unfolding sched_prio_def by simp
  have sw: "sched_wf prio ?es ?sc" using sci sched_wf_keys [OF tf] unfolding sched_inv_def by simp
  from sched_choice [OF w kp sw, of ?a ?n "ex_running s" ?bs] obtain r sc where
    n: "sched_next ?a ?n (ex_running s) ?bs ?es ?sc = Inr (r, sc)" and sw': "sched_wf prio ?es sc" and
    ch0: "if ?a < ?n then (case r of None \<Rightarrow> startable (ex_running s) ?bs ?sc = {} | Some b \<Rightarrow> b \<in> startable (ex_running s) ?bs ?sc \<and>
      (\<forall>t \<in> startable (ex_running s) ?bs ?sc. the (index_of b prio) \<le> the (index_of t prio))) else r = None" by blast
  have ch: "if ?a < ?n then (case r of None \<Rightarrow> startable (ex_running s) ?bs ?sc = {} | Some b \<Rightarrow> b \<in> startable (ex_running s) ?bs ?sc) else r = None"
    using ch0 by (cases r) (auto split: if_splits)
  note f = sched_next_frame [OF n]
  let ?s = "s\<lparr>ex_sched := sc\<rparr>"
  have "sched_inv prio es0 ?s"
    using sci sw' sched_wf_keys [OF tf, of prio sc] f(3,4) unfolding sched_inv_def by auto
  then have "xinv stop env prio es0 ?s"
  proof -
    have "stats_inv env es0 ?s = stats_inv env es0 s" by (simp add: stats_inv_def)
    moreover have "stamps_inv env es0 ?s = stamps_inv env es0 s" by (simp add: stamps_inv_def f(2))
    moreover have "log_inv es0 ?s = log_inv es0 s" by (simp add: log_inv_def)
    moreover have "state_inv stop es0 ?s = state_inv stop es0 s" by (simp add: state_inv_defs)
    moreover assume "sched_inv prio es0 ?s"
    ultimately show ?thesis using i unfolding xinv_def xcore_def by simp
  qed
  moreover have "case r of None \<Rightarrow> ?a < ?n \<longrightarrow> stalled ?s | Some t \<Rightarrow> picked env ?s t"
  proof (cases r)
    case None
    have "\<exists>st. dget (sc_stamps sc) t = Some st \<and> st \<in> snd ` set (ex_build_stamps s)"
      if "?a < ?n" and t: "t \<in> set (ex_buildable s)" "t \<notin> set (ex_running s)" for t
    proof -
      have "t \<in> set (sc_buildable ?sc)" using sci t unfolding sched_inv_def by blast
      moreover obtain st where "dget (sc_stamps ?sc) t = Some st"
        using sci bk t(1) unfolding sched_inv_def sched_wf_def by blast
      moreover have "startable (ex_running s) ?bs ?sc = {}" using ch None that by simp
      ultimately show ?thesis using t(2) f(2) unfolding startable_def by auto
    qed
    then show ?thesis using None by (simp add: stalled_def)
  next
    case (Some t)
    then have "?a < ?n" "t \<in> startable (ex_running s) ?bs ?sc" using ch by (auto split: if_splits)
    then show ?thesis using Some sci f(2) unfolding picked_def startable_def sched_inv_def by auto
  qed
  ultimately show ?thesis using n by (simp add: next_task_def) blast
qed

text \<open>When nothing is being built, nothing failed and no task can start, every task is complete.\<close>

lemma all_complete:
  assumes x: "xinv stop env prio es0 s" and wf: "rt_wf es0" and ac: "acyclic (dep_rel es0)"
    and e: "ex_build_stamps s = []" "ex_failed s = []" "stalled s"
  shows "set (ex_complete s) = set (dkeys es0)"
proof -
  have sets: "sets_inv es0 (set (ex_buildable s)) (set (ex_running s)) (set (ex_complete s)) (set (ex_failed s)) (set (dkeys (ex_build_stamps s)))"
    using x unfolding xinv_def xcore_def by blast
  have b: "set (ex_buildable s) \<subseteq> set (ex_complete s)"
    using sets e unfolding sets_inv_def stalled_def by auto
  have "wf (dep_rel es0)" by (rule finite_acyclic_wf [OF finite_dep_rel [OF wf] ac])
  then have "t \<in> set (dkeys es0) \<longrightarrow> t \<in> set (ex_complete s)" for t
  proof (induction t)
    case (less t)
    show ?case
    proof
      assume t: "t \<in> set (dkeys es0)"
      have "u \<in> set (ex_complete s)" if "u \<in> set (deps_of es0 t)" for u
        using less [of u] that rt_wf_deps [OF wf that] by (simp add: dep_rel_def)
      then have "t \<in> set (ex_buildable s)" using sets t unfolding sets_inv_def by blast
      then show "t \<in> set (ex_complete s)" using b by blast
    qed
  qed
  then show ?thesis using sets unfolding sets_inv_def by blast
qed

lemma sets_of: "xinv stop env prio es0 s \<Longrightarrow>
  sets_inv es0 (set (ex_buildable s)) (set (ex_running s)) (set (ex_complete s)) (set (ex_failed s)) (set (dkeys (ex_build_stamps s)))"
  unfolding xinv_def xcore_def by blast

lemma stats_of: "xinv stop env prio es0 s \<Longrightarrow> stats_inv env es0 s"
  unfolding xinv_def xcore_def by blast

section \<open>The check against the setscene whitelist\<close>

lemma stamp_current_frame:
  "valid (stamp_current env mt t tn) s (\<lambda>_ s'. \<exists>c. s' = s\<lparr>ex_stampcache := c\<rparr>) (\<lambda>_ _. True)"
  by (simp add: stamp_current_def split: sum.split) blast

lemma check_norun_frame:
  "valid (check_norun_task env mt allowed t) s (\<lambda>_ s'. \<exists>c. s' = s\<lparr>ex_stampcache := c\<rparr>) (\<lambda>_ _. True)"
proof -
  have r: "\<exists>c. s = s\<lparr>ex_stampcache := c\<rparr>" by (intro exI [of _ "ex_stampcache s"]) simp
  show ?thesis unfolding check_norun_task_def valid_mbind valid_mlift valid_mget
    by (auto simp: r valid_mbind split: sum.split intro!: valid_conseq [OF stamp_current_frame])
qed

lemma xinv_stampcache [simp]: "xinv stop env prio es0 (s\<lparr>ex_stampcache := c\<rparr>) = xinv stop env prio es0 s"
  by (simp add: xinv_def state_inv_defs)

text \<open>With nothing being built and nothing failed, the loop over the tasks leaves every task complete.\<close>

lemma skip_all_inv:
  assumes "xinv stop env prio es0 s" "checked env s" "ex_build_stamps s = []" "ex_failed s = []"
    and wf: "rt_wf es0" and k: "sched_prio env es0 prio" and ac: "acyclic (dep_rel es0)"
  shows "valid (skip_all fuel env mt allowed) s
    (\<lambda>_ s'. xinv stop env prio es0 s' \<and> set (ex_complete s') = set (dkeys es0) \<and> checked env s') (\<lambda>_ _. True)"
  using assms(1-4)
proof (induction fuel arbitrary: s)
  case (Suc fuel)
  have act: "st_active (ex_stats s) < xe_number_tasks env"
    using stats_of [OF Suc.prems(1)] Suc.prems(3) unfolding stats_inv_def by simp
  show ?case unfolding skip_all.simps
  proof (rule valid_bindI [OF next_task_inv [OF Suc.prems(1) wf k]])
    fix r s1 assume a: "xinv stop env prio es0 s1 \<and> (\<exists>sc. s1 = s\<lparr>ex_sched := sc\<rparr>) \<and>
      (case r of None \<Rightarrow> st_active (ex_stats s) < xe_number_tasks env \<longrightarrow> stalled s1 | Some t \<Rightarrow> picked env s1 t)"
    then obtain sc where s1: "s1 = s\<lparr>ex_sched := sc\<rparr>" and x1: "xinv stop env prio es0 s1" by blast
    have f1: "ex_build_stamps s1 = []" "ex_failed s1 = []" "checked env s1"
      using Suc.prems by (simp_all add: s1 checked_def)
    show "valid (case r of None \<Rightarrow> mret ()
      | Some task \<Rightarrow> mseq (check_norun_task env mt allowed task)
          (mseq (task_skip task ''Setscene enforcement check'') (skip_all fuel env mt allowed))) s1
      (\<lambda>_ s'. xinv stop env prio es0 s' \<and> set (ex_complete s') = set (dkeys es0) \<and> checked env s') (\<lambda>_ _. True)"
    proof (cases r)
      case None
      then have "stalled s1" using a act by simp
      then show ?thesis using None all_complete [OF x1 wf ac f1(1,2)] x1 f1(3) by simp
    next
      case (Some t)
      have p: "picked env s1 t" using a Some by simp
      have "valid (mseq (check_norun_task env mt allowed t)
          (mseq (task_skip t ''Setscene enforcement check'') (skip_all fuel env mt allowed))) s1
        (\<lambda>_ s'. xinv stop env prio es0 s' \<and> set (ex_complete s') = set (dkeys es0) \<and> checked env s') (\<lambda>_ _. True)"
      proof (rule valid_bindI [OF check_norun_frame])
        fix b s2 assume "\<exists>c. s2 = s1\<lparr>ex_stampcache := c\<rparr>"
        then obtain c where s2: "s2 = s1\<lparr>ex_stampcache := c\<rparr>" by blast
        have x2: "xinv stop env prio es0 s2" and c2: "checked env s2" and t2: "t \<in> set (ex_buildable s2)" "t \<notin> set (ex_running s2)"
          using x1 f1(3) p by (simp_all add: s2 checked_def picked_def)
        show "valid (mseq (task_skip t ''Setscene enforcement check'') (skip_all fuel env mt allowed)) s2
          (\<lambda>_ s'. xinv stop env prio es0 s' \<and> set (ex_complete s') = set (dkeys es0) \<and> checked env s') (\<lambda>_ _. True)"
          by (rule valid_bindI [OF task_skip_inv [OF x2 wf c2 t2]])
            (rule Suc.IH, use f1 in \<open>auto simp: step_frame_def s2\<close>)
      qed
      then show ?thesis using Some by simp
    qed
  qed
qed simp

lemma enforce_whitelist_inv:
  assumes x: "xinv stop env prio es0 s" and wf: "rt_wf es0" and k: "sched_prio env es0 prio" and ac: "acyclic (dep_rel es0)"
  shows "valid (enforce_whitelist env mt) s (\<lambda>_ s'. xinv stop env prio es0 s' \<and> checked env s') (\<lambda>_ _. True)"
proof (cases "checked env s")
  case True
  then show ?thesis using x by (auto simp: enforce_whitelist_def checked_def split: option.split)
next
  case False
  then obtain allowed where al: "xe_whitelisted env = Some allowed" and un: "\<not> ex_whitelist_checked s"
    by (auto simp: checked_def)
  have r0: "ex_running s = []" using x al un unfolding xinv_def by auto
  let ?s1 = "s\<lparr>ex_whitelist_checked := True\<rparr>"
  have x1: "xinv stop env prio es0 ?s1" using x unfolding xinv_def by (simp add: state_inv_defs)
  have z: "ex_build_stamps s = []" "ex_failed s = []"
    using sets_of [OF x] r0 unfolding sets_inv_def by auto
  have pre: "xinv stop env prio es0 s' \<and> checked env s' \<and> ex_build_stamps s' = [] \<and> ex_failed s' = []"
    if "\<exists>c. s' = ?s1\<lparr>ex_stampcache := c\<rparr>" for s'
    using that x1 z by (auto simp: checked_def)
  let ?P = "\<lambda>s'. \<exists>c. s' = ?s1\<lparr>ex_stampcache := c\<rparr>"
  have P0: "?P ?s1" by (intro exI [of _ "ex_stampcache s"]) simp
  have loop: "valid (mfor_until (dkeys (ex_entries s)) (check_norun_task env mt allowed)) ?s1
      (\<lambda>b s'. if b then ?P s' else ?P s') (\<lambda>_ _. True)"
  proof (rule valid_mfor_until [where I = "\<lambda>_. ?P" and J = ?P])
    show "?P ?s1" by (rule P0)
    fix pre' t post s' assume "?P s'"
    then show "valid (check_norun_task env mt allowed t) s' (\<lambda>b t'. if b then ?P t' else ?P t') (\<lambda>_ _. True)"
      by (auto intro!: valid_conseq [OF check_norun_frame])
  qed
  have "valid (mbind (mfor_until (dkeys (ex_entries s)) (check_norun_task env mt allowed)) (\<lambda>unexpected.
      if unexpected
      then mseq (skip_all (Suc (length (dkeys (ex_entries s)))) env mt allowed) (mseq (set_state RqCleanUp) (mret True))
      else mret False)) ?s1 (\<lambda>_ s'. xinv stop env prio es0 s' \<and> checked env s') (\<lambda>_ _. True)"
  proof (rule valid_bindI [OF loop])
    fix b s2 assume "if b then ?P s2 else ?P s2"
    then have p: "?P s2" by (cases b) simp_all
    note q = pre [OF p]
    show "valid (if b
      then mseq (skip_all (Suc (length (dkeys (ex_entries s)))) env mt allowed) (mseq (set_state RqCleanUp) (mret True))
      else mret False) s2 (\<lambda>_ s'. xinv stop env prio es0 s' \<and> checked env s') (\<lambda>_ _. True)"
    proof (cases b)
      case True
      have "valid (skip_all (Suc (length (dkeys (ex_entries s)))) env mt allowed) s2
        (\<lambda>_ s'. xinv stop env prio es0 s' \<and> set (ex_complete s') = set (dkeys es0) \<and> checked env s') (\<lambda>_ _. True)"
        by (rule skip_all_inv) (use q wf k ac in auto)
      moreover have "xinv stop env prio es0 (s'\<lparr>ex_state := RqCleanUp\<rparr>)" if "xinv stop env prio es0 s' \<and> set (ex_complete s') = set (dkeys es0)" for s'
        using that unfolding xinv_def by (simp add: state_inv_defs)
      ultimately show ?thesis using True q by (auto simp: set_state_def checked_def elim!: valid_conseq)
    next
      case False
      then show ?thesis using q by simp
    qed
  qed
  then show ?thesis using al un by (simp add: enforce_whitelist_def cong: if_cong)
qed

section \<open>Starting a task\<close>

lemma build_taskdepdata_frame:
  "valid (build_taskdepdata env t) s
     (\<lambda>_ s'. \<exists>e. dget (ex_entries s) t = Some e \<and> s' = s\<lparr>ex_entries := dset t (e\<lparr>rt_depends := sadd t (rt_depends e)\<rparr>) (ex_entries s)\<rparr>)
     (\<lambda>_ _. True)"
  by (auto simp: build_taskdepdata_def mitem_of_def ditem_def Let_def split: option.split sum.split)

text \<open>After a worker could not be started the run ends; this much still holds.\<close>

definition xend :: "execenv \<Rightarrow> runtasks \<Rightarrow> exst \<Rightarrow> bool" where
  "xend env es0 s \<longleftrightarrow> distinct (begun (ex_actions s)) \<and> distinct (sent (ex_actions s)) \<and>
     set (sent (ex_actions s)) \<subseteq> set (begun (ex_actions s)) \<and> in_order es0 (ex_actions s) \<and>
     set (dkeys (ex_build_stamps s)) = set (sent (ex_actions s)) - set (ended (ex_actions s)) \<and>
     dwf (ex_build_stamps s) \<and> int (length (ex_build_stamps s)) \<le> xe_number_tasks env \<and>
     set (sent (ex_actions s)) \<subseteq> set (dkeys es0) \<and>
     (\<forall>t \<in> set (dkeys es0). \<exists>st. task_stamp env t = Inr st \<and> dget (sc_stamps (ex_sched s)) t = Some st) \<and>
     distinct (map snd (ex_build_stamps s)) \<and>
     (\<forall>t st. dget (ex_build_stamps s) t = Some st \<longrightarrow> dget (sc_stamps (ex_sched s)) t = Some st)"

lemma xcore_xend: "xcore env prio es0 s \<Longrightarrow> xend env es0 s"
proof -
  assume x: "xcore env prio es0 s"
  have l: "log_inv es0 s" and st: "stats_inv env es0 s" and sp: "stamps_inv env es0 s" using x unfolding xcore_def by blast+
  have "distinct (map snd (ex_build_stamps s))"
    using sp unfolding stamps_inv_def by (metis mset_eq_imp_distinct_iff)
  moreover have "int (length (ex_build_stamps s)) \<le> xe_number_tasks env" using st unfolding stats_inv_def by argo
  moreover have "dwf (ex_build_stamps s)" using st unfolding stats_inv_def by blast
  moreover have "set (sent (ex_actions s)) \<subseteq> set (dkeys es0)"
    using l x unfolding log_inv_def xcore_def sets_inv_def by blast
  moreover have "set (sent (ex_actions s)) \<subseteq> set (begun (ex_actions s))" "distinct (begun (ex_actions s))"
    "distinct (sent (ex_actions s))" "in_order es0 (ex_actions s)"
    "set (dkeys (ex_build_stamps s)) = set (sent (ex_actions s)) - set (ended (ex_actions s))"
    using l unfolding log_inv_def by blast+
  ultimately show ?thesis using sp unfolding xend_def stamps_inv_def by blast
qed

lemma dset_fresh: "k \<notin> set (dkeys d) \<Longrightarrow> dset k v d = d @ [(k, v)]"
  by (induction d) auto

lemma picked_facts:
  assumes "xinv stop env prio es0 s" "picked env s t"
  shows "t \<in> set (ex_buildable s)" "t \<notin> set (ex_running s)" "t \<notin> set (dkeys (ex_build_stamps s))" "t \<notin> set (ex_complete s)"
    "t \<notin> set (ex_failed s)" "t \<in> set (dkeys es0)" "set (deps_of es0 t) \<subseteq> set (ex_complete s)"
    "st_active (ex_stats s) < xe_number_tasks env"
proof -
  note i = sets_of [OF assms(1), unfolded sets_inv_def]
  show b: "t \<in> set (ex_buildable s)" and r: "t \<notin> set (ex_running s)" and "st_active (ex_stats s) < xe_number_tasks env"
    using assms(2) by (simp_all add: picked_def)
  show "t \<notin> set (dkeys (ex_build_stamps s))" "t \<notin> set (ex_complete s)" "t \<notin> set (ex_failed s)" using i r by blast+
  show k: "t \<in> set (dkeys es0)" using i b by blast
  show "set (deps_of es0 t) \<subseteq> set (ex_complete s)" using i b k by blast
qed

lemma start_inv:
  assumes x: "xinv stop env prio es0 s" and wf: "rt_wf es0" and p: "picked env s t" and c: "checked env s"
    and tid: "split_tid_mcfn t = Inr (mc, fn, tn, tf)"
    and st: "sched_stamp env mc tn tf = Inr stamp"
    and e: "dget (ex_entries s) t = Some e"
    and s': "ex_entries s' = dset t (e\<lparr>rt_depends := sadd t (rt_depends e)\<rparr>) (ex_entries s)"
      "ex_build_stamps s' = dset t stamp (ex_build_stamps s)" "ex_build_stamps2 s' = ex_build_stamps2 s @ [stamp]"
      "ex_running s' = sadd t (ex_running s)" "ex_stats s' = taskActive (ex_stats s)"
      "ex_buildable s' = ex_buildable s" "ex_complete s' = ex_complete s" "ex_failed s' = ex_failed s" "ex_sched s' = ex_sched s"
      "ex_state s' = ex_state s" "ex_whitelist_checked s' = ex_whitelist_checked s"
      "ex_actions s' = ex_actions s @ EvStarted t False # as @ [RunTask tf t fr tdd]"
      "begun as = []" "sent as = []" "succeeded as = []" "ended as = []" "in_order es0 (ex_actions s @ EvStarted t False # as)"
  shows "xinv stop env prio es0 s' \<and> checked env s'"
proof -
  note i = x [unfolded xinv_def xcore_def]
  note pf = picked_facts [OF x p]
  have tb0: "table_inv es0 (set (ex_running s)) (ex_entries s)" using i by blast
  have "dwf (ex_entries s)" using wf table_inv_facts(1) [OF tb0] unfolding rt_wf_def by simp
  from table_inv_self [OF tb0 e this] have tb: "table_inv es0 (set (ex_running s')) (ex_entries s')" unfolding s' by simp
  have fresh: "ex_build_stamps s' = ex_build_stamps s @ [(t, stamp)]" unfolding s' by (rule dset_fresh [OF pf(3)])
  have sp: "stamps_inv env es0 s" using i by blast
  have stt: "dget (sc_stamps (ex_sched s)) t = Some stamp" using sp pf(6) tid st unfolding stamps_inv_def by (force simp: task_stamp_def)
  then have "stamp \<notin> snd ` set (ex_build_stamps s)" using p by (simp add: picked_def)
  then have nb: "stamp \<notin> set (ex_build_stamps2 s)"
    using sp unfolding stamps_inv_def by (metis set_map set_mset_mset)
  have se: "sets_inv es0 (set (ex_buildable s')) (set (ex_running s')) (set (ex_complete s')) (set (ex_failed s')) (set (dkeys (ex_build_stamps s')))"
    using sets_start [OF sets_of [OF x] pf(1,2)] by (simp add: s'(4,6-8) fresh)
  have st': "stats_inv env es0 s'"
    using stats_of [OF x] pf(3,8) unfolding stats_inv_def fresh s'(5,7,8) by (simp add: stats_defs)
  have sp': "stamps_inv env es0 s'"
    using sp nb stt pf(3) unfolding stamps_inv_def s'(3,9) fresh by (auto simp: map_of_append map_add_def split: option.splits)
  have sc: "sched_inv prio es0 s'" using i unfolding sched_inv_def s'(4,6,9) by auto
  have l: "log_inv es0 s" using i by blast
  note b = log_inv_begin [OF l sets_of [OF x] pf(2)]
  have act: "begun (ex_actions s') = begun (ex_actions s) @ [t]" "sent (ex_actions s') = sent (ex_actions s) @ [t]"
    "succeeded (ex_actions s') = succeeded (ex_actions s)" "ended (ex_actions s') = ended (ex_actions s)"
    using s'(13-16) unfolding s'(12) by (simp_all add: log_defs)
  have "in_order es0 ((ex_actions s @ EvStarted t False # as) @ [RunTask tf t fr tdd])"
    unfolding in_order_snoc using s'(13-17) pf(7) l by (simp add: log_inv_def log_defs)
  then have "in_order es0 (ex_actions s')" by (simp add: s'(12))
  moreover have "set (dkeys (ex_build_stamps s')) = insert t (set (dkeys (ex_build_stamps s)))" by (simp add: fresh)
  ultimately have lg: "log_inv es0 s'"
    using l b unfolding log_inv_def act s'(4,7,8) by simp blast
  have si: "state_inv stop es0 s'" using i by (auto simp: state_inv_defs s'(7,8,10,12) simp del: list.set_map)
  show ?thesis using tb se st' sp' sc lg si c s'(11) unfolding xinv_def xcore_def checked_def by blast
qed

definition run_post :: "bool \<Rightarrow> execenv \<Rightarrow> string list \<Rightarrow> runtasks \<Rightarrow> retval option \<Rightarrow> exst \<Rightarrow> bool" where
  "run_post stop env prio es0 r s' \<longleftrightarrow>
     xinv stop env prio es0 s' \<and> checked env s' \<and> (r = None \<longrightarrow> st_active (ex_stats s') \<ge> xe_number_tasks env) \<or>
     r = Some RTrue \<and> ex_state s' = RqFailed \<and> xend env es0 s'"

lemma start_task_inv:
  assumes x: "xinv stop env prio es0 s" and wf: "rt_wf es0" and p: "picked env s t" and c: "checked env s"
    and tid: "split_tid_mcfn t = Inr (mc, fn, tn, tf)" and dc: "ditem (se_caches env) mc = Inr dc"
  shows "valid (start_task env spawn t dc (mc, fn, tn, tf)) (s\<lparr>ex_actions := ex_actions s @ [EvStarted t False]\<rparr>)
    (run_post stop env prio es0) (\<lambda>_ _. True)"
proof -
  let ?s0 = "s\<lparr>ex_actions := ex_actions s @ [EvStarted t False]\<rparr>"
  note pf = picked_facts [OF x p]
  have l: "log_inv es0 s" using x unfolding xinv_def xcore_def by blast
  note b = log_inv_begin [OF l sets_of [OF x] pf(2)]
  have ord: "in_order es0 (ex_actions s @ [EvStarted t False])"
    using l pf(7) unfolding in_order_snoc log_inv_def by simp
  have ord2: "in_order es0 (ex_actions s @ [EvStarted t False, StartFakeworker mc])"
    using ord in_order_snoc [of es0 "ex_actions s @ [EvStarted t False]" "StartFakeworker mc"] by simp
  have xe: "xend env es0 s" using xcore_xend x unfolding xinv_def by blast
  let ?rest = "\<lambda>tdd. mbind (mlift (ditem (dc_task_deps dc) tf)) (\<lambda>td.
     let fakeroot = (flag_value td ''fakeroot'' tn \<noteq> None \<and> \<not> xe_dry_run env) in
     mbind (mget (\<lambda>s. fakeroot \<and> mc \<notin> set (ex_fakeworkers s))) (\<lambda>need.
     if need \<and> \<not> spawn
     then mseq (set_state RqFailed) (mseq (upd_stats taskFailed) (mret (Some RTrue)))
     else
       mseq (mwhen need (mseq (mdo (StartFakeworker mc)) (mmod (\<lambda>s. s\<lparr>ex_fakeworkers := ex_fakeworkers s @ [mc]\<rparr>))))
       (mseq (mdo (RunTask tf t fakeroot tdd))
       (mbind (mlift (stampfile (se_scheme env) tn dc tf True)) (\<lambda>stamp.
        mseq (mmod (\<lambda>s. s\<lparr>ex_build_stamps := dset t stamp (ex_build_stamps s),
                          ex_build_stamps2 := ex_build_stamps2 s @ [stamp],
                          ex_running := sadd t (ex_running s)\<rparr>))
        (mseq (upd_stats taskActive)
        (mbind (mget (\<lambda>s. st_active (ex_stats s) < xe_number_tasks env)) (\<lambda>more.
          mret (if more then Some RTrue else None)))))))))"
  have "valid (?rest tdd) s1 (run_post stop env prio es0) (\<lambda>_ _. True)"
    if s1: "\<exists>e. dget (ex_entries ?s0) t = Some e \<and>
      s1 = ?s0\<lparr>ex_entries := dset t (e\<lparr>rt_depends := sadd t (rt_depends e)\<rparr>) (ex_entries ?s0)\<rparr>" for tdd s1
  proof -
    from s1 obtain e where e: "dget (ex_entries s) t = Some e"
      and s1: "s1 = ?s0\<lparr>ex_entries := dset t (e\<lparr>rt_depends := sadd t (rt_depends e)\<rparr>) (ex_entries s)\<rparr>" by auto
    show ?thesis
    proof (cases "ditem (dc_task_deps dc) tf")
      case (Inr td)
      let ?fr = "flag_value td ''fakeroot'' tn \<noteq> None \<and> \<not> xe_dry_run env"
      let ?need = "?fr \<and> mc \<notin> set (ex_fakeworkers s)"
      have go: "run_post stop env prio es0 (if st_active (taskActive (ex_stats s)) < xe_number_tasks env then Some RTrue else None) s2"
        if st: "stampfile (se_scheme env) tn dc tf True = Inr stamp"
          and s2: "s2 = s1\<lparr>ex_fakeworkers := ms, ex_actions := ex_actions s @ EvStarted t False # as @ [RunTask tf t ?fr tdd],
            ex_build_stamps := dset t stamp (ex_build_stamps s),
            ex_build_stamps2 := ex_build_stamps2 s @ [stamp], ex_running := sadd t (ex_running s), ex_stats := taskActive (ex_stats s)\<rparr>"
          and as: "as = [] \<or> as = [StartFakeworker mc]" for stamp s2 as ms
      proof -
        have st': "sched_stamp env mc tn tf = Inr stamp" using st dc by (simp add: sched_stamp_def)
        have "xinv stop env prio es0 s2 \<and> checked env s2"
          by (rule start_inv [OF x wf p c tid st' e, of s2 as ?fr tdd])
            (use as ord ord2 in \<open>auto simp: s2 s1\<close>)
        moreover have "ex_stats s2 = taskActive (ex_stats s)" by (simp add: s2)
        ultimately show ?thesis by (simp add: run_post_def)
      qed
      show ?thesis
      proof (cases "?need \<and> \<not> spawn")
        case True
        have "xend env es0 (s1\<lparr>ex_state := RqFailed, ex_stats := taskFailed (ex_stats s)\<rparr>)"
          using xe ord b pf(2) unfolding xend_def by (auto simp: s1)
        then show ?thesis using Inr True
          by (simp add: Let_def set_state_def upd_stats_def run_post_def s1)
      next
        case False
        show ?thesis
        proof (cases "stampfile (se_scheme env) tn dc tf True")
          case st: (Inr stamp)
          show ?thesis
          proof (cases ?need)
            case True
            from go [OF st refl, of "[StartFakeworker mc]" "ex_fakeworkers s @ [mc]"] show ?thesis
              using Inr True False st by (simp add: Let_def upd_stats_def mdo_def s1 split: if_splits)
          next
            case nn: False
            from go [OF st refl, of "[]" "ex_fakeworkers s"] show ?thesis
              using Inr nn st by (cases ?fr) (auto simp add: Let_def upd_stats_def mdo_def s1 split: if_splits)
          qed
        qed (use Inr False in \<open>auto simp: Let_def mdo_def s1\<close>)
      qed
    qed simp
  qed
  then show ?thesis unfolding start_task_def prod.case
    by (intro valid_bindI [OF build_taskdepdata_frame]) blast
qed

lemma noexec_inv:
  assumes x: "xinv stop env prio es0 s" and wf: "rt_wf es0" and p: "picked env s t" and c: "checked env s"
    and s1: "ex_entries s1 = ex_entries s" "ex_running s1 = sadd t (ex_running s)" "ex_complete s1 = ex_complete s"
      "ex_failed s1 = ex_failed s" "ex_buildable s1 = ex_buildable s" "ex_sched s1 = ex_sched s"
      "ex_build_stamps s1 = ex_build_stamps s" "ex_build_stamps2 s1 = ex_build_stamps2 s"
      "ex_stats s1 = taskActive (ex_stats s)" "ex_state s1 = ex_state s" "ex_whitelist_checked s1 = ex_whitelist_checked s"
      "ex_actions s1 = ex_actions s @ EvStarted t True # as" "as = [] \<or> as = [MakeStamp t]"
  shows "valid (task_complete t) s1 (\<lambda>_ s'. xinv stop env prio es0 s' \<and> checked env s') (\<lambda>_ _. True)"
proof -
  note i = x [unfolded xinv_def xcore_def]
  note pf = picked_facts [OF x p]
  let ?X = "taskCompleted 1 (ex_stats s1)"
  let ?s2 = "s1\<lparr>ex_stats := ?X, ex_actions := ex_actions s1 @ [EvCompleted t]\<rparr>"
  have l: "log_inv es0 s" using i by blast
  note b = log_inv_begin [OF l sets_of [OF x] pf(2)]
  have "before_complete env prio es0 t ?s2"
    unfolding before_complete_def
  proof (intro conjI)
    show "table_inv es0 (set (ex_running ?s2)) (ex_entries ?s2)"
      using table_inv_mono [of es0 "set (ex_running s)" "ex_entries s" "insert t (set (ex_running s))"] i by (auto simp: s1)
    show "\<exists>S. sets_inv es0 (set (ex_buildable ?s2)) (set (ex_running ?s2)) (set (ex_complete ?s2)) (set (ex_failed ?s2)) S \<and>
        S - {t} = set (dkeys (ex_build_stamps ?s2))"
      using sets_start [OF sets_of [OF x] pf(1,2)] pf(3)
      by (intro exI [of _ "insert t (set (dkeys (ex_build_stamps s)))"]) (simp add: s1)
    show "stats_inv env es0 (?s2\<lparr>ex_complete := sadd t (ex_complete ?s2)\<rparr>)"
      using stats_of [OF x] pf(4) unfolding stats_inv_def by (simp add: s1 stats_defs)
    show "stamps_inv env es0 ?s2"
      using i unfolding stamps_inv_def by (simp add: s1)
    show "sched_inv prio es0 ?s2" using i unfolding sched_inv_def by (auto simp: s1)
    have "in_order es0 (ex_actions s @ [EvStarted t True])" using l pf(7) unfolding in_order_snoc log_inv_def by simp
    then have "in_order es0 (ex_actions s1)"
      using s1(12,13) in_order_snoc [of es0 "ex_actions s @ [EvStarted t True]" "MakeStamp t"] by auto
    moreover have "begun (ex_actions s1) = begun (ex_actions s) @ [t]" "sent (ex_actions s1) = sent (ex_actions s)"
      "succeeded (ex_actions s1) = succeeded (ex_actions s)" "ended (ex_actions s1) = ended (ex_actions s)"
      using s1(12,13) by (auto simp: log_defs)
    ultimately show "log_inv es0 (?s2\<lparr>ex_complete := sadd t (ex_complete ?s2)\<rparr>)"
      using l b unfolding log_inv_def by (simp add: s1(2-4,7) in_order_snoc) blast
  qed (use pf in \<open>simp_all add: s1\<close>)
  then have bc: "before_complete env prio es0 t (?s2\<lparr>ex_stats := ?X\<rparr>)"
  proof -
    have "?s2\<lparr>ex_stats := ?X\<rparr> = ?s2" by simp
    then show "before_complete env prio es0 t ?s2 \<Longrightarrow> ?thesis" by (simp only:)
  qed
  have "valid (task_completeoutright t) ?s2 (\<lambda>_ s'. xinv stop env prio es0 s' \<and> checked env s') (\<lambda>_ _. True)"
  proof (rule valid_conseq [OF task_completeoutright_inv [OF bc wf]])
    show "state_inv stop es0 ?s2" using i by (auto simp: state_inv_defs s1 simp del: list.set_map)
    show "checked env ?s2" using c by (simp add: checked_def s1)
    fix s' :: exst
    assume a: "xinv stop env prio es0 (s'\<lparr>ex_stats := ?X\<rparr>) \<and> checked env s' \<and> ex_stats s' = ex_stats ?s2 \<and> step_frame ?s2 s'"
    then have "s'\<lparr>ex_stats := ?X\<rparr> = s'" by simp
    with a show "xinv stop env prio es0 s' \<and> checked env s'" by (simp only:)
  qed simp
  then show ?thesis by (simp add: task_complete_def upd_stats_def mdo_def)
qed

lemma run_task_inv:
  assumes x: "xinv stop env prio es0 s" and wf: "rt_wf es0" and p: "picked env s t" and c: "checked env s"
  shows "valid (run_task env mt spawn t) s (run_post stop env prio es0) (\<lambda>_ _. True)"
proof (cases "split_tid_mcfn t")
  case (Inr q)
  obtain mc fn tn tf where q: "q = (mc, fn, tn, tf)" by (cases q)
  note tid = Inr [unfolded q]
  have skip: "valid (mseq (task_skip t why) (mret (Some RTrue))) s' (run_post stop env prio es0) (\<lambda>_ _. True)"
    if "xinv stop env prio es0 s'" "picked env s' t" "checked env s'" for s' why
    using task_skip_inv [OF that(1) wf that(3), of t why] that(2)
    by (auto simp: picked_def run_post_def elim!: valid_conseq)
  have rest: "valid (mbind (mlift (ditem (se_caches env) mc)) (\<lambda>dc.
            mbind (mlift (ditem (dc_task_deps dc) tf)) (\<lambda>td.
            if flag_value td ''noexec'' tn \<noteq> None
            then mseq (mdo (EvStarted t True))
                 (mseq (mmod (\<lambda>s. s\<lparr>ex_running := sadd t (ex_running s)\<rparr>))
                 (mseq (upd_stats taskActive)
                 (mseq (mwhen (\<not> xe_dry_run env) (mdo (MakeStamp t)))
                 (mseq (task_complete t) (mret (Some RTrue))))))
            else mseq (mdo (EvStarted t False)) (start_task env spawn t dc (mc, fn, tn, tf))))) s'
      (run_post stop env prio es0) (\<lambda>_ _. True)"
    if x': "xinv stop env prio es0 s'" and p': "picked env s' t" and c': "checked env s'" for s'
  proof (cases "ditem (se_caches env) mc")
    case dc: (Inr dc)
    have nx1: "valid (mseq (task_complete t) (mret (Some RTrue)))
        (s'\<lparr>ex_actions := ex_actions s' @ [EvStarted t True], ex_running := sadd t (ex_running s'),
             ex_stats := taskActive (ex_stats s')\<rparr>) (run_post stop env prio es0) (\<lambda>_ _. True)"
      unfolding valid_mbind
      by (rule valid_conseq [OF noexec_inv [OF x' wf p' c', of _ "[]"]]) (simp_all add: run_post_def)
    have nx2: "valid (mseq (task_complete t) (mret (Some RTrue)))
        (s'\<lparr>ex_running := sadd t (ex_running s'), ex_stats := taskActive (ex_stats s'),
             ex_actions := ex_actions s' @ [EvStarted t True, MakeStamp t]\<rparr>) (run_post stop env prio es0) (\<lambda>_ _. True)"
      unfolding valid_mbind
      by (rule valid_conseq [OF noexec_inv [OF x' wf p' c', of _ "[MakeStamp t]"]]) (simp_all add: run_post_def)
    from nx1 nx2 start_task_inv [OF x' wf p' c' tid dc, of spawn] dc show ?thesis
      by (cases "ditem (dc_task_deps dc) tf") (simp_all add: mdo_def upd_stats_def)
  qed simp
  show ?thesis
  proof (cases "t \<in> set (ex_covered s)")
    case True
    then show ?thesis using skip [OF x p c] by (simp add: run_task_def tid)
  next
    case False
    have "valid (mbind (stamp_current env mt t tn) (\<lambda>current.
       if current then mseq (task_skip t ''existing'') (mret (Some RTrue))
       else mbind (mlift (ditem (se_caches env) mc)) (\<lambda>dc.
            mbind (mlift (ditem (dc_task_deps dc) tf)) (\<lambda>td.
            if flag_value td ''noexec'' tn \<noteq> None
            then mseq (mdo (EvStarted t True))
                 (mseq (mmod (\<lambda>s. s\<lparr>ex_running := sadd t (ex_running s)\<rparr>))
                 (mseq (upd_stats taskActive)
                 (mseq (mwhen (\<not> xe_dry_run env) (mdo (MakeStamp t)))
                 (mseq (task_complete t) (mret (Some RTrue))))))
            else mseq (mdo (EvStarted t False)) (start_task env spawn t dc (mc, fn, tn, tf)))))) s
      (run_post stop env prio es0) (\<lambda>_ _. True)"
    proof (rule valid_bindI [OF stamp_current_frame])
      fix cur s' assume "\<exists>c. s' = s\<lparr>ex_stampcache := c\<rparr>"
      then have "xinv stop env prio es0 s'" "picked env s' t" "checked env s'"
        using x p c by (auto simp: picked_def checked_def)
      from skip [OF this, of "''existing''"] rest [OF this]
      show "valid (if cur then mseq (task_skip t ''existing'') (mret (Some RTrue))
       else mbind (mlift (ditem (se_caches env) mc)) (\<lambda>dc.
            mbind (mlift (ditem (dc_task_deps dc) tf)) (\<lambda>td.
            if flag_value td ''noexec'' tn \<noteq> None
            then mseq (mdo (EvStarted t True))
                 (mseq (mmod (\<lambda>s. s\<lparr>ex_running := sadd t (ex_running s)\<rparr>))
                 (mseq (upd_stats taskActive)
                 (mseq (mwhen (\<not> xe_dry_run env) (mdo (MakeStamp t)))
                 (mseq (task_complete t) (mret (Some RTrue))))))
            else mseq (mdo (EvStarted t False)) (start_task env spawn t dc (mc, fn, tn, tf))))) s'
        (run_post stop env prio es0) (\<lambda>_ _. True)" by (cases cur) (simp_all only: if_True if_False)
    qed
    then show ?thesis using False unfolding run_task_def valid_mbind valid_mlift tid sum.case valid_mget prod.case by simp
  qed
qed (simp add: run_task_def)

section \<open>One call of execute or finish\<close>

text \<open>
  What holds after a call: the run goes on (or was told to stop), is complete, or is over because a
  worker could not be started; then what is left only ends.
\<close>

definition xlost :: "bool \<Rightarrow> execenv \<Rightarrow> runtasks \<Rightarrow> exst \<Rightarrow> bool" where
  "xlost stop env es0 s \<longleftrightarrow> xend env es0 s \<and> ex_state s \<noteq> RqRunning \<and>
     (ex_state s = RqFailed \<or> ex_state s = RqCleanUp \<and> ex_failed s \<noteq> [] \<or> stopped stop s)"

definition xstate :: "bool \<Rightarrow> execenv \<Rightarrow> string list \<Rightarrow> runtasks \<Rightarrow> exst \<Rightarrow> bool" where
  "xstate stop env prio es0 s \<longleftrightarrow> xinv stop env prio es0 s \<or>
     ex_state s = RqComplete \<and> xcore env prio es0 s \<and> ex_failed s = [] \<and> set (ex_complete s) = set (dkeys es0) \<and>
       (xe_whitelisted env = None \<or> ex_whitelist_checked s \<or> ex_running s = []) \<or>
     xlost stop env es0 s"

lemma xend_state [simp]: "xend env es0 (s\<lparr>ex_state := q\<rparr>) = xend env es0 s"
  by (simp add: xend_def)

lemma xend_cong:
  assumes "ex_actions s' = ex_actions s" "ex_build_stamps s' = ex_build_stamps s" "sc_stamps (ex_sched s') = sc_stamps (ex_sched s)"
  shows "xend env es0 s' = xend env es0 s"
  by (simp add: xend_def assms del: list.set_map)

lemma xend_action:
  assumes "begun [a] = []" "sent [a] = []" "succeeded [a] = []" "ended [a] = []"
  shows "xend env es0 (s\<lparr>ex_actions := ex_actions s @ [a]\<rparr>) = xend env es0 s"
  by (simp add: xend_def in_order_snoc assms del: list.set_map)

lemma xinv_told: "xinv stop env prio es0 s \<Longrightarrow> stopped stop' s \<Longrightarrow> xinv stop' env prio es0 s"
  by (simp add: xinv_def state_inv_def)

text \<open>Being told to stop keeps what holds.\<close>

lemma xstate_told:
  assumes "xstate stop env prio es0 s"
  shows "xinv True env prio es0 s \<or> xlost True env es0 s"
  using assms unfolding xstate_def xinv_def xlost_def state_inv_def stopped_def by blast

lemma end_state:
  assumes "xinv stop env prio es0 s" "\<not> stopped stop s \<Longrightarrow> ex_failed s = [] \<Longrightarrow> set (ex_complete s) = set (dkeys es0)"
  shows "xstate stop env prio es0 (s\<lparr>ex_state := (if ex_failed s \<noteq> [] then RqFailed else RqComplete)\<rparr>)"
proof (cases "stopped stop s")
  case True
  then show ?thesis using assms(1) unfolding xstate_def xinv_def by (simp add: state_inv_defs)
next
  case False
  then show ?thesis using assms xcore_xend unfolding xstate_def xinv_def xlost_def by (auto simp del: list.set_map)
qed

lemma no_active: "xinv stop env prio es0 s \<Longrightarrow> \<not> st_active (ex_stats s) > 0 \<Longrightarrow> ex_build_stamps s = []"
  using stats_of [of stop env prio es0 s] unfolding stats_inv_def by simp

lemma execute_rest_inv:
  assumes x: "xinv stop env prio es0 s" and wf: "rt_wf es0" and ac: "acyclic (dep_rel es0)" and p: "pipe_ok pipe"
    and st: "st_active (ex_stats s) \<ge> xe_number_tasks env \<or> stalled s"
  shows "valid (execute_rest env pipe) s (\<lambda>_ s'. xstate stop env prio es0 s') (\<lambda>_ _. True)"
proof (cases "st_active (ex_stats s) > 0")
  case True
  then show ?thesis using read_workers_inv [OF x wf p]
    by (auto simp: execute_rest_def xstate_def elim!: valid_conseq)
next
  case False
  have "0 < xe_number_tasks env" using stats_of [OF x] unfolding stats_inv_def by blast
  then have "stalled s" using st False by auto
  then have "ex_failed s = [] \<Longrightarrow> set (ex_complete s) = set (dkeys es0)"
    using all_complete [OF x wf ac no_active [OF x False]] by blast
  from end_state [OF x this] show ?thesis using False by (simp add: execute_rest_def set_state_def)
qed

lemma execute_inv:
  assumes x: "xinv stop env prio es0 s" and wf: "rt_wf es0" and ac: "acyclic (dep_rel es0)" and k: "sched_prio env es0 prio"
    and p: "pipe_ok pipe1" "pipe_ok pipe2"
  shows "valid (execute env mt spawn pipe1 pipe2) s (\<lambda>_ s'. xstate stop env prio es0 s') (\<lambda>_ _. True)"
proof -
  have last: "valid (mbind (case r of None \<Rightarrow> mret None | Some task \<Rightarrow> run_task env mt spawn task)
      (\<lambda>r. case r of Some v \<Rightarrow> mret v | None \<Rightarrow> execute_rest env pipe2)) s' (\<lambda>_ s'. xstate stop env prio es0 s') (\<lambda>_ _. True)"
    if x': "xinv stop env prio es0 s'" and c: "checked env s'"
      and r: "case r of None \<Rightarrow> st_active (ex_stats s') < xe_number_tasks env \<longrightarrow> stalled s' | Some t \<Rightarrow> picked env s' t" for r s'
  proof (cases r)
    case None
    have "st_active (ex_stats s') \<ge> xe_number_tasks env \<or> stalled s'" using r None by auto
    from execute_rest_inv [OF x' wf ac p(2) this] show ?thesis using None by simp
  next
    case (Some t)
    have "valid (mbind (run_task env mt spawn t) (\<lambda>r. case r of Some v \<Rightarrow> mret v | None \<Rightarrow> execute_rest env pipe2)) s'
        (\<lambda>_ s'. xstate stop env prio es0 s') (\<lambda>_ _. True)"
    proof (rule valid_bindI [OF run_task_inv [OF x' wf _ c]])
      show "picked env s' t" using r Some by simp
      fix q s2 assume q: "run_post stop env prio es0 q s2"
      show "valid (case q of Some v \<Rightarrow> mret v | None \<Rightarrow> execute_rest env pipe2) s2 (\<lambda>_ s'. xstate stop env prio es0 s') (\<lambda>_ _. True)"
      proof (cases q)
        case None
        then show ?thesis using q execute_rest_inv [OF _ wf ac p(2), of stop env prio s2] by (simp add: run_post_def)
      next
        case (Some v)
        then show ?thesis using q by (auto simp: run_post_def xstate_def xlost_def)
      qed
    qed
    then show ?thesis using Some by simp
  qed
  have choose: "valid (mbind (next_task env) (\<lambda>t.
        mbind (case t of None \<Rightarrow> mret None | Some task \<Rightarrow> run_task env mt spawn task) (\<lambda>r.
        case r of Some v \<Rightarrow> mret v | None \<Rightarrow> execute_rest env pipe2))) s' (\<lambda>_ s'. xstate stop env prio es0 s') (\<lambda>_ _. True)"
    if x': "xinv stop env prio es0 s'" and c: "checked env s'" for s'
  proof (rule valid_bindI [OF next_task_inv [OF x' wf k]])
    fix r s2 assume a: "xinv stop env prio es0 s2 \<and> (\<exists>sc. s2 = s'\<lparr>ex_sched := sc\<rparr>) \<and>
      (case r of None \<Rightarrow> st_active (ex_stats s') < xe_number_tasks env \<longrightarrow> stalled s2 | Some t \<Rightarrow> picked env s2 t)"
    then have c2: "checked env s2" and e: "ex_stats s2 = ex_stats s'" using c by (auto simp: checked_def)
    have q: "case r of None \<Rightarrow> st_active (ex_stats s2) < xe_number_tasks env \<longrightarrow> stalled s2 | Some t \<Rightarrow> picked env s2 t"
      using a unfolding e by blast
    show "valid (mbind (case r of None \<Rightarrow> mret None | Some task \<Rightarrow> run_task env mt spawn task)
      (\<lambda>r. case r of Some v \<Rightarrow> mret v | None \<Rightarrow> execute_rest env pipe2)) s2 (\<lambda>_ s'. xstate stop env prio es0 s') (\<lambda>_ _. True)"
      by (intro last) (use a c2 q in blast)+
  qed
  have total: "xinv stop env prio es0 (if st_total (ex_stats s') = 0 then s'\<lparr>ex_state := RqCleanUp\<rparr> else s')"
    if x': "xinv stop env prio es0 s'" for s'
  proof (cases "st_total (ex_stats s') = 0")
    case True
    then have "es0 = []" using stats_of [OF x'] unfolding stats_inv_def by simp
    then have "ex_complete s' = []" using sets_of [OF x'] unfolding sets_inv_def by auto
    then show ?thesis using x' True \<open>es0 = []\<close> unfolding xinv_def by (simp add: state_inv_defs)
  qed (use x' in simp)
  show ?thesis unfolding execute_def
  proof (rule valid_bindI [OF enforce_whitelist_inv [OF x wf k ac]])
    fix over s1 assume a: "xinv stop env prio es0 s1 \<and> checked env s1"
    show "valid (if over then mret RTrue else mseq (read_workers env pipe1)
        (mseq (mbind (mget (\<lambda>s. st_total (ex_stats s) = 0)) (\<lambda>none. mwhen none (set_state RqCleanUp)))
        (mbind (next_task env) (\<lambda>t.
        mbind (case t of None \<Rightarrow> mret None | Some task \<Rightarrow> run_task env mt spawn task) (\<lambda>r.
        case r of Some v \<Rightarrow> mret v | None \<Rightarrow> execute_rest env pipe2))))) s1 (\<lambda>_ s'. xstate stop env prio es0 s') (\<lambda>_ _. True)"
    proof (cases over)
      case True
      then show ?thesis using a by (simp add: xstate_def)
    next
      case False
      have "valid (mseq (read_workers env pipe1)
        (mseq (mbind (mget (\<lambda>s. st_total (ex_stats s) = 0)) (\<lambda>none. mwhen none (set_state RqCleanUp)))
        (mbind (next_task env) (\<lambda>t.
        mbind (case t of None \<Rightarrow> mret None | Some task \<Rightarrow> run_task env mt spawn task) (\<lambda>r.
        case r of Some v \<Rightarrow> mret v | None \<Rightarrow> execute_rest env pipe2))))) s1 (\<lambda>_ s'. xstate stop env prio es0 s') (\<lambda>_ _. True)"
      proof (rule valid_bindI [OF read_workers_inv [OF _ wf p(1)]])
        show "xinv stop env prio es0 s1" using a by blast
        fix u s2 assume "xinv stop env prio es0 s2 \<and> (checked env s1 \<longrightarrow> checked env s2)"
        then have x2: "xinv stop env prio es0 s2 \<and> checked env s2" using a by blast
        let ?s3 = "if st_total (ex_stats s2) = 0 then s2\<lparr>ex_state := RqCleanUp\<rparr> else s2"
        have "xinv stop env prio es0 ?s3" "checked env ?s3" using total x2 by (auto simp: checked_def)
        from choose [OF this]
        show "valid (mseq (mbind (mget (\<lambda>s. st_total (ex_stats s) = 0)) (\<lambda>none. mwhen none (set_state RqCleanUp)))
          (mbind (next_task env) (\<lambda>t.
          mbind (case t of None \<Rightarrow> mret None | Some task \<Rightarrow> run_task env mt spawn task) (\<lambda>r.
          case r of Some v \<Rightarrow> mret v | None \<Rightarrow> execute_rest env pipe2)))) s2 (\<lambda>_ s'. xstate stop env prio es0 s') (\<lambda>_ _. True)"
          by (cases "st_total (ex_stats s2) = 0") (simp_all add: set_state_def cong: if_cong)
      qed
      then show ?thesis using False by simp
    qed
  qed
qed

text \<open>Reports that come in when the run is over.\<close>

lemma xend_report:
  assumes x: "xend env es0 s" and t: "dget (ex_build_stamps s) t = Some st"
    and s': "ex_build_stamps s' = filter (\<lambda>(u, _). u \<noteq> t) (ex_build_stamps s)" "sc_stamps (ex_sched s') = sc_stamps (ex_sched s)"
      "ex_actions s' = ex_actions s @ [a]" "a = EvCompleted t \<or> a = EvFailed t i"
  shows "xend env es0 s'"
proof -
  have w: "dwf (ex_build_stamps s)" using x unfolding xend_def by blast
  note f = forget_facts [OF w t]
  have l: "begun (ex_actions s') = begun (ex_actions s)" "sent (ex_actions s') = sent (ex_actions s)"
    "set (ended (ex_actions s')) = insert t (set (ended (ex_actions s)))" "in_order es0 (ex_actions s')"
    using x s'(4) by (auto simp: s'(3) in_order_snoc xend_def simp del: list.set_map)
  have k: "set (dkeys (ex_build_stamps s')) = set (dkeys (ex_build_stamps s)) - {t}"
    unfolding s'(1) f(1) by auto
  have "distinct (map snd (ex_build_stamps s))" using x unfolding xend_def by blast
  then have "distinct (map snd (ex_build_stamps s'))" unfolding s'(1) by (rule distinct_map_filter)
  moreover have "dwf (ex_build_stamps s')" using w unfolding s'(1) f(1) by simp
  moreover have "length (ex_build_stamps s') \<le> length (ex_build_stamps s)" using f(2) by (simp add: s'(1))
  moreover have "dget (ex_build_stamps s') u = Some v \<Longrightarrow> dget (ex_build_stamps s) u = Some v" for u v
    by (simp add: s'(1) f(4) split: if_splits)
  ultimately show ?thesis using x l(4) unfolding xend_def l(1-3) k s'(2) by (auto simp del: list.set_map)
qed

lemma waitpid_lost:
  assumes x: "xlost stop env es0 s" and t: "t \<in> set (dkeys (ex_build_stamps s))"
  shows "valid (runqueue_process_waitpid env (t, status)) s
    (\<lambda>_ s'. xlost stop env es0 s' \<and> set (dkeys (ex_build_stamps s')) = set (dkeys (ex_build_stamps s)) - {t}) (\<lambda>_ _. True)"
proof -
  let ?Q = "\<lambda>s'. xlost stop env es0 s' \<and> set (dkeys (ex_build_stamps s')) = set (dkeys (ex_build_stamps s)) - {t}"
  obtain st where st: "dget (ex_build_stamps s) t = Some st" using t unfolding dget_Some_key by blast
  have w: "dwf (ex_build_stamps s)" and xe: "xend env es0 s" using x unfolding xlost_def xend_def by blast+
  have k: "set (dkeys (filter (\<lambda>(u, _). u \<noteq> t) (ex_build_stamps s))) = set (dkeys (ex_build_stamps s)) - {t}"
    unfolding forget_facts(1) [OF w st] by auto
  let ?f = "forgotten s t"
  have fb: "ex_build_stamps ?f = filter (\<lambda>(u, _). u \<noteq> t) (ex_build_stamps s)" and fo: "ex_sched ?f = ex_sched s"
    "ex_actions ?f = ex_actions s" "ex_state ?f = ex_state s" "ex_failed ?f = ex_failed s" by (simp_all add: forgotten_def)
  have end': "xlost stop env es0 s'"
    if "ex_build_stamps s' = ex_build_stamps ?f" "sc_stamps (ex_sched s') = sc_stamps (ex_sched s)"
      "ex_actions s' = ex_actions s @ [a]" "a = EvCompleted t \<or> a = EvFailed t i"
      "ex_state s' = ex_state s \<and> ex_failed s' = ex_failed s \<or> ex_state s' \<in> {ex_state s, RqCleanUp} \<and> ex_failed s' \<noteq> []"
    for s' a i
    using xend_report [OF xe st, of s' a i] that x unfolding xlost_def stopped_def fb by auto
  have ok: "valid (task_complete t) ?f (\<lambda>_ s'. ?Q s') (\<lambda>_ _. True)"
    unfolding task_complete_def upd_stats_def mdo_def valid_mbind valid_mmod
  proof (rule valid_conseq [OF task_completeoutright_spec])
    let ?f1 = "?f\<lparr>ex_stats := taskCompleted 1 (ex_stats ?f), ex_actions := ex_actions ?f @ [EvCompleted t]\<rparr>"
    fix s' assume "more_buildable (newly_buildable (?f\<lparr>ex_stats := taskCompleted 1 (ex_stats ?f)\<rparr>\<lparr>ex_actions :=
        ex_actions (?f\<lparr>ex_stats := taskCompleted 1 (ex_stats ?f)\<rparr>) @ [EvCompleted t]\<rparr>) t)
      (?f\<lparr>ex_stats := taskCompleted 1 (ex_stats ?f)\<rparr>\<lparr>ex_actions :=
        ex_actions (?f\<lparr>ex_stats := taskCompleted 1 (ex_stats ?f)\<rparr>) @ [EvCompleted t]\<rparr>\<lparr>ex_complete := sadd t (ex_complete
        (?f\<lparr>ex_stats := taskCompleted 1 (ex_stats ?f)\<rparr>\<lparr>ex_actions :=
        ex_actions (?f\<lparr>ex_stats := taskCompleted 1 (ex_stats ?f)\<rparr>) @ [EvCompleted t]\<rparr>))\<rparr>) s'"
    note f = more_buildable_frame [OF this, simplified]
    show "?Q s'" using end' [of s' "EvCompleted t"] k by (simp add: f fb fo)
  qed simp
  have bad: "valid (task_fail env t status) ?f (\<lambda>_ s'. ?Q s') (\<lambda>_ _. True)"
  proof -
    let ?f1 = "?f\<lparr>ex_stats := taskFailed (ex_stats ?f), ex_failed := ex_failed s @ [t], ex_actions := ex_actions s @ [EvFailed t status]\<rparr>"
    have "?Q ?f1" "?Q (?f1\<lparr>ex_state := RqCleanUp\<rparr>)"
      using end' [of ?f1 "EvFailed t status" status] end' [of "?f1\<lparr>ex_state := RqCleanUp\<rparr>" "EvFailed t status" status] k
      by (simp_all add: fb fo)
    then show ?thesis
      by (simp add: task_fail_def upd_stats_def mdo_def set_state_def fo split: sum.split)
  qed
  have "valid (forget_stamp t) s (\<lambda>_ s'. s' = ?f) (\<lambda>_ _. True)"
    using st by (simp add: forget_stamp_def forgotten_def)
  then show ?thesis unfolding runqueue_process_waitpid_def prod.case
    by (rule valid_bindI) (use ok bad in auto)
qed

lemma finish_now_lost:
  assumes "xlost stop env es0 s"
  shows "valid finish_now s (\<lambda>_ s'. xlost stop env es0 s' \<and> ex_build_stamps s' = ex_build_stamps s) E"
proof -
  have "xend env es0 (s\<lparr>ex_actions := ex_actions s @ [FinishNow], ex_state := q\<rparr>)" for q
    using assms xend_action [of FinishNow env es0 s] xend_cong [of "s\<lparr>ex_actions := ex_actions s @ [FinishNow], ex_state := q\<rparr>"
      "s\<lparr>ex_actions := ex_actions s @ [FinishNow]\<rparr>" env es0] by (simp add: xlost_def)
  then show ?thesis by (simp add: valid_def finish_now_eq xlost_def stopped_def)
qed

lemma finish_now_state:
  assumes "xstate stop env prio es0 s"
  shows "valid finish_now s (\<lambda>_ s'. xstate stop env prio es0 s') E"
proof -
  have told: "xstate stop env prio es0 s'" if "xinv True env prio es0 s' \<or> xlost True env es0 s'" "FinishNow \<in> set (ex_actions s')" for s'
    using that unfolding xstate_def xinv_def xlost_def state_inv_def stopped_def by blast
  have f: "FinishNow \<in> set (ex_actions (snd (finish_now s)))" by (simp add: finish_now_eq)
  from xstate_told [OF assms] have "valid finish_now s (\<lambda>_ s'. xinv True env prio es0 s' \<or> xlost True env es0 s') E"
  proof
    assume "xinv True env prio es0 s"
    from finish_now_inv [OF this] show ?thesis by (rule valid_conseq) simp_all
  next
    assume "xlost True env es0 s"
    from finish_now_lost [OF this] show ?thesis by (rule valid_conseq) simp_all
  qed
  then show ?thesis using f told unfolding valid_def by (auto split: sum.splits)
qed

lemma read_workers_lost:
  assumes x: "xlost stop env es0 s" and p: "pipe_ok pipe"
  shows "valid (read_workers env pipe) s (\<lambda>_ s'. xlost stop env es0 s') (\<lambda>_ _. True)"
proof -
  have d: "distinct (ended_tasks (pipe s))" "set (ended_tasks (pipe s)) \<subseteq> set (dkeys (ex_build_stamps s))"
    using p unfolding pipe_ok_def by blast+
  let ?I = "\<lambda>pre s'. xlost stop env es0 s' \<and>
     set (dkeys (ex_build_stamps s')) = set (dkeys (ex_build_stamps s)) - set (ended_tasks pre)"
  have "valid (mfor (pipe s) (take_report env)) s (\<lambda>_. ?I (pipe s)) (\<lambda>_ _. True)"
  proof (rule valid_mfor)
    show "?I [] s" using x by simp
    fix pre m post s' assume e: "pipe s = pre @ m # post" and i: "?I pre s'"
    show "valid (take_report env m) s' (\<lambda>_. ?I (pre @ [m])) (\<lambda>_ _. True)"
    proof (cases m)
      case WorkerDied
      have "valid finish_now s' (\<lambda>_. ?I (pre @ [m])) (\<lambda>_ _. True)"
        by (rule valid_conseq [OF finish_now_lost [of stop env es0 s']]) (use i WorkerDied in auto)
      then show ?thesis by (simp add: take_report_def WorkerDied)
    next
      case (TaskEnded t status)
      have "t \<in> set (dkeys (ex_build_stamps s'))" using d e TaskEnded i by auto
      from waitpid_lost [OF _ this, of stop env es0 status] i
      show ?thesis by (auto simp: take_report_def TaskEnded elim!: valid_conseq)
    qed
  qed
  then show ?thesis by (simp add: read_workers_def) (erule valid_conseq, simp_all)
qed

text \<open>A call of \<open>finish\<close>: by the run queue while it cleans up, or from outside to stop the run.\<close>

lemma finish_inv:
  assumes x: "xinv stop env prio es0 s" and wf: "rt_wf es0" and p: "pipe_ok pipe" and cu: "stop \<or> ex_state s = RqCleanUp"
  shows "valid (exec_finish env pipe) s (\<lambda>_ s'. xstate stop env prio es0 s') (\<lambda>_ _. True)"
proof -
  let ?s = "s\<lparr>ex_state := RqCleanUp\<rparr>"
  have xs: "xinv stop env prio es0 ?s" using x cu unfolding xinv_def by (auto simp: state_inv_defs)
  show ?thesis
  proof (cases "st_active (ex_stats s) > 0")
    case True
    let ?s1 = "?s\<lparr>ex_actions := ex_actions ?s @ [EvExitWait (st_active (ex_stats s))]\<rparr>"
    have "xinv stop env prio es0 ?s1" using xs xcore_action [of "EvExitWait (st_active (ex_stats s))" env prio es0 ?s]
      unfolding xinv_def by (simp add: state_inv_defs)
    from read_workers_inv [OF this wf p] show ?thesis using True
      by (auto simp: exec_finish_def set_state_def mdo_def xstate_def elim!: valid_conseq)
  next
    case False
    have "\<not> stopped stop ?s \<Longrightarrow> ex_failed ?s = [] \<Longrightarrow> set (ex_complete ?s) = set (dkeys es0)"
      using xs unfolding xinv_def state_inv_def by simp
    from end_state [OF xs this] show ?thesis using False by (simp add: exec_finish_def set_state_def)
  qed
qed

lemma finish_lost:
  assumes x: "xlost stop env es0 s" and p: "pipe_ok pipe" and cu: "stop \<or> ex_state s = RqCleanUp"
  shows "valid (exec_finish env pipe) s (\<lambda>_ s'. xlost stop env es0 s') (\<lambda>_ _. True)"
proof -
  let ?s = "s\<lparr>ex_state := RqCleanUp\<rparr>"
  have xs: "xlost stop env es0 ?s" using x cu by (auto simp: xlost_def stopped_def)
  show ?thesis
  proof (cases "st_active (ex_stats s) > 0")
    case True
    let ?s1 = "?s\<lparr>ex_actions := ex_actions ?s @ [EvExitWait (st_active (ex_stats s))]\<rparr>"
    have "xlost stop env es0 ?s1" using xs xend_action [of "EvExitWait (st_active (ex_stats s))" env es0 ?s]
      unfolding xlost_def by (simp add: stopped_def)
    from read_workers_lost [OF this p] show ?thesis using True
      by (auto simp: exec_finish_def set_state_def mdo_def elim!: valid_conseq)
  next
    case False
    have "xlost stop env es0 (s\<lparr>ex_state := (if ex_failed s \<noteq> [] then RqFailed else RqComplete)\<rparr>)"
      using x cu by (auto simp: xlost_def stopped_def)
    then show ?thesis using False by (simp add: exec_finish_def set_state_def)
  qed
qed

text \<open>The pipes are read once more when the workers are stopped.\<close>

lemma complete_reports:
  assumes "xcore env prio es0 s" "set (ex_complete s) = set (dkeys es0)"
  shows "ex_build_stamps s = []"
proof -
  have "sets_inv es0 (set (ex_buildable s)) (set (ex_running s)) (set (ex_complete s)) (set (ex_failed s)) (set (dkeys (ex_build_stamps s)))"
    using assms(1) unfolding xcore_def by (elim conjE)
  then have "set (dkeys (ex_build_stamps s)) \<subseteq> set (dkeys es0)" "set (ex_complete s) \<inter> set (dkeys (ex_build_stamps s)) = {}"
    unfolding sets_inv_def by (elim conjE, blast)+
  then have "set (dkeys (ex_build_stamps s)) = {}" unfolding assms(2) by (simp add: inf.absorb2)
  then show ?thesis by simp
qed

lemma teardown_inv:
  assumes x: "xstate stop env prio es0 s" and wf: "rt_wf es0" and p: "pipe_ok pipe"
  shows "valid (read_workers env pipe) s (\<lambda>_ s'. xstate stop env prio es0 s') (\<lambda>_ _. True)"
  using x unfolding xstate_def [of stop env prio es0 s]
proof (elim disjE)
  assume "xinv stop env prio es0 s"
  from read_workers_inv [OF this wf p] show ?thesis by (rule valid_conseq) (auto simp: xstate_def)
next
  assume "xlost stop env es0 s"
  from read_workers_lost [OF this p] show ?thesis by (rule valid_conseq) (auto simp: xstate_def)
next
  assume c: "ex_state s = RqComplete \<and> xcore env prio es0 s \<and> ex_failed s = [] \<and> set (ex_complete s) = set (dkeys es0) \<and>
       (xe_whitelisted env = None \<or> ex_whitelist_checked s \<or> ex_running s = [])"
  then have b: "ex_build_stamps s = []" using complete_reports by blast
  have "set (ended_tasks (pipe s)) \<subseteq> set (dkeys (ex_build_stamps s))" using p unfolding pipe_ok_def by blast
  then have none: "ended_tasks (pipe s) = []" by (simp add: b)
  have died: "r = WorkerDied" if "ended_tasks rs = []" "r \<in> set rs" for r rs
    using that by (induction rs) (auto simp: ended_tasks_def split: report.splits)
  have "valid (mfor (pipe s) (take_report env)) s (\<lambda>_ s'. xstate stop env prio es0 s') (\<lambda>_ _. True)"
  proof (rule valid_mfor_simple)
    show "xstate stop env prio es0 s" by (rule x)
  next
    fix r u assume r: "r \<in> set (pipe s)" and u: "xstate stop env prio es0 u"
    have n: "valid finish_now u (\<lambda>_ s'. xstate stop env prio es0 s') (\<lambda>_ _. True)" by (rule finish_now_state [OF u])
    then show "valid (take_report env r) u (\<lambda>_ s'. xstate stop env prio es0 s') (\<lambda>_ _. True)"
      by (simp add: take_report_def died [OF none r])
  qed
  then show ?thesis by (simp add: read_workers_def)
qed

section \<open>The first state\<close>

lemma cover_start_buildable:
  assumes "dwf es"
  shows "set (fst (cover_start es cov)) = {t \<in> set (dkeys es). deps_of es t = []}"
proof -
  have "set (fst (fold (\<lambda>(tid, e) (buildable, covered).
       (if rt_depends e = [] then sadd tid buildable else buildable,
        if rt_revdeps e \<noteq> [] \<and> set (rt_revdeps e) \<subseteq> set covered then sadd tid covered else covered)) xs (b, c))) =
      set b \<union> {t. \<exists>e. (t, e) \<in> set xs \<and> rt_depends e = []}" for xs b c
  proof (induction xs arbitrary: b c)
    case (Cons x xs)
    obtain u e where x: "x = (u, e)" by (cases x)
    show ?case by (cases "rt_depends e = []") (auto simp: x Cons.IH)
  qed simp
  from this [of es "[]" cov] have "set (fst (cover_start es cov)) = {t. \<exists>e. (t, e) \<in> set es \<and> rt_depends e = []}"
    by (simp add: cover_start_def)
  also have "\<dots> = {t \<in> set (dkeys es). deps_of es t = []}"
  proof (intro set_eqI iffI)
    fix t assume "t \<in> {t. \<exists>e. (t, e) \<in> set es \<and> rt_depends e = []}"
    then obtain e where "(t, e) \<in> set es" "rt_depends e = []" by blast
    then have "dget es t = Some e" using assms by simp
    then show "t \<in> {t \<in> set (dkeys es). deps_of es t = []}" using \<open>rt_depends e = []\<close> \<open>(t, e) \<in> set es\<close>
      by (force simp: deps_of_def)
  next
    fix t assume "t \<in> {t \<in> set (dkeys es). deps_of es t = []}"
    then have "t \<in> set (dkeys es)" "deps_of es t = []" by blast+
    with dget_rtD [of t es] obtain e where "dget es t = Some e" "rt_depends e = []" by auto
    then show "t \<in> {t. \<exists>e. (t, e) \<in> set es \<and> rt_depends e = []}" by (auto dest: map_of_SomeD)
  qed
  finally show ?thesis .
qed

lemma sched_init_facts:
  assumes "sched_init kind stamp b es = Inr sc"
  shows "sc_prio_map sc = prio_map_of kind es" "sc_rev sc = None" "set (sc_buildable sc) = set (dkeys es) \<inter> set b"
    "\<And>t. t \<in> set (dkeys es) \<Longrightarrow>
       \<exists>mc fn tn tf st. split_tid_mcfn t = Inr (mc, fn, tn, tf) \<and> stamp mc tn tf = Inr st \<and> dget (sc_stamps sc) t = Some st"
proof -
  let ?f = "\<lambda>tid (stamps, buildable).
       rbind (split_tid_mcfn tid) (\<lambda>(mc, fn, taskname, taskfn).
       rbind (stamp mc taskname taskfn) (\<lambda>st.
         Inr (dset tid st stamps, if tid \<in> set b then buildable @ [tid] else buildable)))"
  have loop: "set bu = set ts \<inter> set b \<and> (\<forall>t \<in> set ts.
       \<exists>mc fn tn tf st. split_tid_mcfn t = Inr (mc, fn, tn, tf) \<and> stamp mc tn tf = Inr st \<and> dget sts t = Some st)"
    if "rfold ?f ts ([], []) = Inr (sts, bu)" for ts sts bu
    using that
  proof (induction ts arbitrary: sts bu rule: rev_induct)
    case (snoc t ts)
    then obtain sts0 bu0 where i: "rfold ?f ts ([], []) = Inr (sts0, bu0)" "?f t (sts0, bu0) = Inr (sts, bu)"
      by (auto simp: rfold_snoc rbind_eq_Inr)
    note ih = snoc.IH [OF i(1)]
    from i(2) obtain mc fn tn tf st where t: "split_tid_mcfn t = Inr (mc, fn, tn, tf)" "stamp mc tn tf = Inr st"
      "sts = dset t st sts0" "bu = (if t \<in> set b then bu0 @ [t] else bu0)" by (auto simp: rbind_eq_Inr)
    have "\<exists>mc fn tn tf st. split_tid_mcfn u = Inr (mc, fn, tn, tf) \<and> stamp mc tn tf = Inr st \<and> dget sts u = Some st"
      if "u \<in> set (ts @ [t])" for u
    proof (cases "u = t")
      case True
      then show ?thesis using t by (simp add: dget_dset)
    next
      case False
      then show ?thesis using ih that by (simp add: dget_dset t(3))
    qed
    then show ?case using ih t(4) by auto
  qed simp
  from assms obtain sts bu where r: "rfold ?f (dkeys es) ([], []) = Inr (sts, bu)"
    and sc: "sc = \<lparr>sc_prio_map = prio_map_of kind es, sc_buildable = bu, sc_stamps = sts, sc_rev = None\<rparr>"
    by (auto simp: sched_init_def rbind_eq_Inr simp del: list.set_map)
  show "sc_prio_map sc = prio_map_of kind es" "sc_rev sc = None" "set (sc_buildable sc) = set (dkeys es) \<inter> set b"
    using loop [OF r] by (simp_all add: sc del: list.set_map)
  have "sc_stamps sc = sts" by (simp add: sc)
  then show "\<exists>mc fn tn tf st. split_tid_mcfn t = Inr (mc, fn, tn, tf) \<and> stamp mc tn tf = Inr st \<and> dget (sc_stamps sc) t = Some st"
    if "t \<in> set (dkeys es)" for t
    using bspec [OF conjunct2 [OF loop [OF r]] that] by (simp only:)
qed

lemma exec_init_inv:
  assumes "exec_init env mt verify es cov ncov = Some (Inr s)" "rt_wf es" and k: "sched_prio env es prio"
  shows "xinv stop env prio es s"
proof -
  have w: "dwf es" using assms(2) unfolding rt_wf_def by blast
  let ?b = "fst (cover_start es cov)"
  from assms(1) obtain covered cache deleted sc where n: "0 < xe_number_tasks env"
    and sc: "sched_init (xe_kind env) (sched_stamp env) ?b es = Inr sc"
    and s: "s = \<lparr>ex_entries = es, ex_buildable = ?b, ex_running = [], ex_complete = [],
       ex_build_stamps = [], ex_build_stamps2 = [], ex_failed = [],
       ex_stats = stats_init (int (length es)), ex_sched = sc, ex_covered = covered, ex_notcovered = ncov,
       ex_stampcache = cache, ex_whitelist_checked = False, ex_fakeworkers = [], ex_state = RqRunning,
       ex_actions = map DelStamp deleted\<rparr>"
    by (auto simp: exec_init_def Let_def rbind_eq_Inr split: if_splits option.splits prod.splits)
  note b = cover_start_buildable [OF w, of cov] and f = sched_init_facts [OF sc]
  have "sets_inv es (set ?b) {} {} {} {}" using b unfolding sets_inv_def by auto
  moreover have "table_inv es {} es" unfolding table_inv_def by auto
  moreover have "stats_inv env es s" using n by (simp add: stats_inv_def s stats_init_def)
  moreover have "stamps_inv env es s" using f(4) unfolding stamps_inv_def by (fastforce simp: s task_stamp_def)
  moreover have "sched_inv prio es s"
  proof -
    have "sc_prio_map sc = map PTask prio" using k f(1) by (auto simp: sched_prio_def prio_map_of_def)
    then have "sched_wf prio es sc" using f(2-4) unfolding sched_wf_def by fastforce
    then show ?thesis using f(3) b by (auto simp: sched_inv_def s)
  qed
  moreover have "log_inv es s" by (simp add: log_inv_def s)
  ultimately show ?thesis by (simp add: xinv_def xcore_def state_inv_defs s)
qed

end
