(* ===== verification/BB_RunPrep.thy ===== *)
theory BB_RunPrep
  imports BB_Weights BB_TaskData
begin

text \<open>
  \<open>RunQueueData.prepare\<close> of \<open>lib/bb/runqueue.py\<close>: from the task data of every configuration to the
  table of tasks to run. Step A resolves every kind of dependency into task identifiers, step B
  marks what the targets need, step C prunes the rest, step D mirrors the dependencies, refuses
  loops, computes the weights, checks for double providers and asks the signature generator for
  the hash of every task. Calls of the signature generator other than the hash are recorded in
  the order in which they are made.
\<close>

record rqinput =
  rq_caches :: "(string, datacache) dict"
  rq_taskdata :: "(string, taskdata) dict"
  rq_targets :: "(string \<times> string \<times> string \<times> string) list"
  rq_stampwhitelist :: string
  rq_multi_whitelist :: "string list"
  rq_nosetscene :: bool
  rq_force :: bool
  rq_invalidate_stamp :: string

section \<open>Step A: dependencies of a task\<close>

definition add_target_deps :: "(string, string list) dict \<Rightarrow> (string, taskentry) dict \<Rightarrow>
    string list \<Rightarrow> string list \<Rightarrow> string list \<Rightarrow> string list" where
  "add_target_deps targets entries depids tasknames depends =
     fold (\<lambda>depname depends.
       case ddefault targets depname of
         [] \<Rightarrow> depends
       | depdata # _ \<Rightarrow> fold (\<lambda>taskname depends.
           let t = depdata @ '':'' @ taskname
           in if t \<in> set (dkeys entries) then sadd t depends else depends) tasknames depends)
       depids depends"

definition add_build_dependencies :: "taskdata \<Rightarrow> string list \<Rightarrow> string list \<Rightarrow> string list \<Rightarrow> string list" where
  "add_build_dependencies td = add_target_deps (tk_build_targets td) (tk_taskentries td)"

definition add_runtime_dependencies :: "taskdata \<Rightarrow> string list \<Rightarrow> string list \<Rightarrow> string list \<Rightarrow> string list" where
  "add_runtime_dependencies td = add_target_deps (tk_run_targets td) (tk_taskentries td)"

definition add_resolved_dependencies :: "runtasks \<Rightarrow> string \<Rightarrow> string \<Rightarrow> string list \<Rightarrow> string list \<Rightarrow> string list" where
  "add_resolved_dependencies es mc fn tasknames depends =
     fold (\<lambda>taskname depends.
       let tid = build_tid mc fn taskname
       in if tid \<in> set (dkeys es) then sadd tid depends else depends) tasknames depends"

definition add_tdepends :: "string \<Rightarrow> string list \<Rightarrow> string list \<Rightarrow> string list res" where
  "add_tdepends mc ts depends =
     rfold (\<lambda>t depends. rbind (split_tid_mcfn t) (\<lambda>(_, depfn, deptaskname, _).
       Inr (sadd (build_tid mc depfn deptaskname) depends))) ts depends"

text \<open>The \<open>deptask\<close> and \<open>rdeptask\<close> flags.\<close>

definition add_flag_deps :: "string option \<Rightarrow> (string list \<Rightarrow> string list \<Rightarrow> string list \<Rightarrow> string list) \<Rightarrow>
    (string, string list) dict \<Rightarrow> string \<Rightarrow> string list \<Rightarrow> string list res" where
  "add_flag_deps flag add ids taskfn depends =
     (case flag of
        None \<Rightarrow> Inr depends
      | Some v \<Rightarrow> rbind (ditem ids taskfn) (\<lambda>depids. Inr (add depids (split_ws v) depends)))"

definition add_idepend :: "taskdata \<Rightarrow> string \<Rightarrow> string \<Rightarrow> string list \<Rightarrow> string list res" where
  "add_idepend td depdata idependtask depends =
     (let t = depdata @ '':'' @ idependtask
      in if t \<in> set (dkeys (tk_taskentries td)) then Inr (sadd t depends) else Inl (MsgFatal ''RunQueue''))"

definition add_idepends :: "taskdata \<Rightarrow> (string \<times> string) list \<Rightarrow> string list \<Rightarrow> string list res" where
  "add_idepends td ids depends =
     rfold (\<lambda>(depname, idependtask) depends.
       case ddefault (tk_build_targets td) depname of
         [] \<Rightarrow> Inr depends
       | depdata # _ \<Rightarrow> if depname \<in> set (tk_failed_deps td) then Inr depends
                       else add_idepend td depdata idependtask depends) ids depends"

definition add_irdepends :: "taskdata \<Rightarrow> (string \<times> string) list \<Rightarrow> string list \<Rightarrow> string list res" where
  "add_irdepends td ids depends =
     rfold (\<lambda>(depname, idependtask) depends.
       case dget (tk_run_targets td) depname of
         None \<Rightarrow> Inr depends
       | Some [] \<Rightarrow> Inl IndexError
       | Some (depdata # _) \<Rightarrow> add_idepend td depdata idependtask depends) ids depends"

record prep =
  pr_entries :: runtasks
  pr_rec :: "(string, string list) dict"
  pr_irec :: "(string, string list) dict"
  pr_selfref :: "string list"

text \<open>The \<open>recrdeptask\<close> and \<open>recideptask\<close> flags, part A.\<close>

definition add_recursive :: "taskdata \<Rightarrow> taskdeps \<Rightarrow> string \<Rightarrow> string \<times> string \<times> string \<times> string \<Rightarrow>
    string list \<times> prep \<Rightarrow> (string list \<times> prep) res" where
  "add_recursive td tdp tid = (\<lambda>(mc, fn, taskname, taskfn) (depends, p).
     case flag_value tdp ''recrdeptask'' taskname of
       None \<Rightarrow> Inr (depends, p)
     | Some v \<Rightarrow>
         (let tasknames = split_ws v in
          rbind (ditem (tk_depids td) taskfn) (\<lambda>depids.
          rbind (ditem (tk_rdepids td) taskfn) (\<lambda>rdepids.
            Inr (add_runtime_dependencies td rdepids tasknames (add_build_dependencies td depids tasknames depends),
                 p\<lparr>pr_rec := dset tid tasknames (pr_rec p),
                   pr_selfref := (if taskname \<in> set tasknames then sadd tid (pr_selfref p) else pr_selfref p),
                   pr_irec := (case flag_value tdp ''recideptask'' taskname of
                       None \<Rightarrow> pr_irec p
                     | Some w \<Rightarrow> dset tid (map (build_tid mc fn) (split_ws w)) (pr_irec p))\<rparr>)))))"

definition collect_task :: "rqinput \<Rightarrow> string \<Rightarrow> prep \<Rightarrow> prep res" where
  "collect_task inp tid p =
     rbind (split_tid_mcfn tid) (\<lambda>(mc, fn, taskname, taskfn).
     rbind (ditem (rq_caches inp) mc) (\<lambda>dc.
     rbind (ditem (dc_task_deps dc) taskfn) (\<lambda>tdp.
     let p = p\<lparr>pr_entries := dset tid new_rtentry (pr_entries p)\<rparr> in
     rbind (ditem (rq_taskdata inp) mc) (\<lambda>td.
     if fn \<in> set (tk_failed_fns td) then Inr p
     else
       rbind (ditem (tk_taskentries td) tid) (\<lambda>e.
       rbind (add_tdepends mc (te_tdepends e) []) (\<lambda>depends.
       rbind (add_flag_deps (flag_value tdp ''deptask'' taskname) (add_build_dependencies td) (tk_depids td) taskfn depends) (\<lambda>depends.
       rbind (add_flag_deps (flag_value tdp ''rdeptask'' taskname) (add_runtime_dependencies td) (tk_rdepids td) taskfn depends) (\<lambda>depends.
       rbind (add_idepends td (te_idepends e) depends) (\<lambda>depends.
       rbind (add_irdepends td (te_irdepends e) depends) (\<lambda>depends.
       rbind (add_recursive td tdp tid (mc, fn, taskname, taskfn) (depends, p)) (\<lambda>(depends, p).
         Inr (p\<lparr>pr_entries := dset tid (new_rtentry\<lparr>rt_depends := depends\<rparr>) (pr_entries p)\<rparr>))))))))))))"

definition collect_tasks :: "rqinput \<Rightarrow> prep res" where
  "collect_tasks inp =
     rfold (\<lambda>(mc, td). rfold (collect_task inp) (dkeys (tk_taskentries td))) (rq_taskdata inp)
       \<lparr>pr_entries = [], pr_rec = [], pr_irec = [], pr_selfref = []\<rparr>"

section \<open>Step A: recursive dependencies\<close>

text \<open>
  \<open>generate_recdeps\<close>; the state holds \<open>extradeps[tid]\<close> and \<open>seendeps\<close>. The first argument bounds
  the depth of the recursion, beyond which the interpreter raises RecursionError.
\<close>

fun generate_recdeps :: "nat \<Rightarrow> runtasks \<Rightarrow> string list \<Rightarrow> string \<Rightarrow> string list \<times> string list \<Rightarrow>
    (string list \<times> string list) res" where
  "generate_recdeps 0 es tasknames t st = Inl RecursionError"
| "generate_recdeps (Suc lim) es tasknames t st =
     rbind (split_tid_mcfn t) (\<lambda>(mc, fn, _, _).
       let newdeps = add_resolved_dependencies es mc fn tasknames []
       in rfold (\<lambda>i st. rbind (ditem es i) (\<lambda>e.
            rfold (\<lambda>n st. if n \<in> set (snd st) then Inr st else generate_recdeps lim es tasknames n st)
              (rt_depends e) st))
            (sadd t newdeps) (fold sadd newdeps (fst st), sadd t (snd st)))"

definition extradeps_of :: "prep \<Rightarrow> string \<Rightarrow> string list \<Rightarrow> string list res" where
  "extradeps_of p tid tasknames =
     (let es = pr_entries p; lim = Suc (Suc (length es)) in
      rbind (ditem es tid) (\<lambda>e.
      rbind (generate_recdeps lim es tasknames tid (rt_depends e, [])) (\<lambda>st.
      rbind (rfold (generate_recdeps lim es tasknames) (ddefault (pr_irec p) tid) st) (\<lambda>st.
        Inr (fst st)))))"

definition all_extradeps :: "prep \<Rightarrow> (string, string list) dict res" where
  "all_extradeps p =
     rmap (\<lambda>(tid, tasknames). rbind (extradeps_of p tid tasknames) (\<lambda>extra.
       Inr (tid, filter (\<lambda>d. d \<notin> set (pr_selfref p)) extra))) (pr_rec p)"

definition with_extradeps :: "(string, string list) dict \<Rightarrow> runtasks \<Rightarrow> runtasks" where
  "with_extradeps extra es =
     map (\<lambda>(tid, e). (tid, e\<lparr>rt_depends :=
       removeAll tid (case dget extra tid of None \<Rightarrow> rt_depends e | Some d \<Rightarrow> d)\<rparr>)) es"

section \<open>Steps B and C: the active tasks\<close>

fun mark_active :: "nat \<Rightarrow> runtasks \<Rightarrow> string \<Rightarrow> string list \<Rightarrow> string list res" where
  "mark_active 0 es tid build = Inl RecursionError"
| "mark_active (Suc lim) es tid build =
     (if tid \<in> set build then Inr build
      else rbind (ditem es tid) (\<lambda>e. rfold (mark_active lim es) (rt_depends e) (build @ [tid])))"

definition mark_target :: "rqinput \<Rightarrow> runtasks \<Rightarrow> string \<times> string \<times> string \<times> string \<Rightarrow>
    string list \<times> string list \<Rightarrow> (string list \<times> string list) res" where
  "mark_target inp es = (\<lambda>(mc, target, task, fn) (tids, build).
     rbind (ditem (rq_taskdata inp) mc) (\<lambda>td.
       if ddefault (tk_build_targets td) target = [] then Inr (tids, build)
       else if target \<in> set (tk_failed_deps td) then Inr (tids, build)
       else (let parents = (task \<noteq> [] \<and> last task = CHR ''-'');
                 task = (if parents then butlast task else task)
             in if fn \<in> set (tk_failed_fns td) then Inr (tids, build)
                else (let tid = fn @ '':'' @ task; lim = Suc (length es)
                      in if tid \<notin> set (dkeys (tk_taskentries td)) then Inl (MsgFatal ''RunQueue'')
                         else rbind (if parents
                                     then rbind (ditem es tid) (\<lambda>e. rfold (mark_active lim es) (rt_depends e) build)
                                     else mark_active lim es tid build) (\<lambda>build. Inr (tids @ [tid], build))))))"

definition mark_targets :: "rqinput \<Rightarrow> runtasks \<Rightarrow> (string list \<times> string list) res" where
  "mark_targets inp es = rfold (mark_target inp es) (rq_targets inp) ([], [])"

definition prune :: "string list \<Rightarrow> runtasks \<Rightarrow> runtasks" where
  "prune build es = filter (\<lambda>(tid, e). tid \<in> set build) es"

section \<open>Step D: checks and computation\<close>

definition add_revdep :: "string \<Rightarrow> string \<Rightarrow> runtasks \<Rightarrow> runtasks res" where
  "add_revdep tid dep es =
     rbind (ditem es dep) (\<lambda>e. Inr (dset dep (e\<lparr>rt_revdeps := sadd tid (rt_revdeps e)\<rparr>) es))"

definition add_revdeps :: "runtasks \<Rightarrow> runtasks res" where
  "add_revdeps es = rfold (\<lambda>(tid, e). rfold (add_revdep tid) (rt_depends e)) es es"

text \<open>The end points; a task and one of its dependencies that depend on each other are refused.\<close>

definition find_endpoints :: "runtasks \<Rightarrow> string list res" where
  "find_endpoints es =
     rfold (\<lambda>(tid, e) endpoints.
       if list_ex (\<lambda>dep. dep \<in> set (rt_depends e)) (rt_revdeps e) then Inl (MsgFatal ''RunQueue'')
       else Inr (if rt_revdeps e = [] then endpoints @ [tid] else endpoints)) es []"

text \<open>Which recipe files of the active tasks provide what.\<close>

definition provider_files :: "runtasks \<Rightarrow> string \<Rightarrow> datacache \<Rightarrow> (string, string list) dict res" where
  "provider_files es mc dc =
     rbind (rfold (\<lambda>tid (prov_list, seen_fn).
       rbind (split_tid_mcfn tid) (\<lambda>(tidmc, _, _, taskfn).
         if taskfn \<in> set seen_fn \<or> mc \<noteq> tidmc then Inr (prov_list, seen_fn)
         else rbind (ditem (dc_fn_provides dc) taskfn) (\<lambda>provs.
           Inr (fold (\<lambda>prov pl. dset prov (sadd taskfn (ddefault pl prov)) pl) provs prov_list,
                seen_fn @ [taskfn])))) (dkeys es) ([], []))
     (\<lambda>(prov_list, _). Inr prov_list)"

text \<open>
  What each of the files has that the others do not. An empty common set counts as not yet
  computed, as in the code.
\<close>

definition common_of :: "string list list \<Rightarrow> string list" where
  "common_of sets = fold (\<lambda>s c. if c = [] then s else filter (\<lambda>x. x \<in> set s) c) sets []"

definition unique_of :: "(string \<Rightarrow> string list) \<Rightarrow> string list \<Rightarrow> (string, string list) dict" where
  "unique_of get fns =
     (let common = common_of (map get fns)
      in map (\<lambda>f. (f, filter (\<lambda>x. x \<notin> set common) (get f))) fns)"

definition dependees_of :: "runtasks \<Rightarrow> string \<Rightarrow> string list" where
  "dependees_of es provfn =
     fold (\<lambda>(tid, e) deps.
       if fn_from_tid tid \<noteq> provfn then deps
       else fold (\<lambda>dep deps. if fn_from_tid dep = provfn then deps else sadd dep deps) (rt_revdeps e) deps) es []"

definition rprovides_of :: "datacache \<Rightarrow> string \<Rightarrow> string list" where
  "rprovides_of dc provfn =
     fold (\<lambda>(k, fns) r. if provfn \<in> set fns then sadd k r else r)
       (dc_rproviders dc @ dc_packages dc @ dc_packages_dynamic dc) []"

record conflict =
  cf_prov :: string
  cf_fns :: "string list"
  cf_dependees :: "(string, string list) dict"
  cf_provides :: "(string, string list) dict"
  cf_rprovides :: "(string, string list) dict"

definition check_pns :: "datacache \<Rightarrow> string list \<Rightarrow> string list res" where
  "check_pns dc fns =
     rfold (\<lambda>fn seen_pn. rbind (ditem (dc_pkg_fn dc) fn) (\<lambda>pn.
       if pn \<in> set seen_pn then Inl BBHandledException else Inr (seen_pn @ [pn]))) fns []"

definition check_providers :: "rqinput \<Rightarrow> runtasks \<Rightarrow> string \<times> datacache \<Rightarrow> conflict list \<Rightarrow> conflict list res" where
  "check_providers inp es = (\<lambda>(mc, dc) msgs.
     rbind (provider_files es mc dc) (\<lambda>prov_list.
       rfold (\<lambda>(prov, fns) msgs.
         if length fns < 2 \<or> prov \<in> set (rq_multi_whitelist inp) then Inr msgs
         else rbind (check_pns dc fns) (\<lambda>_.
           Inr (msgs @ [\<lparr>cf_prov = prov, cf_fns = fns,
                        cf_dependees = unique_of (dependees_of es) fns,
                        cf_provides = unique_of (\<lambda>f. fold sadd (ddefault (dc_fn_provides dc) f) []) fns,
                        cf_rprovides = unique_of (rprovides_of dc) fns\<rparr>]))) prov_list msgs))"

definition stampfnwhitelist :: "rqinput \<Rightarrow> (string, string list) dict res" where
  "stampfnwhitelist inp =
     rmap (\<lambda>(mc, td). rbind (rfold (\<lambda>entry fns.
        if entry \<notin> set (dkeys (tk_build_targets td)) then Inr fns else Inl AttributeError)
        (split_ws (rq_stampwhitelist inp)) []) (\<lambda>fns. Inr (mc, fns))) (rq_taskdata inp)"

definition setscene_tids :: "rqinput \<Rightarrow> runtasks \<Rightarrow> string list res" where
  "setscene_tids inp es =
     (if rq_nosetscene inp then Inr []
      else rfold (\<lambda>tid tids. rbind (split_tid_mcfn tid) (\<lambda>(mc, _, _, _).
        rbind (ditem (rq_taskdata inp) mc) (\<lambda>td.
          Inr (if tid @ ''_setscene'' \<in> set (dkeys (tk_taskentries td)) then tids @ [tid] else tids))))
        (dkeys es) [])"

datatype siggen_call =
    InvalidateTask string string string
  | TasksResolved string "(string, string) dict" "(string, string) dict"

definition invalidate_task :: "rqinput \<Rightarrow> bool \<Rightarrow> string \<Rightarrow> siggen_call list \<Rightarrow> siggen_call list res" where
  "invalidate_task inp error_nostamp tid calls =
     rbind (split_tid_mcfn tid) (\<lambda>(mc, fn, taskname, taskfn).
     rbind (ditem (rq_caches inp) mc) (\<lambda>dc.
     rbind (ditem (dc_task_deps dc) taskfn) (\<lambda>tdp.
     rbind (ditem (rq_taskdata inp) mc) (\<lambda>_.
       if flag_value tdp ''nostamp'' taskname \<noteq> None
       then (if error_nostamp then Inl BBHandledException else Inr calls)
       else Inr (calls @ [InvalidateTask taskname mc fn])))))"

definition invalidations :: "rqinput \<Rightarrow> string list \<Rightarrow> siggen_call list res" where
  "invalidations inp target_tids =
     rbind (if rq_force inp then rfold (invalidate_task inp False) target_tids [] else Inr []) (\<lambda>calls.
       if rq_invalidate_stamp inp = [] then Inr calls
       else rfold (\<lambda>tid. rfold (\<lambda>st.
              invalidate_task inp True (fn_from_tid tid @ '':'' @
                (if prefix ''do_'' st then st else ''do_'' @ st)))
              (split_on CHR '','' (rq_invalidate_stamp inp))) target_tids calls)"

definition tasks_resolved :: "rqinput \<Rightarrow> siggen_call list \<Rightarrow> siggen_call list res" where
  "tasks_resolved inp calls =
     rfold (\<lambda>(mc, td) calls.
       let virtmap = get_providermap (Some ''virtual/'') td in
       rbind (if virtmap = [] then Inr [] else rbind (ditem (rq_caches inp) mc) (\<lambda>dc.
                rmap (\<lambda>(v, fn). rbind (ditem (dc_pkg_fn dc) fn) (\<lambda>pn. Inr (v, pn))) virtmap)) (\<lambda>virtpnmap.
       rbind (ditem (rq_caches inp) mc) (\<lambda>_.
         Inr (calls @ [TasksResolved mc virtmap virtpnmap])))) (rq_taskdata inp) calls"

text \<open>
  The hash of every task, each after those of its dependencies. \<open>gh taskfn taskname procdep dc\<close>
  is \<open>get_taskhash\<close> of the signature generator, with its state threaded through.
\<close>

type_synonym 'g get_hash = "string \<Rightarrow> string \<Rightarrow> string list \<Rightarrow> datacache \<Rightarrow> 'g \<Rightarrow> (string \<times> 'g) res"

definition hash_task :: "'g get_hash \<Rightarrow> rqinput \<Rightarrow> string \<Rightarrow> rtentry \<Rightarrow> 'g \<Rightarrow> (string \<times> 'g) res" where
  "hash_task gh inp tid e g =
     rbind (rmap (\<lambda>dep. rbind (taskname_from_tid dep) (\<lambda>t. Inr (fn_from_tid dep @ ''.'' @ t))) (rt_depends e)) (\<lambda>procdep.
     rbind (split_tid_mcfn tid) (\<lambda>(mc, _, taskname, taskfn).
     rbind (ditem (rq_caches inp) mc) (\<lambda>dc. gh taskfn taskname procdep dc g)))"

definition hash_step :: "'g get_hash \<Rightarrow> rqinput \<Rightarrow> string \<Rightarrow> string list \<times> string list \<times> runtasks \<times> 'g \<Rightarrow>
    (string list \<times> string list \<times> runtasks \<times> 'g) res" where
  "hash_step gh inp tid = (\<lambda>(dealtwith, todeal, es, g).
     rbind (ditem es tid) (\<lambda>e.
       if set (rt_depends e) \<subseteq> set dealtwith
       then rbind (hash_task gh inp tid e g) (\<lambda>(h, g).
              Inr (dealtwith @ [tid], remove1 tid todeal, dset tid (e\<lparr>rt_hash := Some h\<rparr>) es, g))
       else Inr (dealtwith, todeal, es, g)))"

fun hash_loop :: "nat \<Rightarrow> 'g get_hash \<Rightarrow> rqinput \<Rightarrow> string list \<times> string list \<times> runtasks \<times> 'g \<Rightarrow>
    (runtasks \<times> 'g) res option" where
  "hash_loop 0 gh inp st = None"
| "hash_loop (Suc fuel) gh inp (dealtwith, todeal, es, g) =
     (if todeal = [] then Some (Inr (es, g))
      else (case rfold (hash_step gh inp) todeal (dealtwith, todeal, es, g) of
              Inl e \<Rightarrow> Some (Inl e)
            | Inr st \<Rightarrow> hash_loop fuel gh inp st))"

section \<open>The whole preparation\<close>

record 'g prepared =
  pp_entries :: runtasks
  pp_target_tids :: "string list"
  pp_weight :: "string \<rightharpoonup> int"
  pp_conflicts :: "conflict list"
  pp_stampfnwhitelist :: "(string, string list) dict"
  pp_setscene_tids :: "string list"
  pp_calls :: "siggen_call list"
  pp_siggen :: 'g

text \<open>Steps A to C: the pruned tasks and the target tasks.\<close>

definition active_tasks :: "rqinput \<Rightarrow> (runtasks \<times> string list) res" where
  "active_tasks inp =
     rbind (collect_tasks inp) (\<lambda>p.
     rbind (all_extradeps p) (\<lambda>extra.
     let es = with_extradeps extra (pr_entries p) in
     rbind (mark_targets inp es) (\<lambda>(tids, build).
     let es = prune build es in
     if es = [] then rbind (ditem (rq_taskdata inp) []) (\<lambda>_. Inl (MsgFatal ''RunQueue''))
     else Inr (es, tids))))"

definition linked_tasks :: "rqinput \<Rightarrow> (runtasks \<times> string list \<times> string list) res" where
  "linked_tasks inp =
     rbind (active_tasks inp) (\<lambda>(es, tids).
     rbind (add_revdeps es) (\<lambda>es.
     rbind (find_endpoints es) (\<lambda>endpoints. Inr (es, tids, endpoints))))"

definition after_weights :: "'g get_hash \<Rightarrow> 'g \<Rightarrow> rqinput \<Rightarrow> runtasks \<times> string list \<times> (string \<rightharpoonup> int) \<Rightarrow>
    'g prepared res option" where
  "after_weights gh g inp = (\<lambda>(es, tids, weight).
     case rbind (rfold (check_providers inp es) (rq_caches inp) []) (\<lambda>conflicts.
          rbind (stampfnwhitelist inp) (\<lambda>wl.
          rbind (setscene_tids inp es) (\<lambda>sctids.
          rbind (invalidations inp tids) (\<lambda>calls.
          rbind (tasks_resolved inp calls) (\<lambda>calls. Inr (conflicts, wl, sctids, calls)))))) of
       Inl e \<Rightarrow> Some (Inl e)
     | Inr (conflicts, wl, sctids, calls) \<Rightarrow>
         map_option (\<lambda>r. rbind r (\<lambda>(es, g).
           Inr \<lparr>pp_entries = es, pp_target_tids = tids, pp_weight = weight, pp_conflicts = conflicts,
                pp_stampfnwhitelist = wl, pp_setscene_tids = sctids, pp_calls = calls, pp_siggen = g\<rparr>))
           (hash_loop (Suc (length es)) gh inp ([], dkeys es, es, g)))"

text \<open>None: the fuel of one of the loops ran out; \<open>Inr None\<close>: nothing to do.\<close>

definition prepare :: "'g get_hash \<Rightarrow> 'g \<Rightarrow> rqinput \<Rightarrow> 'g prepared option res option" where
  "prepare gh g inp =
     (if list_all (\<lambda>(mc, td). tk_taskentries td = []) (rq_taskdata inp) then Some (Inr None)
      else case linked_tasks inp of
        Inl e \<Rightarrow> Some (Inl e)
      | Inr (es, tids, endpoints) \<Rightarrow>
          (case calculate_task_weights es endpoints of
             None \<Rightarrow> None
           | Some (Inl e) \<Rightarrow> Some (Inl e)
           | Some (Inr (es, weight)) \<Rightarrow>
               map_option (\<lambda>r. rbind r (\<lambda>p. Inr (Some p))) (after_weights gh g inp (es, tids, weight))))"

end
