(* ===== verification/BB_Resolve.thy ===== *)
theory BB_Resolve
  imports BB_TaskData
begin

text \<open>
  Resolving targets (\<open>TaskData.add_provider\<close> to \<open>add_unresolved\<close>): each step keeps the state good, and
  each round settles the targets it works on, so the loop of \<open>add_unresolved\<close> ends.
\<close>

section \<open>Adding providers\<close>

lemma ddefault_add_target [simp]:
  "ddefault (add_target fn item ts) t =
     (if t = item then (if fn \<in> set (ddefault ts item) then ddefault ts item else ddefault ts item @ [fn])
      else ddefault ts t)"
  by (auto simp: add_target_def ddefault_def dict_simps split: option.splits)

lemma keys_add_target: "set (dkeys (add_target fn item ts)) = insert item (set (dkeys ts))"
proof (cases "dget ts item")
  case (Some fns)
  then have "item \<in> set (dkeys ts)" unfolding dget_Some_key by blast
  then show ?thesis by (auto simp: add_target_def Some simp del: list.set_map simp: set_dkeys_dset)
next
  case None
  then show ?thesis by (simp add: add_target_def set_dkeys_dset del: list.set_map)
qed

lemma lists_ok_add:
  "lists_ok ts failed {} \<Longrightarrow> fn \<notin> set failed \<Longrightarrow> lists_ok (add_target fn item ts) failed {}"
  by (auto simp: lists_ok_def)

lemma add_build_good:
  assumes g: "good U {} {} {} {} s" and u: "item \<in> U" "fn \<notin> set (tk_failed_fns s)"
  defines "s' \<equiv> s\<lparr>tk_build_targets := add_target fn item (tk_build_targets s)\<rparr>"
  shows "good U {} {} {} {fn} s' \<and> settles s s' \<and> settled_build item s'"
proof -
  have k: "set (dkeys (tk_build_targets s')) = insert item (set (dkeys (tk_build_targets s)))"
    using keys_add_target [of fn item "tk_build_targets s"] by (simp add: s'_def)
  have "tkinv {} {} {} s'" using g u(2) lists_ok_add by (simp add: good_def tkinv_def s'_def)
  moreover have "deps_seen {} s'" using g k unfolding good_def deps_seen_def s'_def by auto
  moreover have "lists_seen {fn} s'" using g by (auto simp: good_def lists_seen_def s'_def)
  moreover have "settles s s'" by (auto simp: settles_def settled_build_def settled_run_def s'_def)
  ultimately show ?thesis using g u(1) k
    by (auto simp: good_def s'_def known_fns_def settled_build_def)
qed

lemma add_run_good:
  assumes g: "good U {} {} {} {} s" and u: "item \<in> U" "fn \<notin> set (tk_failed_fns s)"
  defines "s' \<equiv> s\<lparr>tk_run_targets := add_target fn item (tk_run_targets s)\<rparr>"
  shows "good U {} {} {} {fn} s' \<and> settles s s' \<and> settled_run item s'"
proof -
  have k: "set (dkeys (tk_run_targets s')) = insert item (set (dkeys (tk_run_targets s)))"
    using keys_add_target [of fn item "tk_run_targets s"] by (simp add: s'_def)
  have "tkinv {} {} {} s'" using g u(2) lists_ok_add by (simp add: good_def tkinv_def s'_def)
  moreover have "deps_seen {} s'" using g k unfolding good_def deps_seen_def s'_def by auto
  moreover have "lists_seen {fn} s'" using g by (auto simp: good_def lists_seen_def s'_def)
  moreover have "settles s s'" by (auto simp: settles_def settled_build_def settled_run_def s'_def)
  ultimately show ?thesis using g u(1) k
    by (auto simp: good_def s'_def known_fns_def settled_run_def)
qed

text \<open>
  The two tables of targets, built and run time: \<open>add\<close> adds a provider to a target, and a target
  is settled once it has a provider or has failed. The contract is what the resolution relies on.
\<close>

locale target_table =
  fixes add :: "string \<Rightarrow> string \<Rightarrow> (tkstate, unit) eff"
    and settled :: "string \<Rightarrow> tkstate \<Rightarrow> bool"
  assumes add_valid: "good U {} {} {} {} t \<Longrightarrow> item \<in> U \<Longrightarrow> fn \<notin> set (tk_failed_fns t) \<Longrightarrow>
      valid (add fn item) t (\<lambda>_ s'. good U {} {} {} {fn} s' \<and> settles t s' \<and> settled item s' \<and>
        tk_failed_fns s' = tk_failed_fns t) (\<lambda>_ _. False)"
    and settled_mono: "settles t t' \<Longrightarrow> settled item t \<Longrightarrow> settled item t'"
begin

lemma add_one_provider_valid:
  assumes x: "extra_ok U xd" and g: "good U {} {} {} {} s" and lim: "length (dc_task_deps (tk_cache s)) < lim"
    and item: "item \<in> U"
  shows "valid (add_one_provider xd lim add item fn) s
    (\<lambda>_ s'. good U {} {} {} {} s' \<and> settles s s' \<and> (fn \<notin> set (tk_failed_fns s) \<longrightarrow> settled item s')) (\<lambda>e _. quiet e)"
proof (cases "fn \<in> set (tk_failed_fns s)")
  case False
  let ?R = "\<lambda>s'. good U {} {} {} {fn} s' \<and> settles s s' \<and> settled item s' \<and> tk_failed_fns s' = tk_failed_fns s"
  have v: "valid (add fn item) s (\<lambda>_. ?R) (\<lambda>e _. quiet e)"
    by (rule valid_conseq [OF add_valid [OF g item False]]) auto
  have t: "valid (add_tasks xd lim fn) u (\<lambda>_ s'. good U {} {} {} {} s' \<and> settles s s' \<and>
      (fn \<notin> set (tk_failed_fns s) \<longrightarrow> settled item s')) (\<lambda>e _. quiet e)" if "?R u" for u
    using that lim False settles_lim [of s u] settled_mono
    by (intro valid_conseq [OF add_tasks_valid [OF x, of fn u lim]]) (auto intro: settles_trans)
  have "valid (mseq (add fn item) (add_tasks xd lim fn)) s (\<lambda>_ s'. good U {} {} {} {} s' \<and> settles s s' \<and>
      (fn \<notin> set (tk_failed_fns s) \<longrightarrow> settled item s')) (\<lambda>e _. quiet e)"
    by (rule valid_bindI [OF v t])
  then show ?thesis using False
    by (simp only: add_one_provider_def valid_mbind [of "mget _"] valid_mget if_True simp_thms)
qed (use g in \<open>simp add: add_one_provider_def\<close>)

text \<open>Going through the eligible files; the first of them has not failed yet.\<close>

lemma add_all_valid:
  assumes x: "extra_ok U xd" and g: "good U {} {} {} {} s" and lim: "length (dc_task_deps (tk_cache s)) < lim"
    and item: "item \<in> U" and es: "es \<noteq> []" "hd es \<notin> set (tk_failed_fns s)"
  shows "valid (mfor es (add_one_provider xd lim add item)) s
    (\<lambda>_ s'. good U {} {} {} {} s' \<and> settles s s' \<and> settled item s') (\<lambda>e _. quiet e)"
proof -
  let ?I = "\<lambda>dn s'. good U {} {} {} {} s' \<and> settles s s' \<and> (dn = [] \<longrightarrow> s' = s) \<and> (dn \<noteq> [] \<longrightarrow> settled item s')"
  have "valid (mfor es (add_one_provider xd lim add item)) s (\<lambda>_. ?I es) (\<lambda>e _. quiet e)"
  proof (rule valid_mfor)
    show "?I [] s" using g by simp
  next
    fix pre fn post t
    assume sp: "es = pre @ fn # post" and t: "?I pre t"
    then have l: "length (dc_task_deps (tk_cache t)) < lim" using lim settles_lim [of s t] by simp
    have gt: "good U {} {} {} {} t" using t by blast
    show "valid (add_one_provider xd lim add item fn) t (\<lambda>_. ?I (pre @ [fn])) (\<lambda>e _. quiet e)"
    proof (rule valid_conseq [OF add_one_provider_valid [OF x gt l item]])
      fix s' assume s': "good U {} {} {} {} s' \<and> settles t s' \<and> (fn \<notin> set (tk_failed_fns t) \<longrightarrow> settled item s')"
      have "settled item s'"
      proof (cases pre)
        case Nil
        then show ?thesis using sp t s' es(2) by simp
      next
        case Cons
        then show ?thesis using t s' settled_mono by blast
      qed
      then show "?I (pre @ [fn]) s'" using s' t settles_trans by auto
    qed simp
  qed
  then show ?thesis by (rule valid_conseq) (use es(1) in auto)
qed

end

interpretation build_table: target_table add_build_target settled_build
proof
  fix U :: "string set" and t item fn
  assume "good U {} {} {} {} t" "item \<in> U" "fn \<notin> set (tk_failed_fns t)"
  from add_build_good [OF this] show "valid (add_build_target fn item) t (\<lambda>_ s'. good U {} {} {} {fn} s' \<and>
      settles t s' \<and> settled_build item s' \<and> tk_failed_fns s' = tk_failed_fns t) (\<lambda>_ _. False)"
    by (simp add: add_build_target_def)
qed (simp add: settles_def)

interpretation run_table: target_table add_runtime_target settled_run
proof
  fix U :: "string set" and t item fn
  assume "good U {} {} {} {} t" "item \<in> U" "fn \<notin> set (tk_failed_fns t)"
  from add_run_good [OF this] show "valid (add_runtime_target fn item) t (\<lambda>_ s'. good U {} {} {} {fn} s' \<and>
      settles t s' \<and> settled_run item s' \<and> tk_failed_fns s' = tk_failed_fns t) (\<lambda>_ _. False)"
    by (simp add: add_runtime_target_def)
qed (simp add: settles_def)

lemma filterProviders_cache:
  "filterProviders gv ps item dc = Inr (dc', es, f) \<Longrightarrow> \<exists>pr. dc' = dc\<lparr>dc_preferred := pr\<rparr>"
proof -
  assume "filterProviders gv ps item dc = Inr (dc', es, f)"
  then have "dc' = dc \<or> dc' = dc\<lparr>dc_preferred := dset item (the (gv (''PREFERRED_PROVIDER_'' @ item))) (dc_preferred dc)\<rparr>"
    unfolding filterProviders_def Let_def by (auto simp: res_simps split: option.splits if_splits)
  then show ?thesis by (elim disjE) (auto intro: exI [of _ "dc_preferred dc"])
qed

definition same_keys :: "tkstate \<Rightarrow> tkstate \<Rightarrow> bool" where
  "same_keys s s' \<longleftrightarrow> dkeys (tk_build_targets s') = dkeys (tk_build_targets s) \<and>
     dkeys (tk_run_targets s') = dkeys (tk_run_targets s)"

lemma same_keys_refl [simp]: "same_keys s s"
  by (simp add: same_keys_def)

lemma same_keys_trans: "same_keys s s' \<Longrightarrow> same_keys s' s'' \<Longrightarrow> same_keys s s''"
  by (simp add: same_keys_def)

lemma fail_rel_same_keys: "fail_rel s s' \<Longrightarrow> same_keys s s'"
  by (simp add: same_keys_def fail_rel_defs shrink_def)

text \<open>Changes of the cache and of the list of reported choices.\<close>

lemma good_cache:
  assumes "good U G H D L s" "dc = tk_cache s\<lparr>dc_preferred := pr, dc_providers := pv\<rparr>"
  shows "good U G H D L (s\<lparr>tk_cache := dc\<rparr>) \<and> settles s (s\<lparr>tk_cache := dc\<rparr>) \<and> same_keys s (s\<lparr>tk_cache := dc\<rparr>)"
  using assms by (simp add: good_def tkinv_def deps_seen_def lists_seen_def cache_names_def known_fns_def
      settles_def settled_build_def settled_run_def same_keys_def)

lemma good_consider:
  "good U G H D L s \<Longrightarrow> good U G H D L (s\<lparr>tk_consider := c\<rparr>) \<and> settles s (s\<lparr>tk_consider := c\<rparr>) \<and>
     same_keys s (s\<lparr>tk_consider := c\<rparr>)"
  by (simp add: good_def tkinv_def deps_seen_def lists_seen_def cache_names_def known_fns_def
      settles_def settled_build_def settled_run_def same_keys_def)

lemma note_choice_valid:
  "good U G H D L s \<Longrightarrow> valid (note_choice b item) s (\<lambda>_ s'. good U G H D L s' \<and> settles s s' \<and> same_keys s s' \<and>
     tk_failed_fns s' = tk_failed_fns s) (\<lambda>_ _. False)"
  using good_consider [of U G H D L s] by (auto simp: note_choice_def)


definition ignored :: "(string \<Rightarrow> (string \<Rightarrow> bool) option) \<Rightarrow> string \<Rightarrow> tkstate \<Rightarrow> bool" where
  "ignored rx t s \<longleftrightarrow> re_match_strings rx t (dc_ignored_dependencies (tk_cache s)) = Inr True"

lemma eligible_files_valid:
  "valid (eligible_files eligible) s (\<lambda>es s'. s' = s \<and> (\<forall>f \<in> set es. f \<notin> set (tk_failed_fns s))) (\<lambda>e _. quiet e)"
  by (auto simp: eligible_files_def quiet_def split: option.split)

lemma add_provider_internal_valid:
  assumes x: "extra_ok U xd" and g: "good U {} {} {} {} s" and lim: "length (dc_task_deps (tk_cache s)) < lim"
    and item: "item \<in> U"
  shows "valid (add_provider_internal gv rx xd lim item) s
    (\<lambda>_ s'. good U {} {} {} {} s' \<and> settles s s' \<and> (\<not> ignored rx item s \<longrightarrow> settled_build item s'))
    (\<lambda>e s'. quiet e \<or> good U {} {} {} {} s' \<and> settles s s' \<and> same_keys s s')"
    (is "valid _ s (\<lambda>_. ?Q) ?E")
proof -
  let ?K = "\<lambda>t. good U {} {} {} {} t \<and> settles s t \<and> same_keys s t"
  have k: "?K s" using g by simp
  have noise: "?E e t" if "?K t" for e t using that by blast
  show ?thesis
  proof (cases "re_match_strings rx item (dc_ignored_dependencies (tk_cache s))")
    case (Inl e)
    then show ?thesis using k by (simp add: add_provider_internal_def)
  next
    case (Inr b)
    show ?thesis
    proof (cases b)
      case True
      then show ?thesis using Inr g by (simp add: add_provider_internal_def ignored_def)
    next
      case nb: False
      show ?thesis
      proof (cases "dget (dc_providers (tk_cache s)) item")
        case None
        then show ?thesis using Inr nb k
          by (simp add: add_provider_internal_def split: sum.split)
      next
        case (Some all_p)
        show ?thesis
        proof (cases "have_build_target item s")
          case True
          then show ?thesis using Inr nb Some g
            by (simp add: add_provider_internal_def have_build_target_def settled_build_def)
        next
          case nh: False
          let ?m = "\<lambda>dc eligible foundUnique. mseq (mmod (\<lambda>s. s\<lparr>tk_cache := dc\<lparr>dc_providers := dset item (sort all_p) (dc_providers dc)\<rparr>\<rparr>))
           (mbind (eligible_files eligible) (\<lambda>es.
            if es = [] then mraise (NoProvider item)
            else mseq (note_choice (length es > 1 \<and> \<not> foundUnique) item)
                 (mfor es (add_one_provider xd lim add_build_target item))))"
          have m: "valid (?m dc eligible foundUnique) s (\<lambda>_. ?Q) ?E"
            if f: "filterProviders gv all_p item (tk_cache s) = Inr (dc, eligible, foundUnique)" for dc eligible foundUnique
          proof -
            from filterProviders_cache [OF f] obtain pr where dc: "dc = tk_cache s\<lparr>dc_preferred := pr\<rparr>" ..
            define s1 where "s1 = s\<lparr>tk_cache := dc\<lparr>dc_providers := dset item (sort all_p) (dc_providers dc)\<rparr>\<rparr>"
            have k1: "?K s1" unfolding s1_def by (rule good_cache [OF g]) (simp add: dc)
            have m1: "valid (mmod (\<lambda>s. s\<lparr>tk_cache := dc\<lparr>dc_providers := dset item (sort all_p) (dc_providers dc)\<rparr>\<rparr>)) s
              (\<lambda>_ t. t = s1) ?E" by (simp add: s1_def)
            have m2: "valid (if es = [] then mraise (NoProvider item)
              else mseq (note_choice (length es > 1 \<and> \<not> foundUnique) item)
                 (mfor es (add_one_provider xd lim add_build_target item))) s1 (\<lambda>_. ?Q) ?E"
              if es: "\<forall>f \<in> set es. f \<notin> set (tk_failed_fns s1)" for es
            proof (cases "es = []")
              case True
              then show ?thesis using k1 by simp
            next
              case False
              let ?R = "\<lambda>t. ?K t \<and> tk_failed_fns t = tk_failed_fns s1"
              have n: "valid (note_choice c item) s1 (\<lambda>_. ?R) ?E" for c
                by (rule valid_conseq [OF note_choice_valid [of U "{}" "{}" "{}" "{}" s1]])
                  (use k1 settles_trans same_keys_trans in blast)+
              have a: "valid (mfor es (add_one_provider xd lim add_build_target item)) t (\<lambda>_. ?Q) ?E" if t: "?R t" for t
              proof (rule valid_conseq [OF build_table.add_all_valid [OF x]])
                show "good U {} {} {} {} t" "hd es \<notin> set (tk_failed_fns t)" "length (dc_task_deps (tk_cache t)) < lim"
                  using t es False lim settles_lim [of s t] by auto
              qed (use False t item settles_trans in auto)
              show ?thesis using False by (simp only: if_False) (rule valid_bindI [OF n a])
            qed
            show ?thesis
              by (rule valid_bindI [OF m1], rule valid_bindI [OF valid_conseq [OF eligible_files_valid]])
                (use m2 in auto)
          qed
          show ?thesis using Inr nb Some nh k m
            by (simp add: add_provider_internal_def split: sum.split del: valid_mbind
               add: valid_mbind [of "mget _"] valid_mbind [of "mlift _"])
        qed
      qed
    qed
  qed
qed

lemma add_rprovider_valid:
  assumes x: "extra_ok U xd" and g: "good U {} {} {} {} s" and lim: "length (dc_task_deps (tk_cache s)) < lim"
    and item: "item \<in> U"
  shows "valid (add_rprovider gv rx xd lim item) s
    (\<lambda>_ s'. good U {} {} {} {} s' \<and> settles s s' \<and> (\<not> ignored rx item s \<longrightarrow> settled_run item s'))
    (\<lambda>e s'. quiet e \<or> good U {} {} {} {} s' \<and> settles s s' \<and> same_keys s s')"
    (is "valid _ s (\<lambda>_. ?Q) ?E")
proof -
  let ?K = "\<lambda>t. good U {} {} {} {} t \<and> settles s t \<and> same_keys s t"
  have k: "?K s" using g by simp
  have m: "valid (if es = [] then mraise (NoRProvider item)
            else mseq (note_choice (length es > 1 \<and> n = 0) item)
                 (mseq (note_choice (n > 1) item)
                 (if n > 1 then mraise (MultipleRProvider item)
                  else mfor es (add_one_provider xd lim add_runtime_target item)))) s (\<lambda>_. ?Q) ?E"
    if es: "\<forall>f \<in> set es. f \<notin> set (tk_failed_fns s)" for es and n :: nat
  proof (cases "es = []")
    case False
    let ?R = "\<lambda>t. ?K t \<and> tk_failed_fns t = tk_failed_fns s"
    have n: "valid (note_choice c item) t (\<lambda>_. ?R) ?E" if "?R t" for c t
      by (rule valid_conseq [OF note_choice_valid [of U "{}" "{}" "{}" "{}" t]])
        (use that settles_trans same_keys_trans in auto)
    have a: "valid (if n > 1 then mraise (MultipleRProvider item)
      else mfor es (add_one_provider xd lim add_runtime_target item)) t (\<lambda>_. ?Q) ?E" if t: "?R t" for t
    proof (cases "n > 1")
      case False
      have "valid (mfor es (add_one_provider xd lim add_runtime_target item)) t (\<lambda>_. ?Q) ?E"
      proof (rule valid_conseq [OF run_table.add_all_valid [OF x]])
        show "good U {} {} {} {} t" "hd es \<notin> set (tk_failed_fns t)" "length (dc_task_deps (tk_cache t)) < lim"
          using t es \<open>es \<noteq> []\<close> lim settles_lim [of s t] by auto
      qed (use \<open>es \<noteq> []\<close> t item settles_trans in auto)
      then show ?thesis using False by simp
    qed (use t in simp)
    show ?thesis using False
      by (simp only: if_False) (rule valid_bindI [OF n [of s] valid_bindI [OF n a]], use k in auto)
  qed (use k in simp)
  show ?thesis
  proof (cases "re_match_strings rx item (dc_ignored_dependencies (tk_cache s))")
    case (Inl e)
    then show ?thesis using k by (simp add: add_rprovider_def)
  next
    case (Inr b)
    show ?thesis
    proof (cases "b \<or> have_runtime_target item s")
      case True
      then show ?thesis using Inr g
        by (auto simp: add_rprovider_def have_runtime_target_def settled_run_def ignored_def)
    next
      case nb: False
      have e: "valid (mbind (eligible_files eligible) (\<lambda>es.
            if es = [] then mraise (NoRProvider item)
            else mseq (note_choice (length es > 1 \<and> n = 0) item)
                 (mseq (note_choice (n > 1) item)
                 (if n > 1 then mraise (MultipleRProvider item)
                  else mfor es (add_one_provider xd lim add_runtime_target item))))) s (\<lambda>_. ?Q) ?E" for eligible and n :: nat
        by (rule valid_bindI [OF valid_conseq [OF eligible_files_valid]]) (use m in auto)
      show ?thesis using Inr nb k e
        by (auto simp add: add_rprovider_def split: sum.split simp del: valid_mbind
             simp: valid_mbind [of "mget _"] valid_mbind [of "mlift _"])
    qed
  qed
qed

lemma resolve_build_valid:
  assumes x: "extra_ok U xd" and g: "good U {} {} {} {} s" and lim: "length (dc_task_deps (tk_cache s)) < lim"
    and t: "target \<in> U"
  shows "valid (resolve_build gv rx xd lim target) s
    (\<lambda>b s'. good U {} {} {} {} s' \<and> settles s s' \<and> (\<not> ignored rx target s \<longrightarrow> settled_build target s') \<and>
            (\<not> b \<longrightarrow> same_keys s s')) (\<lambda>_ _. True)"
  (is "valid _ s ?Q _")
proof -
  have h: "valid (remove_buildtarget lim target) u (\<lambda>_. ?Q False) (\<lambda>_ _. True) \<and> \<not> tk_abort u \<and> \<not> tk_allowincomplete u"
    if u: "good U {} {} {} {} u \<and> settles s u \<and> same_keys s u" for u
  proof -
    have l: "length (dc_task_deps (tk_cache u)) < lim" using u lim settles_lim [of s u] by simp
    have "valid (remove_buildtarget lim target) u (\<lambda>_. ?Q False) (\<lambda>_ _. True)"
      by (rule valid_conseq [OF remove_buildtarget_good [OF _ l, of U "{}" "{}" "{}" "{}" target]])
        (use u fail_rel_settles fail_rel_same_keys settles_trans same_keys_trans in
          \<open>auto simp: settled_build_def\<close>)
    then show ?thesis using u by (simp add: good_def)
  qed
  show ?thesis unfolding resolve_build_def
    by (simp add: valid_mtry, rule valid_conseq [OF add_provider_internal_valid [OF x g lim t]])
      (use h in \<open>auto simp: quiet_def split: exc.split\<close>)
qed

lemma resolve_run_valid:
  assumes x: "extra_ok U xd" and g: "good U {} {} {} {} s" and lim: "length (dc_task_deps (tk_cache s)) < lim"
    and t: "target \<in> U"
  shows "valid (resolve_run gv rx xd lim target) s
    (\<lambda>b s'. good U {} {} {} {} s' \<and> settles s s' \<and> (\<not> ignored rx target s \<longrightarrow> settled_run target s') \<and>
            (\<not> b \<longrightarrow> same_keys s s')) (\<lambda>_ _. True)"
  (is "valid _ s ?Q _")
proof -
  have h: "valid (remove_runtarget lim target) u (\<lambda>_. ?Q False) (\<lambda>_ _. True)"
    if u: "good U {} {} {} {} u \<and> settles s u \<and> same_keys s u" for u
  proof -
    have l: "length (dc_task_deps (tk_cache u)) < lim" using u lim settles_lim [of s u] by simp
    show ?thesis
      by (rule valid_conseq [OF remove_runtarget_good [OF _ l, of U "{}" "{}" "{}" "{}" target]])
        (use u fail_rel_settles fail_rel_same_keys settles_trans same_keys_trans in
          \<open>auto simp: settled_run_def\<close>)
  qed
  show ?thesis unfolding resolve_run_def
    by (simp add: valid_mtry, rule valid_conseq [OF add_rprovider_valid [OF x g lim t]])
      (use h in \<open>auto simp: quiet_def split: exc.split\<close>)
qed

section \<open>The rounds of the resolution\<close>

lemma unresolved_targets_set:
  assumes "unresolved_targets rx ig failed ts = Inr us"
  shows "set us = {t \<in> set (dkeys ts). re_match_strings rx t ig = Inr False \<and> t \<notin> set failed \<and> ddefault ts t = []}"
    and "\<forall>t \<in> set (dkeys ts). \<exists>b. re_match_strings rx t ig = Inr b"
proof -
  let ?step = "\<lambda>target unresolved. rbind (re_match_strings rx target ig) (\<lambda>m.
         Inr (if m \<or> target \<in> set failed \<or> ddefault ts target \<noteq> [] then unresolved
              else unresolved @ [target]))"
  have "rfold ?step ks [] = Inr us \<Longrightarrow>
      set us = {t \<in> set ks. re_match_strings rx t ig = Inr False \<and> t \<notin> set failed \<and> ddefault ts t = []} \<and>
      (\<forall>t \<in> set ks. \<exists>b. re_match_strings rx t ig = Inr b)" for ks
  proof (induction ks arbitrary: us rule: rev_induct)
    case (snoc k ks)
    from snoc.prems obtain vs b where vs: "rfold ?step ks [] = Inr vs"
      and b: "re_match_strings rx k ig = Inr b"
      and us: "us = (if b \<or> k \<in> set failed \<or> ddefault ts k \<noteq> [] then vs else vs @ [k])"
      by (auto simp: rfold_snoc res_simps)
    show ?case using snoc.IH [OF vs] b us by auto
  qed simp
  from this [of "dkeys ts"] show "set us = {t \<in> set (dkeys ts). re_match_strings rx t ig = Inr False \<and> t \<notin> set failed \<and> ddefault ts t = []}"
    and "\<forall>t \<in> set (dkeys ts). \<exists>b. re_match_strings rx t ig = Inr b"
    using assms by (simp_all add: unresolved_targets_def)
qed

definition to_settle :: "string set \<Rightarrow> tkstate \<Rightarrow> nat" where
  "to_settle U s = card {t \<in> U. \<not> settled_build t s} + card {t \<in> U. \<not> settled_run t s}"

lemma to_settle_mono:
  assumes "finite U" "settles s s'" shows "to_settle U s' \<le> to_settle U s"
  using assms unfolding to_settle_def by (intro add_mono card_mono) (auto simp: settles_def)

lemma to_settle_less:
  assumes "finite U" "settles s s'" "t \<in> U"
    and "\<not> settled_build t s \<and> settled_build t s' \<or> \<not> settled_run t s \<and> settled_run t s'"
  shows "to_settle U s' < to_settle U s"
proof -
  let ?B = "\<lambda>s. {t \<in> U. \<not> settled_build t s}" and ?R = "\<lambda>s. {t \<in> U. \<not> settled_run t s}"
  have s: "?B s' \<subseteq> ?B s" "?R s' \<subseteq> ?R s" using assms(2) by (auto simp: settles_def)
  have f: "finite (?B s)" "finite (?R s)" using assms(1) by auto
  from assms(4) show ?thesis
  proof
    assume "\<not> settled_build t s \<and> settled_build t s'"
    then have "?B s' \<subset> ?B s" using s assms(3) by blast
    then have "card (?B s') < card (?B s)" by (rule psubset_card_mono [OF f(1)])
    then show ?thesis using card_mono [OF f(2) s(2)] by (simp add: to_settle_def)
  next
    assume "\<not> settled_run t s \<and> settled_run t s'"
    then have "?R s' \<subset> ?R s" using s assms(3) by blast
    then have "card (?R s') < card (?R s)" by (rule psubset_card_mono [OF f(2)])
    then show ?thesis using card_mono [OF f(1) s(1)] by (simp add: to_settle_def)
  qed
qed

text \<open>One pass over the unresolved targets of a table.\<close>

lemma resolve_all_valid:
  assumes step: "\<And>t u. t \<in> set ts \<Longrightarrow> good U {} {} {} {} u \<Longrightarrow> settles s u \<Longrightarrow> valid (resolve t) u
      (\<lambda>b s'. good U {} {} {} {} s' \<and> settles u s' \<and> settled t s' \<and> (\<not> b \<longrightarrow> same_keys u s')) (\<lambda>_ _. True)"
    and g: "good U {} {} {} {} s"
    and mono: "\<And>t t' item. settles t t' \<Longrightarrow> settled item t \<Longrightarrow> settled item t'"
  shows "valid (mmap resolve ts) s
    (\<lambda>bs s'. good U {} {} {} {} s' \<and> settles s s' \<and> (\<forall>t \<in> set ts. settled t s') \<and> length bs = length ts \<and>
             (True \<notin> set bs \<longrightarrow> same_keys s s')) (\<lambda>_ _. True)"
proof (rule valid_mmap [where I = "\<lambda>dn bs s'. good U {} {} {} {} s' \<and> settles s s' \<and> (\<forall>t \<in> set dn. settled t s') \<and>
      length bs = length dn \<and> (True \<notin> set bs \<longrightarrow> same_keys s s')"])
  fix pre t post bs u
  assume sp: "ts = pre @ t # post" and u: "good U {} {} {} {} u \<and> settles s u \<and> (\<forall>t \<in> set pre. settled t u) \<and>
      length bs = length pre \<and> (True \<notin> set bs \<longrightarrow> same_keys s u)"
  have v: "valid (resolve t) u
      (\<lambda>b s'. good U {} {} {} {} s' \<and> settles u s' \<and> settled t s' \<and> (\<not> b \<longrightarrow> same_keys u s')) (\<lambda>_ _. True)"
    by (rule step) (use sp u in auto)
  show "valid (resolve t) u (\<lambda>b s'. good U {} {} {} {} s' \<and> settles s s' \<and> (\<forall>t \<in> set (pre @ [t]). settled t s') \<and>
      length (bs @ [b]) = length (pre @ [t]) \<and> (True \<notin> set (bs @ [b]) \<longrightarrow> same_keys s s')) (\<lambda>_ _. True)"
  proof (rule valid_conseq [OF v])
    fix b s' assume s': "good U {} {} {} {} s' \<and> settles u s' \<and> settled t s' \<and> (\<not> b \<longrightarrow> same_keys u s')"
    have "\<forall>t \<in> set (pre @ [t]). settled t s'" using u s' mono by auto
    moreover have "True \<notin> set (bs @ [b]) \<longrightarrow> same_keys s s'" using u s' same_keys_trans by auto
    ultimately show "good U {} {} {} {} s' \<and> settles s s' \<and> (\<forall>t \<in> set (pre @ [t]). settled t s') \<and>
      length (bs @ [b]) = length (pre @ [t]) \<and> (True \<notin> set (bs @ [b]) \<longrightarrow> same_keys s s')"
      using u s' settles_trans by auto
  qed simp
qed (use g in simp)

text \<open>Nothing is left to resolve: every known target is ignored or settled.\<close>

definition all_settled :: "(string \<Rightarrow> (string \<Rightarrow> bool) option) \<Rightarrow> tkstate \<Rightarrow> bool" where
  "all_settled rx s \<longleftrightarrow> (\<forall>t \<in> set (dkeys (tk_build_targets s)). ignored rx t s \<or> settled_build t s) \<and>
     (\<forall>t \<in> set (dkeys (tk_run_targets s)). ignored rx t s \<or> settled_run t s)"

lemma ignored_settles: "settles s s' \<Longrightarrow> ignored rx t s' = ignored rx t s"
  by (simp add: ignored_def settles_def)

lemma unresolved_build:
  assumes "get_unresolved_build_targets rx s = Inr ts"
  shows "t \<in> set ts \<longleftrightarrow> t \<in> set (dkeys (tk_build_targets s)) \<and> \<not> ignored rx t s \<and> \<not> settled_build t s"
proof -
  note u = unresolved_targets_set [OF assms [unfolded get_unresolved_build_targets_def]]
  show ?thesis using u(2) by (auto simp: u(1) ignored_def settled_build_def simp del: list.set_map)
qed

lemma unresolved_run:
  assumes "get_unresolved_run_targets rx s = Inr ts"
  shows "t \<in> set ts \<longleftrightarrow> t \<in> set (dkeys (tk_run_targets s)) \<and> \<not> ignored rx t s \<and> \<not> settled_run t s"
proof -
  note u = unresolved_targets_set [OF assms [unfolded get_unresolved_run_targets_def]]
  show ?thesis using u(2) by (auto simp: u(1) ignored_def settled_run_def simp del: list.set_map)
qed

lemma good_keys:
  assumes "good U G H D L s"
  shows "set (dkeys (tk_build_targets s)) \<subseteq> U" "set (dkeys (tk_run_targets s)) \<subseteq> U"
  using assms by (auto simp: good_def simp del: list.set_map)

lemma settles_lim_less: "settles s s' \<Longrightarrow> length (dc_task_deps (tk_cache s)) < lim \<Longrightarrow>
    length (dc_task_deps (tk_cache s')) < lim"
  using settles_lim [of s s'] by simp

lemma resolve_round_valid:
  assumes x: "extra_ok U xd" and U: "finite U" and g: "good U {} {} {} {} s"
    and lim: "length (dc_task_deps (tk_cache s)) < lim"
  shows "valid (resolve_round gv rx xd lim) s
    (\<lambda>n s'. good U {} {} {} {} s' \<and> settles s s' \<and> (n = 0 \<longrightarrow> all_settled rx s') \<and>
            (n \<noteq> 0 \<longrightarrow> to_settle U s' < to_settle U s)) (\<lambda>_ _. True)"
proof -
  let ?Q = "\<lambda>n s'. good U {} {} {} {} s' \<and> settles s s' \<and> (n = 0 \<longrightarrow> all_settled rx s') \<and>
            (n \<noteq> (0 :: nat) \<longrightarrow> to_settle U s' < to_settle U s)"
  have main: "valid (mbind (mmap (resolve_build gv rx xd lim) bts) (\<lambda>bs.
     mbind (mget (get_unresolved_run_targets rx)) (\<lambda>r. mbind (mlift r) (\<lambda>rts.
     mbind (mmap (resolve_run gv rx xd lim) rts) (\<lambda>rs.
       mret (length (filter id (bs @ rs)))))))) s ?Q (\<lambda>_ _. True)"
    if bts: "get_unresolved_build_targets rx s = Inr bts" for bts
  proof (rule valid_bindI)
    note mem = unresolved_build [OF bts]
    have U1: "set bts \<subseteq> U" using mem good_keys(1) [OF g] by blast
    show "valid (mmap (resolve_build gv rx xd lim) bts) s
      (\<lambda>bs s'. good U {} {} {} {} s' \<and> settles s s' \<and> (\<forall>t \<in> set bts. settled_build t s') \<and> length bs = length bts \<and>
               (True \<notin> set bs \<longrightarrow> same_keys s s')) (\<lambda>_ _. True)"
    proof (rule resolve_all_valid)
      fix t u assume t: "t \<in> set bts" and u: "good U {} {} {} {} u" "settles s u"
      then show "valid (resolve_build gv rx xd lim t) u (\<lambda>b s'. good U {} {} {} {} s' \<and> settles u s' \<and>
          settled_build t s' \<and> (\<not> b \<longrightarrow> same_keys u s')) (\<lambda>_ _. True)"
        by (intro valid_conseq [OF resolve_build_valid [OF x u(1) settles_lim_less [OF u(2) lim]]])
          (use U1 mem [of t] ignored_settles [OF u(2)] in auto)
    qed (use g in \<open>auto simp: settles_def\<close>)
  next
    note mem = unresolved_build [OF bts]
    have U1: "set bts \<subseteq> U" using mem good_keys(1) [OF g] by blast
    fix bs s1 assume s1: "good U {} {} {} {} s1 \<and> settles s s1 \<and> (\<forall>t \<in> set bts. settled_build t s1) \<and>
      length bs = length bts \<and> (True \<notin> set bs \<longrightarrow> same_keys s s1)"
    have run: "valid (mbind (mmap (resolve_run gv rx xd lim) rts) (\<lambda>rs. mret (length (filter id (bs @ rs))))) s1 ?Q (\<lambda>_ _. True)"
      if rts: "get_unresolved_run_targets rx s1 = Inr rts" for rts
    proof (rule valid_bindI)
      note memr = unresolved_run [OF rts]
      have U2: "set rts \<subseteq> U" using memr good_keys(2) s1 by blast
      show "valid (mmap (resolve_run gv rx xd lim) rts) s1
        (\<lambda>rs s'. good U {} {} {} {} s' \<and> settles s1 s' \<and> (\<forall>t \<in> set rts. settled_run t s') \<and> length rs = length rts \<and>
                 (True \<notin> set rs \<longrightarrow> same_keys s1 s')) (\<lambda>_ _. True)"
      proof (rule resolve_all_valid)
        fix t u assume t: "t \<in> set rts" and u: "good U {} {} {} {} u" "settles s1 u"
        have l: "length (dc_task_deps (tk_cache u)) < lim"
          using settles_lim_less [of s u lim] s1 u(2) lim settles_trans by blast
        from t u show "valid (resolve_run gv rx xd lim t) u (\<lambda>b s'. good U {} {} {} {} s' \<and> settles u s' \<and>
            settled_run t s' \<and> (\<not> b \<longrightarrow> same_keys u s')) (\<lambda>_ _. True)"
          by (intro valid_conseq [OF resolve_run_valid [OF x u(1) l]])
            (use U2 memr [of t] ignored_settles [OF u(2)] in auto)
      qed (use s1 in \<open>auto simp: settles_def\<close>)
    next
      note memr = unresolved_run [OF rts]
      have U2: "set rts \<subseteq> U" using memr good_keys(2) s1 by blast
      fix rs s2 assume s2: "good U {} {} {} {} s2 \<and> settles s1 s2 \<and> (\<forall>t \<in> set rts. settled_run t s2) \<and>
        length rs = length rts \<and> (True \<notin> set rs \<longrightarrow> same_keys s1 s2)"
      have st: "settles s s2" using s1 s2 settles_trans by blast
      have z: "all_settled rx s2" if n: "length (filter id (bs @ rs)) = 0"
      proof -
        have no: "True \<notin> set bs" "True \<notin> set rs" using n by (auto simp: filter_empty_conv)
        then have k: "same_keys s s1" "same_keys s1 s2" using s1 s2 by auto
        have "ignored rx t s2 \<or> settled_build t s2" if "t \<in> set (dkeys (tk_build_targets s2))" for t
        proof (cases "t \<in> set bts")
          case True
          then show ?thesis using s1 s2 by (auto simp: settles_def)
        next
          case False
          have "t \<in> set (dkeys (tk_build_targets s))" using that k unfolding same_keys_def by metis
          then have "ignored rx t s \<or> settled_build t s" using False mem [of t] by blast
          then show ?thesis using st ignored_settles [OF st] by (auto simp: settles_def)
        qed
        moreover have "ignored rx t s2 \<or> settled_run t s2" if "t \<in> set (dkeys (tk_run_targets s2))" for t
        proof (cases "t \<in> set rts")
          case False
          have "t \<in> set (dkeys (tk_run_targets s1))" using that k unfolding same_keys_def by metis
          then have "ignored rx t s1 \<or> settled_run t s1" using False memr [of t] by blast
          then show ?thesis using s2 ignored_settles [of s1 s2] by (auto simp: settles_def)
        qed (use s2 in auto)
        ultimately show ?thesis by (simp add: all_settled_def)
      qed
      have nz: "to_settle U s2 < to_settle U s" if n: "length (filter id (bs @ rs)) \<noteq> 0"
      proof -
        from n have "bts \<noteq> [] \<or> rts \<noteq> []" using s1 s2 by auto
        then show ?thesis
        proof
          assume "bts \<noteq> []"
          then obtain t where "t \<in> set bts" by (cases bts) auto
          then show ?thesis using mem [of t] s1 s2 U1 st
            by (intro to_settle_less [OF U st]) (auto simp: settles_def)
        next
          assume "rts \<noteq> []"
          then obtain t where t: "t \<in> set rts" by (cases rts) auto
          have "to_settle U s2 < to_settle U s1"
            by (rule to_settle_less [OF U]) (use t memr [of t] s2 U2 in auto)
          then show ?thesis using to_settle_mono [OF U, of s s1] s1 by simp
        qed
      qed
      show "valid (mret (length (filter id (bs @ rs)))) s2 ?Q (\<lambda>_ _. True)"
        using s2 st z nz by simp
    qed
    show "valid (mbind (mget (get_unresolved_run_targets rx)) (\<lambda>r. mbind (mlift r) (\<lambda>rts.
       mbind (mmap (resolve_run gv rx xd lim) rts) (\<lambda>rs.
         mret (length (filter id (bs @ rs))))))) s1 ?Q (\<lambda>_ _. True)"
      using run by (simp only: valid_mbind [of "mget _"] valid_mbind [of "mlift _"] valid_mget valid_mlift)
        (simp split: sum.split)
  qed
  show ?thesis unfolding resolve_round_def using main
    by (simp only: valid_mbind [of "mget _"] valid_mbind [of "mlift _"] valid_mget valid_mlift)
      (simp split: sum.split)
qed

lemma add_unresolved_settles:
  assumes x: "extra_ok U xd" and U: "finite U" and g: "good U {} {} {} {} s"
    and lim: "length (dc_task_deps (tk_cache s)) < lim" and fuel: "to_settle U s < fuel"
  shows "\<exists>r s'. add_unresolved fuel gv rx xd lim s = Some (r, s') \<and>
      (r = Inr () \<longrightarrow> good U {} {} {} {} s' \<and> settles s s' \<and> all_settled rx s')"
  using g lim fuel
proof (induction fuel arbitrary: s)
  case (Suc fuel)
  note v = resolve_round_valid [OF x U Suc.prems(1,2), of gv rx]
  show ?case
  proof (cases "resolve_round gv rx xd lim s")
    case (Pair r s1)
    show ?thesis
    proof (cases r)
      case Inl
      then show ?thesis using Pair by simp
    next
      case (Inr n)
      have s1: "good U {} {} {} {} s1" "settles s s1" "n = 0 \<Longrightarrow> all_settled rx s1"
        "n \<noteq> 0 \<Longrightarrow> to_settle U s1 < to_settle U s"
        using validD [OF v Pair] Inr by auto
      show ?thesis
      proof (cases "n = 0")
        case True
        then show ?thesis using Pair Inr s1 by simp
      next
        case False
        then have "to_settle U s1 < fuel" using s1(4) Suc.prems(3) by simp
        from Suc.IH [OF s1(1) settles_lim_less [OF s1(2) Suc.prems(2)] this]
        show ?thesis using Pair Inr False settles_trans [OF s1(2)] by auto
      qed
    qed
  qed
qed simp

lemma good_external:
  "good U G H D L s \<Longrightarrow> good U G H D L (s\<lparr>tk_external_targets := et\<rparr>) \<and> settles s (s\<lparr>tk_external_targets := et\<rparr>)"
  by (simp add: good_def tkinv_def deps_seen_def lists_seen_def known_fns_def settles_def
        settled_build_def settled_run_def)

lemma add_provider_valid:
  assumes x: "extra_ok U xd" and g: "good U {} {} {} {} s" and lim: "length (dc_task_deps (tk_cache s)) < lim"
    and t: "item \<in> U"
  shows "valid (add_provider gv rx xd lim item) s (\<lambda>_ s'. good U {} {} {} {} s' \<and> settles s s') (\<lambda>_ _. True)"
  (is "valid _ s ?Q _")
proof -
  have mark: "good U {} {} {} {} (u\<lparr>tk_external_targets := et\<rparr>) \<and> settles s (u\<lparr>tk_external_targets := et\<rparr>)"
    if "good U {} {} {} {} u \<and> settles s u" for u et
    using that settles_trans [of s u] by (simp add: good_external)
  have h: "valid (remove_buildtarget lim item) u (\<lambda>_ u. valid (mark_external_target item) u ?Q (\<lambda>_ _. True)) (\<lambda>_ _. True)"
    if u: "good U {} {} {} {} u \<and> settles s u" for u
  proof -
    have l: "length (dc_task_deps (tk_cache u)) < lim" using u lim settles_lim [of s u] by simp
    show ?thesis
      by (rule valid_conseq [OF remove_buildtarget_good [OF _ l, of U "{}" "{}" "{}" "{}" item]])
        (use u fail_rel_settles settles_trans mark in \<open>auto simp: mark_external_target_def\<close>)
  qed
  show ?thesis unfolding add_provider_def
    by (simp add: valid_mtry, rule valid_conseq [OF add_provider_internal_valid [OF x g lim t]])
      (use h mark in \<open>auto simp: quiet_def mark_external_target_def split: exc.split\<close>)
qed

lemma good_init:
  assumes "cache_names U dc" shows "good U {} {} {} {} (taskdata_init False b False dc)"
  using assms by (simp add: good_def taskdata_init_def tkinv_def lists_ok_def closed_def deps_seen_def
      lists_seen_def known_fns_def ddefault_def)

lemma add_providers_valid:
  assumes x: "extra_ok U xd" and c: "cache_names U dc" and lim: "length (dc_task_deps dc) < lim"
    and ts: "set targets \<subseteq> U"
  shows "valid (mfor targets (add_provider gv rx xd lim)) (taskdata_init False b False dc)
    (\<lambda>_ s. good U {} {} {} {} s \<and> length (dc_task_deps (tk_cache s)) < lim) (\<lambda>_ _. True)"
proof -
  have i: "length (dc_task_deps (tk_cache (taskdata_init False b False dc))) < lim"
    using lim by (simp add: taskdata_init_def)
  show ?thesis
  proof (rule valid_mfor_simple)
    fix t s assume "t \<in> set targets" and s: "good U {} {} {} {} s \<and> length (dc_task_deps (tk_cache s)) < lim"
    then have t: "t \<in> U" using ts by auto
    show "valid (add_provider gv rx xd lim t) s
      (\<lambda>_ s. good U {} {} {} {} s \<and> length (dc_task_deps (tk_cache s)) < lim) (\<lambda>_ _. True)"
      by (rule valid_conseq [OF add_provider_valid [OF x _ _ t]]) (use s settles_lim_less in auto)
  qed (use good_init [OF c] i in simp)
qed

lemma to_settle_le: "finite U \<Longrightarrow> to_settle U s \<le> 2 * card U"
proof -
  assume "finite U"
  then have "card {t \<in> U. \<not> settled_build t s} \<le> card U" "card {t \<in> U. \<not> settled_run t s} \<le> card U"
    by (auto intro: card_mono)
  then show ?thesis by (simp add: to_settle_def)
qed

lemma all_settled_resolved:
  assumes g: "good U {} {} {} {} s" and a: "all_settled rx s"
    and fn: "fn \<in> set (tk_seenfns s)" "fn \<notin> set (tk_failed_fns s)"
  shows "t \<in> set (ddefault (tk_depids s) fn) \<Longrightarrow> \<not> ignored rx t s \<Longrightarrow> ddefault (tk_build_targets s) t \<noteq> []"
    and "t \<in> set (ddefault (tk_rdepids s) fn) \<Longrightarrow> \<not> ignored rx t s \<Longrightarrow> ddefault (tk_run_targets s) t \<noteq> []"
proof -
  have i: "tkinv {} {} {} s" "deps_seen {} s" using g by (simp_all add: good_def)
  have k: "set (ddefault (tk_depids s) fn) \<subseteq> set (dkeys (tk_build_targets s))"
    "set (ddefault (tk_rdepids s) fn) \<subseteq> set (dkeys (tk_run_targets s))"
    using i(2) fn unfolding deps_seen_def by blast+
  show "ddefault (tk_build_targets s) t \<noteq> []" if "t \<in> set (ddefault (tk_depids s) fn)" "\<not> ignored rx t s"
  proof -
    have "t \<notin> set (tk_failed_deps s)" using i(1) that(1) fn unfolding tkinv_def closed_def by blast
    moreover have "settled_build t s" using a k(1) that unfolding all_settled_def by blast
    ultimately show ?thesis by (simp add: settled_build_def)
  qed
  show "ddefault (tk_run_targets s) t \<noteq> []" if "t \<in> set (ddefault (tk_rdepids s) fn)" "\<not> ignored rx t s"
  proof -
    have "t \<notin> set (tk_failed_rdeps s)" using i(1) that(1) fn unfolding tkinv_def closed_def by blast
    moreover have "settled_run t s" using a k(2) that unfolding all_settled_def by blast
    ultimately show ?thesis by (simp add: settled_run_def)
  qed
qed

lemma good_providers:
  assumes "good U {} {} {} {} s"
  shows "p \<in> set (ddefault (tk_build_targets s) t) \<Longrightarrow> p \<in> set (tk_seenfns s) \<and> p \<notin> set (tk_failed_fns s)"
    and "p \<in> set (ddefault (tk_run_targets s) t) \<Longrightarrow> p \<in> set (tk_seenfns s) \<and> p \<notin> set (tk_failed_fns s)"
proof -
  have i: "tkinv {} {} {} s" "lists_seen {} s" using assms by (simp_all add: good_def)
  show "p \<in> set (ddefault (tk_build_targets s) t) \<Longrightarrow> p \<in> set (tk_seenfns s) \<and> p \<notin> set (tk_failed_fns s)"
    using i unfolding tkinv_def lists_ok_def lists_seen_def by blast
  show "p \<in> set (ddefault (tk_run_targets s) t) \<Longrightarrow> p \<in> set (tk_seenfns s) \<and> p \<notin> set (tk_failed_fns s)"
    using i unfolding tkinv_def lists_ok_def lists_seen_def by blast
qed

text \<open>A target that is provided: some recipe file provides it, and all that do were added and did not fail.\<close>

definition provided :: "(string, string list) dict \<Rightarrow> tkstate \<Rightarrow> string \<Rightarrow> bool" where
  "provided ts s t \<longleftrightarrow> ddefault ts t \<noteq> [] \<and>
     (\<forall>p \<in> set (ddefault ts t). p \<in> set (tk_seenfns s) \<and> p \<notin> set (tk_failed_fns s))"

text \<open>
  C22: Resolution is complete and ends. Take a task data without abort and without allowincomplete,
  over a recipe cache whose dependencies all lie in a finite set of names, and a list of targets
  that \<open>add_provider\<close> accepted. Then \<open>add_unresolved\<close> ends (within a fuel of twice the number of names),
  and if it does not raise, every dependency of every recipe that was added and has not failed is
  ignored or has a provider, and every provider was added and has not failed; so the set of recipes
  kept is closed under build and run time dependencies.
\<close>
theorem resolution_complete:
  assumes U: "finite U" and x: "extra_ok U xd" and c: "cache_names U dc" and ts: "set targets \<subseteq> U"
    and lim: "length (dc_task_deps dc) < lim" and fuel: "2 * card U < fuel"
    and run: "mfor targets (add_provider gv rx xd lim) (taskdata_init False b False dc) = (Inr (), s)"
  shows "\<exists>r s'. add_unresolved fuel gv rx xd lim s = Some (r, s') \<and>
    (r = Inr () \<longrightarrow> (\<forall>fn \<in> set (tk_seenfns s'). fn \<notin> set (tk_failed_fns s') \<longrightarrow>
       (\<forall>t \<in> set (ddefault (tk_depids s') fn). ignored rx t s' \<or> provided (tk_build_targets s') s' t) \<and>
       (\<forall>t \<in> set (ddefault (tk_rdepids s') fn). ignored rx t s' \<or> provided (tk_run_targets s') s' t)))"
proof -
  from validD [OF add_providers_valid [OF x c lim ts] run]
  have g: "good U {} {} {} {} s" and l: "length (dc_task_deps (tk_cache s)) < lim" by simp_all
  have "to_settle U s < fuel" using to_settle_le [OF U, of s] fuel by simp
  from add_unresolved_settles [OF x U g l this, of gv rx] obtain r s' where
    a: "add_unresolved fuel gv rx xd lim s = Some (r, s')" and
    s': "r = Inr () \<Longrightarrow> good U {} {} {} {} s' \<and> all_settled rx s'" by auto
  have "provided (tk_build_targets s') s' t"
    if "r = Inr ()" "fn \<in> set (tk_seenfns s')" "fn \<notin> set (tk_failed_fns s')"
      "t \<in> set (ddefault (tk_depids s') fn)" "\<not> ignored rx t s'" for fn t
    using all_settled_resolved(1) [of U s' rx fn t] good_providers(1) [of U s' _ t] s' that
    unfolding provided_def by blast
  moreover have "provided (tk_run_targets s') s' t"
    if "r = Inr ()" "fn \<in> set (tk_seenfns s')" "fn \<notin> set (tk_failed_fns s')"
      "t \<in> set (ddefault (tk_rdepids s') fn)" "\<not> ignored rx t s'" for fn t
    using all_settled_resolved(2) [of U s' rx fn t] good_providers(2) [of U s' _ t] s' that
    unfolding provided_def by blast
  ultimately show ?thesis using a by blast
qed


section \<open>Examples\<close>

definition plain_task :: taskdeps where
  "plain_task = \<lparr>td_tasks = [''do_build''], td_parents = [(''do_build'', [])], td_flags = []\<rparr>"

text \<open>A recipe cache with one file per provided name, of equal versions and priorities.\<close>

definition plain_cache :: "(string \<times> string) list \<Rightarrow> (string, string list) dict \<Rightarrow> (string, string list) dict \<Rightarrow> datacache" where
  "plain_cache files provs deps = init_cacheData
     \<lparr>dc_task_deps := map (\<lambda>(f, pn). (f, plain_task)) files,
      dc_pkg_fn := files,
      dc_pkg_pepvpr := map (\<lambda>(f, pn). (f, (EStr [], ''1'', ''r0''))) files,
      dc_pkg_dp := map (\<lambda>(f, pn). (f, 0)) files,
      dc_bbfile_priority := map (\<lambda>(f, pn). (f, 5)) files,
      dc_providers := provs, dc_deps := deps\<rparr>"

definition no_vars :: "string \<Rightarrow> string option" where "no_vars = (\<lambda>v. None)"
definition no_match :: "string \<Rightarrow> (string \<Rightarrow> bool) option" where "no_match = (\<lambda>p. Some (\<lambda>s. False))"
definition same_deps :: extra_deps where "same_deps = (\<lambda>f deps w p pn. Inr deps)"

lemma same_deps_ok: "extra_ok U same_deps"
  by (simp add: extra_ok_def same_deps_def)

definition chain_cache :: datacache where
  "chain_cache = plain_cache [(''f1'', ''a''), (''f2'', ''b'')] [(''a'', [''f1'']), (''b'', [''f2''])]
     [(''f1'', [''b'']), (''f2'', [''a''])]"

lemma chain_cache_names: "cache_names {''a'', ''b''} chain_cache"
  by (auto simp: cache_names_def chain_cache_def plain_cache_def init_cacheData_def ddefault_def
      flags_in_def plain_task_def flag_value_def split: if_splits option.splits)


definition start_state :: "datacache \<Rightarrow> string list \<Rightarrow> unit res \<times> tkstate" where
  "start_state dc targets =
     mfor targets (add_provider no_vars no_match same_deps 9) (taskdata_init False False False dc)"

lemma start_chain: "fst (start_state chain_cache [''a'']) = Inr ()"
  by code_simp

lemma resolved_chain:
  "case add_unresolved 5 no_vars no_match same_deps 9 (snd (start_state chain_cache [''a''])) of
     None \<Rightarrow> False
   | Some (r, s') \<Rightarrow> r = Inr () \<and> ''f1'' \<in> set (tk_seenfns s') \<and> ''f1'' \<notin> set (tk_failed_fns s') \<and>
       ''b'' \<in> set (ddefault (tk_depids s') ''f1'')"
  by code_simp

lemma resolution_complete_witness:
  "\<exists>s s'. start_state chain_cache [''a''] = (Inr (), s) \<and>
     add_unresolved 5 no_vars no_match same_deps 9 s = Some (Inr (), s') \<and> ''f1'' \<in> set (tk_seenfns s') \<and>
     (ignored no_match ''b'' s' \<or> provided (tk_build_targets s') s' ''b'')"
proof -
  obtain s where s: "start_state chain_cache [''a''] = (Inr (), s)"
    using start_chain by (cases "start_state chain_cache [''a'']") auto
  have "finite {''a'', ''b''}" "set [''a''] \<subseteq> {''a'', ''b''}" "length (dc_task_deps chain_cache) < 9"
    "2 * card {''a'', ''b''} < (5 :: nat)" by (simp_all add: chain_cache_def plain_cache_def)
  from resolution_complete [OF this(1) same_deps_ok chain_cache_names this(2-4) s [unfolded start_state_def]] s
    resolved_chain show ?thesis by auto
qed

text \<open>
  C23: Failing a file propagates completely and ends. In a consistent task data without abort,
  \<open>fail_fn\<close> returns (a recursion depth of the number of known files is enough), the file and
  everything that failed with it is in no provider list any more, a target whose list became empty
  is marked as failed, every file that depends on a failed target has failed, and so has the file of
  every task that names a target that failed on the way in its depends (for run targets: rdepends)
  flag.
\<close>
theorem fail_fn_propagates:
  assumes ok: "\<not> tk_abort s" "tkinv {} {} {} s" and lim: "card (insert fn (known_fns s)) < lim"
  shows "\<exists>s'. fail_fn lim fn s = (Inr (), s') \<and> fn \<in> set (tk_failed_fns s') \<and>
    (\<forall>t f. f \<in> set (tk_failed_fns s') \<longrightarrow>
       f \<notin> set (ddefault (tk_build_targets s') t) \<and> f \<notin> set (ddefault (tk_run_targets s') t)) \<and>
    (\<forall>t. ddefault (tk_build_targets s) t \<noteq> [] \<and> ddefault (tk_build_targets s') t = [] \<longrightarrow>
       t \<in> set (tk_failed_deps s')) \<and>
    (\<forall>t. ddefault (tk_run_targets s) t \<noteq> [] \<and> ddefault (tk_run_targets s') t = [] \<longrightarrow>
       t \<in> set (tk_failed_rdeps s')) \<and>
    (\<forall>t f. t \<in> set (tk_failed_deps s') \<and> t \<in> set (ddefault (tk_depids s') f) \<longrightarrow> f \<in> set (tk_failed_fns s')) \<and>
    (\<forall>t f. t \<in> set (tk_failed_rdeps s') \<and> t \<in> set (ddefault (tk_rdepids s') f) \<longrightarrow> f \<in> set (tk_failed_fns s')) \<and>
    (\<forall>t tid e q. t \<in> set (tk_failed_deps s') \<and> t \<notin> set (tk_failed_deps s) \<and>
       dget (tk_taskentries s') tid = Some e \<and> (t, q) \<in> set (te_idepends e) \<longrightarrow>
       fn_from_tid tid \<in> set (tk_failed_fns s')) \<and>
    (\<forall>t tid e q. t \<in> set (tk_failed_rdeps s') \<and> t \<notin> set (tk_failed_rdeps s) \<and>
       dget (tk_taskentries s') tid = Some e \<and> (t, q) \<in> set (te_irdepends e) \<longrightarrow>
       fn_from_tid tid \<in> set (tk_failed_fns s'))"
proof -
  let ?U = "insert fn (known_fns s)"
  have f: "finite ?U" by (simp add: known_fns_def)
  have "card (?U - set (tk_failed_fns s)) < lim"
    using lim card_mono [OF f, of "?U - set (tk_failed_fns s)"] by auto
  then have p: "fail_pre ?U lim {} {} {} s" using ok by (auto simp: fail_pre_def)
  have v: "valid (fail_fn lim fn) s
     (\<lambda>_ s'. tkinv {} {} {} s' \<and> fail_rel s s' \<and> fn \<in> set (tk_failed_fns s')) (\<lambda>_ _. False)"
    by (rule valid_conseq [OF good_fail_valid [OF good_fail_fn p]]) (use f in \<open>auto simp: fail_pre_def\<close>)
  from valid_no_raise [OF v] obtain s' where r: "fail_fn lim fn s = (Inr (), s')"
    and t: "tkinv {} {} {} s'" and fr: "fail_rel s s'" and fn: "fn \<in> set (tk_failed_fns s')" by auto
  have sh: "shrink (tk_build_targets s) (tk_build_targets s') (tk_failed_deps s')"
    "shrink (tk_run_targets s) (tk_run_targets s') (tk_failed_rdeps s')" using fr by (simp_all add: fail_rel_defs)
  have a: "\<forall>t f. f \<in> set (tk_failed_fns s') \<longrightarrow>
       f \<notin> set (ddefault (tk_build_targets s') t) \<and> f \<notin> set (ddefault (tk_run_targets s') t)"
    using t unfolding tkinv_def lists_ok_def by blast
  have b: "\<forall>t. ddefault (tk_build_targets s) t \<noteq> [] \<and> ddefault (tk_build_targets s') t = [] \<longrightarrow>
       t \<in> set (tk_failed_deps s')"
    "\<forall>t. ddefault (tk_run_targets s) t \<noteq> [] \<and> ddefault (tk_run_targets s') t = [] \<longrightarrow>
       t \<in> set (tk_failed_rdeps s')" using sh unfolding shrink_def by blast+
  have c: "\<forall>t f. t \<in> set (tk_failed_deps s') \<and> t \<in> set (ddefault (tk_depids s') f) \<longrightarrow> f \<in> set (tk_failed_fns s')"
    "\<forall>t f. t \<in> set (tk_failed_rdeps s') \<and> t \<in> set (ddefault (tk_rdepids s') f) \<longrightarrow> f \<in> set (tk_failed_fns s')"
    using t unfolding tkinv_def closed_def by blast+
  have d: "\<forall>t tid e q. t \<in> set (tk_failed_deps s') \<and> t \<notin> set (tk_failed_deps s) \<and>
       dget (tk_taskentries s') tid = Some e \<and> (t, q) \<in> set (te_idepends e) \<longrightarrow> fn_from_tid tid \<in> set (tk_failed_fns s')"
    "\<forall>t tid e q. t \<in> set (tk_failed_rdeps s') \<and> t \<notin> set (tk_failed_rdeps s) \<and>
       dget (tk_taskentries s') tid = Some e \<and> (t, q) \<in> set (te_irdepends e) \<longrightarrow> fn_from_tid tid \<in> set (tk_failed_fns s')"
    using fr unfolding fail_rel_def tasks_failed_def by blast+
  from r fn a b c d show ?thesis by blast
qed

text \<open>f1 depends on b, and a task of f3 names b in its depends flag.\<close>

definition chain_data :: tkstate where
  "chain_data = (taskdata_init False False False chain_cache)
     \<lparr>tk_build_targets := [(''a'', [''f1'']), (''b'', [''f2'']), (''c'', [''f1'', ''f2''])],
      tk_taskentries := [(''f3:do_fetch'', \<lparr>te_tdepends = [], te_idepends = [(''b'', ''do_install'')], te_irdepends = []\<rparr>)],
      tk_depids := [(''f1'', [''b'']), (''f2'', [])]\<rparr>"

lemma fail_fn_propagates_witness:
  "\<exists>s'. fail_fn 4 ''f2'' chain_data = (Inr (), s') \<and> ''f1'' \<in> set (tk_failed_fns s') \<and>
     ''f3'' \<in> set (tk_failed_fns s') \<and> ddefault (tk_build_targets s') ''a'' = []"
proof -
  have i: "tkinv {} {} {} chain_data" "\<not> tk_abort chain_data"
    by (simp_all add: chain_data_def taskdata_init_def tkinv_def lists_ok_def closed_def ddefault_def)
  have f3: "fn_from_tid ''f3:do_fetch'' = ''f3''" by code_simp
  have k: "insert ''f2'' (known_fns chain_data) = {''f1'', ''f2'', ''f3''}"
    by (auto simp: known_fns_def chain_data_def taskdata_init_def f3)
  have c: "card (insert ''f2'' (known_fns chain_data)) < 4" unfolding k by simp
  have "case fail_fn 4 ''f2'' chain_data of (r, s') \<Rightarrow> ''f1'' \<in> set (tk_failed_fns s') \<and>
     ''f3'' \<in> set (tk_failed_fns s') \<and> ddefault (tk_build_targets s') ''a'' = []" by code_simp
  with fail_fn_propagates [OF i(2,1) c] show ?thesis by auto
qed

text \<open>
  The required target w is provided by f2 and f3; f2 and f1 depend on x, which nothing provides,
  and f3 depends on d, which only f1 provides.
\<close>

definition swallow_cache :: datacache where
  "swallow_cache = plain_cache [(''f1'', ''d''), (''f2'', ''p''), (''f3'', ''q'')]
     [(''w'', [''f2'', ''f3'']), (''d'', [''f1''])] [(''f1'', [''x'']), (''f2'', [''x'']), (''f3'', [''d''])]"

text \<open>The state in which w was accepted.\<close>

definition swallow_data :: tkstate where
  "swallow_data = (let e = \<lparr>te_tdepends = [], te_idepends = [], te_irdepends = []\<rparr> in
     (taskdata_init True False False swallow_cache)
     \<lparr>tk_build_targets := [(''w'', [''f2'', ''f3'']), (''x'', []), (''d'', [])], tk_external_targets := [''w''],
      tk_seenfns := [''f2'', ''f3''], tk_taskentries := [(''f2:do_build'', e), (''f3:do_build'', e)],
      tk_depids := [(''f2'', [''x'']), (''f3'', [''d''])], tk_rdepids := [(''f2'', []), (''f3'', [])],
      tk_consider := [''w'']\<rparr>)"

lemma swallow_accepted:
  "add_provider no_vars no_match same_deps 9 ''w'' (taskdata_init True False False swallow_cache) = (Inr (), swallow_data)"
  by code_simp

lemma swallow_resolved:
  "case add_unresolved 9 no_vars no_match same_deps 9 swallow_data of
     None \<Rightarrow> False
   | Some (r, s') \<Rightarrow> r = Inr () \<and> ''w'' \<in> set (tk_external_targets s') \<and> \<not> have_build_target ''w'' s'"
  by code_simp

text \<open>
  The abort setting is not honoured for every required target. With abort set, the required
  target w is accepted by \<open>add_provider\<close>. In \<open>add_unresolved\<close>, x fails first, so f2 fails, and w
  keeps f3. Resolving d then adds f1, which fails because of x; the removal goes on from d to f3 and
  to the required target w and raises \<open>NoProvider\<close> for w. The handler of the loop takes it for a
  failure of d, which is not required, and goes on: the resolution returns normally although the
  required target w has no provider.
\<close>
theorem abort_swallowed:
  "case add_provider no_vars no_match same_deps 9 ''w'' (taskdata_init True False False swallow_cache) of
     (r, s) \<Rightarrow> r = Inr () \<and> tk_abort s \<and>
       (case add_unresolved 9 no_vars no_match same_deps 9 s of
          None \<Rightarrow> False
        | Some (r, s') \<Rightarrow> r = Inr () \<and> ''w'' \<in> set (tk_external_targets s') \<and> \<not> have_build_target ''w'' s')"
  using swallow_resolved by (simp add: swallow_accepted) (simp add: swallow_data_def Let_def taskdata_init_def)

end
