(* ===== verification/BB_RunPrepProps.thy ===== *)
theory BB_RunPrepProps
  imports BB_RunPrep BB_Resolve
begin

text \<open>
  Correctness of \<open>RunQueueData.prepare\<close>: the loops end, the active tasks are those the targets need,
  the recursive dependencies are those of the documentation, and the table handed to the task
  execution is closed, mirrored, free of loops and completely hashed.
\<close>

section \<open>What step A leaves\<close>

text \<open>A table before the reverse dependencies are added.\<close>

definition fresh :: "runtasks \<Rightarrow> bool" where
  "fresh es \<longleftrightarrow> dwf es \<and> (\<forall>t e. dget es t = Some e \<longrightarrow> distinct (rt_depends e) \<and> rt_revdeps e = [])"

lemma fresh_dset: "fresh es \<Longrightarrow> distinct ds \<Longrightarrow> fresh (dset t (new_rtentry\<lparr>rt_depends := ds\<rparr>) es)"
  by (auto simp: fresh_def dict_simps new_rtentry_def)

lemma fresh_dset_new: "fresh es \<Longrightarrow> fresh (dset t new_rtentry es)"
  by (auto simp: fresh_def dict_simps new_rtentry_def)

lemma fold_distinct:
  "distinct d \<Longrightarrow> (\<And>x d. distinct d \<Longrightarrow> distinct (f x d)) \<Longrightarrow> distinct (fold f xs d)"
  by (induction xs arbitrary: d) auto

lemma distinct_add_target_deps: "distinct d \<Longrightarrow> distinct (add_target_deps ts es ids names d)"
  unfolding add_target_deps_def by (intro fold_distinct) (auto intro!: fold_distinct simp: Let_def split: list.split)

lemma distinct_add_resolved [simp]: "distinct d \<Longrightarrow> distinct (add_resolved_dependencies es mc fn names d)"
  unfolding add_resolved_dependencies_def by (intro fold_distinct) (auto simp: Let_def)

lemma set_add_resolved [simp]:
  "set (add_resolved_dependencies es mc fn names d) =
     set d \<union> {t \<in> build_tid mc fn ` set names. t \<in> set (dkeys es)}"
proof -
  have "set (fold (\<lambda>n d. let t = build_tid mc fn n in if t \<in> K then sadd t d else d) names d) =
     set d \<union> {t \<in> build_tid mc fn ` set names. t \<in> K}" for K
    by (induction names arbitrary: d) (auto simp: Let_def)
  then show ?thesis unfolding add_resolved_dependencies_def .
qed

lemma rfold_distinct:
  "rfold f xs d = Inr d' \<Longrightarrow> distinct d \<Longrightarrow> (\<And>x d d'. distinct d \<Longrightarrow> f x d = Inr d' \<Longrightarrow> distinct d') \<Longrightarrow> distinct d'"
  by (erule rfold_invariant) auto

lemma distinct_add_flag_deps:
  "add_flag_deps flag add ids taskfn d = Inr d' \<Longrightarrow> distinct d \<Longrightarrow>
     (\<And>i n d. distinct d \<Longrightarrow> distinct (add i n d)) \<Longrightarrow> distinct d'"
  by (auto simp: add_flag_deps_def res_simps split: option.splits)

lemma distinct_add_tdepends: "add_tdepends mc ts d = Inr d' \<Longrightarrow> distinct d \<Longrightarrow> distinct d'"
  unfolding add_tdepends_def by (erule rfold_distinct) (auto simp: res_simps)

lemma distinct_add_idepend: "add_idepend td x y d = Inr d' \<Longrightarrow> distinct d \<Longrightarrow> distinct d'"
  by (auto simp: add_idepend_def Let_def split: if_splits)

lemma distinct_add_idepends: "add_idepends td ids d = Inr d' \<Longrightarrow> distinct d \<Longrightarrow> distinct d'"
  unfolding add_idepends_def
  by (erule rfold_distinct) (auto split: list.splits if_splits dest: distinct_add_idepend)

lemma distinct_add_irdepends: "add_irdepends td ids d = Inr d' \<Longrightarrow> distinct d \<Longrightarrow> distinct d'"
  unfolding add_irdepends_def
  by (erule rfold_distinct) (auto split: list.splits option.splits dest: distinct_add_idepend)

lemma add_recursive_keeps:
  assumes "add_recursive td tdp tid x (d, p) = Inr (d', p')" "distinct d"
  shows "distinct d' \<and> pr_entries p' = pr_entries p"
  using assms
  by (auto simp: add_recursive_def Let_def res_simps add_runtime_dependencies_def add_build_dependencies_def
      distinct_add_target_deps split: prod.splits option.splits)

lemma collect_task_fresh:
  assumes "collect_task inp tid p = Inr p'" "fresh (pr_entries p)"
  shows "fresh (pr_entries p')"
proof -
  from assms(1) obtain mc fn taskname taskfn dc tdp td where
    a: "split_tid_mcfn tid = Inr (mc, fn, taskname, taskfn)" "ditem (rq_caches inp) mc = Inr dc"
      "ditem (dc_task_deps dc) taskfn = Inr tdp" "ditem (rq_taskdata inp) mc = Inr td"
    by (auto simp: collect_task_def res_simps Let_def)
  let ?p = "p\<lparr>pr_entries := dset tid new_rtentry (pr_entries p)\<rparr>"
  have f: "fresh (pr_entries ?p)" using assms(2) fresh_dset_new by simp
  show ?thesis
  proof (cases "fn \<in> set (tk_failed_fns td)")
    case True
    then show ?thesis using assms(1) a f by (simp add: collect_task_def)
  next
    case False
    then obtain e :: taskentry and d1 d2 d3 d4 d5 d6 q where
      b: "add_tdepends mc (te_tdepends e) [] = Inr d1"
      "add_flag_deps (flag_value tdp ''deptask'' taskname) (add_build_dependencies td) (tk_depids td) taskfn d1 = Inr d2"
      "add_flag_deps (flag_value tdp ''rdeptask'' taskname) (add_runtime_dependencies td) (tk_rdepids td) taskfn d2 = Inr d3"
      "add_idepends td (te_idepends e) d3 = Inr d4" "add_irdepends td (te_irdepends e) d4 = Inr d5"
      "add_recursive td tdp tid (mc, fn, taskname, taskfn) (d5, ?p) = Inr (d6, q)"
      and p': "p' = q\<lparr>pr_entries := dset tid (new_rtentry\<lparr>rt_depends := d6\<rparr>) (pr_entries q)\<rparr>"
      using assms(1) a by (auto simp: collect_task_def res_simps Let_def split: prod.splits)
    have "distinct d1" using distinct_add_tdepends [OF b(1)] by simp
    then have "distinct d2" using distinct_add_flag_deps [OF b(2)] distinct_add_target_deps
      by (auto simp: add_build_dependencies_def)
    then have "distinct d3" using distinct_add_flag_deps [OF b(3)] distinct_add_target_deps
      by (auto simp: add_runtime_dependencies_def)
    then have "distinct d5" using distinct_add_idepends [OF b(4)] distinct_add_irdepends [OF b(5)] by simp
    from add_recursive_keeps [OF b(6) this] show ?thesis using p' assms(2) fresh_dset by simp
  qed
qed

lemma collect_tasks_fresh: "collect_tasks inp = Inr p \<Longrightarrow> fresh (pr_entries p)"
  unfolding collect_tasks_def
proof (erule rfold_invariant [where P = "\<lambda>p. fresh (pr_entries p)"])
  fix x s t assume f: "fresh (pr_entries s)"
    and r: "(case x of (mc, td) \<Rightarrow> rfold (collect_task inp) (dkeys (tk_taskentries td))) s = Inr t"
  then show "fresh (pr_entries t)"
    by (cases x) (auto elim!: rfold_invariant [where P = "\<lambda>p. fresh (pr_entries p)"] dest: collect_task_fresh)
qed (simp add: fresh_def)

lemma fresh_with_extradeps:
  assumes "fresh es" "\<And>t d. dget extra t = Some d \<Longrightarrow> distinct d"
  shows "fresh (with_extradeps extra es)"
proof -
  have k: "dkeys (with_extradeps extra es) = dkeys es" by (simp add: with_extradeps_def comp_def case_prod_unfold)
  have g: "dget (with_extradeps extra es) t = map_option (\<lambda>e. e\<lparr>rt_depends :=
       removeAll t (case dget extra t of None \<Rightarrow> rt_depends e | Some d \<Rightarrow> d)\<rparr>) (dget es t)" for t
    unfolding with_extradeps_def
  proof (induction es)
    case (Cons x es)
    then show ?case by (cases x) (simp add: case_prod_unfold cong: option.case_cong)
  qed simp
  have "distinct (rt_depends e) \<and> rt_revdeps e = []" if "dget (with_extradeps extra es) t = Some e" for t e
  proof -
    from that obtain e0 where e0: "dget es t = Some e0" and e: "e = e0\<lparr>rt_depends :=
       removeAll t (case dget extra t of None \<Rightarrow> rt_depends e0 | Some d \<Rightarrow> d)\<rparr>" unfolding g by blast
    have "distinct (rt_depends e0)" "rt_revdeps e0 = []" using assms(1) e0 unfolding fresh_def by blast+
    moreover have "distinct (case dget extra t of None \<Rightarrow> rt_depends e0 | Some d \<Rightarrow> d)"
    proof (cases "dget extra t")
      case None
      then show ?thesis using \<open>distinct (rt_depends e0)\<close> by simp
    next
      case (Some d)
      then show ?thesis using assms(2) [OF Some] by simp
    qed
    ultimately show ?thesis unfolding e by (simp add: distinct_removeAll)
  qed
  moreover have "dwf (with_extradeps extra es)" using assms(1) unfolding fresh_def k by blast
  ultimately show ?thesis unfolding fresh_def by blast
qed

section \<open>Marking the active tasks\<close>

text \<open>
  A depth-first search along \<open>succ\<close> over the nodes K: the visited nodes B grow to B' by nodes that
  are reachable from the roots, and the successors of what is new have been visited.
\<close>

definition marked :: "('a \<Rightarrow> 'a set) \<Rightarrow> 'a set \<Rightarrow> 'a set \<Rightarrow> 'a set \<Rightarrow> 'a set \<Rightarrow> bool" where
  "marked succ K roots B B' \<longleftrightarrow> B \<subseteq> B' \<and> roots \<subseteq> B' \<and>
     (\<forall>t \<in> B' - B. t \<in> K \<and> succ t \<subseteq> B' \<and> (\<exists>r \<in> roots. (r, t) \<in> {(t, u). u \<in> succ t}\<^sup>*))"

lemma marked_refl: "roots \<subseteq> B \<Longrightarrow> marked succ K roots B B"
  by (auto simp: marked_def)

lemma marked_mono: "marked succ K roots B B' \<Longrightarrow> B \<subseteq> B'"
  by (simp add: marked_def)

lemma marked_trans: "marked succ K r1 B B1 \<Longrightarrow> marked succ K r2 B1 B2 \<Longrightarrow> marked succ K (r1 \<union> r2) B B2"
  unfolding marked_def by blast

lemma rfold_marked:
  assumes "rfold f xs s = Inr s'"
    and "\<And>x s s'. x \<in> set xs \<Longrightarrow> f x s = Inr s' \<Longrightarrow> marked succ K (R x) (seen s) (seen s')"
  shows "marked succ K (\<Union>x \<in> set xs. R x) (seen s) (seen s')"
  using assms
proof (induction xs arbitrary: s)
  case (Cons x xs)
  then obtain u where u: "f x s = Inr u" "rfold f xs u = Inr s'" by (auto simp: res_simps)
  have "marked succ K (R x) (seen s) (seen u)" using Cons.prems(2) [OF _ u(1)] by simp
  moreover have "marked succ K (\<Union>x \<in> set xs. R x) (seen u) (seen s')" using Cons.IH [OF u(2)] Cons.prems(2) by simp
  ultimately show ?case using marked_trans [of succ K "R x"] by simp
qed (simp add: marked_refl)

lemma marked_succ:
  assumes "marked succ K (succ t) (insert t B) B'" "t \<in> K"
  shows "marked succ K {t} B B'"
proof -
  have "(t, u) \<in> {(t, u). u \<in> succ t}\<^sup>*" if "r \<in> succ t" "(r, u) \<in> {(t, u). u \<in> succ t}\<^sup>*" for r u
    using that by (auto intro: converse_rtrancl_into_rtrancl)
  then show ?thesis using assms unfolding marked_def by blast
qed

lemma marked_closed:
  assumes "marked succ K roots {} B"
  shows "B = {t. \<exists>r \<in> roots. (r, t) \<in> {(t, u). u \<in> succ t}\<^sup>*}"
proof
  show "B \<subseteq> {t. \<exists>r \<in> roots. (r, t) \<in> {(t, u). u \<in> succ t}\<^sup>*}" using assms by (auto simp: marked_def)
  have "t \<in> B" if "(r, t) \<in> {(t, u). u \<in> succ t}\<^sup>*" "r \<in> roots" for r t
    using that(1)
  proof (induction rule: rtrancl_induct)
    case base
    then show ?case using that(2) assms by (auto simp: marked_def)
  next
    case (step t u)
    then show ?case using assms by (auto simp: marked_def)
  qed
  then show "{t. \<exists>r \<in> roots. (r, t) \<in> {(t, u). u \<in> succ t}\<^sup>*} \<subseteq> B" by blast
qed

abbreviation dep_set :: "runtasks \<Rightarrow> string \<Rightarrow> string set" where
  "dep_set es t \<equiv> set (deps_of es t)"

lemma mark_active_marked:
  "mark_active lim es tid build = Inr build' \<Longrightarrow>
     marked (dep_set es) (set (dkeys es)) {tid} (set build) (set build')"
proof (induction lim arbitrary: tid build build')
  case (Suc lim)
  show ?case
  proof (cases "tid \<in> set build")
    case True
    then show ?thesis using Suc.prems by (simp add: marked_refl)
  next
    case False
    then obtain e where e: "dget es tid = Some e"
      and r: "rfold (mark_active lim es) (rt_depends e) (build @ [tid]) = Inr build'"
      using Suc.prems by (auto simp: res_simps)
    have "marked (dep_set es) (set (dkeys es)) (\<Union>x \<in> set (rt_depends e). {x}) (set (build @ [tid])) (set build')"
      using rfold_marked [OF r Suc.IH] .
    moreover have "deps_of es tid = rt_depends e" by (simp add: deps_of_def e)
    moreover have "tid \<in> set (dkeys es)" using e unfolding dget_Some_key by blast
    ultimately show ?thesis by (intro marked_succ) simp_all
  qed
qed simp

text \<open>A recursion depth of the number of tasks is enough, and no key is missing in a closed table.\<close>

lemma mark_active_total:
  assumes cl: "\<And>t. set (deps_of es t) \<subseteq> set (dkeys es)"
  shows "tid \<in> set (dkeys es) \<Longrightarrow> distinct build \<Longrightarrow> set build \<subseteq> set (dkeys es) \<Longrightarrow>
    length es < lim + length build \<Longrightarrow>
    \<exists>build'. mark_active lim es tid build = Inr build' \<and> distinct build' \<and> set build' \<subseteq> set (dkeys es) \<and>
      length build \<le> length build'"
proof (induction lim arbitrary: tid build)
  case 0
  then show ?case using distinct_keys_length [of build es] by simp
next
  case (Suc lim)
  show ?case
  proof (cases "tid \<in> set build")
    case True
    then show ?thesis using Suc.prems by simp
  next
    case False
    obtain e where e: "dget es tid = Some e" using Suc.prems(1) unfolding dget_Some_key by blast
    have d: "set (rt_depends e) \<subseteq> set (dkeys es)" using cl [of tid] by (simp add: deps_of_def e)
    let ?P = "\<lambda>b. distinct b \<and> set b \<subseteq> set (dkeys es) \<and> Suc (length build) \<le> length b"
    have "\<exists>b. rfold (mark_active lim es) (rt_depends e) (build @ [tid]) = Inr b \<and> ?P b"
    proof (rule rfold_total)
      show "?P (build @ [tid])" using Suc.prems False by (simp del: list.set_map)
      fix x b assume x: "x \<in> set (rt_depends e)" and b: "?P b"
      have "\<exists>b'. mark_active lim es x b = Inr b' \<and> distinct b' \<and> set b' \<subseteq> set (dkeys es) \<and> length b \<le> length b'"
        by (rule Suc.IH) (use x d b Suc.prems(4) in auto)
      then show "\<exists>b'. mark_active lim es x b = Inr b' \<and> ?P b'" using b by fastforce
    qed
    then show ?thesis using False by (auto simp: ditem_def e)
  qed
qed

text \<open>
  C19: The active tasks. In a table whose dependencies all lie in it, marking a task with a recursion
  depth of one more than the number of tasks returns exactly the tasks reachable from it through the
  dependencies, each once.
\<close>
theorem mark_active_reachable:
  assumes cl: "\<And>t. set (deps_of es t) \<subseteq> set (dkeys es)" and tid: "tid \<in> set (dkeys es)"
  shows "\<exists>build. mark_active (Suc (length es)) es tid [] = Inr build \<and> distinct build \<and>
    set build = {t. (tid, t) \<in> {(t, u). u \<in> set (deps_of es t)}\<^sup>*}"
proof -
  obtain build where b: "mark_active (Suc (length es)) es tid [] = Inr build" "distinct build"
    using mark_active_total [OF cl tid, of "[]" "Suc (length es)"] by auto
  have "marked (dep_set es) (set (dkeys es)) {tid} {} (set build)" using mark_active_marked [OF b(1)] by simp
  from marked_closed [OF this] b show ?thesis by simp
qed

lemma mark_active_reachable_witness:
  "\<exists>build. mark_active 5 demo_tasks ''a:c'' [] = Inr build \<and> ''a:f'' \<in> set build"
proof -
  have c: "set (deps_of demo_tasks t) \<subseteq> set (dkeys demo_tasks)" for t
    using demo_tasks_wf unfolding rt_wf_def by blast
  have t: "''a:c'' \<in> set (dkeys demo_tasks)" and d: "''a:f'' \<in> set (deps_of demo_tasks ''a:c'')"
    and l: "Suc (length demo_tasks) = 5" by code_simp+
  from mark_active_reachable [OF c t] show ?thesis using d unfolding l by (auto intro: r_into_rtrancl)
qed

section \<open>Recursive dependencies\<close>

text \<open>The tasks of the given names in the recipe of t.\<close>

definition resolved :: "runtasks \<Rightarrow> string list \<Rightarrow> string \<Rightarrow> string set" where
  "resolved es names t =
     {u. \<exists>mc fn x y name. split_tid_mcfn t = Inr (mc, fn, x, y) \<and> name \<in> set names \<and>
         u = build_tid mc fn name \<and> u \<in> set (dkeys es)}"

text \<open>What the search goes on to: the dependencies of t and of these tasks.\<close>

definition rec_succ :: "runtasks \<Rightarrow> string list \<Rightarrow> string \<Rightarrow> string set" where
  "rec_succ es names t = (\<Union>i \<in> insert t (resolved es names t). dep_set es i)"

definition walk :: "runtasks \<Rightarrow> string list \<Rightarrow> string set \<Rightarrow> string list \<times> string list \<Rightarrow> string list \<times> string list \<Rightarrow> bool" where
  "walk es names roots st st' \<longleftrightarrow>
     marked (rec_succ es names) (set (dkeys es)) roots (set (snd st)) (set (snd st')) \<and>
     set (fst st') = set (fst st) \<union> (\<Union>x \<in> set (snd st') - set (snd st). resolved es names x) \<and>
     (distinct (fst st) \<longrightarrow> distinct (fst st'))"

lemma walk_refl: "roots \<subseteq> set (snd st) \<Longrightarrow> walk es names roots st st"
  by (simp add: walk_def marked_refl)

lemma walk_trans:
  assumes a: "walk es names r1 s s1" and b: "walk es names r2 s1 s2"
  shows "walk es names (r1 \<union> r2) s s2"
proof -
  have "set (snd s) \<subseteq> set (snd s1)" "set (snd s1) \<subseteq> set (snd s2)"
    using a b unfolding walk_def by (meson marked_mono)+
  then have d: "set (snd s2) - set (snd s) = (set (snd s1) - set (snd s)) \<union> (set (snd s2) - set (snd s1))" by blast
  have "marked (rec_succ es names) (set (dkeys es)) (r1 \<union> r2) (set (snd s)) (set (snd s2))"
    using a b unfolding walk_def by (meson marked_trans)
  moreover have "set (fst s2) = set (fst s) \<union> (\<Union>x \<in> set (snd s2) - set (snd s). resolved es names x)"
    using a b unfolding walk_def d by (simp only: UN_Un Un_assoc)
  ultimately show ?thesis using a b by (simp add: walk_def)
qed

lemma rfold_walk:
  assumes "rfold f xs s = Inr s'"
    and "\<And>x s s'. x \<in> set xs \<Longrightarrow> f x s = Inr s' \<Longrightarrow> walk es names (R x) s s'"
  shows "walk es names (\<Union>x \<in> set xs. R x) s s'"
  using assms
proof (induction xs arbitrary: s)
  case (Cons x xs)
  then obtain u where u: "f x s = Inr u" "rfold f xs u = Inr s'" by (auto simp: res_simps)
  have "walk es names (R x) s u" using Cons.prems(2) [OF _ u(1)] by simp
  moreover have "walk es names (\<Union>x \<in> set xs. R x) u s'" using Cons.IH [OF u(2)] Cons.prems(2) by simp
  ultimately show ?case using walk_trans [of es names "R x"] by simp
qed (simp add: walk_refl)

lemma rfold_visits: "rfold f xs s = Inr s' \<Longrightarrow> x \<in> set xs \<Longrightarrow> \<exists>u u'. f x u = Inr u'"
  by (induction xs arbitrary: s) (auto simp: res_simps)

lemma generate_recdeps_walk:
  "generate_recdeps lim es names t st = Inr st' \<Longrightarrow>
     marked (rec_succ es names) (set (dkeys es)) {t} (set (snd st)) (set (snd st')) \<and>
     set (fst st') = set (fst st) \<union> resolved es names t \<union> (\<Union>x \<in> set (snd st') - set (snd st). resolved es names x) \<and>
     (distinct (fst st) \<longrightarrow> distinct (fst st'))"
proof (induction lim arbitrary: t st st')
  case (Suc lim)
  then obtain mc fn x y where sp: "split_tid_mcfn t = Inr (mc, fn, x, y)" by (auto simp: res_simps)
  define newdeps where "newdeps = add_resolved_dependencies es mc fn names []"
  have nd: "set newdeps = resolved es names t" by (auto simp: newdeps_def resolved_def sp)
  let ?s1 = "(fold sadd newdeps (fst st), sadd t (snd st))"
  let ?visit = "\<lambda>n st. if n \<in> set (snd st) then Inr st else generate_recdeps lim es names n st"
  from Suc.prems sp have r: "rfold (\<lambda>i st. rbind (ditem es i) (\<lambda>e. rfold ?visit (rt_depends e) st))
      (sadd t newdeps) ?s1 = Inr st'" by (simp add: newdeps_def Let_def)
  have v: "walk es names {n} s s'" if "?visit n s = Inr s'" for n s s'
  proof (cases "n \<in> set (snd s)")
    case True
    then show ?thesis using that by (simp add: walk_refl)
  next
    case False
    with that have "generate_recdeps lim es names n s = Inr s'" by simp
    from Suc.IH [OF this] False show ?thesis unfolding walk_def marked_def by auto
  qed
  have w: "walk es names (\<Union>i \<in> set (sadd t newdeps). dep_set es i) ?s1 st'"
  proof (rule rfold_walk [OF r])
    fix i s s' assume "rbind (ditem es i) (\<lambda>e. rfold ?visit (rt_depends e) s) = Inr s'"
    then obtain e where e: "dget es i = Some e" and f: "rfold ?visit (rt_depends e) s = Inr s'"
      by (auto simp: res_simps)
    have "walk es names (\<Union>x \<in> set (rt_depends e). {x}) s s'" by (rule rfold_walk [OF f v])
    then show "walk es names (dep_set es i) s s'" by (simp add: deps_of_def e)
  qed
  have tk: "t \<in> set (dkeys es)"
  proof -
    have "\<exists>s s'. rbind (ditem es t) (\<lambda>e. rfold ?visit (rt_depends e) s) = Inr s'"
      using rfold_visits [OF r, of t] by simp
    then show ?thesis unfolding dget_Some_key by (auto simp: res_simps)
  qed
  have m: "marked (rec_succ es names) (set (dkeys es)) (rec_succ es names t) (insert t (set (snd st))) (set (snd st'))"
    using w nd unfolding walk_def by (simp add: rec_succ_def)
  have "set (fst st') = set newdeps \<union> set (fst st) \<union>
      (\<Union>x \<in> set (snd st') - insert t (set (snd st)). resolved es names x)"
    using w by (auto simp: walk_def set_fold_sadd)
  moreover have "distinct (fst st) \<longrightarrow> distinct (fst st')"
    using w distinct_fold_sadd [of "fst st" newdeps] by (simp add: walk_def)
  ultimately show ?case using marked_succ [OF m tk] nd by auto
qed simp

lemma rfold_recdeps:
  assumes "rfold (generate_recdeps lim es names) ts st = Inr st'"
  shows "marked (rec_succ es names) (set (dkeys es)) (set ts) (set (snd st)) (set (snd st')) \<and>
     set (fst st') = set (fst st) \<union> (\<Union>x \<in> set ts \<union> (set (snd st') - set (snd st)). resolved es names x) \<and>
     (distinct (fst st) \<longrightarrow> distinct (fst st'))"
  using assms
proof (induction ts arbitrary: st)
  case (Cons t ts)
  from Cons.prems obtain u where u: "generate_recdeps lim es names t st = Inr u"
    "rfold (generate_recdeps lim es names) ts u = Inr st'" by (auto simp: res_simps)
  note a = generate_recdeps_walk [OF u(1)] and b = Cons.IH [OF u(2)]
  have s: "set (snd st) \<subseteq> set (snd u)" "set (snd u) \<subseteq> set (snd st')"
    using a b by (meson marked_mono)+
  then have d: "set (snd st') - set (snd st) = (set (snd u) - set (snd st)) \<union> (set (snd st') - set (snd u))" by blast
  have "marked (rec_succ es names) (set (dkeys es)) ({t} \<union> set ts) (set (snd st)) (set (snd st'))"
    using a b by (meson marked_trans)
  moreover have "set (fst st') = set (fst st) \<union>
      (\<Union>x \<in> set (t # ts) \<union> (set (snd st') - set (snd st)). resolved es names x)"
  proof -
    have "set (fst u) = set (fst st) \<union> resolved es names t \<union> (\<Union>x \<in> set (snd u) - set (snd st). resolved es names x)"
      "set (fst st') = set (fst u) \<union> (\<Union>x \<in> set ts \<union> (set (snd st') - set (snd u)). resolved es names x)"
      using a b by blast+
    then show ?thesis unfolding d by auto
  qed
  ultimately show ?case using a b by simp
qed (simp add: marked_refl)

text \<open>
  C18: The recursive dependencies. When \<open>recrdeptask\<close> of the task tid names some tasks, the
  dependencies computed for it are those it already had and the tasks of these names in every recipe
  that is reached: the search starts at tid and at its \<open>recideptask\<close> tasks, and goes on from a task
  to the dependencies of the task itself and of the named tasks of its recipe.
\<close>
theorem extradeps_recursive:
  assumes "extradeps_of p tid names = Inr extra"
  defines "es \<equiv> pr_entries p"
  shows "set extra = set (deps_of es tid) \<union>
    {u. u \<in> set (dkeys es) \<and> (\<exists>r t mc fn x y name. r \<in> insert tid (set (ddefault (pr_irec p) tid)) \<and>
        (r, t) \<in> {(t, n). n \<in> rec_succ es names t}\<^sup>* \<and>
        split_tid_mcfn t = Inr (mc, fn, x, y) \<and> name \<in> set names \<and> u = build_tid mc fn name)}"
proof -
  from assms(1) obtain e st st' where e: "dget es tid = Some e"
    and g: "generate_recdeps (Suc (Suc (length es))) es names tid (rt_depends e, []) = Inr st"
    and f: "rfold (generate_recdeps (Suc (Suc (length es))) es names) (ddefault (pr_irec p) tid) st = Inr st'"
    and x: "extra = fst st'"
    by (auto simp: extradeps_of_def es_def Let_def res_simps)
  have "rfold (generate_recdeps (Suc (Suc (length es))) es names) (tid # ddefault (pr_irec p) tid) (rt_depends e, []) = Inr st'"
    using g f by simp
  note w = rfold_recdeps [OF this]
  let ?R = "insert tid (set (ddefault (pr_irec p) tid))"
  have m: "marked (rec_succ es names) (set (dkeys es)) ?R {} (set (snd st'))" using w by simp
  have "?R \<subseteq> set (snd st')" using m by (simp add: marked_def)
  then have "set extra = set (rt_depends e) \<union> (\<Union>t \<in> set (snd st'). resolved es names t)"
    using w x by (simp add: Un_absorb1)
  also have "set (snd st') = {t. \<exists>r \<in> ?R. (r, t) \<in> {(t, n). n \<in> rec_succ es names t}\<^sup>*}"
    by (rule marked_closed [OF m])
  also have "(\<Union>t \<in> {t. \<exists>r \<in> ?R. (r, t) \<in> {(t, n). n \<in> rec_succ es names t}\<^sup>*}. resolved es names t) =
    {u. u \<in> set (dkeys es) \<and> (\<exists>r t mc fn x y name. r \<in> ?R \<and> (r, t) \<in> {(t, n). n \<in> rec_succ es names t}\<^sup>* \<and>
        split_tid_mcfn t = Inr (mc, fn, x, y) \<and> name \<in> set names \<and> u = build_tid mc fn name)}"
    unfolding resolved_def by blast
  also have "rt_depends e = deps_of es tid" by (simp add: deps_of_def e)
  finally show ?thesis .
qed

text \<open>A table that is closed and whose keys are task identifiers: the search ends and finds every key.\<close>

lemma generate_recdeps_total:
  assumes cl: "\<And>t. dep_set es t \<subseteq> set (dkeys es)"
    and sp: "\<And>t. t \<in> set (dkeys es) \<Longrightarrow> \<not> isl (split_tid_mcfn t)"
  shows "t \<in> set (dkeys es) \<Longrightarrow> distinct (snd st) \<Longrightarrow> set (snd st) \<subseteq> set (dkeys es) \<Longrightarrow>
    length es < lim + length (sadd t (snd st)) \<Longrightarrow>
    \<exists>st'. generate_recdeps (Suc lim) es names t st = Inr st' \<and> distinct (snd st') \<and>
      set (snd st') \<subseteq> set (dkeys es) \<and> length (sadd t (snd st)) \<le> length (snd st')"
proof (induction lim arbitrary: t st)
  case 0
  have "length (sadd t (snd st)) \<le> length es"
    by (rule distinct_keys_length) (use "0.prems" in \<open>auto simp del: list.set_map\<close>)
  then show ?case using "0.prems"(4) by simp
next
  case (Suc lim)
  obtain mc fn x y where s: "split_tid_mcfn t = Inr (mc, fn, x, y)"
    using sp [OF Suc.prems(1)] by (cases "split_tid_mcfn t") auto
  define newdeps where "newdeps = add_resolved_dependencies es mc fn names []"
  have nd: "set newdeps \<subseteq> set (dkeys es)" by (auto simp: newdeps_def)
  let ?P = "\<lambda>u :: string list \<times> string list. distinct (snd u) \<and> set (snd u) \<subseteq> set (dkeys es) \<and> length (sadd t (snd st)) \<le> length (snd u)"
  let ?visit = "\<lambda>n u. if n \<in> set (snd u) then Inr u else generate_recdeps (Suc lim) es names n u"
  have "\<exists>u. rfold (\<lambda>i st. rbind (ditem es i) (\<lambda>e. rfold ?visit (rt_depends e) st))
      (sadd t newdeps) (fold sadd newdeps (fst st), sadd t (snd st)) = Inr u \<and> ?P u"
  proof (rule rfold_total)
    show "?P (fold sadd newdeps (fst st), sadd t (snd st))" using Suc.prems by (simp del: list.set_map)
    fix i u assume i: "i \<in> set (sadd t newdeps)" and u: "?P u"
    have "i \<in> set (dkeys es)" using i nd Suc.prems(1) by (auto simp del: list.set_map)
    then obtain e where e: "dget es i = Some e" unfolding dget_Some_key by blast
    have d: "set (rt_depends e) \<subseteq> set (dkeys es)" using cl [of i] by (simp add: deps_of_def e)
    have "\<exists>u'. rfold ?visit (rt_depends e) u = Inr u' \<and> ?P u'"
    proof (rule rfold_total)
      show "?P u" by (rule u)
    next
      fix n v assume n: "n \<in> set (rt_depends e)" and v: "?P v"
      show "\<exists>v'. ?visit n v = Inr v' \<and> ?P v'"
      proof (cases "n \<in> set (snd v)")
        case True
        then show ?thesis using v by simp
      next
        case False
        then have l: "length (sadd n (snd v)) = Suc (length (snd v))" by (simp add: sadd_def)
        have "\<exists>v'. generate_recdeps (Suc lim) es names n v = Inr v' \<and> distinct (snd v') \<and>
            set (snd v') \<subseteq> set (dkeys es) \<and> length (sadd n (snd v)) \<le> length (snd v')"
          by (rule Suc.IH) (use n d v l Suc.prems(4) in auto)
        then show ?thesis using False v l by fastforce
      qed
    qed
    then show "\<exists>u'. rbind (ditem es i) (\<lambda>e. rfold ?visit (rt_depends e) u) = Inr u' \<and> ?P u'"
      by (simp add: ditem_def e)
  qed
  then show ?case using s by (simp add: newdeps_def Let_def)
qed

lemma extradeps_total:
  assumes cl: "\<And>t. dep_set (pr_entries p) t \<subseteq> set (dkeys (pr_entries p))"
    and sp: "\<And>t. t \<in> set (dkeys (pr_entries p)) \<Longrightarrow> \<not> isl (split_tid_mcfn t)"
    and t: "tid \<in> set (dkeys (pr_entries p))" "set (ddefault (pr_irec p) tid) \<subseteq> set (dkeys (pr_entries p))"
  shows "\<exists>extra. extradeps_of p tid names = Inr extra"
proof -
  let ?es = "pr_entries p"
  let ?P = "\<lambda>st :: string list \<times> string list. distinct (snd st) \<and> set (snd st) \<subseteq> set (dkeys ?es)"
  have go: "\<exists>st'. generate_recdeps (Suc (Suc (length ?es))) ?es names x st = Inr st' \<and> ?P st'"
    if "x \<in> set (dkeys ?es)" "?P st" for x and st :: "string list \<times> string list"
    using generate_recdeps_total [OF cl sp that(1), of st "Suc (length ?es)" names] that(2) by auto
  obtain e where e: "dget ?es tid = Some e" using t(1) unfolding dget_Some_key by blast
  obtain st where st: "generate_recdeps (Suc (Suc (length ?es))) ?es names tid (rt_depends e, []) = Inr st" "?P st"
    using go [OF t(1), of "(rt_depends e, [])"] by auto
  obtain st' where "rfold (generate_recdeps (Suc (Suc (length ?es))) ?es names) (ddefault (pr_irec p) tid) st = Inr st'"
    using rfold_total [of ?P st "ddefault (pr_irec p) tid"] st(2) go t(2) by blast
  then show ?thesis using st(1) e by (simp add: extradeps_of_def Let_def ditem_def)
qed

definition rec_prep :: prep where
  "rec_prep = \<lparr>pr_entries = [(''a:x'', new_rtentry\<lparr>rt_depends := [''b:s'']\<rparr>), (''b:s'', new_rtentry),
       (''b:p'', new_rtentry\<lparr>rt_depends := [''c:s'']\<rparr>), (''c:s'', new_rtentry), (''c:p'', new_rtentry)],
     pr_rec = [(''a:x'', [''p''])], pr_irec = [], pr_selfref = []\<rparr>"

lemma extradeps_recursive_witness:
  "\<exists>extra. extradeps_of rec_prep ''a:x'' [''p''] = Inr extra \<and> ''b:p'' \<in> set extra"
proof -
  have "map_sum (\<lambda>_. ()) (\<lambda>_. ()) (extradeps_of rec_prep ''a:x'' [''p'']) = Inr ()" by code_simp
  then obtain extra where x: "extradeps_of rec_prep ''a:x'' [''p''] = Inr extra"
    by (cases "extradeps_of rec_prep ''a:x'' [''p'']") auto
  have d: "''b:s'' \<in> set (deps_of (pr_entries rec_prep) ''a:x'')" "''b:p'' \<in> set (dkeys (pr_entries rec_prep))"
    "split_tid_mcfn ''b:s'' = Inr ([], ''b'', ''s'', ''b'')" "build_tid [] ''b'' ''p'' = ''b:p''" by code_simp+
  then have rel: "(''a:x'', ''b:s'') \<in> {(t, n). n \<in> rec_succ (pr_entries rec_prep) [''p''] t}\<^sup>*"
    by (intro r_into_rtrancl) (auto simp: rec_succ_def)
  have p: "''p'' \<in> set [''p'']" by simp
  have "''b:p'' \<in> set extra" unfolding extradeps_recursive [OF x]
    by (intro UnI2 CollectI conjI exI) (rule d(2) insertI1 rel d(3) p d(4) [symmetric])+
  then show ?thesis using x by blast
qed

section \<open>The table for the execution\<close>

lemma rmap_all2: "rmap f xs = Inr ys \<Longrightarrow> list_all2 (\<lambda>x y. f x = Inr y) xs ys"
  by (induction xs arbitrary: ys) (auto simp: res_simps)

lemma rmap_mem: "rmap f xs = Inr ys \<Longrightarrow> y \<in> set ys \<Longrightarrow> \<exists>x \<in> set xs. f x = Inr y"
  using rmap_all2 [of f xs ys] by (auto simp: list_all2_conv_all_nth in_set_conv_nth) (metis nth_mem)

lemma extradeps_of_distinct:
  assumes "extradeps_of p tid names = Inr extra" "fresh (pr_entries p)"
  shows "distinct extra"
proof -
  let ?g = "generate_recdeps (Suc (Suc (length (pr_entries p)))) (pr_entries p) names"
  from assms(1) obtain e st st' where e: "dget (pr_entries p) tid = Some e"
    and r: "?g tid (rt_depends e, []) = Inr st" "rfold ?g (ddefault (pr_irec p) tid) st = Inr st'"
    and x: "extra = fst st'"
    by (auto simp: extradeps_of_def Let_def res_simps)
  have "distinct (rt_depends e)" using assms(2) e by (simp add: fresh_def)
  then show ?thesis using generate_recdeps_walk [OF r(1)] rfold_recdeps [OF r(2)] x by simp
qed

lemma all_extradeps_distinct:
  assumes "all_extradeps p = Inr extra" "fresh (pr_entries p)" "dget extra t = Some d"
  shows "distinct d"
proof -
  from map_of_SomeD [OF assms(3)] rmap_mem [OF assms(1) [unfolded all_extradeps_def]]
  obtain names d0 where "extradeps_of p t names = Inr d0" "d = filter (\<lambda>x. x \<notin> set (pr_selfref p)) d0"
    by (fastforce simp: res_simps)
  then show ?thesis using extradeps_of_distinct [OF _ assms(2)] by auto
qed

lemma mark_target_marked:
  assumes "mark_target inp es x (tids, build) = Inr (tids', build')"
  shows "\<exists>roots. marked (dep_set es) (set (dkeys es)) roots (set build) (set build')"
proof -
  have r: "marked (dep_set es) (set (dkeys es)) (\<Union>x \<in> set ds. {x}) (set b) (set b')"
    if "rfold (mark_active lim es) ds b = Inr b'" for lim ds b b'
    using rfold_marked [where seen = set, OF that mark_active_marked] .
  have n: "\<exists>roots. marked (dep_set es) (set (dkeys es)) roots (set build) (set build)"
    using marked_refl [of "{}" "set build"] by blast
  show ?thesis using assms n
    by (auto simp: mark_target_def Let_def res_simps split: prod.splits if_splits
        dest!: r mark_active_marked simp del: mark_active.simps)
qed

lemma mark_targets_marked:
  assumes "mark_targets inp es = Inr (tids, build)"
  shows "\<exists>roots. marked (dep_set es) (set (dkeys es)) roots {} (set build)"
proof -
  have "\<exists>roots. marked (dep_set es) (set (dkeys es)) roots {} (set (snd (tids, build)))"
    using assms unfolding mark_targets_def
  proof (rule rfold_invariant [where P = "\<lambda>st. \<exists>roots. marked (dep_set es) (set (dkeys es)) roots {} (set (snd st))"])
    fix x s t assume s: "\<exists>roots. marked (dep_set es) (set (dkeys es)) roots {} (set (snd s))"
      and m: "mark_target inp es x s = Inr t"
    from m have "\<exists>roots. marked (dep_set es) (set (dkeys es)) roots (set (snd s)) (set (snd t))"
      using mark_target_marked [of inp es x "fst s" "snd s" "fst t" "snd t"] by simp
    with s show "\<exists>roots. marked (dep_set es) (set (dkeys es)) roots {} (set (snd t))"
      using marked_trans by blast
  qed (use marked_refl [of "{}" "{}"] in auto)
  then show ?thesis by simp
qed

lemma dget_prune: "dget (prune build es) t = (if t \<in> set build then dget es t else None)"
  by (induction es) (auto simp: prune_def)

lemma dwf_prune: "dwf es \<Longrightarrow> dwf (prune build es)"
  unfolding prune_def by (induction es) auto

lemma deps_with_extradeps_keys [simp]: "dkeys (with_extradeps extra es) = dkeys es"
  by (simp add: with_extradeps_def comp_def case_prod_unfold)

text \<open>Steps A to C give a closed table.\<close>

lemma active_tasks_fresh:
  assumes "active_tasks inp = Inr (es, tids)"
  shows "fresh es \<and> (\<forall>t. dep_set es t \<subseteq> set (dkeys es)) \<and> es \<noteq> []"
proof -
  from assms obtain p extra build where p: "collect_tasks inp = Inr p" "all_extradeps p = Inr extra"
    and m: "mark_targets inp (with_extradeps extra (pr_entries p)) = Inr (tids, build)"
    and es: "es = prune build (with_extradeps extra (pr_entries p))" and ne: "es \<noteq> []"
    by (auto simp: active_tasks_def Let_def res_simps split: if_splits)
  let ?es = "with_extradeps extra (pr_entries p)"
  have f: "fresh ?es" using fresh_with_extradeps all_extradeps_distinct [OF p(2)] collect_tasks_fresh [OF p(1)] by blast
  have "fresh es" using f by (auto simp: fresh_def es dget_prune dwf_prune)
  moreover have "dep_set es t \<subseteq> set (dkeys es)" for t
  proof
    fix d assume "d \<in> dep_set es t"
    then have t: "t \<in> set build" "d \<in> dep_set ?es t" by (auto simp: deps_of_def es dget_prune split: if_splits)
    obtain roots where mk: "marked (dep_set ?es) (set (dkeys ?es)) roots {} (set build)"
      using mark_targets_marked [OF m] by blast
    then have "d \<in> set build" using t by (auto simp: marked_def)
    moreover have "d \<in> set (dkeys ?es)" using mk \<open>d \<in> set build\<close> unfolding marked_def by blast
    ultimately have "\<exists>e. dget es d = Some e" unfolding es dget_prune dget_Some_key by simp
    then show "d \<in> set (dkeys es)" unfolding dget_Some_key .
  qed
  ultimately show ?thesis using ne by blast
qed

text \<open>Mirroring the dependencies.\<close>

lemma add_revdep_frame:
  assumes "add_revdep tid dep es = Inr es'"
  shows "dkeys es' = dkeys es" "deps_of es' t = deps_of es t"
    "revs_of es' t = (if t = dep then sadd tid (revs_of es t) else revs_of es t)"
proof -
  from assms obtain e where e: "dget es dep = Some e"
    and es': "es' = dset dep (e\<lparr>rt_revdeps := sadd tid (rt_revdeps e)\<rparr>) es"
    by (auto simp: add_revdep_def res_simps)
  have "dep \<in> set (dkeys es)" using e unfolding dget_Some_key by blast
  then show "dkeys es' = dkeys es" unfolding es' by (rule dkeys_dset_mem)
  show "deps_of es' t = deps_of es t" using e by (simp add: deps_of_def es' dict_simps)
  show "revs_of es' t = (if t = dep then sadd tid (revs_of es t) else revs_of es t)"
    using e by (simp add: revs_of_def es' dict_simps)
qed

definition rev_frame :: "(string \<times> string) set \<Rightarrow> runtasks \<Rightarrow> runtasks \<Rightarrow> bool" where
  "rev_frame ps es es' \<longleftrightarrow> dkeys es' = dkeys es \<and> (\<forall>t. deps_of es' t = deps_of es t) \<and>
     (\<forall>t. set (revs_of es' t) = set (revs_of es t) \<union> {u. (u, t) \<in> ps}) \<and>
     (\<forall>t. distinct (revs_of es t) \<longrightarrow> distinct (revs_of es' t))"

lemma rev_frame_refl: "rev_frame {} es es"
  by (simp add: rev_frame_def)

lemma rev_frame_trans: "rev_frame ps es es1 \<Longrightarrow> rev_frame qs es1 es2 \<Longrightarrow> rev_frame (ps \<union> qs) es es2"
  unfolding rev_frame_def by auto

lemma rfold_rev_frame:
  assumes "rfold f xs es = Inr es'" and "\<And>x es es'. f x es = Inr es' \<Longrightarrow> rev_frame (P x) es es'"
  shows "rev_frame (\<Union>x \<in> set xs. P x) es es'"
  using assms(1)
proof (induction xs arbitrary: es)
  case (Cons x xs)
  then obtain u where u: "f x es = Inr u" "rfold f xs u = Inr es'" by (auto simp: res_simps)
  show ?case using rev_frame_trans [OF assms(2) [OF u(1)] Cons.IH [OF u(2)]] by simp
qed (simp add: rev_frame_refl)

lemma add_revdeps_frame:
  assumes "add_revdeps es = Inr es'"
  shows "rev_frame (\<Union>(t, e) \<in> set es. Pair t ` set (rt_depends e)) es es'"
proof -
  have 1: "rev_frame {(tid, dep)} es es'" if "add_revdep tid dep es = Inr es'" for tid dep es es'
    unfolding rev_frame_def using add_revdep_frame [OF that] by auto
  have 2: "rev_frame (case x of (t, e) \<Rightarrow> Pair t ` set (rt_depends e)) es es'"
    if "(case x of (tid, e) \<Rightarrow> rfold (add_revdep tid) (rt_depends e)) es = Inr es'" for x es es'
  proof (cases x)
    case (Pair t e)
    with that have r: "rfold (add_revdep t) (rt_depends e) es = Inr es'" by simp
    have "(\<Union>d \<in> set (rt_depends e). {(t, d)}) = Pair t ` set (rt_depends e)" by auto
    moreover have "rev_frame (\<Union>d \<in> set (rt_depends e). {(t, d)}) es es'"
      by (rule rfold_rev_frame [OF r]) (rule 1)
    ultimately show ?thesis using Pair by simp
  qed
  show ?thesis by (rule rfold_rev_frame [OF assms [unfolded add_revdeps_def] 2])
qed

lemma fresh_revs: "fresh es \<Longrightarrow> revs_of es t = []"
  by (simp add: fresh_def revs_of_def split: option.split)

lemma linked_wf:
  assumes f: "fresh es" and cl: "\<And>t. dep_set es t \<subseteq> set (dkeys es)" and r: "add_revdeps es = Inr es'"
  shows "rt_wf es'" "dkeys es' = dkeys es" "deps_of es' t = deps_of es t"
proof -
  note fr = add_revdeps_frame [OF r]
  show k: "dkeys es' = dkeys es" and d: "deps_of es' t = deps_of es t" for t
    using fr by (simp_all add: rev_frame_def)
  have w: "dwf es" using f by (simp add: fresh_def)
  have rs: "set (revs_of es' t) = {u. t \<in> dep_set es u}" for t
  proof -
    have "set (revs_of es' t) = {u. (u, t) \<in> (\<Union>(t, e) \<in> set es. Pair t ` set (rt_depends e))}"
      using fr fresh_revs [OF f] by (simp add: rev_frame_def)
    also have "\<dots> = {u. \<exists>e. (u, e) \<in> set es \<and> t \<in> set (rt_depends e)}" by auto
    also have "\<dots> = {u. t \<in> dep_set es u}"
      using w by (auto simp: deps_of_def map_of_eq_Some_iff split: option.splits)
    finally show ?thesis .
  qed
  have dd: "distinct (deps_of es t)" for t using f by (simp add: fresh_def deps_of_def split: option.split)
  have dr: "distinct (revs_of es' t)" for t using fr fresh_revs [OF f] by (simp add: rev_frame_def)
  have dk: "u \<in> set (dkeys es)" if "t \<in> dep_set es u" for t u
    using that unfolding dget_Some_key by (cases "dget es u") (simp_all add: deps_of_def)
  have rk: "set (revs_of es' t) \<subseteq> set (dkeys es)" for t using rs dk by blast
  have mir: "t \<in> dep_set es u \<longleftrightarrow> u \<in> set (revs_of es' t)" for t u using rs by blast
  show "rt_wf es'" unfolding rt_wf_def k d using w dd dr cl rk mir by blast
qed

text \<open>The end points are the tasks without reverse dependencies.\<close>

lemma find_endpoints_eq:
  assumes "find_endpoints es = Inr eps" "dwf es"
  shows "eps = endpoints_of es"
proof -
  let ?f = "\<lambda>(tid, e) endpoints. if list_ex (\<lambda>dep. dep \<in> set (rt_depends e)) (rt_revdeps e) then Inl (MsgFatal ''RunQueue'')
       else Inr (if rt_revdeps e = [] then endpoints @ [tid] else endpoints)"
  have "rfold ?f xs acc = Inr eps \<Longrightarrow> eps = acc @ map fst (filter (\<lambda>(t, e). rt_revdeps e = []) xs)" for xs acc
  proof (induction xs arbitrary: acc)
    case (Cons x xs)
    obtain t e where x: "x = (t, e)" by (cases x)
    have "rfold ?f xs (if rt_revdeps e = [] then acc @ [t] else acc) = Inr eps"
      using Cons.prems by (simp add: x split: if_splits)
    from Cons.IH [OF this] show ?case by (simp add: x)
  qed simp
  from this [of es "[]"] have "eps = map fst (filter (\<lambda>(t, e). rt_revdeps e = []) es)"
    using assms(1) by (simp add: find_endpoints_def)
  also have "\<dots> = filter (\<lambda>t. revs_of es t = []) (dkeys es)"
  proof -
    have "revs_of es (fst x) = rt_revdeps (snd x)" if "x \<in> set es" for x
      using map_of_is_SomeI [OF assms(2), of "fst x" "snd x"] that by (simp add: revs_of_def)
    then show ?thesis by (auto simp: filter_map comp_def case_prod_unfold intro!: arg_cong [of _ _ "map fst"] filter_cong)
  qed
  finally show ?thesis by (simp add: endpoints_of_def)
qed

section \<open>Hashing every task\<close>

definition same_graph :: "runtasks \<Rightarrow> runtasks \<Rightarrow> bool" where
  "same_graph es es' \<longleftrightarrow> dkeys es' = dkeys es \<and> (\<forall>t. deps_of es' t = deps_of es t \<and> revs_of es' t = revs_of es t)"

lemma same_graph_refl: "same_graph es es"
  by (simp add: same_graph_def)

lemma same_graph_trans: "same_graph a b \<Longrightarrow> same_graph b c \<Longrightarrow> same_graph a c"
  by (simp add: same_graph_def)

lemma same_graph_wf: "same_graph es es' \<Longrightarrow> rt_wf es \<Longrightarrow> rt_wf es'"
  unfolding same_graph_def rt_wf_def by metis

lemma same_graph_rel: "same_graph es es' \<Longrightarrow> dep_rel es' = dep_rel es"
  by (simp add: same_graph_def dep_rel_def)

lemma same_graph_dset:
  "dget es t = Some e \<Longrightarrow> same_graph es (dset t (e\<lparr>rt_hash := h\<rparr>) es)"
proof -
  assume e: "dget es t = Some e"
  then have "t \<in> set (dkeys es)" unfolding dget_Some_key by blast
  then have "dkeys (dset t (e\<lparr>rt_hash := h\<rparr>) es) = dkeys es" by (rule dkeys_dset_mem)
  then show ?thesis unfolding same_graph_def using e
    by (simp add: deps_of_def revs_of_def dict_simps)
qed

lemma same_graph_weights:
  assumes "calculate_task_weights es eps = Some (Inr (es', w))" shows "same_graph es es'"
proof -
  from assms obtain s where es': "es' = store_weights es s"
    by (auto simp: calculate_task_weights_def res_simps split: if_splits)
  have g: "dget (store_weights es s) t = map_option (\<lambda>e. e\<lparr>rt_weight := (case w_weight s t of None \<Rightarrow> rt_weight e | Some w \<Rightarrow> w)\<rparr>) (dget es t)" for t
    unfolding store_weights_def
  proof (induction es)
    case (Cons x es)
    then show ?case by (cases x) (simp add: case_prod_unfold cong: option.case_cong)
  qed simp
  have k: "dkeys (store_weights es s) = dkeys es"
    by (simp add: store_weights_def comp_def case_prod_unfold)
  show ?thesis unfolding same_graph_def es' k
    by (auto simp: deps_of_def revs_of_def g split: option.split)
qed

text \<open>The state of the loop: what was dealt with is hashed, and the rest is left to deal with.\<close>

definition hinv :: "runtasks \<Rightarrow> string list \<times> string list \<times> runtasks \<times> 'g \<Rightarrow> bool" where
  "hinv es0 = (\<lambda>(dl, td, es, g). same_graph es0 es \<and> distinct td \<and> set dl \<union> set td = set (dkeys es0) \<and>
     (\<forall>t \<in> set dl. \<exists>e h. dget es t = Some e \<and> rt_hash e = Some h))"

lemma hash_step_inv:
  assumes "hash_step gh inp tid (dl, td, es, g) = Inr (dl', td', es', g')" "hinv es0 (dl, td, es, g)" "tid \<in> set td"
  shows "hinv es0 (dl', td', es', g') \<and> set dl \<subseteq> set dl' \<and>
    (if dep_set es0 tid \<subseteq> set dl then td' = remove1 tid td else td' = td)"
proof -
  have sg: "same_graph es0 es" using assms(2) by (simp add: hinv_def)
  from assms(1) obtain e where e: "dget es tid = Some e"
    by (auto simp: hash_step_def res_simps)
  have d: "rt_depends e = deps_of es0 tid" using sg e unfolding same_graph_def by (metis deps_of_def option.simps(5))
  show ?thesis
  proof (cases "dep_set es0 tid \<subseteq> set dl")
    case False
    then have "dl' = dl" "td' = td" "es' = es" "g' = g" using assms(1) e d by (auto simp: hash_step_def ditem_def)
    then show ?thesis using assms(2) False by simp
  next
    case True
    then obtain h where r: "dl' = dl @ [tid]" "td' = remove1 tid td" "es' = dset tid (e\<lparr>rt_hash := Some h\<rparr>) es"
      using assms(1) e d by (auto simp: hash_step_def ditem_def res_simps)
    have "same_graph es0 es'" unfolding r by (rule same_graph_trans [OF sg same_graph_dset [OF e]])
    moreover have "\<exists>e h. dget es' t = Some e \<and> rt_hash e = Some h" if "t \<in> set dl'" for t
      using that assms(2) by (auto simp: r hinv_def dict_simps)
    ultimately have "hinv es0 (dl', td', es', g')" using assms(2,3) by (auto simp: hinv_def r)
    then show ?thesis using True r by auto
  qed
qed

lemma hash_round_inv:
  assumes "rfold (hash_step gh inp) xs (dl, td, es, g) = Inr (dl', td', es', g')" "hinv es0 (dl, td, es, g)"
    and "distinct xs" "set xs \<subseteq> set td"
  shows "hinv es0 (dl', td', es', g') \<and> length td' \<le> length td \<and>
    ((\<exists>t \<in> set xs. dep_set es0 t \<subseteq> set dl) \<longrightarrow> length td' < length td)"
  using assms
proof (induction xs arbitrary: dl td es g)
  case (Cons x xs)
  from Cons.prems(1) obtain dl1 td1 es1 g1 where s: "hash_step gh inp x (dl, td, es, g) = Inr (dl1, td1, es1, g1)"
    and r: "rfold (hash_step gh inp) xs (dl1, td1, es1, g1) = Inr (dl', td', es', g')"
    by (auto simp: res_simps)
  have xm: "x \<in> set td" using Cons.prems by simp
  note st = hash_step_inv [OF s Cons.prems(2) xm]
  have dt: "distinct td" using Cons.prems(2) by (simp add: hinv_def)
  have sub: "set xs \<subseteq> set td1"
    using st Cons.prems(3,4) dt by (auto split: if_splits)
  have ih: "hinv es0 (dl', td', es', g') \<and> length td' \<le> length td1 \<and>
    ((\<exists>t \<in> set xs. dep_set es0 t \<subseteq> set dl1) \<longrightarrow> length td' < length td1)"
    by (rule Cons.IH [OF r]) (use st sub Cons.prems(3) in auto)
  have l: "length td1 \<le> length td" "dep_set es0 x \<subseteq> set dl \<Longrightarrow> length td1 < length td"
    using st xm length_pos_if_in_set [OF xm] by (auto simp: length_remove1 split: if_splits)
  have dl: "set dl \<subseteq> set dl1" using st by blast
  show ?case
  proof (intro conjI impI)
    assume "\<exists>t \<in> set (x # xs). dep_set es0 t \<subseteq> set dl"
    then obtain t where t: "t \<in> set (x # xs)" "dep_set es0 t \<subseteq> set dl" by blast
    show "length td' < length td"
    proof (cases "t = x")
      case True
      then show ?thesis using t l ih by auto
    next
      case False
      then have "\<exists>t \<in> set xs. dep_set es0 t \<subseteq> set dl1" using t dl by auto
      then show ?thesis using ih l by auto
    qed
  qed (use ih l in auto)
qed simp

lemma next_to_deal:
  assumes wf: "rt_wf es" and ac: "acyclic (dep_rel es)" and td: "td \<noteq> []" "set dl \<union> set td = set (dkeys es)"
  shows "\<exists>t \<in> set td. dep_set es t \<subseteq> set dl"
proof -
  have "wf (dep_rel es)" by (rule finite_acyclic_wf [OF finite_dep_rel [OF wf] ac])
  moreover have "set td \<noteq> {}" using td(1) by simp
  ultimately obtain t where t: "t \<in> set td" "\<And>u. (u, t) \<in> dep_rel es \<Longrightarrow> u \<notin> set td"
    unfolding wf_eq_minimal by (metis ex_in_conv)
  have "u \<in> set dl" if "u \<in> dep_set es t" for u
    using t(2) [of u] that td(2) rt_wf_deps [OF wf that] by (auto simp: dep_rel_def simp del: list.set_map)
  then show ?thesis using t(1) by blast
qed

lemma hash_loop_ends:
  assumes wf: "rt_wf es0" and ac: "acyclic (dep_rel es0)"
  shows "hinv es0 (dl, td, es, g) \<Longrightarrow> length td < fuel \<Longrightarrow>
    \<exists>r. hash_loop fuel gh inp (dl, td, es, g) = Some r \<and>
      (\<forall>es' g'. r = Inr (es', g') \<longrightarrow> same_graph es0 es' \<and>
        (\<forall>t \<in> set (dkeys es0). \<exists>e h. dget es' t = Some e \<and> rt_hash e = Some h))"
proof (induction fuel arbitrary: dl td es g)
  case (Suc fuel)
  show ?case
  proof (cases "td = []")
    case True
    then show ?thesis using Suc.prems by (simp add: hinv_def)
  next
    case False
    show ?thesis
    proof (cases "rfold (hash_step gh inp) td (dl, td, es, g)")
      case (Inl e)
      then show ?thesis using False by simp
    next
      case (Inr st)
      obtain dl' td' es' g' where st: "st = (dl', td', es', g')" by (cases st)
      have r: "rfold (hash_step gh inp) td (dl, td, es, g) = Inr (dl', td', es', g')" using Inr st by simp
      have h: "distinct td" "set dl \<union> set td = set (dkeys es0)" using Suc.prems(1) by (simp_all add: hinv_def del: list.set_map)
      have "\<exists>t \<in> set td. dep_set es0 t \<subseteq> set dl" by (rule next_to_deal [OF wf ac False h(2)])
      with hash_round_inv [OF r Suc.prems(1) h(1)] have
        n: "hinv es0 (dl', td', es', g')" "length td' < length td" by auto
      have "length td' < fuel" using n(2) Suc.prems(2) by simp
      from Suc.IH [OF n(1) this] show ?thesis using False Inr st by simp
    qed
  qed
qed simp

section \<open>The preparation\<close>

lemma after_weights_ends:
  assumes wf: "rt_wf es" and ac: "acyclic (dep_rel es)"
  shows "\<exists>r. after_weights gh g inp (es, tids, w) = Some r \<and>
    (\<forall>p. r = Inr p \<longrightarrow> same_graph es (pp_entries p) \<and> pp_weight p = w \<and>
       (\<forall>t \<in> set (dkeys es). \<exists>e h. dget (pp_entries p) t = Some e \<and> rt_hash e = Some h))"
proof -
  have i: "hinv es ([], dkeys es, es, g)" using wf by (simp add: hinv_def same_graph_refl rt_wf_def)
  have "length (dkeys es) < Suc (length es)" by simp
  from hash_loop_ends [OF wf ac i this, of gh inp] obtain r where
    r: "hash_loop (Suc (length es)) gh inp ([], dkeys es, es, g) = Some r" and
    res: "\<And>es' g'. r = Inr (es', g') \<Longrightarrow> same_graph es es' \<and>
        (\<forall>t \<in> set (dkeys es). \<exists>e h. dget es' t = Some e \<and> rt_hash e = Some h)" by blast
  define K where "K = set (dkeys es)"
  show ?thesis
    unfolding after_weights_def prod.case K_def [symmetric]
    using r res [folded K_def] by (auto simp del: hash_loop.simps list.set_map simp: rbind_eq_Inr split: sum.split prod.split)
qed

lemma prepare_cases:
  assumes "linked_tasks inp = Inr (es, tids, eps)"
  shows "rt_wf es \<and> eps = endpoints_of es \<and> es \<noteq> []"
proof -
  from assms obtain es0 where a: "active_tasks inp = Inr (es0, tids)" and r: "add_revdeps es0 = Inr es"
    and e: "find_endpoints es = Inr eps" by (auto simp: linked_tasks_def res_simps)
  have f: "fresh es0" "\<And>t. dep_set es0 t \<subseteq> set (dkeys es0)" "es0 \<noteq> []" using active_tasks_fresh [OF a] by blast+
  have wf: "rt_wf es" and k: "dkeys es = dkeys es0" using linked_wf [OF f(1,2) r] by blast+
  have "eps = endpoints_of es" using find_endpoints_eq [OF e] wf by (simp add: rt_wf_def)
  then show ?thesis using wf k f(3) by (metis map_is_Nil_conv)
qed

lemma prepare_result:
  "\<exists>r. prepare gh g inp = Some r \<and> (\<forall>p. r = Inr (Some p) \<longrightarrow>
     rt_wf (pp_entries p) \<and> acyclic (dep_rel (pp_entries p)) \<and> pp_entries p \<noteq> [] \<and>
     (\<forall>t \<in> set (dkeys (pp_entries p)). \<exists>e h. dget (pp_entries p) t = Some e \<and> rt_hash e = Some h))"
proof (cases "list_all (\<lambda>(mc, td). tk_taskentries td = []) (rq_taskdata inp)")
  case True
  then show ?thesis by (simp add: prepare_def)
next
  case ne: False
  show ?thesis
  proof (cases "linked_tasks inp")
    case (Inl e)
    then show ?thesis using ne by (simp add: prepare_def)
  next
    case (Inr lt)
    then obtain es tids eps where l: "linked_tasks inp = Inr (es, tids, eps)" by (cases lt) auto
    have wf: "rt_wf es" and eps: "eps = endpoints_of es" and nn: "es \<noteq> []" using prepare_cases [OF l] by blast+
    from weights_acyclic [OF wf] obtain r where w: "calculate_task_weights es eps = Some r"
      and ac: "\<not> isl r \<longleftrightarrow> acyclic (dep_rel es)" unfolding eps by blast
    show ?thesis
    proof (cases r)
      case (Inl e)
      then show ?thesis using ne l w by (simp add: prepare_def)
    next
      case (Inr x)
      then obtain es' wt where x: "calculate_task_weights es eps = Some (Inr (es', wt))" using w by (cases x) auto
      have sg: "same_graph es es'" by (rule same_graph_weights [OF x])
      have wf': "rt_wf es'" and ac': "acyclic (dep_rel es')"
        using same_graph_wf [OF sg wf] same_graph_rel [OF sg] ac Inr by auto
      from after_weights_ends [OF wf' ac', of gh g inp tids wt] obtain r' where
        aw: "after_weights gh g inp (es', tids, wt) = Some r'" and
        rp: "\<And>p. r' = Inr p \<Longrightarrow> same_graph es' (pp_entries p) \<and>
          (\<forall>t \<in> set (dkeys es'). \<exists>e h. dget (pp_entries p) t = Some e \<and> rt_hash e = Some h)" by blast
      have pr: "prepare gh g inp = Some (rbind r' (\<lambda>p. Inr (Some p)))" using ne l x aw by (simp add: prepare_def)
      have "rt_wf (pp_entries p) \<and> acyclic (dep_rel (pp_entries p)) \<and> pp_entries p \<noteq> [] \<and>
        (\<forall>t \<in> set (dkeys (pp_entries p)). \<exists>e h. dget (pp_entries p) t = Some e \<and> rt_hash e = Some h)"
        if "r' = Inr p" for p
      proof -
        have s: "same_graph es' (pp_entries p)" and h: "\<forall>t \<in> set (dkeys es'). \<exists>e h. dget (pp_entries p) t = Some e \<and> rt_hash e = Some h"
          using rp [OF that] by blast+
        have k: "dkeys (pp_entries p) = dkeys es" using s sg by (simp add: same_graph_def)
        have "dkeys es' = dkeys es" using sg by (simp add: same_graph_def)
        moreover have "pp_entries p \<noteq> []" using k nn by (metis map_is_Nil_conv)
        ultimately show ?thesis using same_graph_wf [OF s wf'] same_graph_rel [OF s] ac' h k by metis
      qed
      then show ?thesis unfolding pr by (auto simp: rbind_eq_Inr simp del: list.set_map)
    qed
  qed
qed

text \<open>
  C16: The preparation of the run queue always ends: with the fuel of the model, the propagation of
  the weights and the loop over the tasks that are left to hash, \<open>while len(todeal) > 0\<close>, do not run
  out, whatever the task data, the targets and the signature generator. The second loop ends because
  the weights exclude loops of dependencies.
\<close>
theorem prepare_ends: "prepare gh g inp \<noteq> None"
  using prepare_result [of gh g inp] by auto

text \<open>
  C4: What the preparation hands to the task execution: at least one task, identifiers without
  repetition, every dependency in the table, reverse dependencies that mirror the dependencies, no
  loop of dependencies, and a hash for every task.
\<close>
theorem prepare_table:
  assumes "prepare gh g inp = Some (Inr (Some p))"
  shows "pp_entries p \<noteq> [] \<and> dwf (pp_entries p) \<and>
    (\<forall>t u. u \<in> set (deps_of (pp_entries p) t) \<longrightarrow>
       u \<in> set (dkeys (pp_entries p)) \<and> (\<exists>e. dget (pp_entries p) u = Some e \<and> t \<in> set (rt_revdeps e))) \<and>
    (\<forall>u e t. dget (pp_entries p) u = Some e \<and> t \<in> set (rt_revdeps e) \<longrightarrow> u \<in> set (deps_of (pp_entries p) t)) \<and>
    acyclic {(u, t). u \<in> set (deps_of (pp_entries p) t)} \<and>
    (\<forall>t \<in> set (dkeys (pp_entries p)). \<exists>e h. dget (pp_entries p) t = Some e \<and> rt_hash e = Some h)"
proof -
  have wf: "rt_wf (pp_entries p)" and ac: "acyclic (dep_rel (pp_entries p))" and ne: "pp_entries p \<noteq> []"
    and h: "\<forall>t \<in> set (dkeys (pp_entries p)). \<exists>e h. dget (pp_entries p) t = Some e \<and> rt_hash e = Some h"
    using prepare_result [of gh g inp] assms by auto
  have k: "u \<in> set (dkeys (pp_entries p))" if "u \<in> set (deps_of (pp_entries p) t)" for t u
    using wf that unfolding rt_wf_def by blast
  have r: "\<exists>e. dget (pp_entries p) u = Some e \<and> t \<in> set (rt_revdeps e)" if "u \<in> set (deps_of (pp_entries p) t)" for t u
  proof -
    have "t \<in> set (revs_of (pp_entries p) u)" using wf that unfolding rt_wf_def by blast
    then show ?thesis using dget_rtD [OF k [OF that]] by auto
  qed
  have m: "u \<in> set (deps_of (pp_entries p) t)" if "dget (pp_entries p) u = Some e" "t \<in> set (rt_revdeps e)" for u e t
  proof -
    have "t \<in> set (revs_of (pp_entries p) u)" using that by (simp add: revs_of_def)
    then show ?thesis using wf unfolding rt_wf_def by blast
  qed
  show ?thesis using ne wf ac h k r m unfolding rt_wf_def dep_rel_def by blast
qed

section \<open>Examples\<close>

text \<open>One recipe with the tasks x and y, y after x.\<close>

definition two_tasks :: taskdeps where
  "two_tasks = \<lparr>td_tasks = [''x'', ''y''], td_parents = [(''x'', []), (''y'', [''x''])], td_flags = []\<rparr>"

definition two_input :: rqinput where
  "two_input = \<lparr>rq_caches = [([], init_cacheData\<lparr>dc_task_deps := [(''f'', two_tasks)], dc_pkg_fn := [(''f'', ''p'')],
       dc_fn_provides := [(''f'', [''p''])]\<rparr>)],
     rq_taskdata = [([], \<lparr>tk_build_targets = [(''p'', [''f''])], tk_run_targets = [], tk_external_targets = [''p''],
       tk_seenfns = [''f''],
       tk_taskentries = [(''f:x'', \<lparr>te_tdepends = [], te_idepends = [], te_irdepends = []\<rparr>),
                         (''f:y'', \<lparr>te_tdepends = [''f:x''], te_idepends = [], te_irdepends = []\<rparr>)],
       tk_depids = [(''f'', [])], tk_rdepids = [(''f'', [])], tk_consider = [], tk_failed_deps = [],
       tk_failed_rdeps = [], tk_failed_fns = [], tk_abort = True, tk_tryaltconfigs = False, tk_allowincomplete = False\<rparr>)],
     rq_targets = [([], ''p'', ''y'', ''f'')], rq_stampwhitelist = [], rq_multi_whitelist = [],
     rq_nosetscene = False, rq_force = False, rq_invalidate_stamp = []\<rparr>"

definition count_hash :: "nat get_hash" where
  "count_hash taskfn taskname procdep dc g = Inr (taskname, Suc g)"

lemma two_prepared:
  "case prepare count_hash 0 two_input of
     Some (Inr (Some p)) \<Rightarrow> ''f:x'' \<in> set (deps_of (pp_entries p) ''f:y'') | _ \<Rightarrow> False"
  by code_simp

lemma prepare_table_witness:
  "\<exists>p. prepare count_hash 0 two_input = Some (Inr (Some p)) \<and> ''f:x'' \<in> set (dkeys (pp_entries p))"
proof -
  obtain p where p: "prepare count_hash 0 two_input = Some (Inr (Some p))" "''f:x'' \<in> set (deps_of (pp_entries p) ''f:y'')"
    using two_prepared by (auto split: option.split_asm sum.split_asm)
  from prepare_table [OF p(1)] p show ?thesis by blast
qed

text \<open>A recipe with a run time dependency of a task on a target that is assumed to be provided.\<close>

definition rdep_task :: taskdeps where
  "rdep_task = \<lparr>td_tasks = [''x''], td_parents = [(''x'', [])], td_flags = [(''rdepends'', [(''x'', ''z:q'')])]\<rparr>"

definition rdep_cache :: datacache where
  "rdep_cache = (plain_cache [(''f'', ''p'')] [(''p'', [''f''])] [])
     \<lparr>dc_task_deps := [(''f'', rdep_task)], dc_fn_provides := [(''f'', [''p''])], dc_ignored_dependencies := [''z'']\<rparr>"

definition rq_single :: "tkstate \<Rightarrow> string \<Rightarrow> string \<Rightarrow> string \<Rightarrow> rqinput" where
  "rq_single s target task fn = \<lparr>rq_caches = [([], tk_cache s)], rq_taskdata = [([], taskdata.truncate s)],
     rq_targets = [([], target, task, fn)], rq_stampwhitelist = [], rq_multi_whitelist = [],
     rq_nosetscene = False, rq_force = False, rq_invalidate_stamp = []\<rparr>"

lemma rfold_raises: "x \<in> set xs \<Longrightarrow> (\<And>s. isl (f x s)) \<Longrightarrow> isl (rfold f xs s)"
proof (induction xs arbitrary: s)
  case (Cons y ys)
  show ?case
  proof (cases "f y s")
    case (Inr b)
    then have "x \<noteq> y" using Cons.prems(2) [of s] by auto
    then show ?thesis using Inr Cons.prems Cons.IH by simp
  qed simp
qed simp

lemma isl_rbind_all: "(\<And>x. isl (f x)) \<Longrightarrow> isl (rbind r f)"
  by (cases r) simp_all

lemma collect_task_raises:
  assumes td: "ditem (rq_taskdata inp) mc = Inr td" and tid: "split_tid_mcfn tid = Inr (mc, fn, tn, tf)"
    and ok: "fn \<notin> set (tk_failed_fns td)" and e: "dget (tk_taskentries td) tid = Some e" "(z, q) \<in> set (te_irdepends e)"
    and none: "dget (tk_run_targets td) z = Some []"
  shows "isl (collect_task inp tid p)"
proof -
  have i: "isl (add_irdepends td (te_irdepends e) depends)" for depends
    unfolding add_irdepends_def by (rule rfold_raises [OF e(2)]) (simp add: none)
  have r: "isl (rbind (add_irdepends td (te_irdepends e) depends) f)" for depends and f :: "string list \<Rightarrow> prep res"
    using i [of depends] by (cases "add_irdepends td (te_irdepends e) depends") simp_all
  show ?thesis
    unfolding collect_task_def Let_def tid rbind_Inr prod.case td
    by (intro isl_rbind_all) (use ok e(1) r in \<open>simp add: ditem_def isl_rbind_all\<close>)
qed

text \<open>
  C37: An unprovided run time dependency of a task stops the build. When a task of a recipe that has not
  failed names, in its rdepends flag, a run time target whose list of providers is empty, then preparing
  the run queue always ends with an error. The list is empty, without an error from the resolution,
  for a target of ASSUME_PROVIDED: for build dependencies the code skips an empty list, here it
  takes its first element.
\<close>
theorem assumed_rdepends_raises:
  assumes "dwf (rq_taskdata inp)" "dget (rq_taskdata inp) mc = Some td" "dget (tk_taskentries td) tid = Some e"
    and "split_tid_mcfn tid = Inr (mc, fn, tn, tf)" "fn \<notin> set (tk_failed_fns td)"
    and "(z, q) \<in> set (te_irdepends e)" "dget (tk_run_targets td) z = Some []"
  shows "\<exists>err. prepare gh g inp = Some (Inl err)"
proof -
  have m: "(mc, td) \<in> set (rq_taskdata inp)" using assms(2) by (rule map_of_SomeD)
  have t: "tid \<in> set (dkeys (tk_taskentries td))" unfolding dget_Some_key using assms(3) by blast
  have "isl (collect_task inp tid p)" for p
    by (rule collect_task_raises [OF _ assms(4,5,3,6,7)]) (use assms(2) in \<open>simp add: ditem_def\<close>)
  then have "isl (rfold (collect_task inp) (dkeys (tk_taskentries td)) p)" for p by (rule rfold_raises [OF t])
  then have "isl (collect_tasks inp)" unfolding collect_tasks_def by (intro rfold_raises [OF m]) simp
  then obtain err where "collect_tasks inp = Inl err" by (cases "collect_tasks inp") simp_all
  moreover have "tk_taskentries td \<noteq> []" using assms(3) by auto
  then have "\<not> list_all (\<lambda>(mc, td). tk_taskentries td = []) (rq_taskdata inp)" using m by (auto simp: list_all_iff)
  ultimately show ?thesis by (simp add: prepare_def linked_tasks_def active_tasks_def)
qed

lemma assumed_rdepends_resolved:
  "case add_provider no_vars no_match same_deps 9 ''p'' (taskdata_init True False False rdep_cache) of
     (r, s) \<Rightarrow> r = Inr () \<and>
       (case add_unresolved 3 no_vars no_match same_deps 9 s of
          None \<Rightarrow> False
        | Some (r, s) \<Rightarrow> r = Inr () \<and> tk_failed_fns s = [] \<and> dget (tk_run_targets s) ''z'' = Some [] \<and>
            (case dget (tk_taskentries s) ''f:x'' of None \<Rightarrow> False | Some e \<Rightarrow> te_irdepends e = [(''z'', ''q'')]))"
  by code_simp

text \<open>The recipe above resolves without an error, and preparing its build fails.\<close>

lemma assumed_rdepends_raises_witness:
  "\<exists>s s'. add_provider no_vars no_match same_deps 9 ''p'' (taskdata_init True False False rdep_cache) = (Inr (), s) \<and>
     add_unresolved 3 no_vars no_match same_deps 9 s = Some (Inr (), s') \<and>
     (\<exists>err. prepare count_hash 0 (rq_single s' ''p'' ''x'' ''f'') = Some (Inl err))"
proof -
  obtain s s' e where s: "add_provider no_vars no_match same_deps 9 ''p'' (taskdata_init True False False rdep_cache) = (Inr (), s)"
    "add_unresolved 3 no_vars no_match same_deps 9 s = Some (Inr (), s')" "tk_failed_fns s' = []"
    "dget (tk_run_targets s') ''z'' = Some []" "dget (tk_taskentries s') ''f:x'' = Some e" "te_irdepends e = [(''z'', ''q'')]"
    using assumed_rdepends_resolved by (auto split: prod.split_asm option.split_asm)
  let ?inp = "rq_single s' ''p'' ''x'' ''f''"
  have "split_tid_mcfn ''f:x'' = Inr ([], ''f'', ''x'', ''f'')" by code_simp
  from assumed_rdepends_raises [of ?inp "[]" "taskdata.truncate s'" "''f:x''" e, OF _ _ _ this, of "''z''" "''q''"] s(3-6)
  have "\<exists>err. prepare count_hash 0 ?inp = Some (Inl err)" by (simp add: rq_single_def taskdata.defs)
  then show ?thesis using s(1,2) by blast
qed

end
