(* ===== verification/BB_ExecProps.thy ===== *)
theory BB_ExecProps
  imports BB_ExecInv BB_RunPrepProps
begin

text \<open>
  Properties of the execution: the states it can reach from a prepared table, the order in which tasks
  start, the limit of parallel tasks, that it ends with every task complete, and the dependency data
  handed to the workers.
\<close>

section \<open>Every state of an execution\<close>

text \<open>
  The calls the run queue makes: \<open>execute\<close> while it is running, \<open>finish\<close> while it cleans up; a last
  reading of the pipes when the workers are stopped; and at any time, through \<open>finish_runqueue\<close> (called
  by the disk monitor, and by the server when it is told to shut down), \<open>finish\<close> or \<open>finish_now\<close>. The
  flag records that one of these stops from outside was made; a worker that dies is found by any
  reading of the pipes, and recorded as \<open>FinishNow\<close>. Between the calls the files change and the workers
  report in any order, but every report is of a task they were given and have not reported, once. The
  fakeroot workers may be running already from the setscene tasks. A call that raises ends the build.
\<close>

inductive exec_reach :: "execenv \<Rightarrow> verify option \<Rightarrow> runtasks \<Rightarrow> string list \<Rightarrow> string list \<Rightarrow> bool \<Rightarrow> exst \<Rightarrow> bool"
  for env verify es cov ncov where
  start: "exec_init env mt verify es cov ncov = Some (Inr s) \<Longrightarrow>
    exec_reach env verify es cov ncov False (s\<lparr>ex_fakeworkers := ms\<rparr>)"
| run: "exec_reach env verify es cov ncov stop s \<Longrightarrow> ex_state s = RqRunning \<Longrightarrow> pipe_ok p1 \<Longrightarrow> pipe_ok p2 \<Longrightarrow>
    execute env mt spawn p1 p2 s = (Inr r, s') \<Longrightarrow> exec_reach env verify es cov ncov stop s'"
| finish: "exec_reach env verify es cov ncov stop s \<Longrightarrow> ex_state s = RqCleanUp \<Longrightarrow> pipe_ok p1 \<Longrightarrow>
    exec_finish env p1 s = (Inr r, s') \<Longrightarrow> exec_reach env verify es cov ncov stop s'"
| teardown: "exec_reach env verify es cov ncov stop s \<Longrightarrow> ex_state s \<in> {RqComplete, RqFailed} \<Longrightarrow> pipe_ok p1 \<Longrightarrow>
    read_workers env p1 s = (Inr (), s') \<Longrightarrow> exec_reach env verify es cov ncov stop s'"
| stop_later: "exec_reach env verify es cov ncov stop s \<Longrightarrow> pipe_ok p1 \<Longrightarrow>
    exec_finish env p1 s = (Inr r, s') \<Longrightarrow> exec_reach env verify es cov ncov True s'"
| stop_now: "exec_reach env verify es cov ncov stop s \<Longrightarrow> finish_now s = (Inr (), s') \<Longrightarrow>
    exec_reach env verify es cov ncov True s'"

lemma running_xinv: "xstate stop env prio es s \<Longrightarrow> ex_state s = RqRunning \<Longrightarrow> xinv stop env prio es s"
  by (auto simp: xstate_def xlost_def)

lemma finish_state:
  assumes "xstate stop env prio es s" "rt_wf es" "pipe_ok pipe" "exec_finish env pipe s = (Inr r, s')"
    and "ex_state s = RqCleanUp"
  shows "xstate stop env prio es s'"
proof -
  from assms(1,5) consider "xinv stop env prio es s" | "xlost stop env es s" by (auto simp: xstate_def)
  then show ?thesis
  proof cases
    case 1
    from validD [OF finish_inv [OF this assms(2,3) disjI2 [OF assms(5)]] assms(4)] show ?thesis by simp
  next
    case 2
    from validD [OF finish_lost [OF this assms(3) disjI2 [OF assms(5)]] assms(4)] show ?thesis by (simp add: xstate_def)
  qed
qed

lemma stop_later_state:
  assumes "xstate stop env prio es s" "rt_wf es" "pipe_ok pipe" "exec_finish env pipe s = (Inr r, s')"
  shows "xstate True env prio es s'"
  using xstate_told [OF assms(1)]
proof
  assume "xinv True env prio es s"
  from validD [OF finish_inv [OF this assms(2,3) disjI1 [OF TrueI]] assms(4)] show ?thesis by simp
next
  assume "xlost True env es s"
  from validD [OF finish_lost [OF this assms(3) disjI1 [OF TrueI]] assms(4)] show ?thesis by (simp add: xstate_def)
qed

lemma stop_now_state:
  assumes "xstate stop env prio es s" "finish_now s = (Inr (), s')"
  shows "xstate True env prio es s'"
proof -
  have "xstate True env prio es s" using xstate_told [OF assms(1)] by (auto simp: xstate_def)
  from validD [OF finish_now_state [OF this] assms(2)] show ?thesis by simp
qed

lemma reach_xstate:
  assumes "exec_reach env verify es cov ncov stop s" and wf: "rt_wf es" and ac: "acyclic (dep_rel es)" and k: "sched_prio env es prio"
  shows "xstate stop env prio es s"
  using assms(1)
proof induction
  case (start mt s ms)
  have "xinv False env prio es s" by (rule exec_init_inv [OF start wf k])
  then show ?case by (simp add: xstate_def xinv_def state_inv_defs)
next
  case (run stop s p1 p2 mt spawn r s')
  have "xinv stop env prio es s" by (rule running_xinv [OF run.IH run.hyps(2)])
  from validD [OF execute_inv [OF this wf ac k run.hyps(3,4)] run.hyps(5)] show ?case by simp
next
  case (finish stop s p1 r s')
  then show ?case using finish_state [OF _ wf] by blast
next
  case (teardown stop s p1 s')
  from validD [OF teardown_inv [OF teardown.IH wf teardown.hyps(3)] teardown.hyps(4)] show ?case by simp
next
  case (stop_later stop s p1 r s')
  then show ?case using stop_later_state [OF _ wf] by blast
next
  case (stop_now stop s s')
  then show ?case using stop_now_state by blast
qed

lemma prepared_reach:
  assumes "prepare gh g inp = Some (Inr (Some p))" "xe_kind env \<noteq> Basic" "exec_reach env verify (pp_entries p) cov ncov stop s"
  shows "\<exists>prio. xstate stop env prio (pp_entries p) s"
proof -
  have wf: "rt_wf (pp_entries p)" and ac: "acyclic (dep_rel (pp_entries p))"
    using prepare_result [of gh g inp] assms(1) by auto
  have "\<exists>prio. sched_prio env (pp_entries p) prio" using assms(2) unfolding sched_prio_def by (cases "xe_kind env") auto
  then show ?thesis using reach_xstate [OF assms(3) wf ac] by blast
qed

lemma prepared_xend:
  assumes "prepare gh g inp = Some (Inr (Some p))" "xe_kind env \<noteq> Basic" "exec_reach env verify (pp_entries p) cov ncov stop s"
  shows "xend env (pp_entries p) s"
  using prepared_reach [OF assms] xcore_xend unfolding xstate_def xinv_def xlost_def by blast

text \<open>
  C2: Dependencies come first. In every state an execution can reach on a table that the preparation
  returned, no task was started or sent to a worker twice, and whenever a task was started, sent or
  skipped, all tasks it depends on had completed or been skipped before.
\<close>
theorem exec_in_order:
  assumes "prepare gh g inp = Some (Inr (Some p))" "xe_kind env \<noteq> Basic" "exec_reach env verify (pp_entries p) cov ncov stop s"
  shows "distinct (begun (ex_actions s)) \<and> distinct (sent (ex_actions s)) \<and>
    (\<forall>pre a post. ex_actions s = pre @ a # post \<longrightarrow>
      (\<forall>t \<in> set (begun [a]) \<union> set (sent [a]). set (deps_of (pp_entries p) t) \<subseteq> set (succeeded pre)))"
proof -
  have "xend env (pp_entries p) s" by (rule prepared_xend [OF assms])
  then show ?thesis unfolding xend_def in_order_def by blast
qed

lemma key_value: "distinct (map snd d) \<Longrightarrow> dget d t = Some v \<Longrightarrow> dget d u = Some v \<Longrightarrow> t = u"
  by (induction d) (auto split: if_splits dest: map_of_SomeD simp: rev_image_eqI)

text \<open>
  C3: The limit of parallel tasks. In every reachable state the workers have at most
  BB_NUMBER_THREADS tasks they have not reported, and no two of them have the same stamp file.
\<close>
theorem exec_parallel_limit:
  assumes "prepare gh g inp = Some (Inr (Some p))" "xe_kind env \<noteq> Basic" "exec_reach env verify (pp_entries p) cov ncov stop s"
  shows "int (card (set (sent (ex_actions s)) - set (ended (ex_actions s)))) \<le> xe_number_tasks env \<and>
    (\<forall>t \<in> set (sent (ex_actions s)) - set (ended (ex_actions s)).
     \<forall>u \<in> set (sent (ex_actions s)) - set (ended (ex_actions s)). t \<noteq> u \<longrightarrow> task_stamp env t \<noteq> task_stamp env u)"
proof -
  have x: "xend env (pp_entries p) s" by (rule prepared_xend [OF assms])
  have W: "set (dkeys (ex_build_stamps s)) = set (sent (ex_actions s)) - set (ended (ex_actions s))"
    and d: "dwf (ex_build_stamps s)" and n: "int (length (ex_build_stamps s)) \<le> xe_number_tasks env"
    and st: "\<And>t st. dget (ex_build_stamps s) t = Some st \<Longrightarrow> dget (sc_stamps (ex_sched s)) t = Some st"
    and nm: "\<forall>t \<in> set (dkeys (pp_entries p)). \<exists>st. task_stamp env t = Inr st \<and> dget (sc_stamps (ex_sched s)) t = Some st"
    and k: "set (sent (ex_actions s)) \<subseteq> set (dkeys (pp_entries p))" and ds: "distinct (map snd (ex_build_stamps s))"
    using x unfolding xend_def by blast+
  have "card (set (dkeys (ex_build_stamps s))) = length (ex_build_stamps s)"
    using distinct_card [OF d] by simp
  then have "int (card (set (sent (ex_actions s)) - set (ended (ex_actions s)))) \<le> xe_number_tasks env"
    using n unfolding W by simp
  moreover have "task_stamp env t \<noteq> task_stamp env u"
    if t: "t \<in> set (sent (ex_actions s)) - set (ended (ex_actions s))"
      and u: "u \<in> set (sent (ex_actions s)) - set (ended (ex_actions s))" and ne: "t \<noteq> u" for t u
  proof
    assume e: "task_stamp env t = task_stamp env u"
    obtain v w where v: "dget (ex_build_stamps s) t = Some v" "dget (ex_build_stamps s) u = Some w"
      using t u unfolding W [symmetric] dget_Some_key by blast
    have tk: "t \<in> set (dkeys (pp_entries p))" "u \<in> set (dkeys (pp_entries p))" using k t u by blast+
    have "task_stamp env t = Inr v" "task_stamp env u = Inr w"
      using bspec [OF nm tk(1)] bspec [OF nm tk(2)] st [OF v(1)] st [OF v(2)] by auto
    then have "v = w" using e by simp
    then show False using key_value [OF ds v(1)] v(2) ne by simp
  qed
  ultimately show ?thesis by blast
qed

text \<open>
  C1: When an execution that was not told to stop (neither from outside, nor because a worker died)
  ends in the state for complete, every task of the table is complete: it ran with exit code 0, had
  nothing to execute, or was skipped, and none failed. In particular the sanity checks at the end of
  \<open>execute\<close> (never buildable, never ran, never completed) cannot fire then.
\<close>
theorem exec_complete_all:
  assumes "prepare gh g inp = Some (Inr (Some p))" "xe_kind env \<noteq> Basic" "exec_reach env verify (pp_entries p) cov ncov False s"
    and "FinishNow \<notin> set (ex_actions s)" "ex_state s = RqComplete"
  shows "set (ex_complete s) = set (dkeys (pp_entries p)) \<and> set (ex_buildable s) = set (dkeys (pp_entries p)) \<and>
    set (ex_running s) = set (dkeys (pp_entries p)) \<and> set (succeeded (ex_actions s)) = set (dkeys (pp_entries p)) \<and> ex_failed s = []"
proof -
  obtain prio where x: "xstate False env prio (pp_entries p) s" using prepared_reach [OF assms(1-3)] by blast
  then have c: "xcore env prio (pp_entries p) s" "ex_failed s = []" "set (ex_complete s) = set (dkeys (pp_entries p))"
    using assms(4,5) unfolding xstate_def xinv_def xlost_def state_inv_defs by auto
  have "sets_inv (pp_entries p) (set (ex_buildable s)) (set (ex_running s)) (set (ex_complete s)) (set (ex_failed s)) (set (dkeys (ex_build_stamps s)))"
    "log_inv (pp_entries p) s" using c(1) unfolding xcore_def by blast+
  then have "set (ex_buildable s) \<subseteq> set (dkeys (pp_entries p))" "set (ex_running s) \<subseteq> set (ex_buildable s)"
    "set (ex_complete s) \<subseteq> set (ex_running s)" "set (succeeded (ex_actions s)) = set (ex_complete s)"
    unfolding sets_inv_def log_inv_def by blast+
  then show ?thesis using c(2,3) by (metis subset_antisym subset_trans)
qed

section \<open>The dependency data\<close>

definition depdata_entry :: "execenv \<Rightarrow> runtasks \<Rightarrow> string \<Rightarrow> (string \<times> string \<times> string \<times> string list \<times> string list) res" where
  "depdata_entry env es t =
     rbind (split_tid_mcfn t) (\<lambda>(mc, fn, taskname, taskfn).
     rbind (ditem (se_caches env) mc) (\<lambda>dc.
     rbind (ditem (dc_pkg_fn dc) taskfn) (\<lambda>pn.
     rbind (ditem es t) (\<lambda>e.
     rbind (ditem (dc_fn_provides dc) taskfn) (\<lambda>provides.
       Inr (pn, taskname, fn, rt_depends e, provides))))))"

lemma depdata_visit_eq:
  "depdata_visit env es t (tdd, additional) =
     rbind (depdata_entry env es t) (\<lambda>v. let tdd = dset t v tdd
       in Inr (tdd, additional @ filter (\<lambda>d. d \<notin> set (dkeys tdd)) (deps_of es t)))"
proof (cases "split_tid_mcfn t")
  case (Inr q)
  obtain mc fn tn tf where q: "q = (mc, fn, tn, tf)" by (cases q)
  show ?thesis
    by (simp add: depdata_visit_def depdata_entry_def Inr q rbind_def ditem_def Let_def deps_of_def split: option.split)
qed (simp add: depdata_visit_def depdata_entry_def)

lemma depdata_entry_key: "depdata_entry env es t = Inr v \<Longrightarrow> t \<in> set (dkeys es)"
  unfolding dget_Some_key by (auto simp: depdata_entry_def rbind_eq_Inr ditem_eq_Inr split: prod.splits)

lemma depdata_entry_error: "depdata_entry env es t = Inl e \<Longrightarrow> e \<noteq> RecursionError"
  by (auto simp: depdata_entry_def rbind_eq_Inl ditem_eq_Inl split_tid_mcfn_def Let_def split: if_splits option.splits prod.splits)

lemma depdata_round:
  assumes "rfold (depdata_visit env es) nxt (tdd, ad) = Inr (tdd', ad')"
  shows "set (dkeys tdd') = set (dkeys tdd) \<union> set nxt \<and> set nxt \<subseteq> set (dkeys es) \<and>
    (\<forall>x \<in> set nxt. \<exists>v. depdata_entry env es x = Inr v \<and> dget tdd' x = Some v) \<and>
    (\<forall>x. x \<notin> set nxt \<longrightarrow> dget tdd' x = dget tdd x) \<and>
    set ad \<subseteq> set ad' \<and> set ad' \<subseteq> set ad \<union> (\<Union>x \<in> set nxt. set (deps_of es x)) \<and>
    (\<forall>x \<in> set nxt. set (deps_of es x) \<subseteq> set (dkeys tdd') \<union> set ad') \<and>
    ((\<forall>x \<in> set nxt. set (deps_of es x) \<subseteq> set (dkeys tdd)) \<longrightarrow> set ad' = set ad)"
  using assms
proof (induction nxt arbitrary: tdd ad)
  case (Cons t nxt)
  obtain v where v: "depdata_entry env es t = Inr v"
    and r: "rfold (depdata_visit env es) nxt (dset t v tdd, ad @ filter (\<lambda>d. d \<notin> set (dkeys (dset t v tdd))) (deps_of es t)) = Inr (tdd', ad')"
    using Cons.prems by (auto simp: depdata_visit_eq rbind_eq_Inr Let_def simp del: list.set_map)
  note ih = Cons.IH [OF r, unfolded set_dkeys_dset]
  have k: "t \<in> set (dkeys es)" by (rule depdata_entry_key [OF v])
  have g: "dget tdd' t = Some v"
  proof (cases "t \<in> set nxt")
    case True
    then show ?thesis using ih v by auto
  next
    case False
    then show ?thesis using ih by (simp add: dget_dset)
  qed
  have c1: "set (dkeys tdd') = set (dkeys tdd) \<union> set (t # nxt)" using ih by simp
  have c2: "\<forall>x \<in> set (t # nxt). \<exists>v. depdata_entry env es x = Inr v \<and> dget tdd' x = Some v"
  proof
    fix x assume "x \<in> set (t # nxt)"
    then consider "x = t" | "x \<in> set nxt" by auto
    then show "\<exists>v. depdata_entry env es x = Inr v \<and> dget tdd' x = Some v" by cases (use ih g v in blast)+
  qed
  have c3: "\<forall>x. x \<notin> set (t # nxt) \<longrightarrow> dget tdd' x = dget tdd x" using ih by (simp add: dget_dset)
  have fl: "set (filter (\<lambda>d. d \<notin> insert t (set (dkeys tdd))) (deps_of es t)) = set (deps_of es t) - insert t (set (dkeys tdd))" by auto
  have c4: "set ad \<subseteq> set ad'" "set ad' \<subseteq> set ad \<union> (\<Union>x \<in> set (t # nxt). set (deps_of es x))"
    "\<forall>x \<in> set (t # nxt). set (deps_of es x) \<subseteq> set (dkeys tdd') \<union> set ad'"
    using ih unfolding set_append fl c1 by auto
  have c5: "set ad' = set ad" if "\<forall>x \<in> set (t # nxt). set (deps_of es x) \<subseteq> set (dkeys tdd)"
    using ih that unfolding set_append fl by auto
  show ?case using k c1 c2 c3 c4 c5 ih by (intro conjI) (simp_all del: list.set_map)
qed simp

lemma depdata_rfold_error: "rfold (depdata_visit env es) nxt s = Inl e \<Longrightarrow> e \<noteq> RecursionError"
proof (drule rfold_Inl, elim bexE exE)
  fix x s assume "depdata_visit env es x s = Inl e"
  then show "e \<noteq> RecursionError"
    by (cases s) (auto simp: depdata_visit_eq rbind_eq_Inl Let_def dest: depdata_entry_error simp del: list.set_map)
qed

definition dep_reach :: "runtasks \<Rightarrow> string \<Rightarrow> string set" where
  "dep_reach es t = {u. (t, u) \<in> {(x, y). y \<in> set (deps_of es x)}\<^sup>*}"

lemma depdata_loop_result:
  assumes "set (dkeys tdd) \<union> set nxt \<subseteq> dep_reach es t" "t \<in> set (dkeys tdd) \<union> set nxt"
    and "\<forall>x \<in> set (dkeys tdd). set (deps_of es x) \<subseteq> set (dkeys tdd) \<union> set nxt"
    and "\<forall>x \<in> set (dkeys tdd). \<exists>v. depdata_entry env es x = Inr v \<and> dget tdd x = Some v"
    and "(nxt = [] \<and> 1 \<le> fuel) \<or> (set nxt \<subseteq> set (dkeys tdd) \<and> 2 \<le> fuel) \<or> card (set (dkeys es) - set (dkeys tdd)) + 2 \<le> fuel"
  shows "\<exists>r. depdata_loop fuel env es nxt tdd = Some r \<and>
    (case r of Inl e \<Rightarrow> e \<noteq> RecursionError
     | Inr tdd' \<Rightarrow> set (dkeys tdd') = dep_reach es t \<and>
         (\<forall>x \<in> set (dkeys tdd'). \<exists>v. depdata_entry env es x = Inr v \<and> dget tdd' x = Some v))"
  using assms
proof (induction fuel arbitrary: nxt tdd)
  case (Suc fuel)
  show ?case
  proof (cases "nxt = []")
    case True
    have "u \<in> set (dkeys tdd)" if "(t, u) \<in> {(x, y). y \<in> set (deps_of es x)}\<^sup>*" for u
      using that Suc.prems(2,3) True by induction auto
    then have "set (dkeys tdd) = dep_reach es t" using Suc.prems(1) True unfolding dep_reach_def by auto
    then show ?thesis using True Suc.prems(4) by simp
  next
    case False
    show ?thesis
    proof (cases "rfold (depdata_visit env es) nxt (tdd, [])")
      case (Inl e)
      then show ?thesis using False depdata_rfold_error [OF Inl] by simp
    next
      case (Inr x)
      obtain tdd' ad where x: "x = (tdd', ad)" by (cases x)
      note rd = depdata_round [OF Inr [unfolded x]]
      have step: "set (deps_of es y) \<subseteq> dep_reach es t" if "y \<in> dep_reach es t" for y
        using that unfolding dep_reach_def by (auto intro: rtrancl_into_rtrancl)
      have "\<exists>r. depdata_loop fuel env es ad tdd' = Some r \<and>
        (case r of Inl e \<Rightarrow> e \<noteq> RecursionError
         | Inr tdd' \<Rightarrow> set (dkeys tdd') = dep_reach es t \<and>
             (\<forall>x \<in> set (dkeys tdd'). \<exists>v. depdata_entry env es x = Inr v \<and> dget tdd' x = Some v))"
      proof (rule Suc.IH)
        have K: "set (dkeys tdd') = set (dkeys tdd) \<union> set nxt" using rd by blast
        have A: "set ad \<subseteq> (\<Union>x \<in> set nxt. set (deps_of es x))" using rd by simp
        show "set (dkeys tdd') \<union> set ad \<subseteq> dep_reach es t" using K A Suc.prems(1) step by blast
        show "t \<in> set (dkeys tdd') \<union> set ad" using K Suc.prems(2) by blast
        show "\<forall>x \<in> set (dkeys tdd'). set (deps_of es x) \<subseteq> set (dkeys tdd') \<union> set ad"
          using rd Suc.prems(3) unfolding K by blast
        show "\<forall>x \<in> set (dkeys tdd'). \<exists>v. depdata_entry env es x = Inr v \<and> dget tdd' x = Some v"
          using rd Suc.prems(4) unfolding K by (metis Un_iff)
        show "(ad = [] \<and> 1 \<le> fuel) \<or> (set ad \<subseteq> set (dkeys tdd') \<and> 2 \<le> fuel) \<or> card (set (dkeys es) - set (dkeys tdd')) + 2 \<le> fuel"
        proof (cases "set nxt \<subseteq> set (dkeys tdd)")
          case True
          then have "\<forall>x \<in> set nxt. set (deps_of es x) \<subseteq> set (dkeys tdd)" using Suc.prems(3) by blast
          then have "ad = []" using rd by simp
          moreover have "1 \<le> fuel" using Suc.prems(5) False by auto
          ultimately show ?thesis by blast
        next
          case new: False
          have "card (set (dkeys es) - set (dkeys tdd')) < card (set (dkeys es) - set (dkeys tdd))"
            by (rule psubset_card_mono) (use rd new in \<open>auto simp del: list.set_map\<close>)
          then show ?thesis using Suc.prems(5) False new by linarith
        qed
      qed
      then show ?thesis using False Inr x by simp
    qed
  qed
qed simp

text \<open>
  C17: The dependency data of a task. Before a task is started, \<open>build_taskdepdata\<close> collects the task and
  everything it depends on, directly or not: the loop ends within the fuel of the model (it would
  otherwise raise RecursionError), and the result holds exactly the tasks reachable along the
  dependencies, each with its package, name, file, dependencies and provides. As a side effect the
  task has become a dependency of itself.
\<close>
theorem taskdepdata_closure:
  assumes "build_taskdepdata env t s = (r, s')"
  shows "case r of
      Inl e \<Rightarrow> e \<noteq> RecursionError
    | Inr tdd \<Rightarrow> set (dkeys tdd) = {u. (t, u) \<in> {(x, y). y \<in> set (deps_of (ex_entries s') x)}\<^sup>*} \<and>
        set (deps_of (ex_entries s') t) = insert t (set (deps_of (ex_entries s) t)) \<and>
        (\<forall>u \<in> set (dkeys tdd). \<exists>mc fn tn tf dc pn prov.
           split_tid_mcfn u = Inr (mc, fn, tn, tf) \<and> ditem (se_caches env) mc = Inr dc \<and> ditem (dc_pkg_fn dc) tf = Inr pn \<and>
           ditem (dc_fn_provides dc) tf = Inr prov \<and> dget tdd u = Some (pn, tn, fn, deps_of (ex_entries s') u, prov))"
proof (cases "dget (ex_entries s) t")
  case None
  then show ?thesis using assms by (auto simp: build_taskdepdata_def mitem_of_def mbind_def mget_def mlift_def ditem_def)
next
  case (Some e)
  let ?nxt = "sadd t (rt_depends e)"
  let ?es = "dset t (e\<lparr>rt_depends := ?nxt\<rparr>) (ex_entries s)"
  have d: "deps_of ?es t = ?nxt" by (simp add: deps_of_def dget_dset)
  have "t \<in> set (dkeys (ex_entries s))" unfolding dget_Some_key using Some by blast
  then have k: "dkeys ?es = dkeys (ex_entries s)" by (rule dkeys_dset_mem)
  have "\<exists>r. depdata_loop (Suc (Suc (length ?es))) env ?es ?nxt [] = Some r \<and>
    (case r of Inl e \<Rightarrow> e \<noteq> RecursionError
     | Inr tdd' \<Rightarrow> set (dkeys tdd') = dep_reach ?es t \<and>
         (\<forall>x \<in> set (dkeys tdd'). \<exists>v. depdata_entry env ?es x = Inr v \<and> dget tdd' x = Some v))"
  proof (rule depdata_loop_result)
    have "u \<in> dep_reach ?es t" if "u \<in> set ?nxt" for u
    proof -
      have "u \<in> set (deps_of ?es t)" using that by (simp only: d)
      then show ?thesis unfolding dep_reach_def by (intro CollectI r_into_rtrancl) simp
    qed
    then show "set (dkeys []) \<union> set ?nxt \<subseteq> dep_reach ?es t" by auto
    have "card (set (dkeys ?es)) \<le> length ?es" using card_length [of "dkeys ?es"] by simp
    then show "(?nxt = [] \<and> 1 \<le> Suc (Suc (length ?es))) \<or> (set ?nxt \<subseteq> set (dkeys []) \<and> 2 \<le> Suc (Suc (length ?es))) \<or>
      card (set (dkeys ?es) - set (dkeys [])) + 2 \<le> Suc (Suc (length ?es))" by simp
  qed simp_all
  then obtain q where q: "depdata_loop (Suc (Suc (length ?es))) env ?es ?nxt [] = Some q"
    and qr: "case q of Inl e \<Rightarrow> e \<noteq> RecursionError
     | Inr tdd' \<Rightarrow> set (dkeys tdd') = dep_reach ?es t \<and>
         (\<forall>x \<in> set (dkeys tdd'). \<exists>v. depdata_entry env ?es x = Inr v \<and> dget tdd' x = Some v)" by blast
  have "build_taskdepdata env t s = mlift q (s\<lparr>ex_entries := ?es\<rparr>)"
    using Some q by (simp add: build_taskdepdata_def mitem_of_def mbind_def mget_def mmod_def mlift_def ditem_def Let_def del: depdata_loop.simps)
  then have rs: "r = q" "ex_entries s' = ?es" using assms by (auto simp: mlift_def)
  have dt: "deps_of (ex_entries s) t = rt_depends e" using Some by (simp add: deps_of_def)
  show ?thesis
  proof (cases q)
    case (Inl e)
    then show ?thesis using qr rs by simp
  next
    case (Inr tdd)
    have ent: "\<exists>mc fn tn tf dc pn prov.
           split_tid_mcfn u = Inr (mc, fn, tn, tf) \<and> ditem (se_caches env) mc = Inr dc \<and> ditem (dc_pkg_fn dc) tf = Inr pn \<and>
           ditem (dc_fn_provides dc) tf = Inr prov \<and> dget tdd u = Some (pn, tn, fn, deps_of ?es u, prov)"
      if "u \<in> set (dkeys tdd)" for u
    proof -
      have "\<forall>x \<in> set (dkeys tdd). \<exists>v. depdata_entry env ?es x = Inr v \<and> dget tdd x = Some v"
        using qr unfolding Inr sum.case by (rule conjunct2)
      from bspec [OF this that] obtain v where v: "depdata_entry env ?es u = Inr v" "dget tdd u = Some v" by (elim exE conjE)
      then show ?thesis by (auto simp: depdata_entry_def rbind_eq_Inr ditem_eq_Inr deps_of_def)
    qed
    show ?thesis using qr Inr rs ent unfolding dep_reach_def by (simp add: d dt del: list.set_map)
  qed
qed

section \<open>Examples\<close>

definition two_env :: execenv where
  "two_env = \<lparr>se_caches = [([], init_cacheData\<lparr>dc_task_deps := [(''f'', two_tasks)], dc_pkg_fn := [(''f'', ''p'')],
       dc_fn_provides := [(''f'', [''p''])], dc_stamp := [(''f'', ''S'')], dc_stamp_extrainfo := [(''f'', [])]\<rparr>)],
     se_scheme = plain_stampfile, se_policy = ''perfile'', se_whitelist = [],
     xe_taskdata = rq_taskdata two_input, xe_number_tasks = 1, xe_dry_run = False, xe_setscene_tids = [],
     xe_whitelisted = None, xe_kind = Speed\<rparr>"

text \<open>Workers that report success for everything they have, and workers that report nothing.\<close>

definition all_done :: pipes where
  "all_done s = map (\<lambda>t. TaskEnded t 0) (remdups (dkeys (ex_build_stamps s)))"

definition no_reports :: pipes where
  "no_reports s = []"

definition no_files :: files where
  "no_files f = None"

text \<open>What holds after the preparation, the start of the execution and a call of execute, none raising.\<close>

definition prepared_then :: "(nat prepared \<Rightarrow> bool) \<Rightarrow> bool" where
  "prepared_then P = (case prepare count_hash 0 two_input of Some (Inr (Some p)) \<Rightarrow> P p | _ \<Rightarrow> False)"

definition init_then :: "nat prepared \<Rightarrow> (exst \<Rightarrow> bool) \<Rightarrow> bool" where
  "init_then p P = (case exec_init two_env no_files None (pp_entries p) [] [] of Some (Inr s) \<Rightarrow> P s | _ \<Rightarrow> False)"

definition exec_then :: "pipes \<Rightarrow> exst \<Rightarrow> (exst \<Rightarrow> bool) \<Rightarrow> bool" where
  "exec_then pipe s P = (case execute two_env no_files True pipe no_reports s of (Inr r, s') \<Rightarrow> P s' | _ \<Rightarrow> False)"

lemma prepared_thenD: "prepared_then P \<Longrightarrow> \<exists>p. prepare count_hash 0 two_input = Some (Inr (Some p)) \<and> P p"
  by (auto simp: prepared_then_def split: option.split_asm sum.split_asm)

lemma init_thenD: "init_then p P \<Longrightarrow> \<exists>s. exec_init two_env no_files None (pp_entries p) [] [] = Some (Inr s) \<and> P s"
  by (auto simp: init_then_def split: option.split_asm sum.split_asm)

lemma exec_thenD: "exec_then pipe s P \<Longrightarrow> \<exists>r s'. execute two_env no_files True pipe no_reports s = (Inr r, s') \<and> P s'"
  unfolding exec_then_def by (cases "execute two_env no_files True pipe no_reports s"; cases "fst (execute two_env no_files True pipe no_reports s)") simp_all

lemma two_run:
  "prepared_then (\<lambda>p. init_then p (\<lambda>s0. ex_state s0 = RqRunning \<and> exec_then no_reports s0 (\<lambda>s1.
     (ex_state s1 = RqRunning \<and> sent (ex_actions s1) = [''f:x''] \<and> ended (ex_actions s1) = []) \<and> exec_then all_done s1 (\<lambda>s2.
     (ex_state s2 = RqRunning \<and> begun (ex_actions s2) = [''f:x'', ''f:y'']) \<and> exec_then all_done s2 (\<lambda>s3.
     (ex_state s3 = RqComplete \<and> FinishNow \<notin> set (ex_actions s3)) \<and> succeeded (ex_actions s3) = [''f:x'', ''f:y''])))))"
  by code_simp

lemma pipes_ok: "pipe_ok all_done" "pipe_ok no_reports"
proof -
  have "ended_tasks (map (\<lambda>t. TaskEnded t 0) ts) = ts" for ts by (induction ts) simp_all
  then show "pipe_ok all_done" "pipe_ok no_reports"
    by (simp_all add: pipe_ok_def all_done_def no_reports_def)
qed

lemma same_fakeworkers: "s\<lparr>ex_fakeworkers := ex_fakeworkers s\<rparr> = s"
  by simp

lemma two_states:
  "\<exists>p s1 s2 s3. prepare count_hash 0 two_input = Some (Inr (Some p)) \<and>
     exec_reach two_env None (pp_entries p) [] [] False s1 \<and> sent (ex_actions s1) = [''f:x''] \<and> ended (ex_actions s1) = [] \<and>
     exec_reach two_env None (pp_entries p) [] [] False s2 \<and> begun (ex_actions s2) = [''f:x'', ''f:y''] \<and>
     exec_reach two_env None (pp_entries p) [] [] False s3 \<and> (ex_state s3 = RqComplete \<and> FinishNow \<notin> set (ex_actions s3)) \<and> succeeded (ex_actions s3) = [''f:x'', ''f:y'']"
proof -
  from prepared_thenD [OF two_run] obtain p where p: "prepare count_hash 0 two_input = Some (Inr (Some p))"
    and q: "init_then p (\<lambda>s0. ex_state s0 = RqRunning \<and> exec_then no_reports s0 (\<lambda>s1.
     (ex_state s1 = RqRunning \<and> sent (ex_actions s1) = [''f:x''] \<and> ended (ex_actions s1) = []) \<and> exec_then all_done s1 (\<lambda>s2.
     (ex_state s2 = RqRunning \<and> begun (ex_actions s2) = [''f:x'', ''f:y'']) \<and> exec_then all_done s2 (\<lambda>s3.
     (ex_state s3 = RqComplete \<and> FinishNow \<notin> set (ex_actions s3)) \<and> succeeded (ex_actions s3) = [''f:x'', ''f:y'']))))" by (elim exE conjE)
  from init_thenD [OF q] obtain s0 where e0: "exec_init two_env no_files None (pp_entries p) [] [] = Some (Inr s0)" "ex_state s0 = RqRunning"
    and q1: "exec_then no_reports s0 (\<lambda>s1.
     (ex_state s1 = RqRunning \<and> sent (ex_actions s1) = [''f:x''] \<and> ended (ex_actions s1) = []) \<and> exec_then all_done s1 (\<lambda>s2.
     (ex_state s2 = RqRunning \<and> begun (ex_actions s2) = [''f:x'', ''f:y'']) \<and> exec_then all_done s2 (\<lambda>s3.
     (ex_state s3 = RqComplete \<and> FinishNow \<notin> set (ex_actions s3)) \<and> succeeded (ex_actions s3) = [''f:x'', ''f:y''])))" by (elim exE conjE)
  from exec_thenD [OF q1] obtain r1 s1 where
    e1: "execute two_env no_files True no_reports no_reports s0 = (Inr r1, s1)" "ex_state s1 = RqRunning"
      "sent (ex_actions s1) = [''f:x'']" "ended (ex_actions s1) = []"
    and q2: "exec_then all_done s1 (\<lambda>s2.
     (ex_state s2 = RqRunning \<and> begun (ex_actions s2) = [''f:x'', ''f:y'']) \<and> exec_then all_done s2 (\<lambda>s3.
     (ex_state s3 = RqComplete \<and> FinishNow \<notin> set (ex_actions s3)) \<and> succeeded (ex_actions s3) = [''f:x'', ''f:y'']))" by (elim exE conjE)
  from exec_thenD [OF q2] obtain r2 s2 where
    e2: "execute two_env no_files True all_done no_reports s1 = (Inr r2, s2)" "ex_state s2 = RqRunning"
      "begun (ex_actions s2) = [''f:x'', ''f:y'']"
    and q3: "exec_then all_done s2 (\<lambda>s3. (ex_state s3 = RqComplete \<and> FinishNow \<notin> set (ex_actions s3)) \<and> succeeded (ex_actions s3) = [''f:x'', ''f:y''])" by (elim exE conjE)
  from exec_thenD [OF q3] obtain r3 s3 where
    e3: "execute two_env no_files True all_done no_reports s2 = (Inr r3, s3)" "ex_state s3 = RqComplete \<and> FinishNow \<notin> set (ex_actions s3)"
      "succeeded (ex_actions s3) = [''f:x'', ''f:y'']" by blast
  have x0: "exec_reach two_env None (pp_entries p) [] [] False s0" by (metis exec_reach.start [OF e0(1), of "ex_fakeworkers s0"] same_fakeworkers)
  have x1: "exec_reach two_env None (pp_entries p) [] [] False s1" by (rule exec_reach.run [OF x0 e0(2) pipes_ok(2,2) e1(1)])
  have x2: "exec_reach two_env None (pp_entries p) [] [] False s2" by (rule exec_reach.run [OF x1 e1(2) pipes_ok(1,2) e2(1)])
  have x3: "exec_reach two_env None (pp_entries p) [] [] False s3" by (rule exec_reach.run [OF x2 e2(2) pipes_ok(1,2) e3(1)])
  show ?thesis using p x1 e1(3,4) x2 e2(3) x3 e3(2,3) by blast
qed

lemma two_env_kind: "xe_kind two_env \<noteq> Basic"
  by (simp add: two_env_def)

lemma exec_in_order_witness:
  "\<exists>p s. prepare count_hash 0 two_input = Some (Inr (Some p)) \<and> exec_reach two_env None (pp_entries p) [] [] False s \<and>
     begun (ex_actions s) = [''f:x'', ''f:y''] \<and> distinct (begun (ex_actions s))"
proof -
  obtain p s where p: "prepare count_hash 0 two_input = Some (Inr (Some p))"
    and x: "exec_reach two_env None (pp_entries p) [] [] False s" and b: "begun (ex_actions s) = [''f:x'', ''f:y'']"
    using two_states by blast
  from exec_in_order [OF p two_env_kind x] show ?thesis using p x b by blast
qed

lemma exec_parallel_limit_witness:
  "\<exists>p s. prepare count_hash 0 two_input = Some (Inr (Some p)) \<and> exec_reach two_env None (pp_entries p) [] [] False s \<and>
     sent (ex_actions s) = [''f:x''] \<and> ended (ex_actions s) = [] \<and>
     int (card (set (sent (ex_actions s)) - set (ended (ex_actions s)))) \<le> xe_number_tasks two_env"
proof -
  obtain p s where p: "prepare count_hash 0 two_input = Some (Inr (Some p))"
    and x: "exec_reach two_env None (pp_entries p) [] [] False s" and b: "sent (ex_actions s) = [''f:x'']" "ended (ex_actions s) = []"
    using two_states by blast
  from exec_parallel_limit [OF p two_env_kind x] show ?thesis using p x b by blast
qed

lemma exec_complete_all_witness:
  "\<exists>p s. prepare count_hash 0 two_input = Some (Inr (Some p)) \<and> exec_reach two_env None (pp_entries p) [] [] False s \<and>
     ex_state s = RqComplete \<and> set (ex_complete s) = set (dkeys (pp_entries p)) \<and> succeeded (ex_actions s) = [''f:x'', ''f:y'']"
proof -
  obtain p s where p: "prepare count_hash 0 two_input = Some (Inr (Some p))"
    and x: "exec_reach two_env None (pp_entries p) [] [] False s" and b: "ex_state s = RqComplete" "FinishNow \<notin> set (ex_actions s)" "succeeded (ex_actions s) = [''f:x'', ''f:y'']"
    using two_states by blast
  from exec_complete_all [OF p two_env_kind x b(2,1)] show ?thesis using p x b by blast
qed

lemma two_depdata:
  "prepared_then (\<lambda>p. init_then p (\<lambda>s. case build_taskdepdata two_env ''f:y'' s of
     (Inr tdd, s') \<Rightarrow> dkeys tdd = [''f:x'', ''f:y''] | _ \<Rightarrow> False))"
  by code_simp

lemma taskdepdata_closure_witness:
  "\<exists>s tdd s'. build_taskdepdata two_env ''f:y'' s = (Inr tdd, s') \<and> dkeys tdd = [''f:x'', ''f:y''] \<and>
     {u. (''f:y'', u) \<in> {(x, y). y \<in> set (deps_of (ex_entries s') x)}\<^sup>*} = {''f:x'', ''f:y''}"
proof -
  from prepared_thenD [OF two_depdata] obtain p where
    "init_then p (\<lambda>s. case build_taskdepdata two_env ''f:y'' s of
     (Inr tdd, s') \<Rightarrow> dkeys tdd = [''f:x'', ''f:y''] | _ \<Rightarrow> False)" by (elim exE conjE)
  from init_thenD [OF this] obtain s where
    "case build_taskdepdata two_env ''f:y'' s of (Inr tdd, s') \<Rightarrow> dkeys tdd = [''f:x'', ''f:y''] | _ \<Rightarrow> False" by (elim exE conjE)
  then obtain tdd s' where b: "build_taskdepdata two_env ''f:y'' s = (Inr tdd, s')" "dkeys tdd = [''f:x'', ''f:y'']"
    by (cases "build_taskdepdata two_env ''f:y'' s"; cases "fst (build_taskdepdata two_env ''f:y'' s)") simp_all
  have "set (dkeys tdd) = {u. (''f:y'', u) \<in> {(x, y). y \<in> set (deps_of (ex_entries s') x)}\<^sup>*}"
    using taskdepdata_closure [OF b(1)] unfolding sum.case by (rule conjunct1)
  then have "{u. (''f:y'', u) \<in> {(x, y). y \<in> set (deps_of (ex_entries s') x)}\<^sup>*} = {''f:x'', ''f:y''}"
    unfolding b(2) list.set by (rule sym)
  then show ?thesis using b by (intro exI conjI)
qed

end
