(* ===== verification/BB_SceneGraph.thy ===== *)
theory BB_SceneGraph
  imports BB_Stamps
begin

text \<open>
  The graph of the setscene tasks, from \<open>RunQueueExecuteScenequeue.__init__\<close> of \<open>lib/bb/runqueue.py\<close>:
  the run queue's table is collapsed into a table of the setscene tasks only. The sets in the local
  dictionaries are copies, so values are enough; \<open>newendpoints[dep] = task\<close> shares a set that nothing
  changes.
\<close>

type_synonym tidsets = "(string, string list) dict"

section \<open>The chains of tasks\<close>

text \<open>The end points: the tasks nothing depends on, then what the setscene tasks depend on.\<close>

definition endpoints_first :: "runtasks \<Rightarrow> string list \<Rightarrow> tidsets" where
  "endpoints_first es scene =
     fold (\<lambda>(tid, e) ep. if rt_revdeps e = [] \<and> tid \<notin> set scene then dset tid [] ep else ep) es []"

definition add_scene_deps :: "runtasks \<Rightarrow> string \<Rightarrow> tidsets \<Rightarrow> tidsets res" where
  "add_scene_deps es tid ep =
     rbind (ditem es tid) (\<lambda>e. Inr (fold (\<lambda>dep ep. dset dep (sadd tid (ddefault ep dep)) ep) (rt_depends e) ep))"

text \<open>\<open>sq_revdeps\<close> and \<open>sq_revdeps_new\<close>, and the next end points.\<close>

record sqwork =
  sw_revdeps :: tidsets
  sw_new :: tidsets
  sw_next :: tidsets

definition sqwork_init :: "runtasks \<Rightarrow> sqwork" where
  "sqwork_init es = \<lparr>sw_revdeps = map (\<lambda>(tid, e). (tid, rt_revdeps e)) es, sw_new = map (\<lambda>(tid, _). (tid, [])) es, sw_next = []\<rparr>"

text \<open>Handing \<open>tasks\<close> down to one dependency; \<open>val\<close> is what the next end point is started with.\<close>

definition push_dep :: "string list \<Rightarrow> string \<Rightarrow> string list \<Rightarrow> string list \<Rightarrow> string \<Rightarrow> sqwork \<Rightarrow> sqwork res" where
  "push_dep scene point tasks val dep w =
     rbind (ditem (sw_revdeps w) dep) (\<lambda>rd.
     let rd = (if point \<in> set rd then remove1 point rd else rd) in
     rbind (ditem (sw_new w) dep) (\<lambda>nd.
     let nd = (if tasks \<noteq> [] then fold sadd tasks nd else nd) in
     Inr (w\<lparr>sw_revdeps := dset dep rd (sw_revdeps w), sw_new := dset dep nd (sw_new w),
            sw_next := (if (rd = [] \<or> nd \<noteq> []) \<and> dep \<notin> set scene then dset dep val (sw_next w) else sw_next w)\<rparr>)))"

definition process_point :: "runtasks \<Rightarrow> string list \<Rightarrow> string \<times> string list \<Rightarrow> sqwork \<Rightarrow> sqwork res" where
  "process_point es scene = (\<lambda>(point, task) w.
     rbind (ditem (sw_new w) point) (\<lambda>new.
     let tasks = fold sadd new (fold sadd task []) in
     rbind (ditem es point) (\<lambda>e.
       if point \<in> set scene
       then rfold (push_dep scene point [] task) (rt_depends e) (w\<lparr>sw_new := dset point tasks (sw_new w)\<rparr>)
       else rfold (push_dep scene point tasks task) (rt_depends e) (w\<lparr>sw_new := dset point [] (sw_new w)\<rparr>))))"

text \<open>\<open>process_endpoints\<close> calls itself for the next end points; None: the fuel ran out.\<close>

fun process_endpoints :: "nat \<Rightarrow> runtasks \<Rightarrow> string list \<Rightarrow> tidsets \<Rightarrow> sqwork \<Rightarrow> sqwork res option" where
  "process_endpoints 0 es scene ep w = None"
| "process_endpoints (Suc fuel) es scene ep w =
     (case rfold (process_point es scene) ep (w\<lparr>sw_next := []\<rparr>) of
        Inl e \<Rightarrow> Some (Inl e)
      | Inr w \<Rightarrow> if sw_next w \<noteq> [] then process_endpoints fuel es scene (sw_next w) w else Some (Inr w))"

section \<open>The tasks that cannot be skipped\<close>

definition process_point2 :: "runtasks \<Rightarrow> string list \<Rightarrow> string \<times> string list \<Rightarrow> sqwork \<Rightarrow> sqwork res" where
  "process_point2 es scene = (\<lambda>(point, task) w.
     rbind (ditem (sw_new w) point) (\<lambda>new.
     let tasks = fold sadd new (fold sadd task [point]) in
     rbind (ditem es point) (\<lambda>e.
       rfold (push_dep scene point tasks tasks) (rt_depends e)
         (w\<lparr>sw_new := dset point (if point \<in> set scene then tasks else []) (sw_new w)\<rparr>))))"

fun process_endpoints2 :: "nat \<Rightarrow> runtasks \<Rightarrow> string list \<Rightarrow> tidsets \<Rightarrow> sqwork \<Rightarrow> sqwork res option" where
  "process_endpoints2 0 es scene ep w = None"
| "process_endpoints2 (Suc fuel) es scene ep w =
     (case rfold (process_point2 es scene) ep (w\<lparr>sw_next := []\<rparr>) of
        Inl e \<Rightarrow> Some (Inl e)
      | Inr w \<Rightarrow> if sw_next w \<noteq> [] then process_endpoints2 fuel es scene (sw_next w) w else Some (Inr w))"

definition unskippable_tids :: "nat \<Rightarrow> runtasks \<Rightarrow> string list \<Rightarrow> string list res option" where
  "unskippable_tids fuel es scene =
     map_option (\<lambda>r. rbind r (\<lambda>w. rfold (\<lambda>tid us. rbind (ditem (sw_new w) tid) (\<lambda>nd. Inr (if nd \<noteq> [] then us @ [tid] else us))) scene []))
       (process_endpoints2 fuel es scene (endpoints_first es scene) (sqwork_init es))"

section \<open>The collapsed table\<close>

definition squash :: "runtasks \<Rightarrow> string list \<Rightarrow> sqwork \<Rightarrow> tidsets res" where
  "squash es scene w =
     rfold (\<lambda>tid sq. rbind (ditem (sw_new w) tid) (\<lambda>nd.
       if tid \<in> set scene then Inr (dset tid nd sq)
       else if nd \<noteq> [] then Inl (MsgFatal ''RunQueue'') else Inr sq)) (dkeys es) []"

definition scene_chains :: "nat \<Rightarrow> runtasks \<Rightarrow> string list \<Rightarrow> sqwork res option" where
  "scene_chains fuel es scene =
     (case rfold (add_scene_deps es) scene (endpoints_first es scene) of
        Inl e \<Rightarrow> Some (Inl e)
      | Inr ep \<Rightarrow> process_endpoints fuel es scene ep (sqwork_init es))"

text \<open>The unskippable tasks and the collapsed table; None: the fuel ran out.\<close>

definition scene_graph :: "nat \<Rightarrow> runtasks \<Rightarrow> string list \<Rightarrow> (string list \<times> tidsets) res option" where
  "scene_graph fuel es scene =
     (case scene_chains fuel es scene of
        None \<Rightarrow> None
      | Some (Inl e) \<Rightarrow> Some (Inl e)
      | Some (Inr w) \<Rightarrow> map_option (\<lambda>r. rbind r (\<lambda>us. rbind (squash es scene w) (\<lambda>sq. Inr (us, sq))))
                          (unskippable_tids fuel es scene))"

section \<open>Dependencies between setscene tasks\<close>

text \<open>One \<open>depends\<close> flag entry of a setscene task; the state is \<open>sq_harddeps\<close> and \<open>sq_revdeps_squash\<close>.\<close>

definition hard_dep :: "taskdata \<Rightarrow> runtasks \<Rightarrow> string \<Rightarrow> string \<times> string \<Rightarrow> tidsets \<times> tidsets \<Rightarrow> (tidsets \<times> tidsets) res" where
  "hard_dep td es tid = (\<lambda>(depname, idependtask) (hard, sq).
     case dget (tk_build_targets td) depname of
       None \<Rightarrow> Inr (hard, sq)
     | Some [] \<Rightarrow> Inl IndexError
     | Some (depfn # _) \<Rightarrow>
         (let deptid = depfn @ '':'' @ remove_sub ''_setscene'' idependtask in
          if deptid \<notin> set (dkeys es) then Inl (MsgFatal ''RunQueue'')
          else rbind (ditem sq tid) (\<lambda>rd.
            Inr (dset deptid (sadd tid (ddefault hard deptid)) hard, dset deptid [] (dset tid (sadd deptid rd) sq)))))"

text \<open>The reverse dependencies the hard dependencies give back, and the dependencies.\<close>

definition restore_hard :: "tidsets \<Rightarrow> tidsets \<Rightarrow> tidsets res" where
  "restore_hard hard sq =
     rfold (\<lambda>(task, deps) sq. rfold (\<lambda>dep sq. rbind (ditem sq dep) (\<lambda>rd. Inr (dset dep (sadd task rd) sq))) deps sq) hard sq"

definition scene_deps :: "tidsets \<Rightarrow> tidsets res" where
  "scene_deps sq =
     rfold (\<lambda>(tid, rd) ds. rfold (\<lambda>dep ds. rbind (ditem ds dep) (\<lambda>d. Inr (dset dep (sadd tid d) ds))) rd ds)
       sq (map (\<lambda>(tid, _). (tid, [])) sq)"

end
