(* ===== verification/BB_SceneQueue.thy ===== *)
theory BB_SceneQueue
  imports BB_Exec BB_SceneGraph
begin

text \<open>
  \<open>RunQueueExecuteScenequeue\<close> of \<open>lib/bb/runqueue.py\<close>: the queue of the setscene tasks. The metadata's
  hash check and dependency check functions are arguments, as are the reports read from the pipes,
  the modification times of the files and whether a fakeroot worker starts.
\<close>

section \<open>The state\<close>

text \<open>The arguments of the hash check: recipe file, task name, hash and hash file of each task.\<close>

type_synonym hashcheck = "(string \<times> string \<times> string option \<times> string) list \<Rightarrow> int list res"

type_synonym depcheck = "string \<Rightarrow> (string, string \<times> string \<times> string) dict \<Rightarrow> string list \<Rightarrow> bool res"

record sceneenv = execenv +
  ne_target_tids :: "string list"
  ne_force :: bool
  ne_hashvalidate :: "hashcheck option"
  ne_depvalidate :: "depcheck option"
  ne_match :: "string \<Rightarrow> string \<Rightarrow> bool"
  ne_setscenewhitelist :: "string list option"

datatype sceneaction =
    SnRunTask string string string bool
  | SnMakeStamp string
  | SnStartFakeworker string
  | SnStarted string
  | SnCompleted string
  | SnFailed string int
  | SnExitWait int
  | SnComplete
  | SnFinishNow

record scst =
  sn_covered :: "string list"
  sn_notcovered :: "string list"
  sn_notneeded :: "string list"
  sn_buildable :: "string list"
  sn_running :: "string list"
  sn_build_stamps :: "(string, string option) dict"
  sn_build_stamps2 :: "string option list"
  sn_stats :: rqstats
  sn_harddeps :: tidsets
  sn_stamps :: "(string, string option) dict"
  sn_revdeps :: tidsets
  sn_revdeps2 :: tidsets
  sn_deps :: tidsets
  sn_unskippable :: "string list"
  sn_outrightfail :: "string list"
  sn_stampcache :: "(string, bool) dict"
  sn_fakeworkers :: "string list"
  sn_state :: rq_state
  sn_actions :: "sceneaction list"

definition sn_do :: "sceneaction \<Rightarrow> (scst, unit) eff" where
  "sn_do a = mmod (\<lambda>s. s\<lparr>sn_actions := sn_actions s @ [a]\<rparr>)"

definition sn_set_state :: "rq_state \<Rightarrow> (scst, unit) eff" where
  "sn_set_state st = mmod (\<lambda>s. s\<lparr>sn_state := st\<rparr>)"

definition sn_upd_stats :: "(rqstats \<Rightarrow> rqstats) \<Rightarrow> (scst, unit) eff" where
  "sn_upd_stats f = mmod (\<lambda>s. s\<lparr>sn_stats := f (sn_stats s)\<rparr>)"

definition sn_set_buildable :: "string \<Rightarrow> (scst, unit) eff" where
  "sn_set_buildable task = mmod (\<lambda>s. s\<lparr>sn_buildable := sadd task (sn_buildable s)\<rparr>)"

definition sn_mark_started :: "string \<Rightarrow> (scst, unit) eff" where
  "sn_mark_started task =
     mseq (mmod (\<lambda>s. s\<lparr>sn_running := sadd task (sn_running s)\<rparr>)) (sn_set_buildable task)"

section \<open>Completing setscene tasks\<close>

text \<open>\<open>rec\<close>: the recursive call for a hard dependency of a failed task.\<close>

definition updatecounters_dep :: "(string \<Rightarrow> (scst, unit) eff) \<Rightarrow> bool \<Rightarrow> string \<Rightarrow> string \<Rightarrow> (scst, unit) eff" where
  "updatecounters_dep rec fail task dep =
     mbind (mget (\<lambda>s. fail \<and> dep \<in> set (ddefault (sn_harddeps s) task))) (\<lambda>hard.
     if hard then rec dep
     else mbind (mitem_of sn_revdeps2 dep) (\<lambda>rd.
       if task \<notin> set rd then mret ()
       else mseq (mmod (\<lambda>s. s\<lparr>sn_revdeps2 := dset dep (removeAll task rd) (sn_revdeps2 s)\<rparr>))
                 (mwhen (removeAll task rd = []) (sn_set_buildable dep))))"

fun scenequeue_updatecounters :: "nat \<Rightarrow> bool \<Rightarrow> string \<Rightarrow> (scst, unit) eff" where
  "scenequeue_updatecounters 0 fail task = mraise RecursionError"
| "scenequeue_updatecounters (Suc lim) fail task =
     mbind (mitem_of sn_deps task) (\<lambda>deps.
       mfor deps (updatecounters_dep (scenequeue_updatecounters lim fail) fail task))"

definition sn_task_completeoutright :: "nat \<Rightarrow> string \<Rightarrow> (scst, unit) eff" where
  "sn_task_completeoutright lim task =
     mseq (mmod (\<lambda>s. s\<lparr>sn_covered := sadd task (sn_covered s)\<rparr>)) (scenequeue_updatecounters lim False task)"

text \<open>\<open>s.split(sub)[0]\<close>.\<close>

fun before_sub :: "string \<Rightarrow> string \<Rightarrow> string" where
  "before_sub sub [] = []"
| "before_sub sub (c # cs) = (if prefix sub (c # cs) then [] else c # before_sub sub cs)"

text \<open>\<open>fnmatch.fnmatch\<close> of the standard library is an argument.\<close>

definition check_setscene_enforce_whitelist :: "(string \<Rightarrow> string \<Rightarrow> bool) \<Rightarrow> string \<Rightarrow> string \<Rightarrow> string list option \<Rightarrow> bool" where
  "check_setscene_enforce_whitelist match pn taskname whitelist =
     (case whitelist of
        None \<Rightarrow> True
      | Some wl \<Rightarrow> if wl = [] then True
                   else list_ex (match (pn @ '':'' @ taskname)) wl)"

definition check_taskfail :: "sceneenv \<Rightarrow> string \<Rightarrow> (scst, unit) eff" where
  "check_taskfail env task =
     (if ne_setscenewhitelist env \<in> {None, Some []} then mret ()
      else mbind (mlift (split_tid_mcfn (before_sub ''_setscene'' task))) (\<lambda>(mc, fn, taskname, taskfn).
           mbind (mlift (ditem (se_caches env) mc)) (\<lambda>dc.
           mbind (mlift (ditem (dc_pkg_fn dc) taskfn)) (\<lambda>pn.
           mwhen (\<not> check_setscene_enforce_whitelist (ne_match env) pn taskname (ne_setscenewhitelist env))
             (sn_set_state RqCleanUp)))))"

definition sn_task_complete :: "nat \<Rightarrow> string \<Rightarrow> (scst, unit) eff" where
  "sn_task_complete lim task =
     mseq (sn_upd_stats (taskCompleted 1)) (mseq (sn_do (SnCompleted task)) (sn_task_completeoutright lim task))"

definition sn_notcover :: "nat \<Rightarrow> string \<Rightarrow> (scst, unit) eff" where
  "sn_notcover lim task =
     mseq (mmod (\<lambda>s. s\<lparr>sn_notcovered := sadd task (sn_notcovered s)\<rparr>)) (scenequeue_updatecounters lim True task)"

definition sn_task_fail :: "nat \<Rightarrow> sceneenv \<Rightarrow> string \<Rightarrow> int \<Rightarrow> (scst, unit) eff" where
  "sn_task_fail lim env task result =
     mseq (sn_upd_stats taskFailed) (mseq (sn_do (SnFailed task result))
     (mseq (sn_notcover lim task) (check_taskfail env task)))"

definition sn_task_failoutright :: "nat \<Rightarrow> string \<Rightarrow> (scst, unit) eff" where
  "sn_task_failoutright lim task =
     mseq (sn_mark_started task) (mseq (sn_upd_stats (taskCompleted 1))
     (mseq (sn_upd_stats (taskSkipped 1)) (sn_notcover lim task)))"

definition sn_task_skip :: "nat \<Rightarrow> string \<Rightarrow> (scst, unit) eff" where
  "sn_task_skip lim task =
     mseq (sn_mark_started task) (mseq (sn_task_completeoutright lim task)
     (mseq (sn_upd_stats (taskCompleted 1)) (sn_upd_stats (taskSkipped 1))))"

section \<open>Reports of the workers\<close>

definition sn_forget_stamp :: "string \<Rightarrow> (scst, unit) eff" where
  "sn_forget_stamp task =
     mbind (mget (\<lambda>s. dget (sn_build_stamps s) task)) (\<lambda>st. case st of
        None \<Rightarrow> mret ()
      | Some stamp \<Rightarrow> mbind (mget (\<lambda>s. stamp \<in> set (sn_build_stamps2 s))) (\<lambda>b.
          if b then mmod (\<lambda>s. s\<lparr>sn_build_stamps2 := remove1 stamp (sn_build_stamps2 s),
                                sn_build_stamps := filter (\<lambda>(t, _). t \<noteq> task) (sn_build_stamps s)\<rparr>)
          else mraise ValueError))"

definition sn_process_waitpid :: "nat \<Rightarrow> sceneenv \<Rightarrow> string \<times> int \<Rightarrow> (scst, unit) eff" where
  "sn_process_waitpid lim env = (\<lambda>(task, status).
     mseq (sn_forget_stamp task) (if status \<noteq> 0 then sn_task_fail lim env task status else sn_task_complete lim task))"

text \<open>\<open>failed_tids\<close> stays empty in the setscene queue.\<close>

definition sn_finish_now :: "(scst, unit) eff" where
  "sn_finish_now = mseq (sn_do SnFinishNow) (sn_set_state RqComplete)"

text \<open>The pipes, as for the tasks: exit reports, and workers found dead.\<close>

type_synonym scenepipes = "scst \<Rightarrow> report list"

definition sn_take_report :: "nat \<Rightarrow> sceneenv \<Rightarrow> report \<Rightarrow> (scst, unit) eff" where
  "sn_take_report lim env r = (case r of
      WorkerDied \<Rightarrow> sn_finish_now
    | TaskEnded task status \<Rightarrow> sn_process_waitpid lim env (task, status))"

definition sn_read_workers :: "nat \<Rightarrow> sceneenv \<Rightarrow> scenepipes \<Rightarrow> (scst, unit) eff" where
  "sn_read_workers lim env pipe = mbind (mget pipe) (\<lambda>reports. mfor reports (sn_take_report lim env))"

definition scene_finish :: "nat \<Rightarrow> sceneenv \<Rightarrow> scenepipes \<Rightarrow> (scst, retval) eff" where
  "scene_finish lim env pipe =
     mseq (sn_set_state RqCleanUp)
     (mbind (mget (\<lambda>s. st_active (sn_stats s))) (\<lambda>active.
      if active > 0
      then mseq (sn_do (SnExitWait active)) (mseq (sn_read_workers lim env pipe) (mret RFds))
      else mseq (sn_set_state RqComplete) (mret RTrue)))"

section \<open>One call of execute\<close>

text \<open>\<open>taskdeps.add(task)\<close> adds the task to its own entry of \<open>sq_revdeps\<close>.\<close>

definition check_dependencies :: "sceneenv \<Rightarrow> string \<Rightarrow> (scst, bool) eff" where
  "check_dependencies env task =
     (case ne_depvalidate env of
        None \<Rightarrow> mret False
      | Some validate \<Rightarrow>
          mbind (mitem_of sn_revdeps task) (\<lambda>taskdeps.
          let taskdeps = sadd task taskdeps in
          mseq (mmod (\<lambda>s. s\<lparr>sn_revdeps := dset task taskdeps (sn_revdeps s)\<rparr>))
          (mbind (mlift (rfold (\<lambda>dep td. rbind (split_tid_mcfn dep) (\<lambda>(mc, fn, taskname, taskfn).
             rbind (ditem (se_caches env) mc) (\<lambda>dc. rbind (ditem (dc_pkg_fn dc) taskfn) (\<lambda>pn.
               Inr (dset dep (pn, taskname, fn) td))))) taskdeps [])) (\<lambda>taskdata.
           mbind (mget sn_notneeded) (\<lambda>notneeded. mlift (validate task taskdata notneeded))))))"

definition sn_stamp_current :: "sceneenv \<Rightarrow> files \<Rightarrow> runtasks \<Rightarrow> string \<Rightarrow> string \<Rightarrow> bool \<Rightarrow> (scst, bool) eff" where
  "sn_stamp_current env mt es tid taskname recurse =
     mbind (mget (\<lambda>s. check_stamp_task (Suc (length es)) (stampenv.truncate env) mt es tid
                        (Some taskname) recurse (sn_stampcache s))) (\<lambda>r.
     mbind (mlift r) (\<lambda>(b, cache). mseq (mmod (\<lambda>s. s\<lparr>sn_stampcache := cache\<rparr>)) (mret b)))"

text \<open>What the search finds: nothing, a task to run, or that a task was settled without running.\<close>

datatype scene_pick = PickNone | PickTask string | PickSettled

definition scene_ready :: "string \<Rightarrow> (scst, bool) eff" where
  "scene_ready task =
     mbind (mget (\<lambda>s. task \<in> set (sn_buildable s) \<and> task \<notin> set (sn_running s))) (\<lambda>b.
     if \<not> b then mret False
     else mbind (mitem_of sn_stamps task) (\<lambda>stamp.
          mget (\<lambda>s. stamp \<notin> set (map snd (sn_build_stamps s)))))"

text \<open>A task whose reverse dependencies are all covered need not run.\<close>

definition scene_unneeded :: "sceneenv \<Rightarrow> string \<Rightarrow> (scst, bool) eff" where
  "scene_unneeded env task =
     mbind (mget (\<lambda>s. task \<notin> set (sn_unskippable s))) (\<lambda>skippable.
     if \<not> skippable then mret False
     else mbind (mitem_of sn_revdeps task) (\<lambda>rd.
          mbind (mget (\<lambda>s. rd \<noteq> [] \<and> set rd \<subseteq> set (sn_covered s))) (\<lambda>covered.
          if covered then check_dependencies env task else mret False)))"

fun scene_search :: "nat \<Rightarrow> sceneenv \<Rightarrow> string list \<Rightarrow> (scst, scene_pick) eff" where
  "scene_search lim env [] = mret PickNone"
| "scene_search lim env (task # tasks) =
     mbind (scene_ready task) (\<lambda>ready.
     if \<not> ready then scene_search lim env tasks
     else mbind (scene_unneeded env task) (\<lambda>unneeded.
       if unneeded \<and> task \<notin> set (ne_target_tids env)
       then mseq (sn_task_skip lim task)
            (mseq (mmod (\<lambda>s. s\<lparr>sn_notneeded := sadd task (sn_notneeded s)\<rparr>)) (mret PickSettled))
       else mbind (mget (\<lambda>s. task \<in> set (sn_outrightfail s))) (\<lambda>fails.
         if fails then mseq (sn_task_failoutright lim task) (mret PickSettled)
         else mret (PickTask task))))"

definition scene_start :: "sceneenv \<Rightarrow> exc option \<Rightarrow> string \<Rightarrow> (scst, retval option) eff" where
  "scene_start env spawn task =
     mbind (mlift (split_tid_mcfn task)) (\<lambda>(mc, fn, tn, taskfn).
     let taskname = tn @ ''_setscene'' in
     mseq (sn_do (SnStarted task))
     (mbind (mlift (ditem (se_caches env) mc)) (\<lambda>dc.
      mbind (mlift (ditem (dc_task_deps dc) taskfn)) (\<lambda>td.
      let fakeroot = (flag_value td ''fakeroot'' taskname \<noteq> None \<and> \<not> xe_dry_run env) in
      mbind (mget (\<lambda>s. fakeroot \<and> mc \<notin> set (sn_fakeworkers s))) (\<lambda>need.
      mseq (mwhen need (case spawn of
              Some e \<Rightarrow> mraise e
            | None \<Rightarrow> mseq (sn_do (SnStartFakeworker mc)) (mmod (\<lambda>s. s\<lparr>sn_fakeworkers := sn_fakeworkers s @ [mc]\<rparr>))))
      (mseq (sn_do (SnRunTask taskfn task taskname fakeroot))
      (mbind (mlift (stampfile (se_scheme env) taskname dc taskfn True)) (\<lambda>stamp.
       mseq (mmod (\<lambda>s. s\<lparr>sn_build_stamps := dset task stamp (sn_build_stamps s),
                         sn_build_stamps2 := sn_build_stamps2 s @ [stamp],
                         sn_running := sadd task (sn_running s)\<rparr>))
       (mseq (sn_upd_stats taskActive)
       (mbind (mget (\<lambda>s. st_active (sn_stats s) < xe_number_tasks env)) (\<lambda>more.
         mret (if more then Some RTrue else None))))))))))))"

definition scene_run :: "nat \<Rightarrow> sceneenv \<Rightarrow> files \<Rightarrow> runtasks \<Rightarrow> exc option \<Rightarrow> string \<Rightarrow> (scst, retval option) eff" where
  "scene_run lim env mt es spawn task =
     mbind (mlift (split_tid_mcfn task)) (\<lambda>(mc, fn, tn, taskfn).
     mbind (sn_stamp_current env mt es task tn True) (\<lambda>current.
     if current then mseq (sn_task_failoutright lim task) (mret (Some RTrue))
     else if ne_force env \<and> task \<in> set (ne_target_tids env)
     then mseq (sn_task_failoutright lim task) (mret (Some RTrue))
     else mbind (sn_stamp_current env mt es task (tn @ ''_setscene'') False) (\<lambda>current.
       if current then mseq (sn_task_skip lim task) (mret (Some RTrue))
       else scene_start env spawn task)))"

definition scene_rest :: "nat \<Rightarrow> sceneenv \<Rightarrow> scenepipes \<Rightarrow> (scst, retval) eff" where
  "scene_rest lim env pipe =
     mbind (mget (\<lambda>s. st_active (sn_stats s) > 0)) (\<lambda>active.
     if active then mseq (sn_read_workers lim env pipe) (mret RFds)
     else mseq (sn_set_state RqRunInit) (mseq (sn_do SnComplete) (mret RTrue)))"

definition scene_execute :: "nat \<Rightarrow> sceneenv \<Rightarrow> files \<Rightarrow> runtasks \<Rightarrow> exc option \<Rightarrow> scenepipes \<Rightarrow> scenepipes \<Rightarrow> (scst, retval) eff" where
  "scene_execute lim env mt es spawn pipe1 pipe2 =
     mseq (sn_read_workers lim env pipe1)
     (mbind (mget (\<lambda>s. st_active (sn_stats s) < xe_number_tasks env)) (\<lambda>room.
      mbind (if room then scene_search lim env (xe_setscene_tids env) else mret PickNone) (\<lambda>pick.
      case pick of
        PickSettled \<Rightarrow> mret RTrue
      | PickNone \<Rightarrow> scene_rest lim env pipe2
      | PickTask task \<Rightarrow> mbind (scene_run lim env mt es spawn task) (\<lambda>r.
          case r of Some v \<Rightarrow> mret v | None \<Rightarrow> scene_rest lim env pipe2))))"

section \<open>Starting the setscene queue\<close>

text \<open>The setscene stamps, and the dependencies from \<open>depends\<close> flags.\<close>

definition hard_deps_of :: "sceneenv \<Rightarrow> runtasks \<Rightarrow> string \<Rightarrow>
    (string, string option) dict \<times> tidsets \<times> tidsets \<Rightarrow> ((string, string option) dict \<times> tidsets \<times> tidsets) res" where
  "hard_deps_of env es tid = (\<lambda>(stamps, hard, sq).
     rbind (split_tid_mcfn tid) (\<lambda>(mc, fn, taskname, taskfn).
     rbind (ditem (xe_taskdata env) mc) (\<lambda>td.
     rbind (ditem (tk_taskentries td) (tid @ ''_setscene'')) (\<lambda>te.
     rbind (ditem (se_caches env) mc) (\<lambda>dc.
     rbind (stampfile (se_scheme env) (taskname @ ''_setscene'') dc taskfn True) (\<lambda>stamp.
     rbind (rfold (hard_dep td es tid) (te_idepends te) (hard, sq)) (\<lambda>(hard, sq).
       Inr (dset tid stamp stamps, hard, sq))))))))"

text \<open>
  Before the hash check: what needs no check is settled, the other tasks are collected with their
  arguments for it.
\<close>

record hashargs =
  ha_args :: "(string \<times> string \<times> string option \<times> string) list"
  ha_tasks :: "string list"
  ha_noexec :: "string list"
  ha_present :: "string list"

definition hash_arg :: "nat \<Rightarrow> sceneenv \<Rightarrow> files \<Rightarrow> runtasks \<Rightarrow> string \<Rightarrow> hashargs \<Rightarrow> (scst, hashargs) eff" where
  "hash_arg lim env mt es tid h =
     mbind (mlift (split_tid_mcfn tid)) (\<lambda>(mc, fn, taskname, taskfn).
     mbind (mlift (ditem (se_caches env) mc)) (\<lambda>dc.
     mbind (mlift (ditem (dc_task_deps dc) taskfn)) (\<lambda>td.
     if flag_value td ''noexec'' taskname \<noteq> None
     then mseq (sn_task_skip lim tid) (mseq (sn_do (SnMakeStamp tid)) (mret (h\<lparr>ha_noexec := ha_noexec h @ [tid]\<rparr>)))
     else mbind (sn_stamp_current env mt es tid (taskname @ ''_setscene'') False) (\<lambda>current.
       if current then mseq (sn_task_skip lim tid) (mret (h\<lparr>ha_present := ha_present h @ [tid]\<rparr>))
       else mbind (sn_stamp_current env mt es tid taskname True) (\<lambda>current.
         if current then mseq (sn_task_skip lim tid) (mret (h\<lparr>ha_present := ha_present h @ [tid]\<rparr>))
         else mbind (mlift (ditem (dc_hashfn dc) taskfn)) (\<lambda>hfn.
              mbind (mlift (ditem es tid)) (\<lambda>e.
                mret (h\<lparr>ha_args := ha_args h @ [(fn, taskname, rt_hash e, hfn)],
                        ha_tasks := ha_tasks h @ [tid]\<rparr>))))))))"

fun hash_args :: "nat \<Rightarrow> sceneenv \<Rightarrow> files \<Rightarrow> runtasks \<Rightarrow> string list \<Rightarrow> hashargs \<Rightarrow> (scst, hashargs) eff" where
  "hash_args lim env mt es [] h = mret h"
| "hash_args lim env mt es (tid # tids) h = mbind (hash_arg lim env mt es tid h) (hash_args lim env mt es tids)"

text \<open>Indexing a list; a negative index counts from the end.\<close>

definition py_index :: "'a list \<Rightarrow> int \<Rightarrow> 'a res" where
  "py_index xs i =
     (if 0 \<le> i \<and> i < int (length xs) then Inr (xs ! nat i)
      else if i < 0 \<and> - i \<le> int (length xs) then Inr (xs ! nat (int (length xs) + i))
      else Inl IndexError)"

definition check_hashes :: "nat \<Rightarrow> sceneenv \<Rightarrow> files \<Rightarrow> runtasks \<Rightarrow> (scst, unit) eff" where
  "check_hashes lim env mt es =
     (case ne_hashvalidate env of
        None \<Rightarrow> mret ()
      | Some validate \<Rightarrow>
          mbind (mget (\<lambda>s. dkeys (sn_revdeps s))) (\<lambda>tids.
          mbind (hash_args lim env mt es tids \<lparr>ha_args = [], ha_tasks = [], ha_noexec = [], ha_present = []\<rparr>) (\<lambda>h.
          mbind (mlift (rbind (validate (ha_args h)) (rmap (py_index (ha_tasks h))))) (\<lambda>valid.
          mmod (\<lambda>s. s\<lparr>sn_outrightfail :=
             filter (\<lambda>tid. tid \<notin> set (ha_present h @ valid) \<and> tid \<notin> set (ha_noexec h)) tids\<rparr>)))))"

definition scst_init :: "scst" where
  "scst_init = \<lparr>sn_covered = [], sn_notcovered = [], sn_notneeded = [], sn_buildable = [], sn_running = [],
     sn_build_stamps = [], sn_build_stamps2 = [], sn_stats = stats_init 0, sn_harddeps = [], sn_stamps = [],
     sn_revdeps = [], sn_revdeps2 = [], sn_deps = [], sn_unskippable = [], sn_outrightfail = [],
     sn_stampcache = [], sn_fakeworkers = [], sn_state = RqSceneInit, sn_actions = []\<rparr>"

text \<open>The tables of the queue, before the hash check.\<close>

definition scene_tables :: "nat \<Rightarrow> sceneenv \<Rightarrow> runtasks \<Rightarrow> scst res option" where
  "scene_tables fuel env es =
     (let scene = xe_setscene_tids env in
      map_option (\<lambda>r. rbind r (\<lambda>(us, sq).
        rbind (rfold (hard_deps_of env es) scene ([], [], sq)) (\<lambda>(stamps, hard, sq).
        rbind (restore_hard hard sq) (\<lambda>sq.
        rbind (scene_deps sq) (\<lambda>deps.
          Inr (scst_init\<lparr>sn_stats := stats_init (int (length scene)), sn_harddeps := hard,
               sn_stamps := stamps, sn_revdeps := sq, sn_revdeps2 := sq, sn_deps := deps,
               sn_unskippable := us,
               sn_buildable := map fst (filter (\<lambda>(_, rd). rd = []) sq)\<rparr>)))))) (scene_graph fuel es scene))"

text \<open>\<open>__init__\<close>: the outcome and the state it leaves; None: the fuel ran out.\<close>

definition scene_init :: "nat \<Rightarrow> nat \<Rightarrow> sceneenv \<Rightarrow> files \<Rightarrow> runtasks \<Rightarrow> scst res option" where
  "scene_init fuel lim env mt es =
     (if xe_number_tasks env \<le> 0 then Some (Inl BBHandledException)
      else if xe_setscene_tids env = [] then Some (Inr (scst_init\<lparr>sn_state := RqRunInit\<rparr>))
      else map_option (\<lambda>r. rbind r (\<lambda>s.
             case mseq (check_hashes lim env mt es) (sn_set_state RqSceneRun) s of
               (Inl e, _) \<Rightarrow> Inl e
             | (Inr _, s) \<Rightarrow> Inr s))
           (scene_tables fuel env es))"

end
