(* ===== verification/BB_DiskMon.thy ===== *)
theory BB_DiskMon
  imports BB_Effects
begin

text \<open>
  The disk space monitor of \<open>lib/bb/monitordisk.py\<close>: its configuration and the check the run queue makes
  in every round. What the operating system knows of paths and of free space is an argument.
\<close>

section \<open>The configuration\<close>

text \<open>\<open>\s?$\<close> at the end of a pattern.\<close>

definition ends_here :: "string \<Rightarrow> bool" where
  "ends_here r \<longleftrightarrow>
     (case r of [] \<Rightarrow> True | [c] \<Rightarrow> is_space c | [c, d] \<Rightarrow> is_space c \<and> d = CHR 0x0A | _ \<Rightarrow> False)"

definition convertGMK :: "string \<Rightarrow> int option" where
  "convertGMK unit =
     (let ds = takeWhile is_digit unit; rest = dropWhile is_digit unit; n = int (digits_val ds) in
      if ds = [] \<or> hd ds = CHR ''0'' then None
      else if rest \<noteq> [] \<and> hd rest \<in> {CHR ''g'', CHR ''G''} \<and> ends_here (tl rest) then Some (n * 1024 ^ 3)
      else if rest \<noteq> [] \<and> hd rest \<in> {CHR ''m'', CHR ''M''} \<and> ends_here (tl rest) then Some (n * 1024 ^ 2)
      else if rest \<noteq> [] \<and> hd rest \<in> {CHR ''k'', CHR ''K''} \<and> ends_here (tl rest) then Some (n * 1024)
      else if ends_here rest then Some n
      else None)"

record diskdev =
  dd_dev :: "string option"
  dd_min_space :: "int option"
  dd_min_inode :: "int option"

text \<open>An optional limit: \<open>Inr None\<close> when it is not specified, \<open>Inl\<close> when it is invalid.\<close>

definition opt_limit :: "string \<Rightarrow> unit + int option" where
  "opt_limit x = (if x = [] then Inr None else case convertGMK x of None \<Rightarrow> Inl () | Some n \<Rightarrow> Inr (Some n))"

definition path_join :: "string \<Rightarrow> string \<Rightarrow> string" where
  "path_join a b =
     (if b \<noteq> [] \<and> hd b = CHR ''/'' then b
      else if a = [] \<or> last a = CHR ''/'' then a @ b else a @ ''/'' @ b)"

definition split_path :: "string \<Rightarrow> string \<times> string" where
  "split_path p =
     (case rsplit1 CHR ''/'' p of
        None \<Rightarrow> ([], p)
      | Some (a, b) \<Rightarrow>
          (let h = rev (dropWhile (\<lambda>c. c = CHR ''/'') (rev a)) in (if h = [] then a @ ''/'' else h, b)))"

text \<open>One entry of BB_DISKMON_DIRS: action, path, space and inodes.\<close>

definition disk_entry :: "(string \<Rightarrow> string) \<Rightarrow> (string \<Rightarrow> string option) \<Rightarrow> string \<Rightarrow> (string \<times> diskdev) option" where
  "disk_entry realpath mounted spec =
     (case split_on CHR '','' spec of
        action # dir # space # rest \<Rightarrow>
          (if action \<notin> {''ABORT'', ''STOPTASKS'', ''WARN''} then None
           else let path = realpath dir in
             if path = [] then None
             else (case (opt_limit space, opt_limit (join_with '','' rest)) of
                     (Inr s, Inr i) \<Rightarrow>
                       if s = None \<and> i = None then None
                       else Some (path_join path action, \<lparr>dd_dev = mounted path, dd_min_space = s, dd_min_inode = i\<rparr>)
                   | _ \<Rightarrow> None))
      | _ \<Rightarrow> None)"

definition getDiskData :: "(string \<Rightarrow> string) \<Rightarrow> (string \<Rightarrow> string option) \<Rightarrow> string \<Rightarrow> (string, diskdev) dict option" where
  "getDiskData realpath mounted dirs =
     fold (\<lambda>spec acc. case acc of
        None \<Rightarrow> None
      | Some devs \<Rightarrow> map_option (\<lambda>(k, d). dset k d devs) (disk_entry realpath mounted spec)) (split_ws dirs) (Some [])"

definition getInterval :: "string option \<Rightarrow> (int \<times> int) option" where
  "getInterval var =
     (let space_default = 50 * 1024 * 1024; inode_default = 5 * 1024 in
      if var = None \<or> var = Some [] then Some (space_default, inode_default)
      else let interval = the var;
               space = takeWhile (\<lambda>c. c \<noteq> CHR '','') interval;
               inode = takeWhile (\<lambda>c. c \<noteq> CHR 0x0A)
                         (dropWhile is_space (tl (dropWhile (\<lambda>c. c \<noteq> CHR '','') interval))) in
        case (opt_limit space, opt_limit inode) of
          (Inr s, Inr i) \<Rightarrow> Some (case s of None \<Rightarrow> space_default | Some x \<Rightarrow> x, case i of None \<Rightarrow> inode_default | Some x \<Rightarrow> x)
        | _ \<Rightarrow> None)"

section \<open>The monitor\<close>

text \<open>\<open>dm_log\<close>: the warnings given, of a directory and of space (False) or inodes (True).\<close>

record diskmon =
  dm_enabled :: bool
  dm_devs :: "(string, diskdev) dict"
  dm_space_interval :: int
  dm_inode_interval :: int
  dm_pre_space :: "(string, int) dict"
  dm_pre_inode :: "(string, int) dict"
  dm_checked :: "(string, bool) dict"
  dm_log :: "(string \<times> bool) list"

definition diskmon_init :: "(string \<Rightarrow> string) \<Rightarrow> (string \<Rightarrow> string option) \<Rightarrow> string option \<Rightarrow> string option \<Rightarrow> diskmon" where
  "diskmon_init realpath mounted dirs interval =
     (let off = \<lparr>dm_enabled = False, dm_devs = [], dm_space_interval = 0, dm_inode_interval = 0,
                 dm_pre_space = [], dm_pre_inode = [], dm_checked = [], dm_log = []\<rparr> in
      if dirs = None \<or> dirs = Some [] then off
      else case getDiskData realpath mounted (the dirs) of
        None \<Rightarrow> off
      | Some devs \<Rightarrow>
          if devs = [] then off
          else (case getInterval interval of
            None \<Rightarrow> off
          | Some (s, i) \<Rightarrow>
              \<lparr>dm_enabled = True, dm_devs = devs, dm_space_interval = s, dm_inode_interval = i,
               dm_pre_space = map (\<lambda>(k, _). (k, 0)) devs, dm_pre_inode = map (\<lambda>(k, _). (k, 0)) devs,
               dm_checked = map (\<lambda>(k, _). (k, False)) devs, dm_log = []\<rparr>))"

text \<open>
  What the file system reports for a path: free space, free inodes and the number of inodes. The
  state pairs the monitor with the run queue, whose \<open>finish_runqueue\<close> is \<open>fin\<close>.
\<close>

type_synonym statvfs = "string \<Rightarrow> (int \<times> int \<times> int) res"

definition warn_again :: "int \<Rightarrow> int \<Rightarrow> int \<Rightarrow> bool \<Rightarrow> bool" where
  "warn_again pre free interval checked = (pre = 0 \<or> (pre - free > interval \<and> \<not> checked))"

definition disk_action :: "(bool \<Rightarrow> ('s, unit) eff) \<Rightarrow> string \<Rightarrow> (diskmon \<times> 's, unit) eff" where
  "disk_action fin k =
     mbind (mget (\<lambda>(dm, _). ditem (dm_checked dm) k)) (\<lambda>r. mbind (mlift r) (\<lambda>checked.
     let action = snd (split_path k) in
     if (action = ''STOPTASKS'' \<or> action = ''ABORT'') \<and> \<not> checked
     then mseq (mmod (\<lambda>(dm, s). (dm\<lparr>dm_checked := dset k True (dm_checked dm)\<rparr>, s)))
               (\<lambda>(dm, s). let (r, s) = fin (action = ''ABORT'') s in (r, dm, s))
     else mret ()))"

definition low_space :: "(bool \<Rightarrow> ('s, unit) eff) \<Rightarrow> string \<Rightarrow> int \<Rightarrow> (diskmon \<times> 's, unit) eff" where
  "low_space fin k free =
     mseq (mmod (\<lambda>(dm, s).
             if warn_again (the (dget (dm_pre_space dm) k)) free (dm_space_interval dm) (the (dget (dm_checked dm) k))
             then (dm\<lparr>dm_log := dm_log dm @ [(k, False)], dm_pre_space := dset k free (dm_pre_space dm)\<rparr>, s)
             else (dm, s)))
          (disk_action fin k)"

definition low_inodes :: "(bool \<Rightarrow> ('s, unit) eff) \<Rightarrow> string \<Rightarrow> int \<Rightarrow> (diskmon \<times> 's, unit) eff" where
  "low_inodes fin k free =
     mseq (mmod (\<lambda>(dm, s).
             if warn_again (the (dget (dm_pre_inode dm) k)) free (dm_inode_interval dm) (the (dget (dm_checked dm) k))
             then (dm\<lparr>dm_log := dm_log dm @ [(k, True)], dm_pre_inode := dset k free (dm_pre_inode dm)\<rparr>, s)
             else (dm, s)))
          (disk_action fin k)"

definition check_device :: "(bool \<Rightarrow> ('s, unit) eff) \<Rightarrow> statvfs \<Rightarrow> string \<times> diskdev \<Rightarrow> (diskmon \<times> 's, unit) eff" where
  "check_device fin st = (\<lambda>(k, d).
     mbind (mlift (st (fst (split_path k)))) (\<lambda>(free_space, free_inode, files).
     mseq (case dd_min_space d of None \<Rightarrow> mret () | Some m \<Rightarrow> mwhen (free_space < m) (low_space fin k free_space))
          (case dd_min_inode d of
             None \<Rightarrow> mret ()
           | Some m \<Rightarrow>
               mwhen (free_inode < m)
                 (if files = 0
                  then mmod (\<lambda>(dm, s). (dm\<lparr>dm_devs := dset k (d\<lparr>dd_min_inode := None\<rparr>) (dm_devs dm)\<rparr>, s))
                  else low_inodes fin k free_inode))))"

definition disk_check :: "(bool \<Rightarrow> ('s, unit) eff) \<Rightarrow> statvfs \<Rightarrow> (diskmon \<times> 's, unit) eff" where
  "disk_check fin st =
     mbind (mget (\<lambda>(dm, _). (dm_enabled dm, dm_devs dm))) (\<lambda>(enabled, devs).
     mwhen enabled (mfor devs (check_device fin st)))"

section \<open>The run queue is told once\<close>

definition disk_low :: "statvfs \<Rightarrow> string \<times> diskdev \<Rightarrow> bool" where
  "disk_low st = (\<lambda>(k, d). case st (fst (split_path k)) of
     Inl _ \<Rightarrow> False
   | Inr (free_space, free_inode, files) \<Rightarrow>
       (case dd_min_space d of None \<Rightarrow> False | Some m \<Rightarrow> free_space < m) \<or>
       (files \<noteq> 0 \<and> (case dd_min_inode d of None \<Rightarrow> False | Some m \<Rightarrow> free_inode < m)))"

definition stops :: "string \<Rightarrow> bool" where
  "stops k = (snd (split_path k) = ''STOPTASKS'' \<or> snd (split_path k) = ''ABORT'')"

definition told :: "bool \<Rightarrow> (bool list, unit) eff" where
  "told now = mmod (\<lambda>calls. calls @ [now])"

definition is_checked :: "diskmon \<Rightarrow> string \<Rightarrow> bool" where
  "is_checked dm k = (dget (dm_checked dm) k = Some True)"

text \<open>One step for a device: what it does to the table of checked directories and to the calls.\<close>

definition marks :: "diskmon \<times> bool list \<Rightarrow> diskmon \<times> bool list \<Rightarrow> string \<Rightarrow> bool \<Rightarrow> bool" where
  "marks st st' k b \<longleftrightarrow>
     dkeys (dm_checked (fst st')) = dkeys (dm_checked (fst st)) \<and>
     (\<forall>x. is_checked (fst st') x = (is_checked (fst st) x \<or> (x = k \<and> b \<and> stops k))) \<and>
     snd st' = snd st @ (if b \<and> stops k \<and> \<not> is_checked (fst st) k then [snd (split_path k) = ''ABORT''] else [])"

lemma marks_none: "marks st st k False"
  by (simp add: marks_def)

lemma marks_frame: "dm_checked dm' = dm_checked (fst st) \<Longrightarrow> marks st (dm', snd st) k False"
  by (simp add: marks_def is_checked_def)

lemma marks_trans: "marks st st1 k b \<Longrightarrow> marks st1 st2 k c \<Longrightarrow> marks st st2 k (b \<or> c)"
  by (auto simp: marks_def)

lemma disk_action_marks:
  assumes "k \<in> set (dkeys (dm_checked (fst st)))"
  shows "valid (disk_action told k) st (\<lambda>_ st'. marks st st' k True) (\<lambda>_ _. False)"
proof -
  obtain dm calls where st: "st = (dm, calls)" by (cases st)
  obtain c where c: "dget (dm_checked dm) k = Some c" using assms st unfolding dget_Some_key by auto
  then have i: "ditem (dm_checked dm) k = Inr c" by (simp add: ditem_def)
  show ?thesis
    using assms c i st
    by (auto simp: disk_action_def valid_def mbind_def mget_def mlift_def mmod_def mret_def told_def marks_def stops_def
        is_checked_def dget_dset dkeys_dset_mem Let_def split: if_splits)
qed

lemma low_marks:
  assumes "k \<in> set (dkeys (dm_checked (fst st)))"
  shows "valid (low_space told k free) st (\<lambda>_ st'. marks st st' k True) (\<lambda>_ _. False)"
    and "valid (low_inodes told k free) st (\<lambda>_ st'. marks st st' k True) (\<lambda>_ _. False)"
proof -
  obtain dm calls where st: "st = (dm, calls)" by (cases st)
  have *: "valid (disk_action told k) (dm', calls) (\<lambda>_ st'. marks st st' k True) (\<lambda>_ _. False)"
    if "dm_checked dm' = dm_checked dm" for dm'
  proof (rule valid_conseq [OF disk_action_marks])
    show "k \<in> set (dkeys (dm_checked (fst (dm', calls))))" using assms st that by simp
  next
    fix x st' assume "marks (dm', calls) st' k True"
    moreover have "marks st (dm', calls) k False" using marks_frame [of dm' st k] st that by simp
    ultimately show "marks st st' k True" using marks_trans [of st "(dm', calls)" k False st' True] by simp
  qed simp
  show "valid (low_space told k free) st (\<lambda>_ st'. marks st st' k True) (\<lambda>_ _. False)"
    "valid (low_inodes told k free) st (\<lambda>_ st'. marks st st' k True) (\<lambda>_ _. False)"
    unfolding low_space_def low_inodes_def valid_mbind valid_mmod using * by (simp_all add: st)
qed

lemma check_device_marks:
  assumes "k \<in> set (dkeys (dm_checked (fst s)))"
  shows "valid (check_device told st (k, d)) s (\<lambda>_ s'. marks s s' k (disk_low st (k, d))) (\<lambda>_ _. True)"
proof (cases "st (fst (split_path k))")
  case (Inl e)
  then show ?thesis by (simp add: check_device_def)
next
  case (Inr v)
  obtain fs fi files where v: "v = (fs, fi, files)" by (cases v)
  let ?b = "case dd_min_space d of None \<Rightarrow> False | Some m \<Rightarrow> fs < m"
  let ?c = "files \<noteq> 0 \<and> (case dd_min_inode d of None \<Rightarrow> False | Some m \<Rightarrow> fi < m)"
  have low: "disk_low st (k, d) = (?b \<or> ?c)" using Inr v by (simp add: disk_low_def)
  have one: "valid (case dd_min_space d of None \<Rightarrow> mret () | Some m \<Rightarrow> mwhen (fs < m) (low_space told k fs)) s
      (\<lambda>_ s'. marks s s' k ?b) (\<lambda>_ _. True)"
    using valid_conseq [OF low_marks(1) [OF assms]] by (auto simp: marks_none split: option.split)
  have two: "valid (case dd_min_inode d of None \<Rightarrow> mret ()
       | Some m \<Rightarrow> mwhen (fi < m) (if files = 0
           then mmod (\<lambda>(dm, s). (dm\<lparr>dm_devs := dset k (d\<lparr>dd_min_inode := None\<rparr>) (dm_devs dm)\<rparr>, s))
           else low_inodes told k fi)) t (\<lambda>_ s'. marks s s' k (?b \<or> ?c)) (\<lambda>_ _. True)"
    if t: "marks s t k ?b" for t
  proof -
    have k: "k \<in> set (dkeys (dm_checked (fst t)))" using assms t by (simp add: marks_def)
    have "marks s (dm', snd t) k ?b" if "dm_checked dm' = dm_checked (fst t)" for dm'
      using marks_trans [OF t marks_frame [OF that]] by simp
    then have f: "marks s ((fst t)\<lparr>dm_devs := ds\<rparr>, snd t) k ?b" for ds by simp
    have l: "valid (low_inodes told k fi) t (\<lambda>_ s'. marks s s' k True) (\<lambda>_ _. True)"
    proof (rule valid_conseq [OF low_marks(2) [OF k]])
      fix s' assume "marks t s' k True"
      from marks_trans [OF t this] show "marks s s' k True" by simp
    qed simp
    show ?thesis using t f l by (cases t) (auto split: option.split)
  qed
  show ?thesis
    unfolding check_device_def low prod.case valid_mbind valid_mlift Inr sum.case v
    by (rule valid_conseq [OF one]) (use two in auto)
qed

text \<open>
  C30: A check of an enabled monitor marks exactly the directories that are short of space or inodes
  and whose action is STOPTASKS or ABORT, besides those marked before, and tells the run queue to
  finish once for each directory it newly marks: never twice for a directory, never for WARN.
\<close>

theorem disk_check_tells_once:
  assumes "dm_enabled dm" "dwf (dm_devs dm)" "dkeys (dm_checked dm) = dkeys (dm_devs dm)"
    and "disk_check told st (dm, calls) = (Inr (), dm', calls')"
  shows "(\<forall>k. is_checked dm' k = (is_checked dm k \<or> stops k \<and> (\<exists>d. dget (dm_devs dm) k = Some d \<and> disk_low st (k, d)))) \<and>
    calls' = calls @ map (\<lambda>(k, _). snd (split_path k) = ''ABORT'')
      (filter (\<lambda>(k, d). stops k \<and> disk_low st (k, d) \<and> \<not> is_checked dm k) (dm_devs dm))"
proof -
  let ?I = "\<lambda>pre s. dkeys (dm_checked (fst s)) = dkeys (dm_devs dm) \<and>
    (\<forall>x. is_checked (fst s) x = (is_checked dm x \<or> stops x \<and> (\<exists>d. (x, d) \<in> set pre \<and> disk_low st (x, d)))) \<and>
    snd s = calls @ map (\<lambda>(k, _). snd (split_path k) = ''ABORT'')
      (filter (\<lambda>(k, d). stops k \<and> disk_low st (k, d) \<and> \<not> is_checked dm k) pre)"
  have step: "valid (check_device told st x) s (\<lambda>_. ?I (pre @ [x])) (\<lambda>_ _. True)"
    if p: "dm_devs dm = pre @ x # post" and i: "?I pre s" for pre x post s
  proof -
    obtain k d where x: "x = (k, d)" by (cases x)
    have k: "k \<in> set (dkeys (dm_checked (fst s)))" using p i x by simp
    have n: "(k, e) \<notin> set pre" for e using assms(2) unfolding p x by force
    have "?I (pre @ [x]) s'" if m: "marks s s' k (disk_low st (k, d))" for s'
    proof -
      have c: "is_checked (fst s) k = is_checked dm k" using i n by auto
      from m have keys: "dkeys (dm_checked (fst s')) = dkeys (dm_checked (fst s))"
        and ch: "\<And>x. is_checked (fst s') x = (is_checked (fst s) x \<or> (x = k \<and> disk_low st (k, d) \<and> stops k))"
        and sn: "snd s' = snd s @ (if disk_low st (k, d) \<and> stops k \<and> \<not> is_checked (fst s) k then [snd (split_path k) = ''ABORT''] else [])"
        unfolding marks_def by blast+
      show ?thesis
      proof (intro conjI allI)
        show "is_checked (fst s') y = (is_checked dm y \<or> stops y \<and> (\<exists>d. (y, d) \<in> set (pre @ [x]) \<and> disk_low st (y, d)))" for y
          unfolding ch using i x by auto
      qed (use keys sn c i x in auto)
    qed
    then show ?thesis unfolding x by (rule valid_conseq [OF check_device_marks [OF k]])
  qed
  have "valid (mfor (dm_devs dm) (check_device told st)) (dm, calls) (\<lambda>_. ?I (dm_devs dm)) (\<lambda>_ _. True)"
    by (rule valid_mfor) (use assms(3) step in auto)
  then have "valid (disk_check told st) (dm, calls) (\<lambda>_. ?I (dm_devs dm)) (\<lambda>_ _. True)"
    using assms(1) by (simp add: disk_check_def)
  from validD [OF this assms(4)] have "?I (dm_devs dm) (dm', calls')" by simp
  moreover have "(\<exists>d. (k, d) \<in> set (dm_devs dm) \<and> disk_low st (k, d)) = (\<exists>d. dget (dm_devs dm) k = Some d \<and> disk_low st (k, d))" for k
    using assms(2) by simp
  ultimately show ?thesis by simp
qed

definition two_disks :: diskmon where
  "two_disks =
     \<lparr>dm_enabled = True,
      dm_devs = [(''/t/ABORT'', \<lparr>dd_dev = None, dd_min_space = Some 9, dd_min_inode = None\<rparr>),
                 (''/STOPTASKS'', \<lparr>dd_dev = None, dd_min_space = None, dd_min_inode = Some 8\<rparr>),
                 (''/t/WARN'', \<lparr>dd_dev = None, dd_min_space = Some 7, dd_min_inode = None\<rparr>)],
      dm_space_interval = 1, dm_inode_interval = 1,
      dm_pre_space = [(''/t/ABORT'', 0), (''/STOPTASKS'', 0), (''/t/WARN'', 0)],
      dm_pre_inode = [(''/t/ABORT'', 0), (''/STOPTASKS'', 0), (''/t/WARN'', 0)],
      dm_checked = [(''/t/ABORT'', False), (''/STOPTASKS'', False), (''/t/WARN'', False)], dm_log = []\<rparr>"

definition disks_now :: statvfs where
  "disks_now p = Inr (if p = ''/t'' then 5 else 20, 3, 4)"

lemma disk_check_tells_once_witness:
  "\<exists>dm. disk_check told disks_now (two_disks, []) = (Inr (), dm, [True, False]) \<and> is_checked dm ''/t/ABORT'' \<and>
    \<not> is_checked dm ''/t/WARN''"
proof -
  have d: "dm_enabled two_disks \<and> dwf (dm_devs two_disks) \<and> dkeys (dm_checked two_disks) = dkeys (dm_devs two_disks) \<and>
    fst (disk_check told disks_now (two_disks, [])) = Inr () \<and>
    map (\<lambda>(k, _). snd (split_path k) = ''ABORT'') (filter (\<lambda>(k, d). stops k \<and> disk_low disks_now (k, d) \<and>
      \<not> is_checked two_disks k) (dm_devs two_disks)) = [True, False] \<and>
    stops ''/t/ABORT'' \<and> \<not> is_checked two_disks ''/t/WARN'' \<and> \<not> stops ''/t/WARN'' \<and>
    (case dget (dm_devs two_disks) ''/t/ABORT'' of None \<Rightarrow> False | Some d \<Rightarrow> disk_low disks_now (''/t/ABORT'', d))"
    by code_simp
  obtain r dm calls where r: "disk_check told disks_now (two_disks, []) = (r, dm, calls)"
    by (cases "disk_check told disks_now (two_disks, [])")
  with d have "r = Inr ()" by simp
  with r d disk_check_tells_once [of two_disks disks_now "[]" dm calls] show ?thesis
    by (auto split: option.splits)
qed

end
