(* ===== verification/BB_RunQueue.thy ===== *)
theory BB_RunQueue
  imports BB_SceneQueue BB_DiskMon BB_RunPrep
begin

text \<open>
  The state machine of \<open>RunQueue\<close> in \<open>lib/bb/runqueue.py\<close>: one call of \<open>execute_runqueue\<close> after the
  other takes a build from the preparation through the setscene tasks and the tasks to its end. It
  also holds the report of the tasks at which a build differs from what is cached.
\<close>

section \<open>The whitelist for setscene-only builds\<close>

text \<open>\<open>enforce\<close>: whether BB_SETSCENE_ENFORCE is 1; \<open>argv\<close>: the command line after the program's name.\<close>

definition get_setscene_enforce_whitelist :: "bool \<Rightarrow> string option \<Rightarrow> string list \<Rightarrow> string list option res" where
  "get_setscene_enforce_whitelist enforce var argv =
     (if \<not> enforce then Inr None
      else map_sum id Some (rfold (\<lambda>item out.
        if prefix ''%:'' item
        then Inr (out @ map (\<lambda>target. hd (split_on CHR '':'' target) @ '':'' @ split_on CHR '':'' item ! 1)
                            (filter (\<lambda>target. \<not> prefix ''-'' target) argv))
        else Inr (out @ [item])) (split_ws (case var of None \<Rightarrow> [] | Some v \<Rightarrow> v)) []))"

section \<open>Where a build differs from the cache\<close>

record diffargs =
  df_args :: "(string \<times> string \<times> string option \<times> string) list"
  df_tasks :: "string list"
  df_noexec :: "string list"

definition diff_arg :: "(string, datacache) dict \<Rightarrow> string \<times> rtentry \<Rightarrow> diffargs \<Rightarrow> diffargs res" where
  "diff_arg caches = (\<lambda>(tid, e) a.
     rbind (split_tid_mcfn tid) (\<lambda>(mc, fn, taskname, taskfn).
     rbind (ditem caches mc) (\<lambda>dc.
     rbind (ditem (dc_task_deps dc) taskfn) (\<lambda>td.
     if flag_value td ''noexec'' taskname \<noteq> None then Inr (a\<lparr>df_noexec := df_noexec a @ [tid]\<rparr>)
     else rbind (ditem (dc_hashfn dc) taskfn) (\<lambda>hfn.
       Inr (a\<lparr>df_args := df_args a @ [(fn, taskname, rt_hash e, hfn)], df_tasks := df_tasks a @ [tid]\<rparr>))))))"

text \<open>
  The hash check is called with \<open>siginfo\<close>, and without it when that raises TypeError; both calls of a
  missing function raise TypeError.
\<close>

definition valid_hashes :: "(bool \<Rightarrow> hashcheck) option \<Rightarrow> diffargs \<Rightarrow> string list res" where
  "valid_hashes check a =
     (case check of
        None \<Rightarrow> Inl TypeError
      | Some f \<Rightarrow>
          rbind (case f True (df_args a) of
                   Inl e \<Rightarrow> if e = TypeError then f False (df_args a) else Inl e
                 | Inr v \<Rightarrow> Inr v)
            (rmap (py_index (df_tasks a))))"

text \<open>What only noexec setscene tasks depend on counts as valid.\<close>

definition noexec_valid :: "runtasks \<Rightarrow> string list \<Rightarrow> string list \<Rightarrow> string list \<Rightarrow> string list res" where
  "noexec_valid es scene noexec ok =
     rfold (\<lambda>tid ok.
       if tid \<notin> set scene then Inr ok
       else rbind (ditem es tid) (\<lambda>e. rfold (\<lambda>dep ok. rbind (ditem es dep) (\<lambda>d.
         Inr (if \<forall>p \<in> set (rt_revdeps d). p \<in> set scene \<and> p \<in> set noexec then sadd dep ok else ok)))
         (rt_depends e) ok)) noexec ok"

text \<open>
  The search below one invalid task. The set of tasks seen is shared by all searches; a search ends
  when a level held an invalid dependency.
\<close>

definition diff_dep :: "string list \<Rightarrow> string \<Rightarrow> bool \<times> string list \<times> string list \<Rightarrow> bool \<times> string list \<times> string list" where
  "diff_dep invalid dep = (\<lambda>(found, processed, nxt).
     (found \<or> dep \<in> set invalid,
      if dep \<in> set processed then processed else processed @ [dep],
      if dep \<in> set processed then nxt else nxt @ [dep]))"

definition diff_level :: "runtasks \<Rightarrow> string list \<Rightarrow> string \<Rightarrow> bool \<times> string list \<times> string list \<Rightarrow>
    (bool \<times> string list \<times> string list) res" where
  "diff_level es invalid t st = rbind (ditem es t) (\<lambda>e. Inr (fold (diff_dep invalid) (rt_depends e) st))"

fun diff_search :: "nat \<Rightarrow> runtasks \<Rightarrow> string list \<Rightarrow> string list \<Rightarrow> string list \<Rightarrow> (bool \<times> string list) res option" where
  "diff_search 0 es invalid toprocess processed = None"
| "diff_search (Suc fuel) es invalid toprocess processed =
     (if toprocess = [] then Some (Inr (False, processed))
      else (case rfold (diff_level es invalid) toprocess (False, processed, []) of
              Inl e \<Rightarrow> Some (Inl e)
            | Inr (found, processed, nxt) \<Rightarrow>
                if found then Some (Inr (True, processed)) else diff_search fuel es invalid nxt processed))"

fun diff_starts :: "nat \<Rightarrow> runtasks \<Rightarrow> string list \<Rightarrow> string list \<Rightarrow> string list \<Rightarrow> string list res option" where
  "diff_starts fuel es invalid [] processed = Some (Inr [])"
| "diff_starts fuel es invalid (tid # tids) processed =
     (case diff_search fuel es invalid [tid] processed of
        None \<Rightarrow> None
      | Some (Inl e) \<Rightarrow> Some (Inl e)
      | Some (Inr (found, processed)) \<Rightarrow>
          map_option (map_sum id (\<lambda>r. if found then r else tid # r)) (diff_starts fuel es invalid tids processed))"

definition invalid_tasks :: "(string, datacache) dict \<Rightarrow> (bool \<Rightarrow> hashcheck) option \<Rightarrow> runtasks \<Rightarrow> string list \<Rightarrow> string list res" where
  "invalid_tasks caches check es scene =
     rbind (rfold (diff_arg caches) es \<lparr>df_args = [], df_tasks = [], df_noexec = []\<rparr>) (\<lambda>a.
     rbind (valid_hashes check a) (\<lambda>ok.
     rbind (noexec_valid es scene (df_noexec a) ok) (\<lambda>ok.
       Inr (filter (\<lambda>t. t \<notin> set ok \<and> t \<notin> set (df_noexec a)) (dkeys es)))))"

definition print_diffscenetasks :: "(string, datacache) dict \<Rightarrow> (bool \<Rightarrow> hashcheck) option \<Rightarrow> runtasks \<Rightarrow> string list \<Rightarrow>
    string list res option" where
  "print_diffscenetasks caches check es scene =
     (case invalid_tasks caches check es scene of
        Inl e \<Rightarrow> Some (Inl e)
      | Inr invalid \<Rightarrow> diff_starts (Suc (Suc (length es))) es invalid invalid [])"

section \<open>The state machine\<close>

datatype rqexe = NoExe | DummyExe | SceneExe scst | TasksExe exst

record 'g runq =
  q_state :: rq_state
  q_exe :: rqexe
  q_input :: rqinput
  q_siggen :: 'g
  q_prepared :: "'g prepared option"
  q_covered :: "string list"
  q_notcovered :: "string list"
  q_workers :: bool
  q_fakeworkers :: "string list"
  q_monitor :: diskmon

text \<open>The configuration, and what happens outside between two steps.\<close>

record 'g rqconf =
  qc_env :: sceneenv
  qc_gethash :: "'g get_hash"
  qc_verify :: "verify option"
  qc_dump :: "string list"
  qc_siginfo :: "(bool \<Rightarrow> hashcheck) option"
  qc_setsceneonly :: bool
  qc_limit :: nat

record rqturn =
  qt_files :: files
  qt_spawn :: "exc option"
  qt_disks :: statvfs
  qt_scene1 :: scenepipes
  qt_scene2 :: scenepipes
  qt_scene3 :: scenepipes
  qt_tasks1 :: pipes
  qt_tasks2 :: pipes
  qt_tasks3 :: pipes

type_synonym ('g, 'a) rqm = "('g runq, 'a) eff"

definition of_fuel :: "'a res option \<Rightarrow> ('s, 'a) eff" where
  "of_fuel r = (case r of None \<Rightarrow> mraise RecursionError | Some r \<Rightarrow> mlift r)"

definition q_set :: "rq_state \<Rightarrow> ('g, unit) rqm" where
  "q_set st = mmod (\<lambda>q. q\<lparr>q_state := st\<rparr>)"

text \<open>The environment of the executions, from the configuration and the prepared table.\<close>

definition rq_env :: "'g rqconf \<Rightarrow> 'g runq \<Rightarrow> sceneenv" where
  "rq_env c q =
     (let env = (qc_env c)\<lparr>se_caches := rq_caches (q_input q), xe_taskdata := rq_taskdata (q_input q)\<rparr> in
      case q_prepared q of
        None \<Rightarrow> env
      | Some p \<Rightarrow> env\<lparr>se_whitelist := pp_stampfnwhitelist p, xe_setscene_tids := pp_setscene_tids p,
                      ne_target_tids := pp_target_tids p\<rparr>)"

definition rq_entries :: "'g runq \<Rightarrow> runtasks" where
  "rq_entries q = (case q_prepared q of None \<Rightarrow> [] | Some p \<Rightarrow> pp_entries p)"

text \<open>
  A call into the execution that is under way; \<open>rq.state\<close> is shared with it, and so are the covered
  tasks when the setscene queue is done.
\<close>

definition in_scene :: "(scst, 'a) eff \<Rightarrow> ('g, 'a) rqm" where
  "in_scene m = (\<lambda>q. case q_exe q of
     SceneExe s \<Rightarrow> (case m (s\<lparr>sn_state := q_state q\<rparr>) of (r, s) \<Rightarrow>
       (r, if sn_state s = RqRunInit
           then q\<lparr>q_exe := SceneExe s, q_state := sn_state s, q_covered := sn_covered s, q_notcovered := sn_notcovered s,
                  q_fakeworkers := sn_fakeworkers s\<rparr>
           else q\<lparr>q_exe := SceneExe s, q_state := sn_state s, q_fakeworkers := sn_fakeworkers s\<rparr>))
   | _ \<Rightarrow> (Inl AttributeError, q))"

definition in_tasks :: "(exst, 'a) eff \<Rightarrow> ('g, 'a) rqm" where
  "in_tasks m = (\<lambda>q. case q_exe q of
     TasksExe s \<Rightarrow> (case m (s\<lparr>ex_state := q_state q\<rparr>) of (r, s) \<Rightarrow>
       (r, q\<lparr>q_exe := TasksExe s, q_state := ex_state s, q_fakeworkers := ex_fakeworkers s\<rparr>))
   | _ \<Rightarrow> (Inl AttributeError, q))"

definition call_execute :: "'g rqconf \<Rightarrow> rqturn \<Rightarrow> ('g, retval) rqm" where
  "call_execute c t =
     mbind (mget (\<lambda>q. (q_exe q, rq_env c q, rq_entries q))) (\<lambda>(exe, env, es). case exe of
       SceneExe _ \<Rightarrow> in_scene (scene_execute (qc_limit c) env (qt_files t) es (qt_spawn t) (qt_scene1 t) (qt_scene2 t))
     | TasksExe _ \<Rightarrow> in_tasks (execute (execenv.truncate env) (qt_files t) (qt_spawn t = None) (qt_tasks1 t) (qt_tasks2 t))
     | _ \<Rightarrow> mraise AttributeError)"

definition call_finish :: "'g rqconf \<Rightarrow> rqturn \<Rightarrow> ('g, retval) rqm" where
  "call_finish c t =
     mbind (mget (\<lambda>q. (q_exe q, rq_env c q))) (\<lambda>(exe, env). case exe of
       SceneExe _ \<Rightarrow> in_scene (scene_finish (qc_limit c) env (qt_scene3 t))
     | TasksExe _ \<Rightarrow> in_tasks (exec_finish (execenv.truncate env) (qt_tasks3 t))
     | DummyExe \<Rightarrow> mseq (q_set RqComplete) (mret RFalse)
     | NoExe \<Rightarrow> mraise AttributeError)"

text \<open>\<open>finish_now\<close>: the setscene queue has no failed tasks, the dummy execution no list of them.\<close>

definition call_finish_now :: "('g, unit) rqm" where
  "call_finish_now =
     mbind (mget q_exe) (\<lambda>exe. case exe of
       SceneExe _ \<Rightarrow> in_scene sn_finish_now
     | TasksExe _ \<Rightarrow> in_tasks finish_now
     | _ \<Rightarrow> mraise AttributeError)"

definition finish_runqueue :: "'g rqconf \<Rightarrow> rqturn \<Rightarrow> bool \<Rightarrow> ('g, unit) rqm" where
  "finish_runqueue c t now =
     mbind (mget q_exe) (\<lambda>exe.
       if exe = NoExe then q_set RqComplete
       else if now then call_finish_now
       else mseq (call_finish c t) (mret ()))"

text \<open>Stopping the workers reads what they still report; that they are gone is no error then.\<close>

definition exit_reports :: "('s \<Rightarrow> report list) \<Rightarrow> 's \<Rightarrow> report list" where
  "exit_reports pipe s = filter (\<lambda>r. r \<noteq> WorkerDied) (pipe s)"

definition teardown_workers :: "'g rqconf \<Rightarrow> rqturn \<Rightarrow> ('g, unit) rqm" where
  "teardown_workers c t =
     mseq (mbind (mget (\<lambda>q. (q_workers q, q_exe q, rq_env c q))) (\<lambda>(workers, exe, env).
             if \<not> workers then mret ()
             else case exe of
               SceneExe _ \<Rightarrow> in_scene (sn_read_workers (qc_limit c) env (exit_reports (qt_scene3 t)))
             | TasksExe _ \<Rightarrow> in_tasks (read_workers (execenv.truncate env) (exit_reports (qt_tasks3 t)))
             | _ \<Rightarrow> mret ()))
          (mmod (\<lambda>q. q\<lparr>q_workers := False, q_fakeworkers := []\<rparr>))"

definition start_worker :: "'g rqconf \<Rightarrow> rqturn \<Rightarrow> ('g, unit) rqm" where
  "start_worker c t =
     mseq (mbind (mget q_workers) (\<lambda>w. mwhen w (teardown_workers c t)))
     (case qt_spawn t of Some e \<Rightarrow> mraise e | None \<Rightarrow> mmod (\<lambda>q. q\<lparr>q_workers := True\<rparr>))"

text \<open>runQueuePrepare\<close>

definition step_prepare :: "'g rqconf \<Rightarrow> ('g, unit) rqm" where
  "step_prepare c =
     mseq (mmod (\<lambda>q. q\<lparr>q_exe := DummyExe\<rparr>))
     (mbind (mget (\<lambda>q. prepare (qc_gethash c) (q_siggen q) (q_input q))) (\<lambda>r.
      mbind (of_fuel r) (\<lambda>p. case p of
        None \<Rightarrow> q_set RqComplete
      | Some p \<Rightarrow> mmod (\<lambda>q. q\<lparr>q_prepared := Some p, q_siggen := pp_siggen p, q_state := RqSceneInit\<rparr>))))"

text \<open>runQueueSceneInit: a dump of the signatures, or the start of the setscene queue.\<close>

definition step_scene_init :: "'g rqconf \<Rightarrow> rqturn \<Rightarrow> ('g, unit) rqm" where
  "step_scene_init c t =
     (if qc_dump c \<noteq> []
      then mseq (mwhen (''printdiff'' \<in> set (qc_dump c))
                   (mbind (mget (\<lambda>q. print_diffscenetasks (rq_caches (q_input q)) (qc_siginfo c) (rq_entries q)
                                      (xe_setscene_tids (rq_env c q)))) (\<lambda>r. mbind (of_fuel r) (\<lambda>_. mret ()))))
                (q_set RqComplete)
      else mseq (start_worker c t)
           (mbind (mget (\<lambda>q. scene_init (Suc (Suc (length (rq_entries q)))) (qc_limit c) (rq_env c q) (qt_files t) (rq_entries q))) (\<lambda>r.
            mbind (of_fuel r) (\<lambda>s.
            mmod (\<lambda>q. q\<lparr>q_exe := SceneExe s, q_state := sn_state s, q_covered := sn_covered s, q_notcovered := sn_notcovered s\<rparr>)))))"

text \<open>\<open>dm.check\<close> may make the run queue finish.\<close>

definition step_monitor :: "'g rqconf \<Rightarrow> rqturn \<Rightarrow> ('g, unit) rqm" where
  "step_monitor c t =
     mbind (mget q_state) (\<lambda>st.
     mwhen (st \<in> {RqSceneRun, RqRunning, RqCleanUp})
       (\<lambda>q. case disk_check (finish_runqueue c t) (qt_disks t) (q_monitor q, q) of
          (r, dm, q) \<Rightarrow> (r, q\<lparr>q_monitor := dm\<rparr>)))"

definition step_run_init :: "'g rqconf \<Rightarrow> rqturn \<Rightarrow> ('g, unit) rqm" where
  "step_run_init c t =
     (if qc_setsceneonly c then q_set RqComplete
      else mbind (mget (\<lambda>q. exec_init (execenv.truncate (rq_env c q)) (qt_files t) (qc_verify c) (rq_entries q)
                               (q_covered q) (q_notcovered q))) (\<lambda>r.
           mbind (of_fuel r) (\<lambda>s.
           mmod (\<lambda>q. q\<lparr>q_exe := TasksExe (s\<lparr>ex_fakeworkers := q_fakeworkers q\<rparr>), q_state := RqRunning\<rparr>))))"

definition failed_tids :: "'g runq \<Rightarrow> string list res" where
  "failed_tids q = (case q_exe q of TasksExe s \<Rightarrow> Inr (ex_failed s) | SceneExe s \<Rightarrow> Inr [] | _ \<Rightarrow> Inl AttributeError)"

text \<open>\<open>taskData[mc].fail_fn(fn)\<close>; the recipe cache is shared with the task data.\<close>

definition fail_recipe :: "'g rqconf \<Rightarrow> string \<Rightarrow> ('g, unit) rqm" where
  "fail_recipe c tid =
     mbind (mlift (split_tid_mcfn tid)) (\<lambda>(mc, fn, _, _).
     mbind (mget (\<lambda>q. rbind (ditem (rq_taskdata (q_input q)) mc) (\<lambda>td.
              rbind (ditem (rq_caches (q_input q)) mc) (\<lambda>dc. Inr (td, dc))))) (\<lambda>r.
     mbind (mlift r) (\<lambda>(td, dc). \<lambda>q.
       case fail_fn (qc_limit c) fn (taskdata.extend td (tkstate.fields dc)) of
         (r, s) \<Rightarrow> (r, q\<lparr>q_input := (q_input q)\<lparr>rq_taskdata := dset mc (taskdata.truncate s) (rq_taskdata (q_input q))\<rparr>\<rparr>))))"

text \<open>A failed build ends with TaskFailure, or the recipes of the failed tasks are given up.\<close>

definition step_failed :: "'g rqconf \<Rightarrow> ('g, unit) rqm" where
  "step_failed c =
     mbind (mget (\<lambda>q. ditem (rq_taskdata (q_input q)) [])) (\<lambda>r. mbind (mlift r) (\<lambda>td.
     mbind (mget failed_tids) (\<lambda>r. mbind (mlift r) (\<lambda>failed.
     if \<not> tk_tryaltconfigs td then mraise (TaskFailure failed)
     else mseq (mfor failed (fail_recipe c))
               (mmod (\<lambda>q. q\<lparr>q_prepared := map_option (\<lambda>p. p\<lparr>pp_entries := []\<rparr>) (q_prepared q)\<rparr>))))))"

definition in_state :: "rq_state \<Rightarrow> 'a \<Rightarrow> ('g, 'a) rqm \<Rightarrow> ('g, 'a) rqm" where
  "in_state st v m = mbind (mget q_state) (\<lambda>s. if s = st then m else mret v)"

definition execute_steps :: "'g rqconf \<Rightarrow> rqturn \<Rightarrow> ('g, retval) rqm" where
  "execute_steps c t =
     mseq (in_state RqPrepare () (step_prepare c))
     (mseq (in_state RqSceneInit () (step_scene_init c t))
     (mseq (step_monitor c t)
     (mbind (in_state RqSceneRun RTrue (call_execute c t)) (\<lambda>rv.
      mseq (in_state RqRunInit () (step_run_init c t))
     (mbind (in_state RqRunning rv (call_execute c t)) (\<lambda>rv.
      mbind (in_state RqCleanUp rv (call_finish c t)) (\<lambda>rv.
      mseq (mbind (mget (\<lambda>q. q_state q \<in> {RqComplete, RqFailed} \<and> q_exe q \<noteq> NoExe)) (\<lambda>over. mwhen over (teardown_workers c t)))
     (mseq (in_state RqFailed () (step_failed c))
     (mbind (mget q_state) (\<lambda>st. mret (if st = RqComplete then RFalse else rv)))))))))))"

text \<open>
  \<open>execute_runqueue\<close>: TaskFailure and SystemExit are passed on, any other exception stops the workers and
  ends the run.
\<close>

definition execute_runqueue :: "'g rqconf \<Rightarrow> rqturn \<Rightarrow> ('g, retval) rqm" where
  "execute_runqueue c t = mtry (execute_steps c t) (\<lambda>e.
     case e of
       TaskFailure _ \<Rightarrow> mraise e
     | MsgFatal _ \<Rightarrow> mraise e
     | _ \<Rightarrow> mseq (mtry (teardown_workers c t) (\<lambda>_. mret ())) (mseq (q_set RqComplete) (mraise e)))"

end
