(* ===== verification/BB_SceneProps.thy ===== *)
theory BB_SceneProps
  imports BB_SceneQueue BB_RunPrepProps
begin

text \<open>
  Properties of the setscene queue: the collapsed graph of the setscene tasks.
\<close>

section \<open>Handing tasks down\<close>

lemma dset_subset: "set (dset k v d) \<subseteq> insert (k, v) (set d)"
  by (induction d) auto

lemma ditem_key: "k \<in> set (dkeys d) \<Longrightarrow> ditem d k = Inr (ddefault d k)"
  unfolding dget_Some_key by (auto simp: ditem_def ddefault_def)

lemma push_dep_total:
  assumes "dep \<in> set (dkeys (sw_revdeps w))" "dep \<in> set (dkeys (sw_new w))"
  shows "\<exists>w'. push_dep scene p tasks val dep w = Inr w' \<and>
    dkeys (sw_new w') = dkeys (sw_new w) \<and> dkeys (sw_revdeps w') = dkeys (sw_revdeps w) \<and>
    (\<forall>x. set (ddefault (sw_new w') x) = set (ddefault (sw_new w) x) \<union> (if x = dep then set tasks else {})) \<and>
    (dep \<notin> set scene \<and> ddefault (sw_new w') dep \<noteq> [] \<longrightarrow> dep \<in> set (dkeys (sw_next w'))) \<and>
    set (dkeys (sw_next w)) \<subseteq> set (dkeys (sw_next w')) \<and>
    set (sw_next w') \<subseteq> set (sw_next w) \<union> {(y, val) | y. y = dep \<and> y \<notin> set scene}"
proof -
  let ?rd = "ddefault (sw_revdeps w) dep" and ?nd = "ddefault (sw_new w) dep"
  let ?rd' = "if p \<in> set ?rd then remove1 p ?rd else ?rd"
  let ?nd' = "if tasks \<noteq> [] then fold sadd tasks ?nd else ?nd"
  have kd: "dkeys (dset dep v (sw_revdeps w)) = dkeys (sw_revdeps w)" "dkeys (dset dep v (sw_new w)) = dkeys (sw_new w)" for v
    by (rule dkeys_dset_mem [OF assms(1)], rule dkeys_dset_mem [OF assms(2)])
  let ?w' = "w\<lparr>sw_revdeps := dset dep ?rd' (sw_revdeps w), sw_new := dset dep ?nd' (sw_new w),
            sw_next := (if (?rd' = [] \<or> ?nd' \<noteq> []) \<and> dep \<notin> set scene then dset dep val (sw_next w) else sw_next w)\<rparr>"
  have e: "push_dep scene p tasks val dep w = Inr ?w'"
    by (simp only: push_dep_def ditem_key [OF assms(1)] ditem_key [OF assms(2)] rbind_Inr Let_def)
  have n: "set ?nd' = set ?nd \<union> set tasks" by (auto simp: set_fold_sadd)
  have k: "set (dkeys (dset dep val (sw_next w))) = insert dep (set (dkeys (sw_next w)))" by (rule set_dkeys_dset)
  show ?thesis
  proof (intro exI [of _ ?w'] conjI allI)
    show "dkeys (sw_new ?w') = dkeys (sw_new w)" "dkeys (sw_revdeps ?w') = dkeys (sw_revdeps w)"
      by (simp_all add: kd)
    show "set (ddefault (sw_new ?w') x) = set (ddefault (sw_new w) x) \<union> (if x = dep then set tasks else {})" for x
      using n by (auto simp: ddefault_dset)
    show "dep \<notin> set scene \<and> ddefault (sw_new ?w') dep \<noteq> [] \<longrightarrow> dep \<in> set (dkeys (sw_next ?w'))"
      using k by (simp add: ddefault_dset)
    show "set (dkeys (sw_next w)) \<subseteq> set (dkeys (sw_next ?w'))" using k by auto
    show "set (sw_next ?w') \<subseteq> set (sw_next w) \<union> {(y, val) | y. y = dep \<and> y \<notin> set scene}"
      using dset_subset [of dep val "sw_next w"] by auto
  qed (rule e)
qed

lemma push_deps_total:
  assumes "set ds \<subseteq> set (dkeys (sw_revdeps w))" "set ds \<subseteq> set (dkeys (sw_new w))"
  shows "\<exists>w'. rfold (push_dep scene p tasks val) ds w = Inr w' \<and>
    dkeys (sw_new w') = dkeys (sw_new w) \<and> dkeys (sw_revdeps w') = dkeys (sw_revdeps w) \<and>
    (\<forall>x. set (ddefault (sw_new w') x) = set (ddefault (sw_new w) x) \<union> (if x \<in> set ds then set tasks else {})) \<and>
    (\<forall>x \<in> set ds. x \<notin> set scene \<and> ddefault (sw_new w') x \<noteq> [] \<longrightarrow> x \<in> set (dkeys (sw_next w'))) \<and>
    set (dkeys (sw_next w)) \<subseteq> set (dkeys (sw_next w')) \<and>
    set (sw_next w') \<subseteq> set (sw_next w) \<union> {(y, val) | y. y \<in> set ds \<and> y \<notin> set scene}"
  using assms
proof (induction ds rule: rev_induct)
  case (snoc d ds)
  then obtain w1 where w1: "rfold (push_dep scene p tasks val) ds w = Inr w1"
    "dkeys (sw_new w1) = dkeys (sw_new w)" "dkeys (sw_revdeps w1) = dkeys (sw_revdeps w)"
    "\<And>x. set (ddefault (sw_new w1) x) = set (ddefault (sw_new w) x) \<union> (if x \<in> set ds then set tasks else {})"
    "\<And>x. x \<in> set ds \<Longrightarrow> x \<notin> set scene \<Longrightarrow> ddefault (sw_new w1) x \<noteq> [] \<Longrightarrow> x \<in> set (dkeys (sw_next w1))"
    "set (dkeys (sw_next w)) \<subseteq> set (dkeys (sw_next w1))"
    "set (sw_next w1) \<subseteq> set (sw_next w) \<union> {(y, val) | y. y \<in> set ds \<and> y \<notin> set scene}"
    by (auto simp del: list.set_map)
  have "d \<in> set (dkeys (sw_revdeps w1))" "d \<in> set (dkeys (sw_new w1))" using snoc.prems unfolding w1(2,3) by auto
  from push_dep_total [OF this, of scene p tasks val] obtain w2 where w2: "push_dep scene p tasks val d w1 = Inr w2"
    "dkeys (sw_new w2) = dkeys (sw_new w1)" "dkeys (sw_revdeps w2) = dkeys (sw_revdeps w1)"
    "\<And>x. set (ddefault (sw_new w2) x) = set (ddefault (sw_new w1) x) \<union> (if x = d then set tasks else {})"
    "d \<notin> set scene \<Longrightarrow> ddefault (sw_new w2) d \<noteq> [] \<Longrightarrow> d \<in> set (dkeys (sw_next w2))"
    "set (dkeys (sw_next w1)) \<subseteq> set (dkeys (sw_next w2))"
    "set (sw_next w2) \<subseteq> set (sw_next w1) \<union> {(y, val) | y. y = d \<and> y \<notin> set scene}"
    by (auto simp del: list.set_map)
  have nx: "x \<in> set (dkeys (sw_next w2))" if "x \<in> set (ds @ [d])" "x \<notin> set scene" "ddefault (sw_new w2) x \<noteq> []" for x
  proof (cases "x = d")
    case True
    then show ?thesis using w2(5) that by blast
  next
    case False
    then have "set (ddefault (sw_new w1) x) \<noteq> {}" using w2(4) [of x] that(3) by auto
    then have "ddefault (sw_new w1) x \<noteq> []" by auto
    then show ?thesis using w1(5) [of x] that False w2(6) by auto
  qed
  show ?case
  proof (intro exI [of _ w2] conjI allI ballI impI)
    show "rfold (push_dep scene p tasks val) (ds @ [d]) w = Inr w2" using w1(1) w2(1) by (simp add: rfold_snoc)
    show "set (ddefault (sw_new w2) x) = set (ddefault (sw_new w) x) \<union> (if x \<in> set (ds @ [d]) then set tasks else {})" for x
      using w1(4) [of x] w2(4) [of x] by auto
    show "x \<in> set (dkeys (sw_next w2))" if "x \<in> set (ds @ [d])" "x \<notin> set scene \<and> ddefault (sw_new w2) x \<noteq> []" for x
      using nx that by blast
    show "set (dkeys (sw_next w)) \<subseteq> set (dkeys (sw_next w2))" using w1(6) w2(6) by blast
    show "set (sw_next w2) \<subseteq> set (sw_next w) \<union> {(y, val) | y. y \<in> set (ds @ [d]) \<and> y \<notin> set scene}"
      using w1(7) w2(7) by auto
  qed (use w1(2,3) w2(2,3) in simp_all)
qed simp

section \<open>What lies below a task\<close>

text \<open>The tasks reached from a task along dependencies without passing a setscene task.\<close>

inductive below :: "runtasks \<Rightarrow> string list \<Rightarrow> string \<Rightarrow> string \<Rightarrow> bool" for es scene where
  direct: "x \<in> set (deps_of es u) \<Longrightarrow> below es scene u x"
| through: "below es scene u y \<Longrightarrow> y \<notin> set scene \<Longrightarrow> x \<in> set (deps_of es y) \<Longrightarrow> below es scene u x"

lemma below_deps: "below es scene u x \<Longrightarrow> (x, u) \<in> (dep_rel es)\<^sup>+"
proof (induction rule: below.induct)
  case (direct x u)
  then show ?case by (simp add: dep_rel_def r_into_trancl)
next
  case (through u y x)
  then have "(x, y) \<in> (dep_rel es)\<^sup>+" by (simp add: dep_rel_def r_into_trancl)
  then show ?case using through.IH by (rule trancl_trans)
qed

text \<open>How many tasks need a task: it grows along the dependencies.\<close>

definition depth :: "runtasks \<Rightarrow> string \<Rightarrow> nat" where
  "depth es t = card {u. (t, u) \<in> (dep_rel es)\<^sup>+}"

lemma depends_keys:
  assumes "(t, u) \<in> (dep_rel es)\<^sup>+"
  shows "u \<in> set (dkeys es)"
proof -
  from assms obtain v where "(v, u) \<in> dep_rel es" by (meson tranclE)
  then have "deps_of es u \<noteq> []" by (auto simp: dep_rel_def)
  then have "\<exists>e. dget es u = Some e" by (cases "dget es u") (auto simp: deps_of_def)
  then show ?thesis unfolding dget_Some_key .
qed

lemma depth_less:
  assumes "rt_wf es" "acyclic (dep_rel es)" "t \<in> set (dkeys es)"
  shows "depth es t < length es"
proof -
  have "{u. (t, u) \<in> (dep_rel es)\<^sup>+} \<subset> set (dkeys es)"
    using assms depends_keys [of t _ es] unfolding acyclic_def by blast
  then have "depth es t < card (set (dkeys es))" unfolding depth_def by (rule psubset_card_mono [rotated]) simp
  then show ?thesis using card_length [of "dkeys es"] by simp
qed

lemma depth_deps:
  assumes "rt_wf es" "acyclic (dep_rel es)" "y \<in> set (deps_of es p)"
  shows "depth es p < depth es y"
proof -
  have yp: "(y, p) \<in> dep_rel es" using assms(3) by (simp add: dep_rel_def)
  have "{u. (p, u) \<in> (dep_rel es)\<^sup>+} \<subset> {u. (y, u) \<in> (dep_rel es)\<^sup>+}"
  proof
    show "{u. (p, u) \<in> (dep_rel es)\<^sup>+} \<subseteq> {u. (y, u) \<in> (dep_rel es)\<^sup>+}"
      using yp by (auto intro: trancl_into_trancl2)
    show "{u. (p, u) \<in> (dep_rel es)\<^sup>+} \<noteq> {u. (y, u) \<in> (dep_rel es)\<^sup>+}"
      using yp assms(2) unfolding acyclic_def by blast
  qed
  moreover have "finite {u. (y, u) \<in> (dep_rel es)\<^sup>+}"
    by (rule finite_subset [of _ "set (dkeys es)"]) (use depends_keys in blast, simp)
  ultimately show ?thesis unfolding depth_def by (rule psubset_card_mono [rotated])
qed

section \<open>Delivering the setscene tasks\<close>

text \<open>
  The invariant of \<open>process_endpoints\<close>: \<open>G\<close> holds the pairs of a setscene task and a point it was
  handed to when the point was processed, \<open>todo\<close> the end points of this round still to come.
\<close>

definition reached :: "(string \<times> string) set \<Rightarrow> tidsets \<Rightarrow> sqwork \<Rightarrow> (string \<times> string) set" where
  "reached G todo w = G \<union> {(u, x). \<exists>T. (x, T) \<in> set todo \<and> u \<in> set T} \<union> {(u, x). u \<in> set (ddefault (sw_new w) x)}"

definition sq_lower :: "runtasks \<Rightarrow> string list \<Rightarrow> (string \<times> string) set \<Rightarrow> tidsets \<Rightarrow> sqwork \<Rightarrow> bool" where
  "sq_lower es scene G todo w \<longleftrightarrow>
     (\<forall>u \<in> set scene. \<forall>x \<in> set (deps_of es u). (u, x) \<in> reached G todo w) \<and>
     (\<forall>u x. (u, x) \<in> G \<longrightarrow> x \<notin> set scene \<longrightarrow> (\<forall>y \<in> set (deps_of es x). (u, y) \<in> reached G todo w)) \<and>
     (\<forall>u x. (u, x) \<in> G \<longrightarrow> x \<in> set scene \<longrightarrow> u \<in> set (ddefault (sw_new w) x)) \<and>
     (\<forall>x. x \<notin> set scene \<longrightarrow> ddefault (sw_new w) x \<noteq> [] \<longrightarrow> x \<in> set (dkeys todo) \<union> set (dkeys (sw_next w)))"

definition needed_by :: "runtasks \<Rightarrow> string list \<Rightarrow> string \<Rightarrow> string list \<Rightarrow> bool" where
  "needed_by es scene x us \<longleftrightarrow> set us \<subseteq> set scene \<inter> {u. (x, u) \<in> (dep_rel es)\<^sup>+}"

definition sq_upper :: "runtasks \<Rightarrow> string list \<Rightarrow> sqwork \<Rightarrow> bool" where
  "sq_upper es scene w \<longleftrightarrow> (\<forall>x. needed_by es scene x (ddefault (sw_new w) x)) \<and>
     (\<forall>(x, T) \<in> set (sw_next w). needed_by es scene x T)"

definition sq_keys :: "runtasks \<Rightarrow> sqwork \<Rightarrow> bool" where
  "sq_keys es w \<longleftrightarrow> dkeys (sw_new w) = dkeys es \<and> dkeys (sw_revdeps w) = dkeys es"

lemma needed_by_dep: "needed_by es scene p us \<Longrightarrow> y \<in> set (deps_of es p) \<Longrightarrow> needed_by es scene y us"
  unfolding needed_by_def dep_rel_def by (auto intro: trancl_into_trancl2)

text \<open>What processing one point does.\<close>

definition point_post :: "runtasks \<Rightarrow> string list \<Rightarrow> string \<Rightarrow> string list \<Rightarrow> sqwork \<Rightarrow> sqwork \<Rightarrow> bool" where
  "point_post es scene p task w w' \<longleftrightarrow>
     sq_keys es w' \<and>
     (\<forall>x. set (ddefault (sw_new w') x) =
       (if x = p then (if p \<in> set scene then set task \<union> set (ddefault (sw_new w) p) else {})
        else set (ddefault (sw_new w) x) \<union>
          (if p \<notin> set scene \<and> x \<in> set (deps_of es p) then set task \<union> set (ddefault (sw_new w) p) else {}))) \<and>
     (\<forall>x \<in> set (deps_of es p). x \<notin> set scene \<and> ddefault (sw_new w') x \<noteq> [] \<longrightarrow> x \<in> set (dkeys (sw_next w'))) \<and>
     set (dkeys (sw_next w)) \<subseteq> set (dkeys (sw_next w')) \<and>
     set (sw_next w') \<subseteq> set (sw_next w) \<union> {(y, task) | y. y \<in> set (deps_of es p) \<and> y \<notin> set scene}"

lemma process_point_post:
  assumes wf: "rt_wf es" and ac: "acyclic (dep_rel es)" and k: "sq_keys es w" and p: "p \<in> set (dkeys es)"
  shows "\<exists>w'. process_point es scene (p, task) w = Inr w' \<and> point_post es scene p task w w'"
proof -
  obtain e where e: "dget es p = Some e" using p unfolding dget_Some_key by blast
  then have d: "rt_depends e = deps_of es p" "ditem es p = Inr e" by (simp_all add: deps_of_def ditem_def)
  have sub: "set (deps_of es p) \<subseteq> set (dkeys es)" and np: "p \<notin> set (deps_of es p)"
    using wf ac unfolding rt_wf_def acyclic_def dep_rel_def by auto
  let ?new = "ddefault (sw_new w) p"
  let ?tasks = "fold sadd ?new (fold sadd task [])"
  let ?push = "if p \<in> set scene then [] else ?tasks" and ?own = "if p \<in> set scene then ?tasks else []"
  let ?w0 = "w\<lparr>sw_new := dset p ?own (sw_new w)\<rparr>"
  have kn: "p \<in> set (dkeys (sw_new w))" using k p unfolding sq_keys_def by simp
  have n: "ditem (sw_new w) p = Inr ?new" by (rule ditem_key [OF kn])
  have k0: "dkeys (sw_new ?w0) = dkeys es" "dkeys (sw_revdeps ?w0) = dkeys es"
    using k dkeys_dset_mem [OF kn] unfolding sq_keys_def by simp_all
  have t: "set ?tasks = set task \<union> set ?new" by (auto simp: set_fold_sadd)
  have s0: "set (deps_of es p) \<subseteq> set (dkeys (sw_revdeps ?w0))" "set (deps_of es p) \<subseteq> set (dkeys (sw_new ?w0))"
    unfolding k0 by (rule sub)+
  from push_deps_total [OF s0, of scene p ?push task] obtain w' where
    w': "rfold (push_dep scene p ?push task) (deps_of es p) ?w0 = Inr w'"
    "dkeys (sw_new w') = dkeys (sw_new ?w0)" "dkeys (sw_revdeps w') = dkeys (sw_revdeps ?w0)"
    "\<forall>x. set (ddefault (sw_new w') x) = set (ddefault (sw_new ?w0) x) \<union> (if x \<in> set (deps_of es p) then set ?push else {})"
    "\<forall>x \<in> set (deps_of es p). x \<notin> set scene \<and> ddefault (sw_new w') x \<noteq> [] \<longrightarrow> x \<in> set (dkeys (sw_next w'))"
    "set (dkeys (sw_next ?w0)) \<subseteq> set (dkeys (sw_next w'))"
    "set (sw_next w') \<subseteq> set (sw_next ?w0) \<union> {(y, task) | y. y \<in> set (deps_of es p) \<and> y \<notin> set scene}"
    by (elim exE conjE) (rule that)
  have "process_point es scene (p, task) w = Inr w'"
    using w'(1) by (simp add: process_point_def n d Let_def split: if_splits)
  moreover have "point_post es scene p task w w'"
    unfolding point_post_def
  proof (intro conjI allI)
    show "sq_keys es w'" using w'(2,3) k0 unfolding sq_keys_def by simp
    show "set (ddefault (sw_new w') x) =
       (if x = p then (if p \<in> set scene then set task \<union> set ?new else {})
        else set (ddefault (sw_new w) x) \<union>
          (if p \<notin> set scene \<and> x \<in> set (deps_of es p) then set task \<union> set ?new else {}))" for x
      using w'(4) [rule_format, of x] np t by (auto simp: ddefault_dset)
    show "set (dkeys (sw_next w)) \<subseteq> set (dkeys (sw_next w'))"
      "set (sw_next w') \<subseteq> set (sw_next w) \<union> {(y, task) | y. y \<in> set (deps_of es p) \<and> y \<notin> set scene}"
      using w'(6,7) by simp_all
  qed (rule w'(5))
  ultimately show ?thesis by blast
qed

lemma step_lower:
  assumes inv: "sq_lower es scene G ((p, task) # todo) w" and p: "p \<notin> set (deps_of es p)"
    and post: "point_post es scene p task w w'"
  shows "\<exists>G'. sq_lower es scene G' todo w'"
proof -
  let ?T = "set task \<union> set (ddefault (sw_new w) p)"
  let ?G = "G \<union> {(u, p) | u. u \<in> ?T}"
  from post have new: "\<And>x. set (ddefault (sw_new w') x) =
      (if x = p then (if p \<in> set scene then ?T else {})
       else set (ddefault (sw_new w) x) \<union> (if p \<notin> set scene \<and> x \<in> set (deps_of es p) then ?T else {}))"
    and nx: "\<And>x. x \<in> set (deps_of es p) \<Longrightarrow> x \<notin> set scene \<Longrightarrow> ddefault (sw_new w') x \<noteq> [] \<Longrightarrow> x \<in> set (dkeys (sw_next w'))"
    and nk: "set (dkeys (sw_next w)) \<subseteq> set (dkeys (sw_next w'))"
    unfolding point_post_def by blast+
  from inv have I1: "\<And>u x. u \<in> set scene \<Longrightarrow> x \<in> set (deps_of es u) \<Longrightarrow> (u, x) \<in> reached G ((p, task) # todo) w"
    and I2: "\<And>u x y. (u, x) \<in> G \<Longrightarrow> x \<notin> set scene \<Longrightarrow> y \<in> set (deps_of es x) \<Longrightarrow> (u, y) \<in> reached G ((p, task) # todo) w"
    and I3: "\<And>u x. (u, x) \<in> G \<Longrightarrow> x \<in> set scene \<Longrightarrow> u \<in> set (ddefault (sw_new w) x)"
    and I4: "\<And>x. x \<notin> set scene \<Longrightarrow> ddefault (sw_new w) x \<noteq> [] \<Longrightarrow> x \<in> set (dkeys ((p, task) # todo)) \<union> set (dkeys (sw_next w))"
    unfolding sq_lower_def by blast+
  have mono: "z \<in> reached ?G todo w'" if "z \<in> reached G ((p, task) # todo) w" for z
  proof -
    obtain u x where z: "z = (u, x)" by (cases z)
    show ?thesis using that new [of x] unfolding z reached_def by (auto split: if_splits)
  qed
  have "sq_lower es scene ?G todo w'"
    unfolding sq_lower_def
  proof (intro conjI allI ballI impI)
    fix u x y assume a: "(u, x) \<in> ?G" "x \<notin> set scene" "y \<in> set (deps_of es x)"
    show "(u, y) \<in> reached ?G todo w'"
    proof (cases "(u, x) \<in> G")
      case True
      then show ?thesis using mono I2 a by blast
    next
      case False
      then have "x = p" "u \<in> ?T" using a(1) by auto
      then have "u \<in> set (ddefault (sw_new w') y)" using new [of y] a p by auto
      then show ?thesis unfolding reached_def by blast
    qed
  next
    fix u x assume a: "(u, x) \<in> ?G" "x \<in> set scene"
    then show "u \<in> set (ddefault (sw_new w') x)" using new [of x] I3 [of u x] by (cases "x = p") auto
  next
    fix x assume a: "x \<notin> set scene" "ddefault (sw_new w') x \<noteq> []"
    show "x \<in> set (dkeys todo) \<union> set (dkeys (sw_next w'))"
    proof (cases "x \<in> set (deps_of es p)")
      case True
      then show ?thesis using nx a by blast
    next
      case False
      have "set (ddefault (sw_new w') x) \<noteq> {}" using a(2) by simp
      then have "x \<noteq> p" "ddefault (sw_new w) x \<noteq> []" using new [of x] a(1) False by (auto split: if_splits)
      then show ?thesis using I4 [of x] a(1) nk by auto
    qed
  qed (use mono I1 in blast)
  then show ?thesis by blast
qed

lemma step_upper:
  assumes "sq_upper es scene w" "needed_by es scene p task" "point_post es scene p task w w'"
  shows "sq_upper es scene w'"
proof -
  have n: "needed_by es scene x (ddefault (sw_new w) x)" for x using assms(1) unfolding sq_upper_def by blast
  have t: "set task \<union> set (ddefault (sw_new w) p) \<subseteq> set scene \<inter> {u. (p, u) \<in> (dep_rel es)\<^sup>+}"
    using assms(2) n [of p] unfolding needed_by_def by blast
  have up: "u \<in> set scene \<and> (y, u) \<in> (dep_rel es)\<^sup>+" if "y \<in> set (deps_of es p)" "u \<in> set task \<union> set (ddefault (sw_new w) p)" for u y
    using t that by (auto simp: dep_rel_def intro: trancl_into_trancl2)
  have new: "set (ddefault (sw_new w') x) =
      (if x = p then (if p \<in> set scene then set task \<union> set (ddefault (sw_new w) p) else {})
       else set (ddefault (sw_new w) x) \<union>
         (if p \<notin> set scene \<and> x \<in> set (deps_of es p) then set task \<union> set (ddefault (sw_new w) p) else {}))" for x
    using assms(3) unfolding point_post_def by blast
  have "needed_by es scene x (ddefault (sw_new w') x)" for x
    using n [of x] t up unfolding needed_by_def new [of x] by (auto split: if_splits)
  moreover have "needed_by es scene x T" if "(x, T) \<in> set (sw_next w')" for x T
  proof -
    have "(x, T) \<in> set (sw_next w) \<or> (x \<in> set (deps_of es p) \<and> T = task)"
      using that assms(3) unfolding point_post_def by blast
    then show ?thesis using assms(1,2) needed_by_dep unfolding sq_upper_def by blast
  qed
  ultimately show ?thesis unfolding sq_upper_def by blast
qed

text \<open>One round.\<close>

lemma round_ok:
  assumes wf: "rt_wf es" and ac: "acyclic (dep_rel es)"
  shows "set (dkeys todo) \<subseteq> set (dkeys es) \<Longrightarrow> (\<forall>(x, T) \<in> set todo. needed_by es scene x T) \<Longrightarrow>
    sq_keys es w \<Longrightarrow> sq_upper es scene w \<Longrightarrow> sq_lower es scene G todo w \<Longrightarrow>
    (\<forall>y \<in> set (dkeys (sw_next w)). \<exists>p \<in> P. y \<in> set (deps_of es p)) \<Longrightarrow> set (dkeys todo) \<subseteq> P \<Longrightarrow>
    \<exists>w' G'. rfold (process_point es scene) todo w = Inr w' \<and> sq_keys es w' \<and> sq_upper es scene w' \<and>
      sq_lower es scene G' [] w' \<and> (\<forall>y \<in> set (dkeys (sw_next w')). \<exists>p \<in> P. y \<in> set (deps_of es p))"
proof (induction todo arbitrary: w G)
  case (Cons m todo)
  obtain p task where m: "m = (p, task)" by (cases m)
  have p: "p \<in> set (dkeys es)" "needed_by es scene p task" "p \<in> P"
    using Cons.prems m by simp_all
  from process_point_post [OF wf ac Cons.prems(3) p(1), of scene task]
  obtain w1 where w1: "process_point es scene (p, task) w = Inr w1" "point_post es scene p task w w1" by (elim exE conjE)
  have np: "p \<notin> set (deps_of es p)" using ac unfolding acyclic_def dep_rel_def by auto
  have low: "sq_lower es scene G ((p, task) # todo) w" using Cons.prems(5) m by simp
  from step_lower [OF low np w1(2)]
  obtain G1 where G1: "sq_lower es scene G1 todo w1" by (elim exE)
  have up: "sq_upper es scene w1" by (rule step_upper [OF Cons.prems(4) p(2) w1(2)])
  have nx: "set (sw_next w1) \<subseteq> set (sw_next w) \<union> {(y, task) | y. y \<in> set (deps_of es p) \<and> y \<notin> set scene}"
    using w1(2) unfolding point_post_def by blast
  have "\<exists>p \<in> P. y \<in> set (deps_of es p)" if y: "y \<in> set (dkeys (sw_next w1))" for y
  proof -
    obtain T where "(y, T) \<in> set (sw_next w1)" using y by auto
    then have "(y, T) \<in> set (sw_next w) \<or> y \<in> set (deps_of es p)" using nx by blast
    then show ?thesis using Cons.prems(6) p(3) by force
  qed
  then have "\<exists>w' G'. rfold (process_point es scene) todo w1 = Inr w' \<and> sq_keys es w' \<and> sq_upper es scene w' \<and>
      sq_lower es scene G' [] w' \<and> (\<forall>y \<in> set (dkeys (sw_next w')). \<exists>p \<in> P. y \<in> set (deps_of es p))"
    using Cons.prems m w1(2) up G1 by (intro Cons.IH) (simp_all add: point_post_def)
  then show ?case using w1(1) by (simp only: m rfold.simps rbind_Inr)
next
  case Nil
  then show ?case by (intro exI [of _ w] exI [of _ G]) simp
qed

lemma next_round:
  assumes "sq_lower es scene G [] w"
  shows "sq_lower es scene G (sw_next w) (w\<lparr>sw_next := []\<rparr>)"
proof -
  have "reached G [] w \<subseteq> reached G (sw_next w) (w\<lparr>sw_next := []\<rparr>)" unfolding reached_def by auto
  then show ?thesis using assms unfolding sq_lower_def by auto
qed

lemma chains_end:
  assumes wf: "rt_wf es" and ac: "acyclic (dep_rel es)"
  shows "set (dkeys ep) \<subseteq> set (dkeys es) \<Longrightarrow> (\<forall>(x, T) \<in> set ep. needed_by es scene x T) \<Longrightarrow>
    sq_keys es w \<Longrightarrow> sq_upper es scene w \<Longrightarrow> sq_lower es scene G ep (w\<lparr>sw_next := []\<rparr>) \<Longrightarrow> 0 < fuel \<Longrightarrow>
    (\<forall>p \<in> set (dkeys ep). length es < depth es p + fuel) \<Longrightarrow>
    \<exists>w' G'. process_endpoints fuel es scene ep w = Some (Inr w') \<and> sq_keys es w' \<and> sq_upper es scene w' \<and>
      sq_lower es scene G' [] (w'\<lparr>sw_next := []\<rparr>)"
proof (induction fuel arbitrary: ep w G)
  case (Suc fuel)
  let ?w0 = "w\<lparr>sw_next := []\<rparr>"
  have "sq_keys es ?w0" "sq_upper es scene ?w0" using Suc.prems(3,4) by (simp_all add: sq_keys_def sq_upper_def)
  from round_ok [OF wf ac Suc.prems(1,2) this Suc.prems(5), of "set (dkeys ep)"]
  obtain w1 G1 where w1: "rfold (process_point es scene) ep ?w0 = Inr w1" "sq_keys es w1" "sq_upper es scene w1"
    "sq_lower es scene G1 [] w1" "\<forall>y \<in> set (dkeys (sw_next w1)). \<exists>p \<in> set (dkeys ep). y \<in> set (deps_of es p)"
    by auto
  show ?case
  proof (cases "sw_next w1 = []")
    case True
    then have "process_endpoints (Suc fuel) es scene ep w = Some (Inr w1)" "w1\<lparr>sw_next := []\<rparr> = w1" using w1(1) by simp_all
    then show ?thesis using w1(2-4) by (intro exI [of _ w1] exI [of _ G1] conjI) simp_all
  next
    case False
    have keys: "set (dkeys (sw_next w1)) \<subseteq> set (dkeys es)"
      using w1(5) wf unfolding rt_wf_def by blast
    have deep: "\<forall>y \<in> set (dkeys (sw_next w1)). length es < depth es y + fuel"
    proof
      fix y assume "y \<in> set (dkeys (sw_next w1))"
      then obtain p where p: "p \<in> set (dkeys ep)" "y \<in> set (deps_of es p)" using w1(5) by blast
      have "length es < depth es p + Suc fuel" using Suc.prems(7) p(1) by blast
      then show "length es < depth es y + fuel" using depth_deps [OF wf ac p(2)] by linarith
    qed
    obtain y where y: "y \<in> set (dkeys (sw_next w1))" using False by (cases "sw_next w1") auto
    have "length es < depth es y + fuel" using deep y by (rule bspec)
    then have "0 < fuel" using depth_less [OF wf ac subsetD [OF keys y]] by linarith
    moreover have "\<forall>(x, T) \<in> set (sw_next w1). needed_by es scene x T" using w1(3) unfolding sq_upper_def by blast
    ultimately have "\<exists>w' G'. process_endpoints fuel es scene (sw_next w1) w1 = Some (Inr w') \<and> sq_keys es w' \<and>
        sq_upper es scene w' \<and> sq_lower es scene G' [] (w'\<lparr>sw_next := []\<rparr>)"
      by (intro Suc.IH [OF keys _ w1(2,3) next_round [OF w1(4)] _ deep])
    moreover have "process_endpoints (Suc fuel) es scene ep w = process_endpoints fuel es scene (sw_next w1) w1"
      using w1(1) False by simp
    ultimately show ?thesis by (simp only:)
  qed
qed simp

lemma below_delivered:
  assumes low: "sq_lower es scene G [] (w\<lparr>sw_next := []\<rparr>)"
  shows "below es scene u x \<Longrightarrow> u \<in> set scene \<Longrightarrow>
    if x \<in> set scene then u \<in> set (ddefault (sw_new w) x) else (u, x) \<in> G"
proof (induction rule: below.induct)
  case (direct x u)
  then have "(u, x) \<in> reached G [] (w\<lparr>sw_next := []\<rparr>)" using low unfolding sq_lower_def by blast
  then show ?case using low unfolding sq_lower_def reached_def by (auto split: if_splits)
next
  case (through u y x)
  then have "(u, x) \<in> reached G [] (w\<lparr>sw_next := []\<rparr>)" using low unfolding sq_lower_def by auto
  then show ?case using low unfolding sq_lower_def reached_def by (auto split: if_splits)
qed

lemma endpoints_first_props:
  "set (dkeys (endpoints_first es scene)) = {t. t \<notin> set scene \<and> (\<exists>e. (t, e) \<in> set es \<and> rt_revdeps e = [])} \<and>
   (\<forall>(x, T) \<in> set (endpoints_first es scene). T = [])"
proof -
  let ?f = "\<lambda>(tid, e) ep. if rt_revdeps e = [] \<and> tid \<notin> set scene then dset tid [] ep else ep"
  have "set (dkeys (fold ?f xs ep)) = set (dkeys ep) \<union> {t. t \<notin> set scene \<and> (\<exists>e. (t, e) \<in> set xs \<and> rt_revdeps e = [])} \<and>
      (\<forall>(x, T) \<in> set (fold ?f xs ep). T = [])" if "\<forall>(x, T) \<in> set ep. T = []" for xs :: runtasks and ep :: tidsets
    using that
  proof (induction xs arbitrary: ep)
    case (Cons m xs)
    obtain t e where m: "m = (t, e)" by (cases m)
    have "\<forall>(x, T) \<in> set (?f m ep). T = []" using Cons.prems dset_subset [of t "[]" ep] by (auto simp: m)
    from Cons.IH [OF this] show ?case by (auto simp: m)
  qed simp
  from this [of "[]" es] show ?thesis unfolding endpoints_first_def by simp
qed

lemma add_scene_deps_props:
  assumes wf: "rt_wf es" and s: "s \<in> set (dkeys es)" "s \<in> set scene"
    and ep: "set (dkeys ep) \<subseteq> set (dkeys es)" "\<forall>(x, T) \<in> set ep. needed_by es scene x T"
  shows "\<exists>ep'. add_scene_deps es s ep = Inr ep' \<and> set (dkeys ep') \<subseteq> set (dkeys es) \<and>
    (\<forall>(x, T) \<in> set ep'. needed_by es scene x T) \<and>
    (\<forall>x. set (ddefault ep' x) = set (ddefault ep x) \<union> (if x \<in> set (deps_of es s) then {s} else {}))"
proof -
  let ?f = "\<lambda>dep ep. dset dep (sadd s (ddefault ep dep)) ep"
  obtain e where e: "dget es s = Some e" using s(1) unfolding dget_Some_key by blast
  have d: "rt_depends e = deps_of es s" using e by (simp add: deps_of_def)
  have sub: "set (deps_of es s) \<subseteq> set (dkeys es)" using wf unfolding rt_wf_def by blast
  have "set (dkeys (fold ?f ds ep)) \<subseteq> set (dkeys es) \<and> (\<forall>(x, T) \<in> set (fold ?f ds ep). needed_by es scene x T) \<and>
      (\<forall>x. set (ddefault (fold ?f ds ep) x) = set (ddefault ep x) \<union> (if x \<in> set ds then {s} else {}))"
    if "set ds \<subseteq> set (deps_of es s)" "set (dkeys ep) \<subseteq> set (dkeys es)" "\<forall>(x, T) \<in> set ep. needed_by es scene x T" for ds ep
    using that
  proof (induction ds arbitrary: ep)
    case (Cons d ds)
    have n: "needed_by es scene d (sadd s (ddefault ep d))"
    proof -
      have "(d, s) \<in> (dep_rel es)\<^sup>+" using Cons.prems(1) by (auto simp: dep_rel_def)
      moreover have "needed_by es scene d (ddefault ep d)"
        using Cons.prems(3) by (cases "dget ep d") (auto simp: ddefault_def needed_by_def dest!: map_of_SomeD)
      ultimately show ?thesis using s(2) unfolding needed_by_def by simp
    qed
    have "set (dkeys (?f d ep)) \<subseteq> set (dkeys es)" using Cons.prems(1,2) sub by auto
    moreover have "\<forall>(x, T) \<in> set (?f d ep). needed_by es scene x T"
      using Cons.prems(3) n dset_subset [of d "sadd s (ddefault ep d)" ep] by auto
    ultimately have "set (dkeys (fold ?f ds (?f d ep))) \<subseteq> set (dkeys es) \<and>
      (\<forall>(x, T) \<in> set (fold ?f ds (?f d ep)). needed_by es scene x T) \<and>
      (\<forall>x. set (ddefault (fold ?f ds (?f d ep)) x) = set (ddefault (?f d ep) x) \<union> (if x \<in> set ds then {s} else {}))"
      using Cons.prems(1) by (intro Cons.IH) auto
    then show ?case by (auto simp: ddefault_dset)
  qed simp
  from this [of "deps_of es s" ep] ep show ?thesis
    by (simp add: add_scene_deps_def ditem_def e d)
qed

lemma scene_endpoints:
  assumes wf: "rt_wf es" and sc: "set scene \<subseteq> set (dkeys es)"
  shows "\<exists>ep. rfold (add_scene_deps es) scene (endpoints_first es scene) = Inr ep \<and> set (dkeys ep) \<subseteq> set (dkeys es) \<and>
    (\<forall>(x, T) \<in> set ep. needed_by es scene x T) \<and>
    (\<forall>u \<in> set scene. \<forall>x \<in> set (deps_of es u). u \<in> set (ddefault ep x))"
proof -
  have gen: "\<exists>ep'. rfold (add_scene_deps es) xs ep = Inr ep' \<and> set (dkeys ep') \<subseteq> set (dkeys es) \<and>
      (\<forall>(x, T) \<in> set ep'. needed_by es scene x T) \<and>
      (\<forall>x. set (ddefault ep' x) = set (ddefault ep x) \<union> {u \<in> set xs. x \<in> set (deps_of es u)})"
    if "set xs \<subseteq> set scene" "set (dkeys ep) \<subseteq> set (dkeys es)" "\<forall>(x, T) \<in> set ep. needed_by es scene x T" for xs ep
    using that
  proof (induction xs arbitrary: ep)
    case (Cons s xs)
    have s: "s \<in> set (dkeys es)" "s \<in> set scene" using Cons.prems(1) sc by auto
    from add_scene_deps_props [OF wf s Cons.prems(2,3)]
    obtain ep1 where 1: "add_scene_deps es s ep = Inr ep1" "set (dkeys ep1) \<subseteq> set (dkeys es)"
      "\<forall>(x, T) \<in> set ep1. needed_by es scene x T"
      "\<forall>x. set (ddefault ep1 x) = set (ddefault ep x) \<union> (if x \<in> set (deps_of es s) then {s} else {})" by (elim exE conjE)
    have sub: "set xs \<subseteq> set scene" using Cons.prems(1) by simp
    from Cons.IH [OF sub 1(2,3)]
    obtain ep2 where 2: "rfold (add_scene_deps es) xs ep1 = Inr ep2" "set (dkeys ep2) \<subseteq> set (dkeys es)"
      "\<forall>(x, T) \<in> set ep2. needed_by es scene x T"
      "\<forall>x. set (ddefault ep2 x) = set (ddefault ep1 x) \<union> {u \<in> set xs. x \<in> set (deps_of es u)}" by (elim exE conjE)
    show ?case
    proof (intro exI [of _ ep2] conjI allI)
      show "set (ddefault ep2 x) = set (ddefault ep x) \<union> {u \<in> set (s # xs). x \<in> set (deps_of es u)}" for x
        using 1(4) [rule_format, of x] 2(4) [rule_format, of x] by auto
      show "rfold (add_scene_deps es) (s # xs) ep = Inr ep2" by (simp only: rfold.simps 1(1) rbind_Inr 2(1))
    qed (rule 2(2), rule 2(3))
  qed simp
  have keys: "set (dkeys (endpoints_first es scene)) \<subseteq> set (dkeys es)"
  proof
    fix t assume "t \<in> set (dkeys (endpoints_first es scene))"
    then obtain e where "(t, e) \<in> set es" using endpoints_first_props [of es scene] by blast
    then show "t \<in> set (dkeys es)" by force
  qed
  have "\<forall>(x, T) \<in> set (endpoints_first es scene). needed_by es scene x T"
    using endpoints_first_props [of es scene] by (auto simp: needed_by_def)
  from gen [OF subset_refl keys this]
  obtain ep where "rfold (add_scene_deps es) scene (endpoints_first es scene) = Inr ep" "set (dkeys ep) \<subseteq> set (dkeys es)"
    "\<forall>(x, T) \<in> set ep. needed_by es scene x T"
    "\<forall>x. set (ddefault ep x) = set (ddefault (endpoints_first es scene) x) \<union> {u \<in> set scene. x \<in> set (deps_of es u)}"
    by (elim exE conjE)
  then show ?thesis by (intro exI [of _ ep]) auto
qed

lemma new_init: "ddefault (sw_new (sqwork_init es)) x = []"
proof -
  have "ddefault (map (\<lambda>(tid, _). (tid, [])) xs) x = []" for xs :: runtasks
    by (induction xs) (auto simp: ddefault_def split: option.splits)
  then show ?thesis by (simp add: sqwork_init_def)
qed

lemma keys_init: "sq_keys es (sqwork_init es)"
  by (simp add: sq_keys_def sqwork_init_def case_prod_unfold comp_def)

lemma scene_chains_ok:
  assumes wf: "rt_wf es" and ac: "acyclic (dep_rel es)" and sc: "set scene \<subseteq> set (dkeys es)"
  shows "\<exists>w. scene_chains (Suc (length es)) es scene = Some (Inr w) \<and> dkeys (sw_new w) = dkeys es \<and>
    (\<forall>x. needed_by es scene x (ddefault (sw_new w) x)) \<and>
    (\<forall>x. x \<notin> set scene \<longrightarrow> ddefault (sw_new w) x = []) \<and>
    (\<forall>u \<in> set scene. \<forall>x \<in> set scene. below es scene u x \<longrightarrow> u \<in> set (ddefault (sw_new w) x))"
proof -
  from scene_endpoints [OF wf sc] obtain ep where
    ep: "rfold (add_scene_deps es) scene (endpoints_first es scene) = Inr ep" "set (dkeys ep) \<subseteq> set (dkeys es)"
    "\<forall>(x, T) \<in> set ep. needed_by es scene x T" "\<forall>u \<in> set scene. \<forall>x \<in> set (deps_of es u). u \<in> set (ddefault ep x)"
    by (elim exE conjE)
  let ?w = "sqwork_init es"
  note new = new_init [of es] and k = keys_init [of es]
  have up: "sq_upper es scene ?w" using new by (simp add: sq_upper_def needed_by_def) (simp add: sqwork_init_def)
  have "(u, x) \<in> reached {} ep (?w\<lparr>sw_next := []\<rparr>)" if "u \<in> set scene" "x \<in> set (deps_of es u)" for u x
  proof -
    have "u \<in> set (ddefault ep x)" using ep(4) that by blast
    then obtain T where "dget ep x = Some T" "u \<in> set T" by (cases "dget ep x") (auto simp: ddefault_def)
    then show ?thesis unfolding reached_def by (auto dest: map_of_SomeD)
  qed
  then have low: "sq_lower es scene {} ep (?w\<lparr>sw_next := []\<rparr>)" using new by (simp add: sq_lower_def)
  have "\<forall>p \<in> set (dkeys ep). length es < depth es p + Suc (length es)" by simp
  from chains_end [OF wf ac ep(2,3) k up low _ this]
  obtain w G where w: "process_endpoints (Suc (length es)) es scene ep ?w = Some (Inr w)" "sq_keys es w" "sq_upper es scene w"
    "sq_lower es scene G [] (w\<lparr>sw_next := []\<rparr>)" by auto
  show ?thesis
  proof (intro exI [of _ w] conjI allI ballI impI)
    show "scene_chains (Suc (length es)) es scene = Some (Inr w)" using ep(1) w(1) by (simp add: scene_chains_def)
    show "dkeys (sw_new w) = dkeys es" using w(2) by (simp add: sq_keys_def)
    show "needed_by es scene x (ddefault (sw_new w) x)" for x using w(3) unfolding sq_upper_def by blast
    show "ddefault (sw_new w) x = []" if "x \<notin> set scene" for x using w(4) that unfolding sq_lower_def by auto
    show "u \<in> set (ddefault (sw_new w) x)" if "u \<in> set scene" "x \<in> set scene" "below es scene u x" for u x
      using below_delivered [OF w(4) that(3,1)] that(2) by simp
  qed
qed

lemma squash_ok:
  assumes "dkeys (sw_new w) = dkeys es" "\<forall>x. x \<notin> set scene \<longrightarrow> ddefault (sw_new w) x = []" "dwf es"
  shows "\<exists>sq. squash es scene w = Inr sq \<and> dkeys sq = filter (\<lambda>t. t \<in> set scene) (dkeys es) \<and>
    (\<forall>x \<in> set scene. x \<in> set (dkeys es) \<longrightarrow> ddefault sq x = ddefault (sw_new w) x)"
proof -
  let ?f = "\<lambda>tid sq. rbind (ditem (sw_new w) tid) (\<lambda>nd.
       if tid \<in> set scene then Inr (dset tid nd sq)
       else if nd \<noteq> [] then Inl (MsgFatal ''RunQueue'') else Inr sq)"
  have "rfold ?f xs sq = Inr (sq @ map (\<lambda>t. (t, ddefault (sw_new w) t)) (filter (\<lambda>t. t \<in> set scene) xs))"
    if "set xs \<subseteq> set (dkeys es)" "distinct xs" "set (dkeys sq) \<inter> set xs = {}" for xs sq
    using that
  proof (induction xs arbitrary: sq)
    case (Cons x xs)
    have i: "ditem (sw_new w) x = Inr (ddefault (sw_new w) x)" using Cons.prems(1) assms(1) by (intro ditem_key) simp
    have u: "dset x v sq = sq @ [(x, v)]" for v using Cons.prems(3) by (induction sq) auto
    show ?case
    proof (cases "x \<in> set scene")
      case True
      have "rfold ?f xs (sq @ [(x, ddefault (sw_new w) x)]) =
          Inr ((sq @ [(x, ddefault (sw_new w) x)]) @ map (\<lambda>t. (t, ddefault (sw_new w) t)) (filter (\<lambda>t. t \<in> set scene) xs))"
        using Cons.prems by (intro Cons.IH) auto
      then show ?thesis using True i u by simp
    next
      case False
      then show ?thesis using Cons i assms(2) by simp
    qed
  qed simp
  from this [of "dkeys es" "[]"] assms(3)
  have e: "squash es scene w = Inr (map (\<lambda>t. (t, ddefault (sw_new w) t)) (filter (\<lambda>t. t \<in> set scene) (dkeys es)))"
    by (simp add: squash_def)
  have "ddefault (map (\<lambda>t. (t, f t)) ys) x = f x" if "x \<in> set ys" for f :: "string \<Rightarrow> string list" and ys x
    using that by (induction ys) (auto simp: ddefault_def)
  then show ?thesis using e by (simp add: comp_def)
qed

section \<open>The tasks that cannot be skipped\<close>

text \<open>A task the build asks for: reached from a task nothing depends on, without passing a setscene task.\<close>

definition asked_for :: "runtasks \<Rightarrow> string list \<Rightarrow> string \<Rightarrow> bool" where
  "asked_for es scene x \<longleftrightarrow>
     (\<exists>r e. (r, e) \<in> set es \<and> rt_revdeps e = [] \<and> r \<notin> set scene \<and> below es scene r x)"

lemma asked_for_dep: "asked_for es scene y \<Longrightarrow> y \<notin> set scene \<Longrightarrow> x \<in> set (deps_of es y) \<Longrightarrow> asked_for es scene x"
  unfolding asked_for_def by (blast intro: below.through)

definition is_root :: "runtasks \<Rightarrow> string list \<Rightarrow> string \<Rightarrow> bool" where
  "is_root es scene r \<longleftrightarrow> r \<notin> set scene \<and> (\<exists>e. (r, e) \<in> set es \<and> rt_revdeps e = [])"

lemma asked_for_root: "is_root es scene r \<Longrightarrow> x \<in> set (deps_of es r) \<Longrightarrow> asked_for es scene x"
  unfolding asked_for_def is_root_def by (blast intro: below.direct)

text \<open>\<open>V\<close>: the points processed so far.\<close>

definition us_inv :: "runtasks \<Rightarrow> string list \<Rightarrow> string set \<Rightarrow> string set \<Rightarrow> sqwork \<Rightarrow> bool" where
  "us_inv es scene V todo w \<longleftrightarrow> sq_keys es w \<and>
     (\<forall>r. is_root es scene r \<longrightarrow> r \<in> V \<union> todo) \<and>
     (\<forall>p \<in> V. \<forall>y \<in> set (deps_of es p).
       (y \<in> set scene \<longrightarrow> ddefault (sw_new w) y \<noteq> []) \<and> (y \<notin> set scene \<longrightarrow> y \<in> V \<union> todo \<union> set (dkeys (sw_next w)))) \<and>
     (\<forall>x \<in> set scene. ddefault (sw_new w) x \<noteq> [] \<longrightarrow> asked_for es scene x) \<and>
     (\<forall>x \<in> set (dkeys (sw_next w)). x \<notin> set scene \<and> asked_for es scene x)"

lemma step_us:
  assumes wf: "rt_wf es" and ac: "acyclic (dep_rel es)" and inv: "us_inv es scene V (insert p todo) w"
    and p: "p \<in> set (dkeys es)" "p \<notin> set scene" "is_root es scene p \<or> asked_for es scene p"
    and P: "\<forall>y \<in> set (dkeys (sw_next w)). \<exists>p \<in> P. y \<in> set (deps_of es p)" "p \<in> P"
  shows "\<exists>w'. process_point2 es scene (p, task) w = Inr w' \<and> us_inv es scene (insert p V) todo w' \<and>
    (\<forall>y \<in> set (dkeys (sw_next w')). \<exists>p \<in> P. y \<in> set (deps_of es p))"
proof -
  obtain e where e: "dget es p = Some e" using p unfolding dget_Some_key by blast
  then have d: "rt_depends e = deps_of es p" "ditem es p = Inr e" by (simp_all add: deps_of_def ditem_def)
  have sub: "set (deps_of es p) \<subseteq> set (dkeys es)" using wf unfolding rt_wf_def by blast
  let ?new = "ddefault (sw_new w) p"
  let ?tasks = "fold sadd ?new (fold sadd task [p])"
  let ?w0 = "w\<lparr>sw_new := dset p [] (sw_new w)\<rparr>"
  from inv have k: "sq_keys es w" and J1: "\<And>r. is_root es scene r \<Longrightarrow> r \<in> V \<union> insert p todo"
    and J2: "\<And>q y. q \<in> V \<Longrightarrow> y \<in> set (deps_of es q) \<Longrightarrow>
      (y \<in> set scene \<longrightarrow> ddefault (sw_new w) y \<noteq> []) \<and> (y \<notin> set scene \<longrightarrow> y \<in> V \<union> insert p todo \<union> set (dkeys (sw_next w)))"
    and J3: "\<And>x. x \<in> set scene \<Longrightarrow> ddefault (sw_new w) x \<noteq> [] \<Longrightarrow> asked_for es scene x"
    and J4: "\<And>x. x \<in> set (dkeys (sw_next w)) \<Longrightarrow> x \<notin> set scene \<and> asked_for es scene x"
    unfolding us_inv_def by blast+
  have kn: "p \<in> set (dkeys (sw_new w))" using k p unfolding sq_keys_def by simp
  have n: "ditem (sw_new w) p = Inr ?new" by (rule ditem_key [OF kn])
  have k0: "dkeys (sw_new ?w0) = dkeys es" "dkeys (sw_revdeps ?w0) = dkeys es"
    using k dkeys_dset_mem [OF kn] unfolding sq_keys_def by simp_all
  have s0: "set (deps_of es p) \<subseteq> set (dkeys (sw_revdeps ?w0))" "set (deps_of es p) \<subseteq> set (dkeys (sw_new ?w0))"
    unfolding k0 by (rule sub)+
  have t: "p \<in> set ?tasks" by (auto simp: set_fold_sadd)
  from push_deps_total [OF s0, of scene p ?tasks ?tasks] obtain w' where
    w': "rfold (push_dep scene p ?tasks ?tasks) (deps_of es p) ?w0 = Inr w'"
    "dkeys (sw_new w') = dkeys (sw_new ?w0)" "dkeys (sw_revdeps w') = dkeys (sw_revdeps ?w0)"
    "\<forall>x. set (ddefault (sw_new w') x) = set (ddefault (sw_new ?w0) x) \<union> (if x \<in> set (deps_of es p) then set ?tasks else {})"
    "\<forall>x \<in> set (deps_of es p). x \<notin> set scene \<and> ddefault (sw_new w') x \<noteq> [] \<longrightarrow> x \<in> set (dkeys (sw_next w'))"
    "set (dkeys (sw_next ?w0)) \<subseteq> set (dkeys (sw_next w'))"
    "set (sw_next w') \<subseteq> set (sw_next ?w0) \<union> {(y, ?tasks) | y. y \<in> set (deps_of es p) \<and> y \<notin> set scene}"
    by (elim exE conjE) (rule that)
  have run: "process_point2 es scene (p, task) w = Inr w'"
    using w'(1) p(2) by (simp add: process_point2_def n d Let_def)
  have new: "ddefault (sw_new w') x \<noteq> [] \<longleftrightarrow> x \<in> set (deps_of es p) \<or> ddefault (sw_new w) x \<noteq> []" if "x \<noteq> p" for x
  proof -
    have "ddefault (sw_new w') x \<noteq> [] \<longleftrightarrow> set (ddefault (sw_new w') x) \<noteq> {}" by simp
    then show ?thesis using w'(4) [rule_format, of x] t that by (auto simp: ddefault_dset)
  qed
  have np: "x \<noteq> p" if "x \<in> set scene \<or> x \<in> set (deps_of es p)" for x
    using that p(2) ac unfolding acyclic_def dep_rel_def by auto
  have ask: "asked_for es scene y" if "y \<in> set (deps_of es p)" for y
    using p(2,3) that asked_for_dep asked_for_root by blast
  have nxt: "y \<in> set (dkeys (sw_next w)) \<or> (y \<in> set (deps_of es p) \<and> y \<notin> set scene)" if y: "y \<in> set (dkeys (sw_next w'))" for y
  proof -
    obtain T where "(y, T) \<in> set (sw_next w')" using y by auto
    then have "(y, T) \<in> set (sw_next w) \<or> (y \<in> set (deps_of es p) \<and> y \<notin> set scene)" using w'(7) by auto
    then show ?thesis by force
  qed
  have "us_inv es scene (insert p V) todo w'"
    unfolding us_inv_def
  proof (intro conjI ballI allI impI)
    show "sq_keys es w'" using w'(2,3) k0 by (simp add: sq_keys_def)
    show "r \<in> insert p V \<union> todo" if "is_root es scene r" for r using J1 [OF that] by blast
    show "ddefault (sw_new w') y \<noteq> []" if "q \<in> insert p V" "y \<in> set (deps_of es q)" "y \<in> set scene" for q y
      using J2 [of q y] that new [of y] np [of y] by blast
    show "y \<in> insert p V \<union> todo \<union> set (dkeys (sw_next w'))"
      if "q \<in> insert p V" "y \<in> set (deps_of es q)" "y \<notin> set scene" for q y
    proof (cases "q = p")
      case True
      then show ?thesis using that(2,3) new [of y] np [of y] w'(5) by blast
    next
      case False
      then have "y \<in> V \<union> insert p todo \<union> set (dkeys (sw_next w))" using J2 [of q y] that by blast
      then show ?thesis using w'(6) by auto
    qed
    show "asked_for es scene x" if "x \<in> set scene" "ddefault (sw_new w') x \<noteq> []" for x
      using J3 [of x] that new [of x] np [of x] ask by blast
    show "x \<notin> set scene" "asked_for es scene x" if "x \<in> set (dkeys (sw_next w'))" for x
      using nxt [OF that] J4 ask by blast+
  qed
  moreover have "\<exists>p \<in> P. y \<in> set (deps_of es p)" if "y \<in> set (dkeys (sw_next w'))" for y
    using nxt [OF that] P by blast
  ultimately show ?thesis using run by blast
qed

lemma round_us:
  assumes wf: "rt_wf es" and ac: "acyclic (dep_rel es)"
  shows "set (dkeys todo) \<subseteq> set (dkeys es) \<Longrightarrow> set (dkeys todo) \<subseteq> P \<Longrightarrow>
    (\<forall>x \<in> set (dkeys todo). x \<notin> set scene \<and> (is_root es scene x \<or> asked_for es scene x)) \<Longrightarrow>
    us_inv es scene V (set (dkeys todo)) w \<Longrightarrow> (\<forall>y \<in> set (dkeys (sw_next w)). \<exists>p \<in> P. y \<in> set (deps_of es p)) \<Longrightarrow>
    \<exists>w' V'. rfold (process_point2 es scene) todo w = Inr w' \<and> us_inv es scene V' {} w' \<and>
      (\<forall>y \<in> set (dkeys (sw_next w')). \<exists>p \<in> P. y \<in> set (deps_of es p))"
proof (induction todo arbitrary: w V)
  case Nil
  then show ?case by (intro exI [of _ w] exI [of _ V]) simp
next
  case (Cons m todo)
  obtain p task where m: "m = (p, task)" by (cases m)
  have p: "p \<in> set (dkeys es)" "p \<notin> set scene" "is_root es scene p \<or> asked_for es scene p" "p \<in> P"
    using Cons.prems(1-3) m by auto
  have inv: "us_inv es scene V (insert p (set (dkeys todo))) w" using Cons.prems(4) m by simp
  from step_us [OF wf ac inv p(1-3) Cons.prems(5) p(4), of task]
  obtain w1 where w1: "process_point2 es scene (p, task) w = Inr w1" "us_inv es scene (insert p V) (set (dkeys todo)) w1"
    "\<forall>y \<in> set (dkeys (sw_next w1)). \<exists>p \<in> P. y \<in> set (deps_of es p)" by (elim exE conjE)
  have "\<exists>w' V'. rfold (process_point2 es scene) todo w1 = Inr w' \<and> us_inv es scene V' {} w' \<and>
      (\<forall>y \<in> set (dkeys (sw_next w')). \<exists>p \<in> P. y \<in> set (deps_of es p))"
    using Cons.prems(1-3) w1(2,3) by (intro Cons.IH) simp_all
  then show ?case using w1(1) by (simp only: m rfold.simps rbind_Inr)
qed

lemma unskippable_end:
  assumes wf: "rt_wf es" and ac: "acyclic (dep_rel es)"
  shows "set (dkeys ep) \<subseteq> set (dkeys es) \<Longrightarrow>
    (\<forall>x \<in> set (dkeys ep). x \<notin> set scene \<and> (is_root es scene x \<or> asked_for es scene x)) \<Longrightarrow>
    us_inv es scene V (set (dkeys ep)) (w\<lparr>sw_next := []\<rparr>) \<Longrightarrow> 0 < fuel \<Longrightarrow>
    (\<forall>p \<in> set (dkeys ep). length es < depth es p + fuel) \<Longrightarrow>
    \<exists>w' V'. process_endpoints2 fuel es scene ep w = Some (Inr w') \<and> us_inv es scene V' {} (w'\<lparr>sw_next := []\<rparr>)"
proof (induction fuel arbitrary: ep w V)
  case (Suc fuel)
  let ?w0 = "w\<lparr>sw_next := []\<rparr>"
  have none: "\<forall>y \<in> set (dkeys (sw_next ?w0)). \<exists>p \<in> set (dkeys ep). y \<in> set (deps_of es p)" by simp
  from round_us [OF wf ac Suc.prems(1) subset_refl Suc.prems(2,3) none]
  obtain w1 V1 where w1: "rfold (process_point2 es scene) ep ?w0 = Inr w1" "us_inv es scene V1 {} w1"
    "\<forall>y \<in> set (dkeys (sw_next w1)). \<exists>p \<in> set (dkeys ep). y \<in> set (deps_of es p)" by (elim exE conjE)
  show ?case
  proof (cases "sw_next w1 = []")
    case True
    then have "process_endpoints2 (Suc fuel) es scene ep w = Some (Inr w1)" "w1\<lparr>sw_next := []\<rparr> = w1" using w1(1) by simp_all
    then show ?thesis using w1(2) by (intro exI [of _ w1] exI [of _ V1] conjI) simp_all
  next
    case False
    have keys: "set (dkeys (sw_next w1)) \<subseteq> set (dkeys es)"
      using w1(3) wf unfolding rt_wf_def by blast
    have deep: "\<forall>y \<in> set (dkeys (sw_next w1)). length es < depth es y + fuel"
    proof
      fix y assume "y \<in> set (dkeys (sw_next w1))"
      then obtain p where p: "p \<in> set (dkeys ep)" "y \<in> set (deps_of es p)" using w1(3) by blast
      have "length es < depth es p + Suc fuel" using Suc.prems(5) p(1) by blast
      then show "length es < depth es y + fuel" using depth_deps [OF wf ac p(2)] by linarith
    qed
    obtain y where y: "y \<in> set (dkeys (sw_next w1))" using False by (cases "sw_next w1") auto
    have "length es < depth es y + fuel" using deep y by (rule bspec)
    then have fuel: "0 < fuel" using depth_less [OF wf ac subsetD [OF keys y]] by linarith
    have ask: "\<forall>x \<in> set (dkeys (sw_next w1)). x \<notin> set scene \<and> (is_root es scene x \<or> asked_for es scene x)"
      using w1(2) unfolding us_inv_def by blast
    have "us_inv es scene V1 (set (dkeys (sw_next w1))) (w1\<lparr>sw_next := []\<rparr>)"
      using w1(2) unfolding us_inv_def sq_keys_def by (simp del: list.set_map)
    from Suc.IH [OF keys ask this fuel deep]
    have "\<exists>w' V'. process_endpoints2 fuel es scene (sw_next w1) w1 = Some (Inr w') \<and> us_inv es scene V' {} (w'\<lparr>sw_next := []\<rparr>)" .
    moreover have "process_endpoints2 (Suc fuel) es scene ep w = process_endpoints2 fuel es scene (sw_next w1) w1"
      using w1(1) False by simp
    ultimately show ?thesis by (simp only:)
  qed
qed simp

lemma unskippable_ok:
  assumes wf: "rt_wf es" and ac: "acyclic (dep_rel es)" and sc: "set scene \<subseteq> set (dkeys es)"
  shows "\<exists>us. unskippable_tids (Suc (length es)) es scene = Some (Inr us) \<and> set us = {s \<in> set scene. asked_for es scene s}"
proof -
  let ?ep = "endpoints_first es scene"
  have ep: "t \<in> set (dkeys ?ep) \<longleftrightarrow> is_root es scene t" for t
    using endpoints_first_props [of es scene] unfolding is_root_def by auto
  have keys: "set (dkeys ?ep) \<subseteq> set (dkeys es)"
  proof
    fix t assume "t \<in> set (dkeys ?ep)"
    then obtain e where "(t, e) \<in> set es" using ep unfolding is_root_def by blast
    then show "t \<in> set (dkeys es)" by force
  qed
  have root: "\<forall>x \<in> set (dkeys ?ep). x \<notin> set scene \<and> (is_root es scene x \<or> asked_for es scene x)"
    using ep unfolding is_root_def by blast
  have inv: "us_inv es scene {} (set (dkeys ?ep)) ((sqwork_init es)\<lparr>sw_next := []\<rparr>)"
    using keys_init [of es] ep new_init [of es] unfolding us_inv_def sq_keys_def by (simp del: list.set_map)
  have deep: "\<forall>p \<in> set (dkeys ?ep). length es < depth es p + Suc (length es)" by simp
  from unskippable_end [OF wf ac keys root inv zero_less_Suc deep]
  obtain w V where w: "process_endpoints2 (Suc (length es)) es scene ?ep (sqwork_init es) = Some (Inr w)"
    "us_inv es scene V {} (w\<lparr>sw_next := []\<rparr>)" by (elim exE conjE)
  from w(2) have k: "dkeys (sw_new w) = dkeys es" and V1: "\<And>r. is_root es scene r \<Longrightarrow> r \<in> V"
    and V2: "\<And>p y. p \<in> V \<Longrightarrow> y \<in> set (deps_of es p) \<Longrightarrow>
      (y \<in> set scene \<longrightarrow> ddefault (sw_new w) y \<noteq> []) \<and> (y \<notin> set scene \<longrightarrow> y \<in> V)"
    and up: "\<And>x. x \<in> set scene \<Longrightarrow> ddefault (sw_new w) x \<noteq> [] \<Longrightarrow> asked_for es scene x"
    unfolding us_inv_def sq_keys_def by simp_all
  have "r \<in> V \<Longrightarrow> (x \<in> set scene \<longrightarrow> ddefault (sw_new w) x \<noteq> []) \<and> (x \<notin> set scene \<longrightarrow> x \<in> V)" if "below es scene r x" for r x
    using that by (induction rule: below.induct) (use V2 in blast)+
  then have down: "ddefault (sw_new w) x \<noteq> []" if "x \<in> set scene" "asked_for es scene x" for x
    using that V1 unfolding asked_for_def is_root_def by fastforce
  let ?f = "\<lambda>tid us. rbind (ditem (sw_new w) tid) (\<lambda>nd. Inr (if nd \<noteq> [] then us @ [tid] else us))"
  have "rfold ?f xs us = Inr (us @ filter (\<lambda>t. ddefault (sw_new w) t \<noteq> []) xs)" if "set xs \<subseteq> set (dkeys es)" for xs us
    using that
  proof (induction xs arbitrary: us)
    case (Cons x xs)
    have "ditem (sw_new w) x = Inr (ddefault (sw_new w) x)" using Cons.prems k by (intro ditem_key) simp
    then show ?case using Cons by simp
  qed simp
  from this [OF sc, of "[]"] have "unskippable_tids (Suc (length es)) es scene = Some (Inr (filter (\<lambda>t. ddefault (sw_new w) t \<noteq> []) scene))"
    using w(1) by (simp add: unskippable_tids_def)
  then show ?thesis using up down by (intro exI conjI) (assumption, auto)
qed

section \<open>The table of a prepared run queue\<close>

lemma setscene_tids_keys:
  assumes "setscene_tids inp es = Inr tids"
  shows "set tids \<subseteq> set (dkeys es)"
proof (cases "rq_nosetscene inp")
  case True
  then show ?thesis using assms by (simp add: setscene_tids_def)
next
  case False
  let ?f = "\<lambda>tid tids. rbind (split_tid_mcfn tid) (\<lambda>(mc, _, _, _).
        rbind (ditem (rq_taskdata inp) mc) (\<lambda>td.
          Inr (if tid @ ''_setscene'' \<in> set (dkeys (tk_taskentries td)) then tids @ [tid] else tids)))"
  have "rfold ?f (dkeys es) [] = Inr tids" using assms False by (simp add: setscene_tids_def)
  then show ?thesis
  proof (rule rfold_invariant)
    fix x s t assume x: "x \<in> set (dkeys es)" and s: "set s \<subseteq> set (dkeys es)" and "?f x s = Inr t"
    then have "t = s \<or> t = s @ [x]"
      by (auto simp: rbind_def simp del: list.set_map split: sum.splits prod.splits if_splits)
    then have "set t \<subseteq> insert x (set s)" by auto
    then show "set t \<subseteq> set (dkeys es)" using x s by blast
  qed simp
qed

lemma prepared_scene:
  assumes "prepare gh g inp = Some (Inr (Some p))"
  shows "set (pp_setscene_tids p) \<subseteq> set (dkeys (pp_entries p))"
proof -
  from assms obtain es tids eps es' wt where l: "linked_tasks inp = Inr (es, tids, eps)"
    and w: "calculate_task_weights es eps = Some (Inr (es', wt))"
    and aw: "after_weights gh g inp (es', tids, wt) = Some (Inr p)"
    by (auto simp: prepare_def res_simps split: if_splits sum.splits prod.splits option.splits)
  have wf: "rt_wf es" and eps: "eps = endpoints_of es" using prepare_cases [OF l] by blast+
  have sg: "same_graph es es'" by (rule same_graph_weights [OF w])
  have "acyclic (dep_rel es)" using weights_acyclic [OF wf] w unfolding eps by force
  then have "rt_wf es'" "acyclic (dep_rel es')" using same_graph_wf [OF sg wf] same_graph_rel [OF sg] by simp_all
  from after_weights_ends [OF this, of gh g inp tids wt] aw have "same_graph es' (pp_entries p)" by auto
  moreover have "setscene_tids inp es' = Inr (pp_setscene_tids p)"
    using aw by (auto simp: after_weights_def res_simps split: sum.splits prod.splits)
  ultimately show ?thesis using setscene_tids_keys unfolding same_graph_def by metis
qed

lemma scene_graph_ok:
  assumes wf: "rt_wf es" and ac: "acyclic (dep_rel es)" and sc: "set scene \<subseteq> set (dkeys es)"
  shows "\<exists>us sq. scene_graph (Suc (length es)) es scene = Some (Inr (us, sq)) \<and>
    set (dkeys sq) = set scene \<and> set us = {s \<in> set scene. asked_for es scene s} \<and>
    (\<forall>s \<in> set scene. {u \<in> set scene. below es scene u s} \<subseteq> set (ddefault sq s) \<and>
       set (ddefault sq s) \<subseteq> {u \<in> set scene. (s, u) \<in> (dep_rel es)\<^sup>+})"
proof -
  from scene_chains_ok [OF wf ac sc] obtain w where w: "scene_chains (Suc (length es)) es scene = Some (Inr w)"
    "dkeys (sw_new w) = dkeys es" "\<forall>x. needed_by es scene x (ddefault (sw_new w) x)"
    "\<forall>x. x \<notin> set scene \<longrightarrow> ddefault (sw_new w) x = []"
    "\<forall>u \<in> set scene. \<forall>x \<in> set scene. below es scene u x \<longrightarrow> u \<in> set (ddefault (sw_new w) x)" by (elim exE conjE)
  have "dwf es" using wf by (simp add: rt_wf_def)
  from squash_ok [OF w(2,4) this] obtain sq where sq: "squash es scene w = Inr sq"
    "dkeys sq = filter (\<lambda>t. t \<in> set scene) (dkeys es)"
    "\<forall>x \<in> set scene. x \<in> set (dkeys es) \<longrightarrow> ddefault sq x = ddefault (sw_new w) x" by (elim exE conjE)
  from unskippable_ok [OF wf ac sc] obtain us where us: "unskippable_tids (Suc (length es)) es scene = Some (Inr us)"
    "set us = {s \<in> set scene. asked_for es scene s}" by (elim exE conjE)
  show ?thesis
  proof (intro exI [of _ us] exI [of _ sq] conjI ballI)
    show "scene_graph (Suc (length es)) es scene = Some (Inr (us, sq))" using w(1) us(1) sq(1) by (simp add: scene_graph_def)
    show "set (dkeys sq) = set scene" unfolding sq(2) using sc by auto
    show "set us = {s \<in> set scene. asked_for es scene s}" by (rule us(2))
    fix s assume s: "s \<in> set scene"
    then have e: "ddefault sq s = ddefault (sw_new w) s" using sq(3) sc by blast
    show "{u \<in> set scene. below es scene u s} \<subseteq> set (ddefault sq s)" unfolding e using w(5) s by blast
    show "set (ddefault sq s) \<subseteq> {u \<in> set scene. (s, u) \<in> (dep_rel es)\<^sup>+}"
      using w(3) unfolding e needed_by_def by blast
  qed
qed


text \<open>Three tasks z, y and x in a row; z and x have setscene variants.\<close>

definition scene_tasks :: taskdeps where
  "scene_tasks = \<lparr>td_tasks = [''x'', ''y'', ''z'', ''x_setscene'', ''z_setscene''],
     td_parents = [(''x'', []), (''y'', [''x'']), (''z'', [''y'']), (''x_setscene'', []), (''z_setscene'', [])], td_flags = []\<rparr>"

definition scene_input :: rqinput where
  "scene_input = two_input
     \<lparr>rq_caches := [([], init_cacheData\<lparr>dc_task_deps := [(''f'', scene_tasks)], dc_pkg_fn := [(''f'', ''p'')],
        dc_fn_provides := [(''f'', [''p''])], dc_stamp := [(''f'', ''S'')], dc_stamp_extrainfo := [(''f'', [])],
        dc_hashfn := [(''f'', ''H'')]\<rparr>)],
      rq_taskdata := [([], (snd (hd (rq_taskdata two_input)))
        \<lparr>tk_taskentries := [(''f:x'', \<lparr>te_tdepends = [], te_idepends = [], te_irdepends = []\<rparr>),
           (''f:y'', \<lparr>te_tdepends = [''f:x''], te_idepends = [], te_irdepends = []\<rparr>),
           (''f:z'', \<lparr>te_tdepends = [''f:y''], te_idepends = [], te_irdepends = []\<rparr>),
           (''f:x_setscene'', \<lparr>te_tdepends = [], te_idepends = [], te_irdepends = []\<rparr>),
           (''f:z_setscene'', \<lparr>te_tdepends = [], te_idepends = [], te_irdepends = []\<rparr>)]\<rparr>)],
      rq_targets := [([], ''p'', ''z'', ''f'')]\<rparr>"

definition scene_prepared_then :: "(nat prepared \<Rightarrow> bool) \<Rightarrow> bool" where
  "scene_prepared_then P = (case prepare count_hash 0 scene_input of Some (Inr (Some p)) \<Rightarrow> P p | _ \<Rightarrow> False)"

lemma scene_prepared_thenD: "scene_prepared_then P \<Longrightarrow> \<exists>p. prepare count_hash 0 scene_input = Some (Inr (Some p)) \<and> P p"
  by (auto simp: scene_prepared_then_def split: option.split_asm sum.split_asm)

lemma scene_example:
  "scene_prepared_then (\<lambda>p. pp_setscene_tids p = [''f:x'', ''f:z''] \<and>
     scene_graph (Suc (length (pp_entries p))) (pp_entries p) (pp_setscene_tids p) =
       Some (Inr ([], [(''f:x'', [''f:z'']), (''f:z'', [])])))"
  by code_simp


end
