(* ===== verification/BB_SceneInv.thy ===== *)
theory BB_SceneInv
  imports BB_SceneProps BB_ExecInv
begin

text \<open>
  The invariant of the setscene queue: the counters of the tasks a setscene task still waits for, the
  tasks covered and not covered, the limit of parallel tasks and the stamps being built.
\<close>

section \<open>Counting down\<close>

definition waits :: "scst \<Rightarrow> string \<Rightarrow> string set" where
  "waits s t = set (ddefault (sn_revdeps2 s) t)"

definition hard_rel :: "tidsets \<Rightarrow> (string \<times> string) set" where
  "hard_rel hard = {(u, t). t \<in> set (ddefault hard u)}"

definition dep_of :: "scst \<Rightarrow> string \<Rightarrow> string set" where
  "dep_of s u = set (ddefault (sn_deps s) u)"

text \<open>Going from s to s', exactly the pairs A (u, t) are struck off, t no longer waiting for u.\<close>

definition struck :: "(string \<times> string) set \<Rightarrow> scst \<Rightarrow> scst \<Rightarrow> bool" where
  "struck A s s' \<longleftrightarrow>
     (\<exists>r b. s' = s\<lparr>sn_revdeps2 := r, sn_buildable := b\<rparr> \<and> dkeys r = dkeys (sn_revdeps2 s) \<and>
        set b = set (sn_buildable s) \<union> {t. waits s t \<noteq> {} \<and> waits s' t = {}}) \<and>
     (\<forall>t. waits s' t = waits s t - {u. (u, t) \<in> A})"

lemma struck_none: "struck {} s s"
  unfolding struck_def by (intro conjI exI [of _ "sn_revdeps2 s"] exI [of _ "sn_buildable s"]) auto

lemma struck_trans:
  assumes "struck A s s1" "struck B s1 s2"
  shows "struck (A \<union> B) s s2"
proof -
  obtain r b where 1: "s1 = s\<lparr>sn_revdeps2 := r, sn_buildable := b\<rparr>" "dkeys r = dkeys (sn_revdeps2 s)"
    "set b = set (sn_buildable s) \<union> {t. waits s t \<noteq> {} \<and> waits s1 t = {}}"
    "\<And>t. waits s1 t = waits s t - {u. (u, t) \<in> A}" using assms(1) unfolding struck_def by blast
  obtain r2 b2 where 2: "s2 = s1\<lparr>sn_revdeps2 := r2, sn_buildable := b2\<rparr>" "dkeys r2 = dkeys (sn_revdeps2 s1)"
    "set b2 = set (sn_buildable s1) \<union> {t. waits s1 t \<noteq> {} \<and> waits s2 t = {}}"
    "\<And>t. waits s2 t = waits s1 t - {u. (u, t) \<in> B}" using assms(2) unfolding struck_def by blast
  have w: "waits s2 t = waits s t - {u. (u, t) \<in> A \<union> B}" for t unfolding 2(4) 1(4) by blast
  have "{t. waits s t \<noteq> {} \<and> waits s1 t = {}} \<union> {t. waits s1 t \<noteq> {} \<and> waits s2 t = {}} = {t. waits s t \<noteq> {} \<and> waits s2 t = {}}"
    unfolding w 1(4) by blast
  moreover have "sn_buildable s1 = b" "sn_revdeps2 s1 = r" using 1(1) by simp_all
  ultimately have "set b2 = set (sn_buildable s) \<union> {t. waits s t \<noteq> {} \<and> waits s2 t = {}}" "dkeys r2 = dkeys (sn_revdeps2 s)"
    using 1(2,3) 2(2,3) by auto
  moreover have "s2 = s\<lparr>sn_revdeps2 := r2, sn_buildable := b2\<rparr>" using 1(1) 2(1) by simp
  ultimately show ?thesis unfolding struck_def using w by blast
qed

lemma struck_frame:
  assumes "struck A s s'"
  shows "sn_covered s' = sn_covered s" "sn_notcovered s' = sn_notcovered s" "sn_running s' = sn_running s"
    "sn_build_stamps s' = sn_build_stamps s" "sn_build_stamps2 s' = sn_build_stamps2 s" "sn_stats s' = sn_stats s"
    "sn_harddeps s' = sn_harddeps s" "sn_stamps s' = sn_stamps s" "sn_deps s' = sn_deps s" "sn_unskippable s' = sn_unskippable s"
    "sn_actions s' = sn_actions s" "sn_state s' = sn_state s" "dkeys (sn_revdeps2 s') = dkeys (sn_revdeps2 s)"
    "sn_notneeded s' = sn_notneeded s"
  using assms unfolding struck_def by auto

text \<open>The pairs struck off when a task is done with, and when it failed.\<close>

definition strikes :: "bool \<Rightarrow> tidsets \<Rightarrow> tidsets \<Rightarrow> string \<Rightarrow> (string \<times> string) set" where
  "strikes fail hard deps task =
     (if fail then {(u, t). (task, u) \<in> (hard_rel hard)\<^sup>* \<and> t \<in> set (ddefault deps u) \<and> (u, t) \<notin> hard_rel hard}
      else {(u, t). u = task \<and> t \<in> set (ddefault deps u)})"

lemma strike_one:
  assumes "dep \<in> set (dkeys (sn_revdeps2 s))"
  shows "valid (mbind (mitem_of sn_revdeps2 dep) (\<lambda>rd.
       if task \<notin> set rd then mret ()
       else mseq (mmod (\<lambda>s. s\<lparr>sn_revdeps2 := dset dep (removeAll task rd) (sn_revdeps2 s)\<rparr>))
                 (mwhen (removeAll task rd = []) (sn_set_buildable dep)))) s
     (\<lambda>_ s'. struck {(task, dep)} s s') E"
proof -
  let ?rd = "ddefault (sn_revdeps2 s) dep"
  have i: "ditem (sn_revdeps2 s) dep = Inr ?rd" by (rule ditem_key [OF assms])
  have k: "dkeys (dset dep v (sn_revdeps2 s)) = dkeys (sn_revdeps2 s)" for v by (rule dkeys_dset_mem [OF assms])
  show ?thesis
  proof (cases "task \<in> set ?rd")
    case False
    then have "waits s t = waits s t - {u. (u, t) \<in> {(task, dep)}}" for t by (auto simp: waits_def)
    then have "struck {(task, dep)} s s"
      unfolding struck_def by (intro conjI exI [of _ "sn_revdeps2 s"] exI [of _ "sn_buildable s"] allI) auto
    then show ?thesis using False by (simp add: mitem_of_def i)
  next
    case True
    let ?r = "dset dep (removeAll task ?rd) (sn_revdeps2 s)"
    let ?b = "if removeAll task ?rd = [] then sadd dep (sn_buildable s) else sn_buildable s"
    let ?s = "s\<lparr>sn_revdeps2 := ?r, sn_buildable := ?b\<rparr>"
    have w: "waits ?s t = waits s t - {u. (u, t) \<in> {(task, dep)}}" for t by (auto simp: waits_def ddefault_dset)
    have "{t. waits s t \<noteq> {} \<and> waits ?s t = {}} = (if removeAll task ?rd = [] then {dep} else {})"
      using True by (auto simp: waits_def ddefault_dset set_removeAll [symmetric] simp del: set_removeAll split: if_splits)
    then have "struck {(task, dep)} s ?s"
      unfolding struck_def using w k by (intro conjI exI [of _ ?r] exI [of _ ?b] allI) (auto simp del: list.set_map)
    then show ?thesis using True
      by (cases "removeAll task ?rd = []") (simp_all add: mitem_of_def i sn_set_buildable_def)
  qed
qed

lemma valid_at: "m s = m' s \<Longrightarrow> valid m' s Q E \<Longrightarrow> valid m s Q E"
  by (simp add: valid_def)

lemma mget_bind: "mbind (mget f) g s = g (f s) s"
  by (simp add: mbind_def mget_def)

lemma updatecounters_struck:
  assumes h: "hard_rel (sn_harddeps s) \<subseteq> {(u, t). t \<in> dep_of s u}"
    and k: "\<And>u. dep_of s u \<subseteq> set (dkeys (sn_revdeps2 s))" "\<And>u. dep_of s u \<noteq> {} \<Longrightarrow> u \<in> set (dkeys (sn_deps s))"
  shows "valid (scenequeue_updatecounters lim fail task) s
    (\<lambda>_ s'. struck (strikes fail (sn_harddeps s) (sn_deps s) task) s s') (\<lambda>_ _. True)"
  using assms
proof (induction lim arbitrary: task s)
  case (Suc lim)
  let ?H = "hard_rel (sn_harddeps s)"
  let ?S = "\<lambda>dep. if fail \<and> (task, dep) \<in> ?H then strikes fail (sn_harddeps s) (sn_deps s) dep else {(task, dep)}"
  have same: "struck A s s' \<Longrightarrow> hard_rel (sn_harddeps s') = ?H \<and> dep_of s' = dep_of s" for A s'
    using struck_frame by (simp add: dep_of_def fun_eq_iff)
  show ?case
  proof (cases "ditem (sn_deps s) task")
    case (Inl e)
    then show ?thesis by (simp add: mitem_of_def)
  next
    case (Inr deps)
    then have deps: "ddefault (sn_deps s) task = deps" by (auto simp: ditem_def ddefault_def split: option.splits)
    have step: "valid (updatecounters_dep (scenequeue_updatecounters lim fail) fail task dep) s1
        (\<lambda>_ s2. struck (A \<union> ?S dep) s s2) (\<lambda>_ _. True)"
      if a: "struck A s s1" and d: "dep \<in> set deps" for A s1 dep
    proof -
      have fr: "sn_harddeps s1 = sn_harddeps s" "sn_deps s1 = sn_deps s" "dkeys (sn_revdeps2 s1) = dkeys (sn_revdeps2 s)"
        using struck_frame [OF a] by simp_all
      have dd: "dep_of s1 = dep_of s" using fr(2) by (simp add: dep_of_def fun_eq_iff)
      have hard: "(fail \<and> dep \<in> set (ddefault (sn_harddeps s1) task)) \<longleftrightarrow> fail \<and> (task, dep) \<in> ?H"
        by (simp add: fr(1) hard_rel_def)
      show ?thesis
      proof (cases "fail \<and> (task, dep) \<in> ?H")
        case True
        have "valid (scenequeue_updatecounters lim fail dep) s1
            (\<lambda>_ s'. struck (strikes fail (sn_harddeps s1) (sn_deps s1) dep) s1 s') (\<lambda>_ _. True)"
          using Suc.prems fr dd by (intro Suc.IH) simp_all
        then have "valid (scenequeue_updatecounters lim fail dep) s1 (\<lambda>_ s2. struck (A \<union> ?S dep) s s2) (\<lambda>_ _. True)"
          by (rule valid_conseq) (use True struck_trans [OF a] fr in auto)
        then show ?thesis
          by (rule valid_at [rotated]) (use True hard in \<open>simp add: updatecounters_dep_def mbind_def mget_def\<close>)
      next
        case False
        have "dep \<in> dep_of s task" using d deps by (simp add: dep_of_def)
        then have dk: "dep \<in> set (dkeys (sn_revdeps2 s1))" using Suc.prems(2) unfolding fr(3) by blast
        have S: "?S dep = {(task, dep)}" by (rule if_not_P [OF False])
        show ?thesis unfolding S
        proof (rule valid_at)
          show "updatecounters_dep (scenequeue_updatecounters lim fail) fail task dep s1 =
              (mbind (mitem_of sn_revdeps2 dep) (\<lambda>rd.
                 if task \<notin> set rd then mret ()
                 else mseq (mmod (\<lambda>s. s\<lparr>sn_revdeps2 := dset dep (removeAll task rd) (sn_revdeps2 s)\<rparr>))
                           (mwhen (removeAll task rd = []) (sn_set_buildable dep)))) s1"
            unfolding updatecounters_dep_def mget_bind by (rule fun_cong [OF if_not_P]) (use False hard in blast)
        qed (rule valid_conseq [OF strike_one [OF dk] struck_trans [OF a]])
      qed
    qed
    have "valid (mfor deps (updatecounters_dep (scenequeue_updatecounters lim fail) fail task)) s
        (\<lambda>_ s'. struck (\<Union>d \<in> set deps. ?S d) s s') (\<lambda>_ _. True)"
    proof (rule valid_mfor [where I = "\<lambda>pre s'. struck (\<Union>d \<in> set pre. ?S d) s s'"])
      show "struck (\<Union>d \<in> set []. ?S d) s s" by (simp add: struck_none)
      fix pre x post t assume p: "deps = pre @ x # post" and t: "struck (\<Union>d \<in> set pre. ?S d) s t"
      have e: "(\<Union>d \<in> set (pre @ [x]). ?S d) = (\<Union>d \<in> set pre. ?S d) \<union> ?S x" by auto
      show "valid (updatecounters_dep (scenequeue_updatecounters lim fail) fail task x) t
          (\<lambda>_. struck (\<Union>d \<in> set (pre @ [x]). ?S d) s) (\<lambda>_ _. True)"
        unfolding e by (rule step [OF t]) (simp add: p)
    qed
    moreover have "(\<Union>d \<in> set deps. ?S d) = strikes fail (sn_harddeps s) (sn_deps s) task"
    proof (cases fail)
      case False
      then show ?thesis by (auto simp: strikes_def deps)
    next
      case True
      have H: "d \<in> set deps" if "(task, d) \<in> ?H" for d using Suc.prems(1) that deps by (auto simp: dep_of_def)
      show ?thesis
      proof (intro equalityI subrelI)
        fix u t assume "(u, t) \<in> (\<Union>d \<in> set deps. ?S d)"
        then obtain d where d: "d \<in> set deps" "(u, t) \<in> ?S d" by blast
        show "(u, t) \<in> strikes fail (sn_harddeps s) (sn_deps s) task"
        proof (cases "(task, d) \<in> ?H")
          case True
          then show ?thesis using d \<open>fail\<close> by (auto simp: strikes_def intro: converse_rtrancl_into_rtrancl)
        next
          case False
          then show ?thesis using d \<open>fail\<close> deps by (auto simp: strikes_def)
        qed
      next
        fix u t assume "(u, t) \<in> strikes fail (sn_harddeps s) (sn_deps s) task"
        then have ut: "(task, u) \<in> ?H\<^sup>*" "t \<in> set (ddefault (sn_deps s) u)" "(u, t) \<notin> ?H" using True by (auto simp: strikes_def)
        from ut(1) show "(u, t) \<in> (\<Union>d \<in> set deps. ?S d)"
        proof (cases rule: converse_rtranclE)
          case base
          then show ?thesis using ut deps by auto
        next
          case (step d)
          then have "(u, t) \<in> ?S d" using ut True by (auto simp: strikes_def)
          then show ?thesis using H [OF step(1)] by blast
        qed
      qed
    qed
    ultimately show ?thesis using Inr by (simp add: mitem_of_def)
  qed
qed simp

section \<open>The invariant\<close>

text \<open>What a failure reaches: the tasks not covered and those that depend on them by a depends flag.\<close>

definition lost :: "scst \<Rightarrow> string set \<Rightarrow> string set" where
  "lost q0 N = (hard_rel (sn_harddeps q0))\<^sup>* `` N"

lemma lost_insert: "lost q0 (insert t N) = lost q0 N \<union> {u. (t, u) \<in> (hard_rel (sn_harddeps q0))\<^sup>*}"
  unfolding lost_def by blast

lemma lost_self: "N \<subseteq> lost q0 N"
  unfolding lost_def by blast

text \<open>\<open>q0\<close> holds the tables the queue starts with.\<close>

definition tables_ok :: "scst \<Rightarrow> bool" where
  "tables_ok q0 \<longleftrightarrow> (\<forall>u t. t \<in> dep_of q0 u \<longleftrightarrow> u \<in> waits q0 t) \<and>
     hard_rel (sn_harddeps q0) \<subseteq> {(u, t). t \<in> dep_of q0 u} \<and>
     dkeys (sn_deps q0) = dkeys (sn_revdeps2 q0)"

definition counters :: "scst \<Rightarrow> string set \<Rightarrow> string set \<Rightarrow> string set \<Rightarrow> string set \<Rightarrow> (string \<Rightarrow> string set) \<Rightarrow> bool" where
  "counters q0 C N B R W \<longleftrightarrow>
     (\<forall>t. W t \<subseteq> waits q0 t) \<and>
     (\<forall>u t. u \<in> waits q0 t - W t \<longrightarrow> u \<in> C \<or> u \<in> lost q0 N \<and> (u, t) \<notin> hard_rel (sn_harddeps q0)) \<and>
     (\<forall>u t. u \<in> W t \<inter> (C \<union> lost q0 N) \<longrightarrow> (u, t) \<in> hard_rel (sn_harddeps q0) \<and> u \<in> lost q0 N) \<and>
     (\<forall>t \<in> set (dkeys (sn_revdeps2 q0)). t \<notin> B \<longrightarrow> W t \<noteq> {}) \<and>
     (\<forall>t \<in> B. t \<in> set (dkeys (sn_revdeps2 q0)) \<and> (W t = {} \<or> t \<in> R))"

lemma tables_keys:
  assumes "tables_ok q0"
  shows "waits q0 t \<noteq> {} \<Longrightarrow> t \<in> set (dkeys (sn_revdeps2 q0))" "u \<in> waits q0 t \<Longrightarrow> u \<in> set (dkeys (sn_revdeps2 q0))"
proof -
  have d: "x \<in> set (dkeys d)" if "y \<in> set (ddefault d x)" for x y and d :: tidsets
    using that unfolding dget_Some_key by (cases "dget d x") (auto simp: ddefault_def)
  show "waits q0 t \<noteq> {} \<Longrightarrow> t \<in> set (dkeys (sn_revdeps2 q0))" using d unfolding waits_def by (metis ex_in_conv)
  assume "u \<in> waits q0 t"
  then have "t \<in> dep_of q0 u" using assms unfolding tables_ok_def by blast
  then have "u \<in> set (dkeys (sn_deps q0))" using d unfolding dep_of_def by blast
  then show "u \<in> set (dkeys (sn_revdeps2 q0))" using assms unfolding tables_ok_def by simp
qed

lemma countersD:
  assumes "counters q0 C N B R W"
  shows "W t \<subseteq> waits q0 t" "u \<in> waits q0 t \<Longrightarrow> u \<notin> W t \<Longrightarrow> u \<in> C \<or> u \<in> lost q0 N \<and> (u, t) \<notin> hard_rel (sn_harddeps q0)"
    "u \<in> W t \<Longrightarrow> u \<in> C \<union> lost q0 N \<Longrightarrow> (u, t) \<in> hard_rel (sn_harddeps q0) \<and> u \<in> lost q0 N"
    "t \<in> set (dkeys (sn_revdeps2 q0)) \<Longrightarrow> t \<notin> B \<Longrightarrow> W t \<noteq> {}"
    "t \<in> B \<Longrightarrow> t \<in> set (dkeys (sn_revdeps2 q0)) \<and> (W t = {} \<or> t \<in> R)"
  using assms unfolding counters_def by blast+

lemma countersI:
  assumes "\<And>t. W t \<subseteq> waits q0 t" "\<And>u t. u \<in> waits q0 t \<Longrightarrow> u \<notin> W t \<Longrightarrow> u \<in> C \<or> u \<in> lost q0 N \<and> (u, t) \<notin> hard_rel (sn_harddeps q0)"
    "\<And>u t. u \<in> W t \<Longrightarrow> u \<in> C \<union> lost q0 N \<Longrightarrow> (u, t) \<in> hard_rel (sn_harddeps q0) \<and> u \<in> lost q0 N"
    "\<And>t. t \<in> set (dkeys (sn_revdeps2 q0)) \<Longrightarrow> t \<notin> B \<Longrightarrow> W t \<noteq> {}"
    "\<And>t. t \<in> B \<Longrightarrow> t \<in> set (dkeys (sn_revdeps2 q0)) \<and> (W t = {} \<or> t \<in> R)"
  shows "counters q0 C N B R W"
  using assms unfolding counters_def by blast

lemma counters_grow:
  assumes c: "counters q0 C N B R W" and "R \<subseteq> R'" "B \<subseteq> B'" "B' \<subseteq> B \<union> (R' \<inter> set (dkeys (sn_revdeps2 q0)))"
  shows "counters q0 C N B' R' W"
proof (rule countersI)
  fix t assume "t \<in> B'"
  then show "t \<in> set (dkeys (sn_revdeps2 q0)) \<and> (W t = {} \<or> t \<in> R')" using assms countersD(5) [OF c, of t] by blast
qed (use countersD [OF c] assms in blast)+

lemma counters_cover:
  assumes t: "tables_ok q0" and c: "counters q0 C N B R W"
    and W': "\<And>t. W' t = W t - {u. (u, t) \<in> strikes False (sn_harddeps q0) (sn_deps q0) task}"
  shows "counters q0 (insert task C) N (B \<union> {t. W t \<noteq> {} \<and> W' t = {}}) R W'"
proof -
  have w: "W' t = W t - {task}" for t
  proof -
    have "t \<in> dep_of q0 task" if "task \<in> W t" using that t countersD(1) [OF c, of t] unfolding tables_ok_def by blast
    then show ?thesis unfolding W' by (auto simp: strikes_def dep_of_def)
  qed
  have k: "t \<in> set (dkeys (sn_revdeps2 q0))" if "W t \<noteq> {}" for t
    using that tables_keys(1) [OF t, of t] countersD(1) [OF c, of t] by blast
  show ?thesis
  proof (rule countersI)
    show "W' t \<subseteq> waits q0 t" for t unfolding w using countersD(1) [OF c, of t] by blast
    show "u \<in> insert task C \<or> u \<in> lost q0 N \<and> (u, t) \<notin> hard_rel (sn_harddeps q0)" if "u \<in> waits q0 t" "u \<notin> W' t" for u t
      using that countersD(2) [OF c, of u t] unfolding w by blast
    show "(u, t) \<in> hard_rel (sn_harddeps q0) \<and> u \<in> lost q0 N" if "u \<in> W' t" "u \<in> insert task C \<union> lost q0 N" for u t
      using that countersD(3) [OF c, of u t] unfolding w by blast
    show "W' t \<noteq> {}" if "t \<in> set (dkeys (sn_revdeps2 q0))" "t \<notin> B \<union> {t. W t \<noteq> {} \<and> W' t = {}}" for t
      using that countersD(4) [OF c, of t] by blast
    show "t \<in> set (dkeys (sn_revdeps2 q0)) \<and> (W' t = {} \<or> t \<in> R)" if "t \<in> B \<union> {t. W t \<noteq> {} \<and> W' t = {}}" for t
      using that countersD(5) [OF c, of t] k [of t] w [of t] by blast
  qed
qed

lemma counters_lose:
  assumes t: "tables_ok q0" and c: "counters q0 C N B R W"
    and W': "\<And>t. W' t = W t - {u. (u, t) \<in> strikes True (sn_harddeps q0) (sn_deps q0) task}"
  shows "counters q0 C (insert task N) (B \<union> {t. W t \<noteq> {} \<and> W' t = {}}) R W'"
proof -
  let ?H = "hard_rel (sn_harddeps q0)"
  have w: "W' t = W t - {u. (task, u) \<in> ?H\<^sup>* \<and> (u, t) \<notin> ?H}" for t
  proof -
    have "t \<in> dep_of q0 u" if "u \<in> W t" for u using that t countersD(1) [OF c, of t] unfolding tables_ok_def by blast
    then show ?thesis unfolding W' by (auto simp: strikes_def dep_of_def)
  qed
  have k: "t \<in> set (dkeys (sn_revdeps2 q0))" if "W t \<noteq> {}" for t
    using that tables_keys(1) [OF t, of t] countersD(1) [OF c, of t] by blast
  show ?thesis
  proof (rule countersI)
    show "W' t \<subseteq> waits q0 t" for t unfolding w using countersD(1) [OF c, of t] by blast
    show "u \<in> C \<or> u \<in> lost q0 (insert task N) \<and> (u, t) \<notin> ?H" if "u \<in> waits q0 t" "u \<notin> W' t" for u t
      using that countersD(2) [OF c, of u t] unfolding w lost_insert by blast
    show "(u, t) \<in> ?H \<and> u \<in> lost q0 (insert task N)" if "u \<in> W' t" "u \<in> C \<union> lost q0 (insert task N)" for u t
      using that countersD(3) [OF c, of u t] unfolding w lost_insert by blast
    show "W' t \<noteq> {}" if "t \<in> set (dkeys (sn_revdeps2 q0))" "t \<notin> B \<union> {t. W t \<noteq> {} \<and> W' t = {}}" for t
      using that countersD(4) [OF c, of t] by blast
    show "t \<in> set (dkeys (sn_revdeps2 q0)) \<and> (W' t = {} \<or> t \<in> R)" if "t \<in> B \<union> {t. W t \<noteq> {} \<and> W' t = {}}" for t
      using that countersD(5) [OF c, of t] k [of t] w [of t] by blast
  qed
qed

text \<open>What was sent, and what ended, in the order of the actions.\<close>

definition sn_sent :: "sceneaction list \<Rightarrow> string list" where
  "sn_sent log = concat (map (\<lambda>a. case a of SnRunTask _ t _ _ \<Rightarrow> [t] | _ \<Rightarrow> []) log)"

definition sn_ended :: "sceneaction list \<Rightarrow> string list" where
  "sn_ended log = concat (map (\<lambda>a. case a of SnCompleted t \<Rightarrow> [t] | SnFailed t _ \<Rightarrow> [t] | _ \<Rightarrow> []) log)"

lemma sn_log_append [simp]:
  "sn_sent (xs @ ys) = sn_sent xs @ sn_sent ys" "sn_ended (xs @ ys) = sn_ended xs @ sn_ended ys"
  by (simp_all add: sn_sent_def sn_ended_def)

lemma sn_log_simps [simp]:
  "sn_sent [SnRunTask f t n b] = [t]" "sn_sent [SnMakeStamp t] = []" "sn_sent [SnStartFakeworker t] = []"
  "sn_sent [SnStarted t] = []" "sn_sent [SnCompleted t] = []" "sn_sent [SnFailed t r] = []" "sn_sent [SnExitWait r] = []"
  "sn_sent [SnComplete] = []" "sn_sent [SnFinishNow] = []"
  "sn_ended [SnRunTask f t n b] = []" "sn_ended [SnMakeStamp t] = []" "sn_ended [SnStartFakeworker t] = []"
  "sn_ended [SnStarted t] = []" "sn_ended [SnCompleted t] = [t]" "sn_ended [SnFailed t r] = [t]" "sn_ended [SnExitWait r] = []"
  "sn_ended [SnComplete] = []" "sn_ended [SnFinishNow] = []"
  by (simp_all add: sn_sent_def sn_ended_def)

definition fixed_tables :: "scst \<Rightarrow> scst \<Rightarrow> bool" where
  "fixed_tables q0 s \<longleftrightarrow> sn_harddeps s = sn_harddeps q0 \<and> sn_deps s = sn_deps q0 \<and> sn_stamps s = sn_stamps q0 \<and>
     sn_unskippable s = sn_unskippable q0 \<and> dkeys (sn_revdeps2 s) = dkeys (sn_revdeps2 q0)"

text \<open>\<open>I\<close>: the tasks that are under way.\<close>

definition scene_sets :: "string set \<Rightarrow> string set \<Rightarrow> string set \<Rightarrow> string set \<Rightarrow> string set \<Rightarrow> bool" where
  "scene_sets K R C N I \<longleftrightarrow> R \<subseteq> K \<and> R = C \<union> N \<union> I \<and> C \<inter> N = {} \<and> C \<inter> I = {} \<and> N \<inter> I = {}"

definition scene_stats :: "sceneenv \<Rightarrow> rqstats \<Rightarrow> nat \<Rightarrow> nat \<Rightarrow> bool" where
  "scene_stats env st active settled \<longleftrightarrow> st_active st = int active \<and> int active \<le> xe_number_tasks env \<and> 0 < xe_number_tasks env \<and>
     st_completed st + st_failed st = int settled"

definition scene_stamps :: "scst \<Rightarrow> (string, string option) dict \<Rightarrow> string option list \<Rightarrow> bool" where
  "scene_stamps q0 bs bs2 \<longleftrightarrow> dwf bs \<and> mset (map snd bs) = mset bs2 \<and> distinct bs2 \<and>
     (\<forall>t st. dget bs t = Some st \<longrightarrow> dget (sn_stamps q0) t = Some st)"

definition scene_log :: "string set \<Rightarrow> (string \<Rightarrow> string set) \<Rightarrow> string set \<Rightarrow> sceneaction list \<Rightarrow> bool" where
  "scene_log R W I log \<longleftrightarrow> distinct (sn_sent log) \<and> set (sn_sent log) \<subseteq> R \<and> set (sn_ended log) \<subseteq> set (sn_sent log) \<and> I = set (sn_sent log) - set (sn_ended log) \<and>
     (\<forall>t \<in> set (sn_sent log). W t = {})"

definition qcore :: "scst \<Rightarrow> string set \<Rightarrow> scst \<Rightarrow> bool" where
  "qcore q0 I s \<longleftrightarrow> fixed_tables q0 s \<and>
     scene_sets (set (dkeys (sn_revdeps2 q0))) (set (sn_running s)) (set (sn_covered s)) (set (sn_notcovered s)) I \<and>
     counters q0 (set (sn_covered s)) (set (sn_notcovered s)) (set (sn_buildable s)) (set (sn_running s)) (waits s) \<and>
     scene_stamps q0 (sn_build_stamps s) (sn_build_stamps2 s) \<and>
     scene_log (set (sn_running s)) (waits s) (set (dkeys (sn_build_stamps s))) (sn_actions s)"

definition settled_of :: "scst \<Rightarrow> string set" where
  "settled_of s = set (sn_covered s) \<union> set (sn_notcovered s)"

definition qinv :: "sceneenv \<Rightarrow> scst \<Rightarrow> scst \<Rightarrow> bool" where
  "qinv env q0 s \<longleftrightarrow> qcore q0 (set (dkeys (sn_build_stamps s))) s \<and>
     scene_stats env (sn_stats s) (length (sn_build_stamps s)) (card (settled_of s))"

text \<open>A task that was started and is neither under way nor settled.\<close>

definition opened :: "scst \<Rightarrow> string \<Rightarrow> scst \<Rightarrow> bool" where
  "opened q0 t s \<longleftrightarrow> qcore q0 (insert t (set (dkeys (sn_build_stamps s)))) s \<and> t \<notin> set (dkeys (sn_build_stamps s))"

lemma waits_frame [simp]:
  "waits (s\<lparr>sn_covered := x\<rparr>) = waits s" "waits (s\<lparr>sn_notcovered := x\<rparr>) = waits s" "waits (s\<lparr>sn_notneeded := x\<rparr>) = waits s"
  "waits (s\<lparr>sn_buildable := x\<rparr>) = waits s" "waits (s\<lparr>sn_running := x\<rparr>) = waits s" "waits (s\<lparr>sn_build_stamps := bs\<rparr>) = waits s"
  "waits (s\<lparr>sn_build_stamps2 := y\<rparr>) = waits s" "waits (s\<lparr>sn_stats := st\<rparr>) = waits s" "waits (s\<lparr>sn_revdeps := r\<rparr>) = waits s"
  "waits (s\<lparr>sn_outrightfail := x\<rparr>) = waits s" "waits (s\<lparr>sn_stampcache := c\<rparr>) = waits s" "waits (s\<lparr>sn_fakeworkers := x\<rparr>) = waits s"
  "waits (s\<lparr>sn_state := q\<rparr>) = waits s" "waits (s\<lparr>sn_actions := a\<rparr>) = waits s"
  by (simp_all add: waits_def fun_eq_iff)

lemma qcore_frame [simp]:
  "qcore q0 I (s\<lparr>sn_notneeded := x\<rparr>) = qcore q0 I s" "qcore q0 I (s\<lparr>sn_revdeps := r\<rparr>) = qcore q0 I s"
  "qcore q0 I (s\<lparr>sn_outrightfail := x\<rparr>) = qcore q0 I s" "qcore q0 I (s\<lparr>sn_stampcache := c\<rparr>) = qcore q0 I s"
  "qcore q0 I (s\<lparr>sn_fakeworkers := x\<rparr>) = qcore q0 I s" "qcore q0 I (s\<lparr>sn_state := q\<rparr>) = qcore q0 I s"
  "qcore q0 I (s\<lparr>sn_stats := st\<rparr>) = qcore q0 I s"
  by (simp_all add: qcore_def fixed_tables_def)

lemma settled_frame [simp]:
  "settled_of (s\<lparr>sn_notneeded := x\<rparr>) = settled_of s" "settled_of (s\<lparr>sn_revdeps := r\<rparr>) = settled_of s"
  "settled_of (s\<lparr>sn_outrightfail := x\<rparr>) = settled_of s" "settled_of (s\<lparr>sn_stampcache := c\<rparr>) = settled_of s"
  "settled_of (s\<lparr>sn_fakeworkers := x\<rparr>) = settled_of s" "settled_of (s\<lparr>sn_state := q\<rparr>) = settled_of s"
  "settled_of (s\<lparr>sn_stats := st\<rparr>) = settled_of s" "settled_of (s\<lparr>sn_actions := a\<rparr>) = settled_of s"
  "settled_of (s\<lparr>sn_running := x\<rparr>) = settled_of s" "settled_of (s\<lparr>sn_buildable := x\<rparr>) = settled_of s"
  "settled_of (s\<lparr>sn_build_stamps := bs\<rparr>) = settled_of s" "settled_of (s\<lparr>sn_build_stamps2 := bs2\<rparr>) = settled_of s"
  by (simp_all add: settled_of_def)

lemma qinv_frame [simp]:
  "qinv env q0 (s\<lparr>sn_notneeded := x\<rparr>) = qinv env q0 s" "qinv env q0 (s\<lparr>sn_revdeps := r\<rparr>) = qinv env q0 s"
  "qinv env q0 (s\<lparr>sn_outrightfail := x\<rparr>) = qinv env q0 s" "qinv env q0 (s\<lparr>sn_stampcache := c\<rparr>) = qinv env q0 s"
  "qinv env q0 (s\<lparr>sn_fakeworkers := x\<rparr>) = qinv env q0 s" "qinv env q0 (s\<lparr>sn_state := q\<rparr>) = qinv env q0 s"
  by (simp_all add: qinv_def)

lemma qinv_action:
  "qinv env q0 (s\<lparr>sn_actions := sn_actions s @ [a]\<rparr>) = qinv env q0 s" if "sn_sent [a] = []" "sn_ended [a] = []"
  using that by (simp add: qinv_def qcore_def fixed_tables_def scene_log_def)

section \<open>Settling a task\<close>

definition settle_frame :: "scst \<Rightarrow> scst \<Rightarrow> bool" where
  "settle_frame s s' \<longleftrightarrow> sn_stats s' = sn_stats s \<and> sn_build_stamps s' = sn_build_stamps s \<and> sn_state s' = sn_state s \<and>
     sn_running s' = sn_running s \<and> sn_actions s' = sn_actions s"

lemma opened_fresh: "opened q0 t s \<Longrightarrow> t \<notin> settled_of s"
  unfolding opened_def qcore_def scene_sets_def settled_of_def by blast

lemma struck_log:
  assumes "struck A s s'" "scene_log R (waits s) I log"
  shows "scene_log R (waits s') I log"
proof -
  have "waits s' t \<subseteq> waits s t" for t using assms(1) unfolding struck_def by blast
  then show ?thesis using assms(2) unfolding scene_log_def by blast
qed

lemma struck_buildable:
  assumes "struck A s s'"
  shows "set (sn_buildable s') = set (sn_buildable s) \<union> {t. waits s t \<noteq> {} \<and> waits s' t = {}}"
    "waits s' t = waits s t - {u. (u, t) \<in> A}"
  using assms unfolding struck_def by auto

lemma strikes_valid:
  assumes t: "tables_ok q0" and f: "fixed_tables q0 s"
  shows "valid (scenequeue_updatecounters lim fail task) s
    (\<lambda>_ s'. struck (strikes fail (sn_harddeps q0) (sn_deps q0) task) s s') (\<lambda>_ _. True)"
proof -
  have e: "sn_harddeps s = sn_harddeps q0" "sn_deps s = sn_deps q0" "dkeys (sn_revdeps2 s) = dkeys (sn_revdeps2 q0)"
    using f by (simp_all add: fixed_tables_def)
  have d: "dep_of s = dep_of q0" by (simp add: dep_of_def e fun_eq_iff)
  have "dep_of q0 u \<subseteq> set (dkeys (sn_revdeps2 q0))" for u
  proof
    fix x assume "x \<in> dep_of q0 u"
    then have "waits q0 x \<noteq> {}" using t unfolding tables_ok_def by blast
    then show "x \<in> set (dkeys (sn_revdeps2 q0))" by (rule tables_keys(1) [OF t])
  qed
  moreover have "u \<in> set (dkeys (sn_deps q0))" if ne: "dep_of q0 u \<noteq> {}" for u
  proof -
    obtain x where "x \<in> dep_of q0 u" using ne by blast
    then have "u \<in> waits q0 x" using t unfolding tables_ok_def by blast
    then have "u \<in> set (dkeys (sn_revdeps2 q0))" by (rule tables_keys(2) [OF t])
    then show ?thesis using t unfolding tables_ok_def by simp
  qed
  moreover have "hard_rel (sn_harddeps q0) \<subseteq> {(u, t). t \<in> dep_of q0 u}" using t unfolding tables_ok_def by blast
  ultimately show ?thesis using updatecounters_struck [of s lim fail task] unfolding e d by blast
qed

lemma sets_settle:
  assumes "scene_sets K R C N (insert t I)" "t \<notin> I"
  shows "scene_sets K R (insert t C) N I" "scene_sets K R C (insert t N) I"
  using assms unfolding scene_sets_def by blast+

lemma settle_cover:
  assumes t: "tables_ok q0" and o: "opened q0 task s"
  shows "valid (sn_task_completeoutright lim task) s
    (\<lambda>_ s'. qcore q0 (set (dkeys (sn_build_stamps s'))) s' \<and> settled_of s' = insert task (settled_of s) \<and> settle_frame s s') (\<lambda>_ _. True)"
proof -
  let ?s = "s\<lparr>sn_covered := sadd task (sn_covered s)\<rparr>"
  let ?A = "strikes False (sn_harddeps q0) (sn_deps q0) task"
  note q = o [unfolded opened_def qcore_def]
  from q have f: "fixed_tables q0 ?s" by (simp add: fixed_tables_def)
  from q have c: "counters q0 (set (sn_covered s)) (set (sn_notcovered s)) (set (sn_buildable s)) (set (sn_running s)) (waits s)"
    and sets: "scene_sets (set (dkeys (sn_revdeps2 q0))) (set (sn_running s)) (set (sn_covered s)) (set (sn_notcovered s))
      (insert task (set (dkeys (sn_build_stamps s))))" "task \<notin> set (dkeys (sn_build_stamps s))"
    and log: "scene_log (set (sn_running s)) (waits s) (set (dkeys (sn_build_stamps s))) (sn_actions s)"
    and stamps: "scene_stamps q0 (sn_build_stamps s) (sn_build_stamps2 s)" by blast+
  have "qcore q0 (set (dkeys (sn_build_stamps s'))) s' \<and> settled_of s' = insert task (settled_of s) \<and> settle_frame s s'"
    if st: "struck ?A ?s s'" for s'
  proof -
    note fr = struck_frame [OF st] and b = struck_buildable [OF st]
    have w: "waits s' t = waits s t - {u. (u, t) \<in> ?A}" for t using b(2) [of t] by simp
    have "counters q0 (insert task (set (sn_covered s))) (set (sn_notcovered s))
        (set (sn_buildable s) \<union> {t. waits s t \<noteq> {} \<and> waits s' t = {}}) (set (sn_running s)) (waits s')"
      by (rule counters_cover [OF t c w])
    then have "counters q0 (set (sn_covered s')) (set (sn_notcovered s')) (set (sn_buildable s')) (set (sn_running s')) (waits s')"
      using fr(1-3) b(1) by simp
    moreover have "scene_log (set (sn_running s')) (waits s') (set (dkeys (sn_build_stamps s'))) (sn_actions s')"
      using struck_log [OF st, of "set (sn_running s)" "set (dkeys (sn_build_stamps s))" "sn_actions s"] log
      by (simp add: fr del: list.set_map)
    moreover have "scene_sets (set (dkeys (sn_revdeps2 q0))) (set (sn_running s')) (set (sn_covered s')) (set (sn_notcovered s')) (set (dkeys (sn_build_stamps s')))"
      using sets_settle(1) [OF sets] by (simp add: fr del: list.set_map)
    ultimately show ?thesis
      using f stamps by (simp add: qcore_def fixed_tables_def settled_of_def settle_frame_def fr del: list.set_map)
  qed
  then show ?thesis
    unfolding sn_task_completeoutright_def valid_mbind valid_mmod by (rule valid_conseq [OF strikes_valid [OF t f]])
qed

lemma settle_lose:
  assumes t: "tables_ok q0" and o: "opened q0 task s"
  shows "valid (sn_notcover lim task) s
    (\<lambda>_ s'. qcore q0 (set (dkeys (sn_build_stamps s'))) s' \<and> settled_of s' = insert task (settled_of s) \<and> settle_frame s s') (\<lambda>_ _. True)"
proof -
  let ?s = "s\<lparr>sn_notcovered := sadd task (sn_notcovered s)\<rparr>"
  let ?A = "strikes True (sn_harddeps q0) (sn_deps q0) task"
  note q = o [unfolded opened_def qcore_def]
  from q have f: "fixed_tables q0 ?s" by (simp add: fixed_tables_def)
  from q have c: "counters q0 (set (sn_covered s)) (set (sn_notcovered s)) (set (sn_buildable s)) (set (sn_running s)) (waits s)"
    and sets: "scene_sets (set (dkeys (sn_revdeps2 q0))) (set (sn_running s)) (set (sn_covered s)) (set (sn_notcovered s))
      (insert task (set (dkeys (sn_build_stamps s))))" "task \<notin> set (dkeys (sn_build_stamps s))"
    and log: "scene_log (set (sn_running s)) (waits s) (set (dkeys (sn_build_stamps s))) (sn_actions s)"
    and stamps: "scene_stamps q0 (sn_build_stamps s) (sn_build_stamps2 s)" by blast+
  have "qcore q0 (set (dkeys (sn_build_stamps s'))) s' \<and> settled_of s' = insert task (settled_of s) \<and> settle_frame s s'"
    if st: "struck ?A ?s s'" for s'
  proof -
    note fr = struck_frame [OF st] and b = struck_buildable [OF st]
    have w: "waits s' t = waits s t - {u. (u, t) \<in> ?A}" for t using b(2) [of t] by simp
    have "counters q0 (set (sn_covered s)) (insert task (set (sn_notcovered s)))
        (set (sn_buildable s) \<union> {t. waits s t \<noteq> {} \<and> waits s' t = {}}) (set (sn_running s)) (waits s')"
      by (rule counters_lose [OF t c w])
    then have "counters q0 (set (sn_covered s')) (set (sn_notcovered s')) (set (sn_buildable s')) (set (sn_running s')) (waits s')"
      using fr(1-3) b(1) by simp
    moreover have "scene_log (set (sn_running s')) (waits s') (set (dkeys (sn_build_stamps s'))) (sn_actions s')"
      using struck_log [OF st, of "set (sn_running s)" "set (dkeys (sn_build_stamps s))" "sn_actions s"] log
      by (simp add: fr del: list.set_map)
    moreover have "scene_sets (set (dkeys (sn_revdeps2 q0))) (set (sn_running s')) (set (sn_covered s')) (set (sn_notcovered s')) (set (dkeys (sn_build_stamps s')))"
      using sets_settle(2) [OF sets] by (simp add: fr del: list.set_map)
    ultimately show ?thesis
      using f stamps by (simp add: qcore_def fixed_tables_def settled_of_def settle_frame_def fr del: list.set_map)
  qed
  then show ?thesis
    unfolding sn_notcover_def valid_mbind valid_mmod by (rule valid_conseq [OF strikes_valid [OF t f]])
qed

text \<open>From the settled task back to the invariant, with the statistics brought up to date.\<close>

lemma settled_inv:
  assumes "qcore q0 (set (dkeys (sn_build_stamps s'))) s' \<and> settled_of s' = insert t (settled_of s) \<and> settle_frame s s'"
    and "t \<notin> settled_of s" and "scene_stats env st (length (sn_build_stamps s)) (Suc (card (settled_of s)))"
  shows "qinv env q0 (s'\<lparr>sn_stats := st\<rparr>)"
proof -
  have "card (settled_of s') = Suc (card (settled_of s))" using assms(1,2) by (simp add: settled_of_def)
  moreover have "sn_build_stamps s' = sn_build_stamps s" using assms(1) by (simp add: settle_frame_def)
  ultimately show ?thesis using assms(1,3) by (simp add: qinv_def)
qed

section \<open>Reports of the workers\<close>

definition sn_forgotten :: "scst \<Rightarrow> string \<Rightarrow> scst" where
  "sn_forgotten s t = s\<lparr>sn_build_stamps2 := remove1 (the (dget (sn_build_stamps s) t)) (sn_build_stamps2 s),
     sn_build_stamps := filter (\<lambda>(u, _). u \<noteq> t) (sn_build_stamps s)\<rparr>"

lemma sn_forget_eq:
  assumes "qinv env q0 s" "t \<in> set (dkeys (sn_build_stamps s))"
  shows "sn_forget_stamp t s = (Inr (), sn_forgotten s t)"
proof -
  obtain st where st: "dget (sn_build_stamps s) t = Some st" using assms(2) unfolding dget_Some_key by blast
  then have "st \<in># mset (map snd (sn_build_stamps s))" by (force dest: map_of_SomeD)
  moreover have "mset (map snd (sn_build_stamps s)) = mset (sn_build_stamps2 s)"
    using assms(1) by (simp add: qinv_def qcore_def scene_stamps_def)
  ultimately have "st \<in> set (sn_build_stamps2 s)" by (metis set_mset_mset)
  then show ?thesis using st by (simp add: sn_forget_stamp_def mbind_def mget_def mmod_def sn_forgotten_def)
qed

lemma forgotten_opened:
  assumes q: "qinv env q0 s" and t: "t \<in> set (dkeys (sn_build_stamps s))"
  shows "sn_sent [a] = [] \<Longrightarrow> sn_ended [a] = [t] \<Longrightarrow> opened q0 t ((sn_forgotten s t)\<lparr>sn_stats := st, sn_actions := sn_actions s @ [a]\<rparr>)"
    "length (sn_build_stamps s) = Suc (length (sn_build_stamps (sn_forgotten s t)))"
    "set (dkeys (sn_build_stamps (sn_forgotten s t))) = set (dkeys (sn_build_stamps s)) - {t}"
proof -
  let ?bs = "sn_build_stamps s"
  from q have core: "qcore q0 (set (dkeys ?bs)) s" by (simp add: qinv_def)
  from core have sp: "scene_stamps q0 ?bs (sn_build_stamps2 s)" and d: "dwf ?bs" and log: "scene_log (set (sn_running s)) (waits s) (set (dkeys ?bs)) (sn_actions s)"
    by (simp_all add: qcore_def scene_stamps_def)
  obtain v where v: "dget ?bs t = Some v" using t unfolding dget_Some_key by blast
  note f = forget_facts [OF d v]
  let ?f = "filter (\<lambda>(u, _). u \<noteq> t) ?bs"
  show "length ?bs = Suc (length (sn_build_stamps (sn_forgotten s t)))" using f(2) by (simp add: sn_forgotten_def)
  have k: "set (dkeys ?f) = set (dkeys ?bs) - {t}" unfolding f(1) by auto
  then show "set (dkeys (sn_build_stamps (sn_forgotten s t))) = set (dkeys ?bs) - {t}" by (simp add: sn_forgotten_def)
  have "scene_stamps q0 ?f (remove1 v (sn_build_stamps2 s))"
    unfolding scene_stamps_def
  proof (intro conjI allI impI)
    have "mset (sn_build_stamps2 s) = add_mset v (mset (map snd ?f))" using sp f(3) by (simp add: scene_stamps_def del: mset_map)
    then show "mset (map snd ?f) = mset (remove1 v (sn_build_stamps2 s))" by (metis add_mset_remove_trivial mset_remove1)
    show "dwf ?f" using d unfolding f(1) by simp
    show "distinct (remove1 v (sn_build_stamps2 s))" using sp by (simp add: scene_stamps_def)
    show "dget (sn_stamps q0) u = Some x" if "dget ?f u = Some x" for u x
      using sp that unfolding scene_stamps_def f(4) by (simp split: if_splits)
  qed
  moreover have "scene_log (set (sn_running s)) (waits s) (set (dkeys ?f)) (sn_actions s @ [a])"
    if "sn_sent [a] = []" "sn_ended [a] = [t]"
    using log that t unfolding k scene_log_def by (auto simp del: list.set_map)
  moreover have "insert t (set (dkeys ?f)) = set (dkeys ?bs)" unfolding k using t by blast
  ultimately show "sn_sent [a] = [] \<Longrightarrow> sn_ended [a] = [t] \<Longrightarrow> opened q0 t ((sn_forgotten s t)\<lparr>sn_stats := st, sn_actions := sn_actions s @ [a]\<rparr>)"
    using core v k unfolding opened_def qcore_def fixed_tables_def
    by (simp add: sn_forgotten_def waits_def fun_eq_iff del: list.set_map)
qed

lemma check_taskfail_frame:
  "valid (check_taskfail env t) s (\<lambda>_ s'. \<exists>q. s' = s\<lparr>sn_state := q\<rparr> \<and> q \<in> {sn_state s, RqCleanUp}) (\<lambda>_ _. True)"
proof -
  have r: "\<exists>q. s = s\<lparr>sn_state := q\<rparr> \<and> q \<in> {sn_state s, RqCleanUp}" by (intro exI [of _ "sn_state s"]) simp
  show ?thesis using r by (auto simp: check_taskfail_def sn_set_state_def split: sum.split prod.split)
qed

definition reported :: "string \<Rightarrow> scst \<Rightarrow> scst \<Rightarrow> bool" where
  "reported t s s' \<longleftrightarrow> set (dkeys (sn_build_stamps s')) = set (dkeys (sn_build_stamps s)) - {t} \<and> sn_state s' \<in> {sn_state s, RqCleanUp}"

lemma sn_waitpid_inv:
  assumes t: "tables_ok q0" and q: "qinv env q0 s" and i: "task \<in> set (dkeys (sn_build_stamps s))"
  shows "valid (sn_process_waitpid lim env (task, status)) s
    (\<lambda>_ s'. qinv env q0 s' \<and> reported task s s') (\<lambda>_ _. True)"
proof -
  let ?f = "sn_forgotten s task"
  have st: "scene_stats env (sn_stats s) (length (sn_build_stamps s)) (card (settled_of s))" using q by (simp add: qinv_def)
  note len = forgotten_opened(2) [OF q i] and keys = forgotten_opened(3) [OF q i]
  have fr: "settled_of ?f = settled_of s" "sn_stats ?f = sn_stats s" "sn_actions ?f = sn_actions s"
    by (simp_all add: sn_forgotten_def settled_of_def)
  have stat: "scene_stats env st (length (sn_build_stamps ?f)) (Suc (card (settled_of s)))"
    if "st = taskCompleted 1 (sn_stats s) \<or> st = taskFailed (sn_stats s)" for st
    using that st len unfolding scene_stats_def stats_defs by auto
  have fin: "qinv env q0 s' \<and> reported task s s'"
    if o: "opened q0 task (?f\<lparr>sn_stats := st, sn_actions := a\<rparr>)" and st: "st = taskCompleted 1 (sn_stats s) \<or> st = taskFailed (sn_stats s)"
      and s': "qcore q0 (set (dkeys (sn_build_stamps s'))) s' \<and> settled_of s' = insert task (settled_of (?f\<lparr>sn_stats := st, sn_actions := a\<rparr>)) \<and>
        settle_frame (?f\<lparr>sn_stats := st, sn_actions := a\<rparr>) s'" for s' st a
  proof -
    have "scene_stats env st (length (sn_build_stamps (?f\<lparr>sn_stats := st, sn_actions := a\<rparr>)))
        (Suc (card (settled_of (?f\<lparr>sn_stats := st, sn_actions := a\<rparr>))))"
      using stat [OF st] fr(1) by simp
    from settled_inv [OF s' opened_fresh [OF o] this] have "qinv env q0 (s'\<lparr>sn_stats := st\<rparr>)" .
    moreover have "s'\<lparr>sn_stats := st\<rparr> = s'" "sn_build_stamps s' = sn_build_stamps ?f" using s' by (simp_all add: settle_frame_def)
    moreover have "sn_state s' = sn_state s" using s' by (simp add: settle_frame_def sn_forgotten_def)
    ultimately show ?thesis using keys by (simp add: reported_def)
  qed
  show ?thesis
  proof (cases "status = 0")
    case True
    let ?s1 = "?f\<lparr>sn_stats := taskCompleted 1 (sn_stats s), sn_actions := sn_actions s @ [SnCompleted task]\<rparr>"
    have o: "opened q0 task ?s1" by (rule forgotten_opened(1) [OF q i]) simp_all
    have "valid (sn_task_completeoutright lim task) ?s1 (\<lambda>_ s'. qinv env q0 s' \<and> reported task s s') (\<lambda>_ _. True)"
      by (rule valid_conseq [OF settle_cover [OF t o]]) (rule fin [OF o], simp_all)
    then show ?thesis
      using True by (simp add: sn_process_waitpid_def sn_task_complete_def sn_upd_stats_def sn_do_def valid_def mbind_def mmod_def
        sn_forget_eq [OF q i] fr)
  next
    case False
    let ?s1 = "?f\<lparr>sn_stats := taskFailed (sn_stats s), sn_actions := sn_actions s @ [SnFailed task status]\<rparr>"
    have o: "opened q0 task ?s1" by (rule forgotten_opened(1) [OF q i]) simp_all
    have "valid (mseq (sn_notcover lim task) (check_taskfail env task)) ?s1
        (\<lambda>_ s'. qinv env q0 s' \<and> reported task s s') (\<lambda>_ _. True)"
      unfolding valid_mbind
    proof (rule valid_conseq [OF settle_lose [OF t o]])
      fix s' assume "qcore q0 (set (dkeys (sn_build_stamps s'))) s' \<and> settled_of s' = insert task (settled_of ?s1) \<and> settle_frame ?s1 s'"
      from fin [OF o _ this] have f: "qinv env q0 s' \<and> reported task s s'" by simp
      show "valid (check_taskfail env task) s' (\<lambda>_ s'. qinv env q0 s' \<and> reported task s s') (\<lambda>_ _. True)"
      proof (rule valid_conseq [OF check_taskfail_frame])
        fix s2 assume "\<exists>q. s2 = s'\<lparr>sn_state := q\<rparr> \<and> q \<in> {sn_state s', RqCleanUp}"
        then have "sn_build_stamps s2 = sn_build_stamps s'" "qinv env q0 s2 = qinv env q0 s'" "sn_state s2 \<in> {sn_state s', RqCleanUp}" by auto
        with f show "qinv env q0 s2 \<and> reported task s s2" unfolding reported_def by auto
      qed simp
    qed simp
    then show ?thesis
      using False by (simp add: sn_process_waitpid_def sn_task_fail_def sn_upd_stats_def sn_do_def valid_def mbind_def mmod_def
        sn_forget_eq [OF q i] fr)
  qed
qed

text \<open>The reports are of tasks that are under way, each once.\<close>

definition scene_pipe_ok :: "scenepipes \<Rightarrow> bool" where
  "scene_pipe_ok pipe \<longleftrightarrow> (\<forall>s. distinct (ended_tasks (pipe s)) \<and> set (ended_tasks (pipe s)) \<subseteq> set (dkeys (sn_build_stamps s)))"

lemma sn_finish_now_inv:
  assumes "qinv env q0 s"
  shows "valid sn_finish_now s (\<lambda>_ s'. qinv env q0 s' \<and> sn_build_stamps s' = sn_build_stamps s \<and> sn_state s' = RqComplete) E"
  using qinv_action [of SnFinishNow env q0 s] assms by (simp add: sn_finish_now_def sn_do_def sn_set_state_def)

lemma sn_read_inv:
  assumes t: "tables_ok q0" and q: "qinv env q0 s" and p: "scene_pipe_ok pipe"
  shows "valid (sn_read_workers lim env pipe) s
    (\<lambda>_ s'. qinv env q0 s' \<and> sn_state s' \<in> {sn_state s, RqCleanUp, RqComplete}) (\<lambda>_ _. True)"
proof -
  have d: "distinct (ended_tasks (pipe s))" "set (ended_tasks (pipe s)) \<subseteq> set (dkeys (sn_build_stamps s))"
    using p unfolding scene_pipe_ok_def by blast+
  let ?I = "\<lambda>pre s'. qinv env q0 s' \<and> set (dkeys (sn_build_stamps s')) = set (dkeys (sn_build_stamps s)) - set (ended_tasks pre) \<and>
     sn_state s' \<in> {sn_state s, RqCleanUp, RqComplete}"
  have "valid (mfor (pipe s) (sn_take_report lim env)) s (\<lambda>_. ?I (pipe s)) (\<lambda>_ _. True)"
  proof (rule valid_mfor)
    fix pre x post s1 assume x: "pipe s = pre @ x # post" and I: "?I pre s1"
    show "valid (sn_take_report lim env x) s1 (\<lambda>_. ?I (pre @ [x])) (\<lambda>_ _. True)"
    proof (cases x)
      case WorkerDied
      have "valid sn_finish_now s1 (\<lambda>_. ?I (pre @ [x])) (\<lambda>_ _. True)"
        by (rule valid_conseq [OF sn_finish_now_inv [of env q0 s1]]) (use I WorkerDied in auto)
      then show ?thesis by (simp add: sn_take_report_def WorkerDied)
    next
      case (TaskEnded task status)
      have "task \<in> set (dkeys (sn_build_stamps s1))" using d x TaskEnded I by auto
      from sn_waitpid_inv [OF t conjunct1 [OF I] this, of lim status]
      have "valid (sn_process_waitpid lim env (task, status)) s1 (\<lambda>_. ?I (pre @ [x])) (\<lambda>_ _. True)"
        by (rule valid_conseq) (use I TaskEnded in \<open>auto simp: reported_def\<close>)
      then show ?thesis by (simp add: sn_take_report_def TaskEnded)
    qed
  qed (use q in simp)
  then have "valid (mfor (pipe s) (sn_take_report lim env)) s
      (\<lambda>_ s'. qinv env q0 s' \<and> sn_state s' \<in> {sn_state s, RqCleanUp, RqComplete}) (\<lambda>_ _. True)"
    by (rule valid_conseq) simp_all
  then show ?thesis by (simp add: sn_read_workers_def)
qed

section \<open>Settling without running\<close>

lemma started_opened:
  assumes q: "qinv env q0 s" and k: "task \<in> set (dkeys (sn_revdeps2 q0))" and r: "task \<notin> set (sn_running s)"
  shows "opened q0 task (s\<lparr>sn_running := sadd task (sn_running s), sn_buildable := sadd task (sn_buildable s), sn_stats := st\<rparr>)"
proof -
  from q have core: "qcore q0 (set (dkeys (sn_build_stamps s))) s" by (simp add: qinv_def)
  from core have sets: "scene_sets (set (dkeys (sn_revdeps2 q0))) (set (sn_running s)) (set (sn_covered s)) (set (sn_notcovered s)) (set (dkeys (sn_build_stamps s)))"
    and c: "counters q0 (set (sn_covered s)) (set (sn_notcovered s)) (set (sn_buildable s)) (set (sn_running s)) (waits s)"
    and log: "scene_log (set (sn_running s)) (waits s) (set (dkeys (sn_build_stamps s))) (sn_actions s)"
    by (simp_all add: qcore_def)
  have "counters q0 (set (sn_covered s)) (set (sn_notcovered s)) (insert task (set (sn_buildable s))) (insert task (set (sn_running s))) (waits s)"
    by (rule counters_grow [OF c]) (use k in auto)
  moreover have "scene_sets (set (dkeys (sn_revdeps2 q0))) (insert task (set (sn_running s))) (set (sn_covered s)) (set (sn_notcovered s))
      (insert task (set (dkeys (sn_build_stamps s))))"
    using sets k r unfolding scene_sets_def by blast
  moreover have "scene_log (insert task (set (sn_running s))) (waits s) (set (dkeys (sn_build_stamps s))) (sn_actions s)"
    using log unfolding scene_log_def by blast
  moreover have "task \<notin> set (dkeys (sn_build_stamps s))" using sets r unfolding scene_sets_def by blast
  ultimately show ?thesis
    using core unfolding opened_def qcore_def fixed_tables_def by (simp del: list.set_map)
qed

text \<open>What settling leaves as it is.\<close>

definition settled_step :: "string \<Rightarrow> scst \<Rightarrow> scst \<Rightarrow> bool" where
  "settled_step task s s' \<longleftrightarrow> sn_build_stamps s' = sn_build_stamps s \<and> sn_state s' = sn_state s \<and> sn_actions s' = sn_actions s \<and>
     st_active (sn_stats s') = st_active (sn_stats s) \<and> st_total (sn_stats s') = st_total (sn_stats s) \<and>
     set (sn_running s') = insert task (set (sn_running s))"

lemma sn_task_skip_inv:
  assumes t: "tables_ok q0" and q: "qinv env q0 s" and k: "task \<in> set (dkeys (sn_revdeps2 q0))" and r: "task \<notin> set (sn_running s)"
  shows "valid (sn_task_skip lim task) s (\<lambda>_ s'. qinv env q0 s' \<and> settled_step task s s') (\<lambda>_ _. True)"
proof -
  let ?s1 = "s\<lparr>sn_running := sadd task (sn_running s), sn_buildable := sadd task (sn_buildable s), sn_stats := sn_stats s\<rparr>"
  let ?st = "\<lambda>s'. taskSkipped 1 (taskCompleted 1 (sn_stats s'))"
  have o: "opened q0 task ?s1" by (rule started_opened [OF q k r])
  have st: "scene_stats env (?st s) (length (sn_build_stamps ?s1)) (Suc (card (settled_of ?s1)))"
    using q unfolding qinv_def scene_stats_def stats_defs by simp
  have "valid (mseq (sn_task_completeoutright lim task) (mmod (\<lambda>s'. s'\<lparr>sn_stats := ?st s'\<rparr>))) ?s1
      (\<lambda>_ s'. qinv env q0 s' \<and> settled_step task s s') (\<lambda>_ _. True)"
    unfolding valid_mbind valid_mmod
  proof (rule valid_conseq [OF settle_cover [OF t o]])
    fix s' assume a: "qcore q0 (set (dkeys (sn_build_stamps s'))) s' \<and> settled_of s' = insert task (settled_of ?s1) \<and> settle_frame ?s1 s'"
    from settled_inv [OF a opened_fresh [OF o] st] a
    show "qinv env q0 (s'\<lparr>sn_stats := ?st s'\<rparr>) \<and> settled_step task s (s'\<lparr>sn_stats := ?st s'\<rparr>)"
      by (simp add: settle_frame_def settled_step_def stats_defs)
  qed simp
  then show ?thesis
    by (simp add: sn_task_skip_def sn_mark_started_def sn_set_buildable_def sn_upd_stats_def)
qed

lemma sn_task_failoutright_inv:
  assumes t: "tables_ok q0" and q: "qinv env q0 s" and k: "task \<in> set (dkeys (sn_revdeps2 q0))" and r: "task \<notin> set (sn_running s)"
  shows "valid (sn_task_failoutright lim task) s (\<lambda>_ s'. qinv env q0 s' \<and> settled_step task s s') (\<lambda>_ _. True)"
proof -
  let ?st = "taskSkipped 1 (taskCompleted 1 (sn_stats s))"
  let ?s1 = "s\<lparr>sn_running := sadd task (sn_running s), sn_buildable := sadd task (sn_buildable s), sn_stats := ?st\<rparr>"
  have o: "opened q0 task ?s1" by (rule started_opened [OF q k r])
  have st: "scene_stats env ?st (length (sn_build_stamps ?s1)) (Suc (card (settled_of ?s1)))"
    using q unfolding qinv_def scene_stats_def stats_defs by simp
  have "valid (sn_notcover lim task) ?s1 (\<lambda>_ s'. qinv env q0 s' \<and> settled_step task s s') (\<lambda>_ _. True)"
  proof (rule valid_conseq [OF settle_lose [OF t o]])
    fix s' assume a: "qcore q0 (set (dkeys (sn_build_stamps s'))) s' \<and> settled_of s' = insert task (settled_of ?s1) \<and> settle_frame ?s1 s'"
    from settled_inv [OF a opened_fresh [OF o] st] have "qinv env q0 (s'\<lparr>sn_stats := ?st\<rparr>)" .
    moreover have "s'\<lparr>sn_stats := ?st\<rparr> = s'" using a by (simp add: settle_frame_def)
    ultimately show "qinv env q0 s' \<and> settled_step task s s'" using a by (simp add: settle_frame_def settled_step_def stats_defs)
  qed simp
  then show ?thesis
    by (simp add: sn_task_failoutright_def sn_mark_started_def sn_set_buildable_def sn_upd_stats_def)
qed

section \<open>Choosing and starting a task\<close>

definition ready :: "scst \<Rightarrow> string \<Rightarrow> bool" where
  "ready s t \<longleftrightarrow> t \<in> set (sn_buildable s) \<and> t \<notin> set (sn_running s) \<and>
     (\<exists>st. dget (sn_stamps s) t = Some st \<and> st \<notin> set (map snd (sn_build_stamps s)))"

lemma scene_ready_spec: "valid (scene_ready t) s (\<lambda>b s'. s' = s \<and> b = ready s t) (\<lambda>_ _. True)"
  by (cases "dget (sn_stamps s) t") (auto simp: scene_ready_def ready_def mitem_of_def ditem_def)

lemma check_dependencies_frame:
  "valid (check_dependencies env task) s (\<lambda>_ s'. \<exists>r. s' = s\<lparr>sn_revdeps := r\<rparr>) (\<lambda>_ _. True)"
proof -
  have r: "\<exists>r. s = s\<lparr>sn_revdeps := r\<rparr>" by (intro exI [of _ "sn_revdeps s"]) simp
  show ?thesis using r by (auto simp: check_dependencies_def mitem_of_def Let_def split: option.split sum.split)
qed

lemma scene_unneeded_frame:
  "valid (scene_unneeded env task) s (\<lambda>_ s'. \<exists>r. s' = s\<lparr>sn_revdeps := r\<rparr>) (\<lambda>_ _. True)"
proof -
  have r: "\<exists>r. s = s\<lparr>sn_revdeps := r\<rparr>" by (intro exI [of _ "sn_revdeps s"]) simp
  show ?thesis using r check_dependencies_frame [of env task s]
    by (auto simp: scene_unneeded_def mitem_of_def split: sum.split)
qed

definition pick_post :: "sceneenv \<Rightarrow> scst \<Rightarrow> string list \<Rightarrow> scst \<Rightarrow> scene_pick \<Rightarrow> scst \<Rightarrow> bool" where
  "pick_post env q0 tasks s pick s' \<longleftrightarrow> qinv env q0 s' \<and> sn_state s' = sn_state s \<and>
     (case pick of
        PickNone \<Rightarrow> s' = s \<and> (\<forall>t \<in> set tasks. \<not> ready s t)
      | PickTask t \<Rightarrow> t \<in> set tasks \<and> ready s' t \<and> sn_stats s' = sn_stats s
      | PickSettled \<Rightarrow> True)"

lemma ready_frame [simp]: "ready (s\<lparr>sn_revdeps := r\<rparr>) t = ready s t" "ready (s\<lparr>sn_stampcache := c\<rparr>) t = ready s t"
  by (simp_all add: ready_def)

lemma ready_key: "qinv env q0 s \<Longrightarrow> ready s t \<Longrightarrow> t \<in> set (dkeys (sn_revdeps2 q0)) \<and> t \<notin> set (sn_running s)"
  unfolding ready_def qinv_def qcore_def by (auto dest: countersD(5) simp del: list.set_map)

lemma scene_search_inv:
  assumes t: "tables_ok q0"
  shows "qinv env q0 s \<Longrightarrow> valid (scene_search lim env tasks) s (pick_post env q0 tasks s) (\<lambda>_ _. True)"
proof (induction tasks arbitrary: s)
  case Nil
  then show ?case by (simp add: pick_post_def)
next
  case (Cons task tasks)
  have settle: "valid (mseq m (mseq (mmod f) (mret PickSettled))) s1 (pick_post env q0 (task # tasks) s) (\<lambda>_ _. True)"
    if "valid m s1 (\<lambda>_ s'. qinv env q0 s' \<and> settled_step task s1 s') (\<lambda>_ _. True)" "sn_state s1 = sn_state s"
      "\<And>s'. qinv env q0 (f s') = qinv env q0 s'" "\<And>s'. sn_state (f s') = sn_state s'" for m :: "(scst, unit) eff" and s1 f
    unfolding valid_mbind valid_mmod valid_mret
    by (rule valid_conseq [OF that(1)]) (use that(2-4) in \<open>auto simp: pick_post_def settled_step_def\<close>)
  show ?case
    unfolding scene_search.simps
  proof (rule valid_bindI [OF scene_ready_spec])
    fix b s1 assume s1: "s1 = s \<and> b = ready s task"
    show "valid (if \<not> b then scene_search lim env tasks
        else mbind (scene_unneeded env task) (\<lambda>unneeded.
          if unneeded \<and> task \<notin> set (ne_target_tids env)
          then mseq (sn_task_skip lim task) (mseq (mmod (\<lambda>s. s\<lparr>sn_notneeded := sadd task (sn_notneeded s)\<rparr>)) (mret PickSettled))
          else mbind (mget (\<lambda>s. task \<in> set (sn_outrightfail s))) (\<lambda>fails.
            if fails then mseq (sn_task_failoutright lim task) (mret PickSettled) else mret (PickTask task))))
        s1 (pick_post env q0 (task # tasks) s) (\<lambda>_ _. True)"
    proof (cases "ready s task")
      case False
      have "valid (scene_search lim env tasks) s (pick_post env q0 (task # tasks) s) (\<lambda>_ _. True)"
        by (rule valid_conseq [OF Cons.IH [OF Cons.prems]]) (use False in \<open>auto simp: pick_post_def split: scene_pick.splits\<close>)
      then show ?thesis using s1 False by simp
    next
      case True
      have "valid (mbind (scene_unneeded env task) (\<lambda>unneeded.
          if unneeded \<and> task \<notin> set (ne_target_tids env)
          then mseq (sn_task_skip lim task) (mseq (mmod (\<lambda>s. s\<lparr>sn_notneeded := sadd task (sn_notneeded s)\<rparr>)) (mret PickSettled))
          else mbind (mget (\<lambda>s. task \<in> set (sn_outrightfail s))) (\<lambda>fails.
            if fails then mseq (sn_task_failoutright lim task) (mret PickSettled) else mret (PickTask task))))
          s (pick_post env q0 (task # tasks) s) (\<lambda>_ _. True)"
      proof (rule valid_bindI [OF scene_unneeded_frame])
        fix u s2 assume "\<exists>r. s2 = s\<lparr>sn_revdeps := r\<rparr>"
        then obtain r where s2: "s2 = s\<lparr>sn_revdeps := r\<rparr>" by blast
        have q2: "qinv env q0 s2" "sn_state s2 = sn_state s" "sn_stats s2 = sn_stats s" using Cons.prems by (simp_all add: s2)
        have r2: "ready s2 task" using True by (simp add: s2)
        note k = ready_key [OF q2(1) r2]
        have sk: "valid (sn_task_skip lim task) s2 (\<lambda>_ s'. qinv env q0 s' \<and> settled_step task s2 s') (\<lambda>_ _. True)"
          using sn_task_skip_inv [OF t q2(1)] k by blast
        have fl: "valid (sn_task_failoutright lim task) s2 (\<lambda>_ s'. qinv env q0 s' \<and> settled_step task s2 s') (\<lambda>_ _. True)"
          using sn_task_failoutright_inv [OF t q2(1)] k by blast
        have f: "valid (mseq (sn_task_failoutright lim task) (mret PickSettled)) s2 (pick_post env q0 (task # tasks) s) (\<lambda>_ _. True)"
          unfolding valid_mbind valid_mret by (rule valid_conseq [OF fl]) (use q2 in \<open>auto simp: pick_post_def settled_step_def\<close>)
        have p: "valid (mret (PickTask task)) s2 (pick_post env q0 (task # tasks) s) (\<lambda>_ _. True)"
          using q2 r2 by (simp add: pick_post_def)
        show "valid (if u \<and> task \<notin> set (ne_target_tids env)
          then mseq (sn_task_skip lim task) (mseq (mmod (\<lambda>s. s\<lparr>sn_notneeded := sadd task (sn_notneeded s)\<rparr>)) (mret PickSettled))
          else mbind (mget (\<lambda>s. task \<in> set (sn_outrightfail s))) (\<lambda>fails.
            if fails then mseq (sn_task_failoutright lim task) (mret PickSettled) else mret (PickTask task)))
          s2 (pick_post env q0 (task # tasks) s) (\<lambda>_ _. True)"
        proof (cases "u \<and> task \<notin> set (ne_target_tids env)")
          case True
          have "valid (mseq (sn_task_skip lim task) (mseq (mmod (\<lambda>s. s\<lparr>sn_notneeded := sadd task (sn_notneeded s)\<rparr>)) (mret PickSettled)))
              s2 (pick_post env q0 (task # tasks) s) (\<lambda>_ _. True)"
            by (rule settle [OF sk q2(2)]) simp_all
          then show ?thesis unfolding if_P [OF True] .
        next
          case False
          then show ?thesis using f p by (simp only: if_False valid_mbind [of "mget _"] valid_mget split: if_split) simp
        qed
      qed
      then show ?thesis using s1 True by simp
    qed
  qed
qed

end
