(* ===== verification/BB_SceneTables.thy ===== *)
theory BB_SceneTables
  imports BB_SceneInv
begin

text \<open>
  The tables the setscene queue starts with: the collapsed graph, changed by the depends flags
  between setscene tasks, its inverse, and the stamps.
\<close>

section \<open>Handing a task down to the entries of others\<close>

definition hand_down :: "string \<Rightarrow> string list \<Rightarrow> tidsets \<Rightarrow> tidsets res" where
  "hand_down x = rfold (\<lambda>k d. rbind (ditem d k) (\<lambda>v. Inr (dset k (sadd x v) d)))"

lemma hand_down_ok:
  assumes "hand_down x ks d = Inr d'"
  shows "dkeys d' = dkeys d \<and> (\<forall>k. set (ddefault d' k) = set (ddefault d k) \<union> (if k \<in> set ks then {x} else {}))"
  using assms
proof (induction ks arbitrary: d)
  case (Cons k ks)
  obtain v where v: "ditem d k = Inr v" and r: "hand_down x ks (dset k (sadd x v) d) = Inr d'"
    using Cons.prems by (auto simp: hand_down_def rbind_eq_Inr)
  have k: "k \<in> set (dkeys d)" "ddefault d k = v" using v unfolding dget_Some_key by (auto simp: ditem_eq_Inr ddefault_def)
  from Cons.IH [OF r] show ?case using dkeys_dset_mem [OF k(1), of "sadd x v"] k(2) by (auto simp: ddefault_dset)
qed (simp add: hand_down_def)

lemma hand_down_all:
  assumes "rfold (\<lambda>(x, ks). hand_down x ks) xs d = Inr d'"
  shows "dkeys d' = dkeys d \<and> (\<forall>k. set (ddefault d' k) = set (ddefault d k) \<union> {x. \<exists>ks. (x, ks) \<in> set xs \<and> k \<in> set ks})"
  using assms
proof (induction xs arbitrary: d)
  case (Cons p xs)
  obtain x ks where p: "p = (x, ks)" by (cases p)
  then obtain d1 where d1: "hand_down x ks d = Inr d1" and r: "rfold (\<lambda>(x, ks). hand_down x ks) xs d1 = Inr d'"
    using Cons.prems by (auto simp: rbind_eq_Inr)
  from hand_down_ok [OF d1] Cons.IH [OF r] show ?case by (auto simp: p)
qed simp

lemma dwf_entry: "dwf d \<Longrightarrow> (\<exists>ks. (x, ks) \<in> set d \<and> k \<in> set ks) \<longleftrightarrow> k \<in> set (ddefault d x)"
  by (auto simp: ddefault_def dest: map_of_SomeD split: option.splits)

lemma restore_hard_ok:
  assumes "restore_hard hard sq = Inr sq'" "dwf hard"
  shows "dkeys sq' = dkeys sq \<and> (\<forall>t. set (ddefault sq' t) = set (ddefault sq t) \<union> {u. (u, t) \<in> hard_rel hard})"
  using hand_down_all [of hard sq sq'] assms dwf_entry [OF assms(2)]
  by (simp add: restore_hard_def hand_down_def hard_rel_def)

lemma scene_deps_ok:
  assumes "scene_deps sq = Inr ds" "dwf sq"
  shows "dkeys ds = dkeys sq \<and> (\<forall>u t. t \<in> set (ddefault ds u) \<longleftrightarrow> u \<in> set (ddefault sq t))"
proof -
  define d0 :: tidsets where "d0 = map (\<lambda>(tid, _). (tid, [])) sq"
  have e: "dkeys d0 = dkeys sq" unfolding d0_def by (induction sq) auto
  have n: "ddefault d0 u = []" for u unfolding d0_def by (induction sq) (auto simp: ddefault_def)
  have "rfold (\<lambda>(x, ks). hand_down x ks) sq d0 = Inr ds" using assms(1) by (simp add: scene_deps_def hand_down_def d0_def)
  from hand_down_all [OF this] show ?thesis unfolding e n dwf_entry [OF assms(2)] by simp
qed

section \<open>The depends flags\<close>

definition scene_stamp :: "sceneenv \<Rightarrow> string \<Rightarrow> string option res" where
  "scene_stamp env t =
     rbind (split_tid_mcfn t) (\<lambda>(mc, fn, tn, tf). rbind (ditem (se_caches env) mc) (\<lambda>dc.
       stampfile (se_scheme env) (tn @ ''_setscene'') dc tf True))"

definition hard_inv :: "tidsets \<Rightarrow> tidsets \<times> tidsets \<Rightarrow> bool" where
  "hard_inv sq0 = (\<lambda>(hard, sq). dwf hard \<and> dwf sq \<and> set (dkeys sq) = set (dkeys sq0) \<union> Domain (hard_rel hard) \<and>
     (\<forall>t. set (ddefault sq t) \<union> {u. (u, t) \<in> hard_rel hard} =
          {u. (u, t) \<in> hard_rel hard} \<union> (if t \<in> Domain (hard_rel hard) then {} else set (ddefault sq0 t))))"

lemma hard_rel_dset: "hard_rel (dset u (sadd t (ddefault hard u)) hard) = insert (u, t) (hard_rel hard)"
  by (auto simp: hard_rel_def ddefault_dset split: if_splits)

lemma hard_step:
  assumes i: "hard_inv sq0 (hard, sq)" and rd: "ditem sq tid = Inr rd"
  shows "hard_inv sq0 (dset u (sadd tid (ddefault hard u)) hard, dset u [] (dset tid (sadd u rd) sq))"
proof -
  let ?H = "hard_rel hard" and ?sq = "dset u [] (dset tid (sadd u rd) sq)"
  have tid: "tid \<in> set (dkeys sq)" "ddefault sq tid = rd" using rd unfolding dget_Some_key by (auto simp: ditem_eq_Inr ddefault_def)
  have e: "set (ddefault sq t) \<union> {u. (u, t) \<in> ?H} = {u. (u, t) \<in> ?H} \<union> (if t \<in> Domain ?H then {} else set (ddefault sq0 t))" for t
    using i unfolding hard_inv_def by blast
  have "set (ddefault ?sq t) \<union> {x. (x, t) \<in> insert (u, tid) ?H} =
      {x. (x, t) \<in> insert (u, tid) ?H} \<union> (if t \<in> Domain (insert (u, tid) ?H) then {} else set (ddefault sq0 t))" for t
  proof -
    consider "t = u" | "t \<noteq> u" "t = tid" | "t \<noteq> u" "t \<noteq> tid" by blast
    then show ?thesis
    proof cases
      case 1
      then show ?thesis by (auto simp: ddefault_dset)
    next
      case 2
      then have "set (ddefault ?sq t) = insert u (set (ddefault sq t))" using tid(2) by (simp add: ddefault_dset)
      moreover have "{x. (x, t) \<in> insert (u, tid) ?H} = insert u {x. (x, t) \<in> ?H}" using 2 by auto
      moreover have "t \<in> Domain (insert (u, tid) ?H) \<longleftrightarrow> t \<in> Domain ?H" using 2 by blast
      ultimately show ?thesis using e [of t] by (simp only: Un_insert_left) simp
    next
      case 3
      then show ?thesis using e [of t] by (simp add: ddefault_dset Domain_iff)
    qed
  qed
  moreover have "dwf hard" "dwf sq" "set (dkeys sq) = set (dkeys sq0) \<union> Domain ?H" using i unfolding hard_inv_def by blast+
  ultimately show ?thesis
    using tid(1) unfolding hard_inv_def prod.case hard_rel_dset set_dkeys_dset by (auto simp: dwf_dset simp del: list.set_map)
qed

lemma hard_dep_inv:
  assumes "hard_dep td es tid p (hard, sq) = Inr r" "hard_inv sq0 (hard, sq)"
  shows "hard_inv sq0 r"
proof (cases p)
  case (Pair depname idt)
  show ?thesis
    using assms hard_step [OF assms(2)]
    by (auto simp: hard_dep_def Pair Let_def rbind_eq_Inr split: option.splits list.splits if_splits)
qed

lemma hard_deps_step:
  assumes "hard_deps_of env es tid (stamps, hs) = Inr (stamps', hs')" "hard_inv sq0 hs"
  shows "hard_inv sq0 hs' \<and> (\<exists>st. stamps' = dset tid st stamps \<and> scene_stamp env tid = Inr st)"
proof -
  obtain hard sq hard' sq' where hs: "hs = (hard, sq)" "hs' = (hard', sq')" by (cases hs; cases hs')
  obtain mc fn tn tf td and te :: taskentry and dc stamp where 1: "split_tid_mcfn tid = Inr (mc, fn, tn, tf)" "ditem (se_caches env) mc = Inr dc"
    "stampfile (se_scheme env) (tn @ ''_setscene'') dc tf True = Inr stamp"
    "rfold (hard_dep td es tid) (te_idepends te) (hard, sq) = Inr (hard', sq')" "stamps' = dset tid stamp stamps"
    using assms(1) by (clarsimp simp: hard_deps_of_def hs rbind_eq_Inr)
  have "hard_inv sq0 (hard', sq')"
    by (rule rfold_invariant [OF 1(4), where P = "hard_inv sq0"]) (use assms(2) hs(1) hard_dep_inv in auto)
  then show ?thesis using 1 hs(2) by (simp add: scene_stamp_def)
qed

lemma hard_deps_inv:
  assumes "rfold (hard_deps_of env es) scene (stamps0, hs0) = Inr (stamps, hs)" "hard_inv sq0 hs0"
    "\<And>t st. dget stamps0 t = Some st \<Longrightarrow> scene_stamp env t = Inr st"
  shows "hard_inv sq0 hs \<and> set (dkeys stamps) = set (dkeys stamps0) \<union> set scene \<and>
    (\<forall>t st. dget stamps t = Some st \<longrightarrow> scene_stamp env t = Inr st)"
  using assms
proof (induction scene arbitrary: stamps0 hs0)
  case (Cons tid scene)
  obtain stamps1 hs1 where 1: "hard_deps_of env es tid (stamps0, hs0) = Inr (stamps1, hs1)"
    and r: "rfold (hard_deps_of env es) scene (stamps1, hs1) = Inr (stamps, hs)"
    using Cons.prems(1) by (auto simp: rbind_eq_Inr)
  from hard_deps_step [OF 1 Cons.prems(2)] obtain st where st: "hard_inv sq0 hs1" "stamps1 = dset tid st stamps0"
    "scene_stamp env tid = Inr st" by (elim exE conjE)
  have "scene_stamp env t = Inr x" if "dget stamps1 t = Some x" for t x
    using that st(3) Cons.prems(3) by (auto simp: st(2) dget_dset split: if_splits)
  from Cons.IH [OF r st(1) this] show ?case by (simp add: st(2) set_dkeys_dset del: list.set_map)
qed simp

section \<open>The state the queue starts with\<close>

definition stamps_known :: "sceneenv \<Rightarrow> scst \<Rightarrow> bool" where
  "stamps_known env q0 \<longleftrightarrow> (\<forall>t st. dget (sn_stamps q0) t = Some st \<longrightarrow> scene_stamp env t = Inr st)"

text \<open>What the tables say, and that nothing was done yet.\<close>

definition scene_begun :: "sceneenv \<Rightarrow> tidsets \<Rightarrow> scst \<Rightarrow> bool" where
  "scene_begun env sq q0 \<longleftrightarrow> tables_ok q0 \<and> stamps_known env q0 \<and>
     set (dkeys (sn_stamps q0)) = set (xe_setscene_tids env) \<and> sn_revdeps q0 = sn_revdeps2 q0 \<and> dwf (sn_revdeps q0) \<and>
     set (dkeys (sn_revdeps2 q0)) = set (dkeys sq) \<union> Domain (hard_rel (sn_harddeps q0)) \<and>
     (\<forall>t. waits q0 t = {u. (u, t) \<in> hard_rel (sn_harddeps q0)} \<union>
        (if t \<in> Domain (hard_rel (sn_harddeps q0)) then {} else set (ddefault sq t)))"

lemma squash_dwf:
  assumes "squash es scene w = Inr sq"
  shows "dwf sq"
  by (rule rfold_invariant [OF assms [unfolded squash_def], where P = dwf])
    (auto simp: rbind_eq_Inr dwf_dset split: if_splits)

lemma scene_tables_begun:
  assumes "scene_tables fuel env es = Some (Inr q0)"
  shows "\<exists>us sq. scene_graph fuel es (xe_setscene_tids env) = Some (Inr (us, sq)) \<and> scene_begun env sq q0 \<and>
    (0 < xe_number_tasks env \<longrightarrow> qinv env q0 q0) \<and> sn_state q0 = RqSceneInit"
proof -
  let ?scene = "xe_setscene_tids env"
  obtain us sq0 stamps hard sq1 sq deps where g: "scene_graph fuel es ?scene = Some (Inr (us, sq0))"
    and h: "rfold (hard_deps_of env es) ?scene ([], ([], sq0)) = Inr (stamps, (hard, sq1))"
    and r: "restore_hard hard sq1 = Inr sq" and d: "scene_deps sq = Inr deps"
    and q0: "q0 = scst_init\<lparr>sn_stats := stats_init (int (length ?scene)), sn_harddeps := hard,
               sn_stamps := stamps, sn_revdeps := sq, sn_revdeps2 := sq, sn_deps := deps,
               sn_unskippable := us, sn_buildable := map fst (filter (\<lambda>(_, rd). rd = []) sq)\<rparr>"
    using assms by (auto simp: scene_tables_def Let_def rbind_eq_Inr)
  obtain w where "squash es ?scene w = Inr sq0"
    using g by (auto simp: scene_graph_def rbind_eq_Inr split: option.splits sum.splits)
  then have w0: "dwf sq0" by (rule squash_dwf)
  have "hard_inv sq0 ([], sq0)" using w0 by (simp add: hard_inv_def hard_rel_def ddefault_def)
  from hard_deps_inv [OF h this] have i: "hard_inv sq0 (hard, sq1)" "set (dkeys stamps) = set ?scene"
    "\<forall>t st. dget stamps t = Some st \<longrightarrow> scene_stamp env t = Inr st" by simp_all
  have i1: "dwf hard" "dwf sq1" "set (dkeys sq1) = set (dkeys sq0) \<union> Domain (hard_rel hard)"
    "set (ddefault sq1 t) \<union> {u. (u, t) \<in> hard_rel hard} =
       {u. (u, t) \<in> hard_rel hard} \<union> (if t \<in> Domain (hard_rel hard) then {} else set (ddefault sq0 t))" for t
    using i(1) unfolding hard_inv_def by blast+
  note R = restore_hard_ok [OF r i1(1)]
  have w: "dwf sq" using R i1(2) by simp
  note D = scene_deps_ok [OF d w]
  have wt: "waits q0 t = {u. (u, t) \<in> hard_rel hard} \<union> (if t \<in> Domain (hard_rel hard) then {} else set (ddefault sq0 t))" for t
    using R i1(4) [of t] by (simp add: waits_def q0)
  have dp: "t \<in> dep_of q0 u \<longleftrightarrow> u \<in> waits q0 t" for u t using D by (simp add: dep_of_def waits_def q0)
  have t: "tables_ok q0"
    unfolding tables_ok_def dp using D wt by (auto simp: q0)
  have b: "scene_begun env sq0 q0"
    using t i wt w R i1(3) unfolding scene_begun_def stamps_known_def by (simp add: q0 del: list.set_map)
  have eb: "t \<in> set (sn_buildable q0) \<longleftrightarrow> t \<in> set (dkeys sq) \<and> waits q0 t = {}" for t
  proof -
    have "t \<in> set (sn_buildable q0) \<longleftrightarrow> dget sq t = Some []" using w by (force simp: q0 dest: map_of_SomeD)
    then show ?thesis unfolding dget_Some_key by (auto simp: waits_def q0 ddefault_def split: option.splits)
  qed
  have "counters q0 {} {} (set (sn_buildable q0)) {} (waits q0)"
    by (rule countersI) (use eb in \<open>auto simp: q0 lost_def simp del: list.set_map\<close>)
  then have "0 < xe_number_tasks env \<longrightarrow> qinv env q0 q0"
    by (simp add: qinv_def qcore_def fixed_tables_def scene_sets_def scene_stats_def scene_stamps_def scene_log_def settled_of_def
      q0 scst_init_def stats_defs sn_sent_def sn_ended_def)
  then show ?thesis using g b by (auto simp: q0 scst_init_def)
qed

end
