(* ===== verification/BB_SceneRun.thy ===== *)
theory BB_SceneRun
  imports BB_SceneTables
begin

text \<open>
  The setscene queue keeps its invariant: the start of a task, one call of \<open>execute\<close> and of
  \<open>finish\<close>, the construction of the tables and the hash check; the states the queue can reach.
\<close>

section \<open>Starting a task\<close>

lemma update_fresh: "k \<notin> set (dkeys d) \<Longrightarrow> dset k v d = d @ [(k, v)]"
  by (induction d) auto

lemma scene_started:
  assumes q: "qinv env q0 s" and r: "ready s t" and a: "st_active (sn_stats s) < xe_number_tasks env"
    and st: "dget (sn_stamps s) t = Some st" and as: "sn_sent as = [t]" "sn_ended as = []"
  shows "qinv env q0 (s\<lparr>sn_fakeworkers := fw, sn_actions := sn_actions s @ as, sn_build_stamps := dset t st (sn_build_stamps s),
    sn_build_stamps2 := sn_build_stamps2 s @ [st], sn_running := sadd t (sn_running s), sn_stats := taskActive (sn_stats s)\<rparr>)"
proof -
  let ?bs = "sn_build_stamps s" and ?K = "set (dkeys (sn_revdeps2 q0))"
  from q have core: "qcore q0 (set (dkeys ?bs)) s" and stat: "scene_stats env (sn_stats s) (length ?bs) (card (settled_of s))"
    by (simp_all add: qinv_def)
  from core have ft: "fixed_tables q0 s"
    and sets: "scene_sets ?K (set (sn_running s)) (set (sn_covered s)) (set (sn_notcovered s)) (set (dkeys ?bs))"
    and c: "counters q0 (set (sn_covered s)) (set (sn_notcovered s)) (set (sn_buildable s)) (set (sn_running s)) (waits s)"
    and sp: "scene_stamps q0 ?bs (sn_build_stamps2 s)"
    and log: "scene_log (set (sn_running s)) (waits s) (set (dkeys ?bs)) (sn_actions s)"
    by (simp_all add: qcore_def)
  have t: "t \<in> ?K" "t \<notin> set (sn_running s)" using ready_key [OF q r] by simp_all
  have fresh: "t \<notin> set (dkeys ?bs)" using sets t(2) unfolding scene_sets_def by blast
  have n: "st \<notin> set (map snd ?bs)" using r st by (simp add: ready_def)
  have w: "waits s t = {}" using countersD(5) [OF c, of t] r t(2) by (simp add: ready_def)
  have dn: "dset t st ?bs = ?bs @ [(t, st)]" by (rule update_fresh [OF fresh])
  have "scene_sets ?K (insert t (set (sn_running s))) (set (sn_covered s)) (set (sn_notcovered s)) (insert t (set (dkeys ?bs)))"
    using sets t unfolding scene_sets_def by blast
  moreover have "counters q0 (set (sn_covered s)) (set (sn_notcovered s)) (set (sn_buildable s)) (insert t (set (sn_running s))) (waits s)"
    by (rule counters_grow [OF c]) auto
  moreover have "scene_stamps q0 (dset t st ?bs) (sn_build_stamps2 s @ [st])"
  proof -
    have "st \<notin> set (sn_build_stamps2 s)"
      using sp n unfolding scene_stamps_def by (metis set_mset_mset)
    moreover have "dget (sn_stamps q0) t = Some st" using ft st by (simp add: fixed_tables_def)
    ultimately show ?thesis using sp fresh unfolding scene_stamps_def dget_dset by (simp add: dn dwf_dset)
  qed
  moreover have "scene_log (insert t (set (sn_running s))) (waits s) (insert t (set (dkeys ?bs))) (sn_actions s @ as)"
    using log t(2) w unfolding scene_log_def by (auto simp: as)
  ultimately have "qcore q0 (set (dkeys (dset t st ?bs))) (s\<lparr>sn_fakeworkers := fw, sn_actions := sn_actions s @ as, sn_build_stamps := dset t st ?bs,
    sn_build_stamps2 := sn_build_stamps2 s @ [st], sn_running := sadd t (sn_running s), sn_stats := taskActive (sn_stats s)\<rparr>)"
    using ft unfolding qcore_def fixed_tables_def by (simp add: set_dkeys_dset del: list.set_map)
  moreover have "scene_stats env (taskActive (sn_stats s)) (length (dset t st ?bs)) (card (settled_of s))"
    using stat a by (simp add: scene_stats_def stats_defs dn)
  ultimately show ?thesis by (simp add: qinv_def settled_of_def)
qed

lemma scene_start_inv:
  assumes q: "qinv env q0 s" and r: "ready s t" and a: "st_active (sn_stats s) < xe_number_tasks env" and k: "stamps_known env q0"
  shows "valid (scene_start env spawn t) s (\<lambda>r s'. qinv env q0 s' \<and> sn_state s' = sn_state s \<and>
    (r = None \<longrightarrow> st_active (sn_stats s') > 0)) (\<lambda>_ _. True)"
proof -
  obtain st where st: "dget (sn_stamps s) t = Some st" using r by (auto simp: ready_def)
  have "dget (sn_stamps q0) t = Some st" using q st by (simp add: qinv_def qcore_def fixed_tables_def)
  then have e: "scene_stamp env t = Inr st" using k unfolding stamps_known_def by blast
  have pos: "st_active (taskActive (sn_stats s)) > 0" using q by (simp add: qinv_def scene_stats_def stats_defs)
  have go: "qinv env q0 (s\<lparr>sn_actions := sn_actions s @ [SnStarted t, SnRunTask tf t tn b], sn_build_stamps := dset t st (sn_build_stamps s),
      sn_build_stamps2 := sn_build_stamps2 s @ [st], sn_running := sadd t (sn_running s), sn_stats := taskActive (sn_stats s)\<rparr>)"
    "qinv env q0 (s\<lparr>sn_fakeworkers := fw, sn_actions := sn_actions s @ [SnStarted t, SnStartFakeworker mc, SnRunTask tf t tn b],
      sn_build_stamps := dset t st (sn_build_stamps s),
      sn_build_stamps2 := sn_build_stamps2 s @ [st], sn_running := sadd t (sn_running s), sn_stats := taskActive (sn_stats s)\<rparr>)"
    for tf tn b mc fw
    using scene_started [OF q r a st, of "[SnStarted t, SnRunTask tf t tn b]" "sn_fakeworkers s"]
      scene_started [OF q r a st, of "[SnStarted t, SnStartFakeworker mc, SnRunTask tf t tn b]" fw]
    by (simp_all add: sn_sent_def sn_ended_def)
  show ?thesis
    using e pos go
    by (auto simp: scene_start_def scene_stamp_def Let_def sn_do_def sn_upd_stats_def rbind_eq_Inr
      split: sum.split prod.split option.split)
qed

text \<open>Whether the stamp of a task is current only fills the cache.\<close>

lemma sn_stamp_current_frame:
  "valid (sn_stamp_current env mt es t tn b) s (\<lambda>_ s'. \<exists>c. s' = s\<lparr>sn_stampcache := c\<rparr>) (\<lambda>_ _. True)"
  by (auto simp: sn_stamp_current_def split: sum.split prod.split)

definition run_task_post :: "sceneenv \<Rightarrow> scst \<Rightarrow> scst \<Rightarrow> retval option \<Rightarrow> scst \<Rightarrow> bool" where
  "run_task_post env q0 s r s' \<longleftrightarrow> qinv env q0 s' \<and> sn_state s' = sn_state s \<and> (r = None \<longrightarrow> st_active (sn_stats s') > 0)"

lemma scene_run_inv:
  assumes t: "tables_ok q0" and k: "stamps_known env q0" and q: "qinv env q0 s" and r: "ready s task"
    and a: "st_active (sn_stats s) < xe_number_tasks env"
  shows "valid (scene_run lim env mt es spawn task) s (run_task_post env q0 s) (\<lambda>_ _. True)"
proof -
  have skip: "valid (mseq (sn_task_skip lim task) (mret (Some RTrue))) s1 (run_task_post env q0 s) (\<lambda>_ _. True)"
    and fail: "valid (mseq (sn_task_failoutright lim task) (mret (Some RTrue))) s1 (run_task_post env q0 s) (\<lambda>_ _. True)"
    and start: "valid (scene_start env spawn task) s1 (run_task_post env q0 s) (\<lambda>_ _. True)"
    if s1: "s1 = s\<lparr>sn_stampcache := c\<rparr>" for s1 c
  proof -
    have q1: "qinv env q0 s1" "sn_state s1 = sn_state s" "ready s1 task" "st_active (sn_stats s1) < xe_number_tasks env"
      using q r a by (simp_all add: s1)
    note f = ready_key [OF q1(1,3)]
    show "valid (mseq (sn_task_skip lim task) (mret (Some RTrue))) s1 (run_task_post env q0 s) (\<lambda>_ _. True)"
      unfolding valid_mbind valid_mret
      by (rule valid_conseq [OF sn_task_skip_inv [OF t q1(1)]]) (use f q1(2) in \<open>auto simp: run_task_post_def settled_step_def\<close>)
    show "valid (mseq (sn_task_failoutright lim task) (mret (Some RTrue))) s1 (run_task_post env q0 s) (\<lambda>_ _. True)"
      unfolding valid_mbind valid_mret
      by (rule valid_conseq [OF sn_task_failoutright_inv [OF t q1(1)]]) (use f q1(2) in \<open>auto simp: run_task_post_def settled_step_def\<close>)
    show "valid (scene_start env spawn task) s1 (run_task_post env q0 s) (\<lambda>_ _. True)"
      by (rule valid_conseq [OF scene_start_inv [OF q1(1,3,4) k]]) (use q1(2) in \<open>auto simp: run_task_post_def\<close>)
  qed
  show ?thesis
  proof (cases "split_tid_mcfn task")
    case (Inr w)
    obtain mc fn tn tf where w: "w = (mc, fn, tn, tf)" by (cases w)
    show ?thesis
      unfolding scene_run_def Inr w valid_mbind [of "mlift _"] valid_mlift sum.case prod.case
    proof (rule valid_bindI [OF sn_stamp_current_frame])
      fix b s1 assume "\<exists>c. s1 = s\<lparr>sn_stampcache := c\<rparr>"
      then obtain c where s1: "s1 = s\<lparr>sn_stampcache := c\<rparr>" by blast
      have last: "valid (mbind (sn_stamp_current env mt es task (tn @ ''_setscene'') False) (\<lambda>current.
          if current then mseq (sn_task_skip lim task) (mret (Some RTrue)) else scene_start env spawn task)) s1
          (run_task_post env q0 s) (\<lambda>_ _. True)"
      proof (rule valid_bindI [OF sn_stamp_current_frame])
        fix b2 s2 assume "\<exists>c. s2 = s1\<lparr>sn_stampcache := c\<rparr>"
        then obtain c2 where s2: "s2 = s\<lparr>sn_stampcache := c2\<rparr>" using s1 by auto
        show "valid (if b2 then mseq (sn_task_skip lim task) (mret (Some RTrue)) else scene_start env spawn task) s2
            (run_task_post env q0 s) (\<lambda>_ _. True)"
          using skip [OF s2] start [OF s2] by (cases b2) (simp_all only: if_True if_False)
      qed
      show "valid (if b then mseq (sn_task_failoutright lim task) (mret (Some RTrue))
          else if ne_force env \<and> task \<in> set (ne_target_tids env)
          then mseq (sn_task_failoutright lim task) (mret (Some RTrue))
          else mbind (sn_stamp_current env mt es task (tn @ ''_setscene'') False) (\<lambda>current.
            if current then mseq (sn_task_skip lim task) (mret (Some RTrue)) else scene_start env spawn task)) s1
          (run_task_post env q0 s) (\<lambda>_ _. True)"
        using fail [OF s1] last by (simp only: split: if_split) blast
    qed
  qed (simp add: scene_run_def)
qed

section \<open>One call of execute or finish\<close>

text \<open>Nothing under way and nothing left that could start.\<close>

definition drained :: "sceneenv \<Rightarrow> scst \<Rightarrow> bool" where
  "drained env s \<longleftrightarrow> sn_build_stamps s = [] \<and> (\<forall>t \<in> set (xe_setscene_tids env). \<not> ready s t)"

lemma drained_frame [simp]: "drained env (s\<lparr>sn_state := q\<rparr>) = drained env s" "drained env (s\<lparr>sn_actions := x\<rparr>) = drained env s"
  by (simp_all add: drained_def ready_def)

definition qstate :: "sceneenv \<Rightarrow> scst \<Rightarrow> scst \<Rightarrow> bool" where
  "qstate env q0 s \<longleftrightarrow> qinv env q0 s \<and> (sn_state s = RqRunInit \<longrightarrow> drained env s)"

lemma scene_rest_inv:
  assumes t: "tables_ok q0" and p: "scene_pipe_ok pipe" and q: "qinv env q0 s" and n: "sn_state s \<noteq> RqRunInit"
    and r: "st_active (sn_stats s) > 0 \<or> (\<forall>t \<in> set (xe_setscene_tids env). \<not> ready s t)"
  shows "valid (scene_rest lim env pipe) s (\<lambda>_ s'. qstate env q0 s') (\<lambda>_ _. True)"
proof (cases "st_active (sn_stats s) > 0")
  case True
  have "valid (sn_read_workers lim env pipe) s (\<lambda>_ s'. qstate env q0 s') (\<lambda>_ _. True)"
    by (rule valid_conseq [OF sn_read_inv [OF t q p]]) (use n in \<open>auto simp: qstate_def\<close>)
  then show ?thesis using True by (simp add: scene_rest_def)
next
  case False
  have "length (sn_build_stamps s) = 0" using q False by (simp add: qinv_def scene_stats_def)
  then have "drained env s" using r False by (simp add: drained_def)
  then show ?thesis using False q
    by (simp add: scene_rest_def sn_set_state_def sn_do_def qstate_def qinv_action)
qed

lemma scene_execute_inv:
  assumes t: "tables_ok q0" and k: "stamps_known env q0" and p: "scene_pipe_ok p1" "scene_pipe_ok p2"
    and q: "qinv env q0 s" and n: "sn_state s \<noteq> RqRunInit"
  shows "valid (scene_execute lim env mt es spawn p1 p2) s (\<lambda>_ s'. qstate env q0 s') (\<lambda>_ _. True)"
  unfolding scene_execute_def
proof (rule valid_bindI [OF sn_read_inv [OF t q p(1)]])
  fix u s1 assume s1: "qinv env q0 s1 \<and> sn_state s1 \<in> {sn_state s, RqCleanUp, RqComplete}"
  then have q1: "qinv env q0 s1" "sn_state s1 \<noteq> RqRunInit" using n by auto
  let ?room = "st_active (sn_stats s1) < xe_number_tasks env"
  let ?next = "\<lambda>pick. case pick of PickSettled \<Rightarrow> mret RTrue | PickNone \<Rightarrow> scene_rest lim env p2
      | PickTask task \<Rightarrow> mbind (scene_run lim env mt es spawn task) (\<lambda>r. case r of Some v \<Rightarrow> mret v | None \<Rightarrow> scene_rest lim env p2)"
  have "valid (mbind (if ?room then scene_search lim env (xe_setscene_tids env) else mret PickNone) ?next) s1
      (\<lambda>_ s'. qstate env q0 s') (\<lambda>_ _. True)"
  proof (cases ?room)
    case False
    then have "st_active (sn_stats s1) > 0" using q1(1) by (simp add: qinv_def scene_stats_def)
    then show ?thesis using False scene_rest_inv [OF t p(2) q1] by simp
  next
    case True
    have "valid (mbind (scene_search lim env (xe_setscene_tids env)) ?next) s1 (\<lambda>_ s'. qstate env q0 s') (\<lambda>_ _. True)"
    proof (rule valid_bindI [OF scene_search_inv [OF t q1(1)]])
      fix pick s2 assume post: "pick_post env q0 (xe_setscene_tids env) s1 pick s2"
      then have q2: "qinv env q0 s2" "sn_state s2 \<noteq> RqRunInit" using q1(2) by (simp_all add: pick_post_def)
      show "valid (?next pick) s2 (\<lambda>_ s'. qstate env q0 s') (\<lambda>_ _. True)"
      proof (cases pick)
        case PickNone
        then have "\<forall>t \<in> set (xe_setscene_tids env). \<not> ready s2 t" using post by (simp add: pick_post_def)
        then show ?thesis using PickNone scene_rest_inv [OF t p(2) q2] by simp
      next
        case PickSettled
        then show ?thesis using q2 by (simp add: qstate_def)
      next
        case (PickTask task)
        then have r: "ready s2 task" "st_active (sn_stats s2) < xe_number_tasks env"
          using post True by (simp_all add: pick_post_def)
        have "valid (mbind (scene_run lim env mt es spawn task) (\<lambda>r. case r of Some v \<Rightarrow> mret v | None \<Rightarrow> scene_rest lim env p2)) s2
            (\<lambda>_ s'. qstate env q0 s') (\<lambda>_ _. True)"
        proof (rule valid_bindI [OF scene_run_inv [OF t k q2(1) r]])
          fix v s3 assume v: "run_task_post env q0 s2 v s3"
          then have q3: "qinv env q0 s3" "sn_state s3 \<noteq> RqRunInit" using q2(2) by (simp_all add: run_task_post_def)
          show "valid (case v of Some v \<Rightarrow> mret v | None \<Rightarrow> scene_rest lim env p2) s3 (\<lambda>_ s'. qstate env q0 s') (\<lambda>_ _. True)"
            using v scene_rest_inv [OF t p(2) q3] q3 by (cases v) (simp_all add: run_task_post_def qstate_def)
        qed
        then show ?thesis using PickTask by simp
      qed
    qed
    then show ?thesis using True by (simp only: if_True)
  qed
  then show "valid (mbind (mget (\<lambda>s. st_active (sn_stats s) < xe_number_tasks env)) (\<lambda>room.
      mbind (if room then scene_search lim env (xe_setscene_tids env) else mret PickNone) ?next)) s1
      (\<lambda>_ s'. qstate env q0 s') (\<lambda>_ _. True)"
    unfolding valid_mbind [of "mget _"] valid_mget .
qed

lemma scene_finish_inv:
  assumes t: "tables_ok q0" and p: "scene_pipe_ok pipe" and q: "qinv env q0 s"
  shows "valid (scene_finish lim env pipe) s (\<lambda>_ s'. qstate env q0 s') (\<lambda>_ _. True)"
proof (cases "st_active (sn_stats s) > 0")
  case True
  let ?s = "s\<lparr>sn_state := RqCleanUp, sn_actions := sn_actions s @ [SnExitWait (st_active (sn_stats s))]\<rparr>"
  have q1: "qinv env q0 (s\<lparr>sn_state := RqCleanUp\<rparr>)" using q by simp
  have "qinv env q0 ?s" using qinv_action [of "SnExitWait (st_active (sn_stats s))" env q0 "s\<lparr>sn_state := RqCleanUp\<rparr>"] q1 by simp
  then have "valid (sn_read_workers lim env pipe) ?s (\<lambda>_ s'. qstate env q0 s') (\<lambda>_ _. True)"
    by (rule valid_conseq [OF sn_read_inv [OF t _ p]]) (auto simp: qstate_def)
  then show ?thesis using True by (simp add: scene_finish_def sn_set_state_def sn_do_def)
next
  case False
  then show ?thesis using q by (simp add: scene_finish_def sn_set_state_def sn_do_def qstate_def)
qed

section \<open>The hash check\<close>

definition hashed :: "sceneenv \<Rightarrow> scst \<Rightarrow> scst \<Rightarrow> string list \<Rightarrow> scst \<Rightarrow> bool" where
  "hashed env q0 s tids s' \<longleftrightarrow> qinv env q0 s' \<and> sn_state s' = sn_state s \<and>
     set (sn_running s') \<subseteq> set (sn_running s) \<union> set tids"

lemma hash_arg_inv:
  assumes t: "tables_ok q0" and h: "hashed env q0 s pre s1" and k: "tid \<in> set (dkeys (sn_revdeps2 q0))" "tid \<notin> set (sn_running s1)"
  shows "valid (hash_arg lim env mt es tid ha) s1 (\<lambda>_. hashed env q0 s (pre @ [tid])) (\<lambda>_ _. True)"
proof -
  have skip: "valid (mseq (sn_task_skip lim tid) (mret x)) s2 (\<lambda>_. hashed env q0 s (pre @ [tid])) (\<lambda>_ _. True)"
    if s2: "s2 = s1\<lparr>sn_stampcache := c\<rparr>" for s2 c and x :: hashargs
  proof -
    have q: "qinv env q0 s2" "tid \<notin> set (sn_running s2)" using h k by (simp_all add: s2 hashed_def)
    show ?thesis
      unfolding valid_mbind valid_mret
      by (rule valid_conseq [OF sn_task_skip_inv [OF t q(1) k(1) q(2)]]) (use h in \<open>auto simp: hashed_def settled_step_def s2\<close>)
  qed
  have noexec: "valid (mseq (sn_task_skip lim tid) (mseq (sn_do (SnMakeStamp tid)) (mret x))) s1
      (\<lambda>_. hashed env q0 s (pre @ [tid])) (\<lambda>_ _. True)" for x :: hashargs
    unfolding valid_mbind valid_mret sn_do_def valid_mmod
    by (rule valid_conseq [OF sn_task_skip_inv [OF t _ k]]) (use h in \<open>auto simp: hashed_def settled_step_def qinv_action\<close>)
  have kept: "hashed env q0 s (pre @ [tid]) (s1\<lparr>sn_stampcache := c\<rparr>)" for c using h by (auto simp: hashed_def)
  show ?thesis
  proof (cases "split_tid_mcfn tid")
    case (Inr w)
    obtain mc fn tn tf where w: "w = (mc, fn, tn, tf)" by (cases w)
    let ?last = "\<lambda>dc. mbind (sn_stamp_current env mt es tid tn True) (\<lambda>current.
         if current then mseq (sn_task_skip lim tid) (mret (ha\<lparr>ha_present := ha_present ha @ [tid]\<rparr>))
         else mbind (mlift (ditem (dc_hashfn dc) tf)) (\<lambda>hfn.
              mbind (mlift (ditem es tid)) (\<lambda>e.
                mret (ha\<lparr>ha_args := ha_args ha @ [(fn, tn, rt_hash e, hfn)], ha_tasks := ha_tasks ha @ [tid]\<rparr>))))"
    have last: "valid (?last dc) s2 (\<lambda>_. hashed env q0 s (pre @ [tid])) (\<lambda>_ _. True)"
      if s2: "s2 = s1\<lparr>sn_stampcache := c\<rparr>" for s2 c dc
    proof (rule valid_bindI [OF sn_stamp_current_frame])
      fix b s3 assume "\<exists>c. s3 = s2\<lparr>sn_stampcache := c\<rparr>"
      then obtain c3 where s3: "s3 = s1\<lparr>sn_stampcache := c3\<rparr>" using s2 by auto
      note skip [OF s3] kept [of c3]
      then show "valid (if b then mseq (sn_task_skip lim tid) (mret (ha\<lparr>ha_present := ha_present ha @ [tid]\<rparr>))
         else mbind (mlift (ditem (dc_hashfn dc) tf)) (\<lambda>hfn.
              mbind (mlift (ditem es tid)) (\<lambda>e.
                mret (ha\<lparr>ha_args := ha_args ha @ [(fn, tn, rt_hash e, hfn)], ha_tasks := ha_tasks ha @ [tid]\<rparr>)))) s3
         (\<lambda>_. hashed env q0 s (pre @ [tid])) (\<lambda>_ _. True)"
        by (cases b) (simp_all only: if_True if_False valid_mbind [of "mlift _"] valid_mlift valid_mret s3 split: sum.split, simp_all)
    qed
    have mid: "valid (mbind (sn_stamp_current env mt es tid (tn @ ''_setscene'') False) (\<lambda>current.
       if current then mseq (sn_task_skip lim tid) (mret (ha\<lparr>ha_present := ha_present ha @ [tid]\<rparr>)) else ?last dc)) s1
       (\<lambda>_. hashed env q0 s (pre @ [tid])) (\<lambda>_ _. True)" for dc
    proof (rule valid_bindI [OF sn_stamp_current_frame])
      fix b s2 assume "\<exists>c. s2 = s1\<lparr>sn_stampcache := c\<rparr>"
      then obtain c where s2: "s2 = s1\<lparr>sn_stampcache := c\<rparr>" by blast
      show "valid (if b then mseq (sn_task_skip lim tid) (mret (ha\<lparr>ha_present := ha_present ha @ [tid]\<rparr>)) else ?last dc) s2
         (\<lambda>_. hashed env q0 s (pre @ [tid])) (\<lambda>_ _. True)"
        using skip [OF s2] last [OF s2] by (cases b) (simp_all only: if_True if_False)
    qed
    show ?thesis
      unfolding hash_arg_def Inr w valid_mbind [of "mlift _"] valid_mlift sum.case prod.case
      using noexec mid by (auto split: sum.split simp del: valid_mbind simp: valid_mbind [of "mlift _"])
  qed (simp add: hash_arg_def)
qed

end
