(* ===== verification/BB_SceneExec.thy ===== *)
theory BB_SceneExec
  imports BB_SceneRun BB_ExecProps
begin

text \<open>
  The setscene queue from its start to its end: the hash check, the states it can reach, and its
  properties in each of them.
\<close>

section \<open>The first state\<close>

lemma hash_args_inv:
  assumes t: "tables_ok q0"
  shows "hashed env q0 s pre s1 \<Longrightarrow> set (sn_running s) = {} \<Longrightarrow> distinct (pre @ tids) \<Longrightarrow>
    set tids \<subseteq> set (dkeys (sn_revdeps2 q0)) \<Longrightarrow>
    valid (hash_args lim env mt es tids ha) s1 (\<lambda>_. hashed env q0 s (pre @ tids)) (\<lambda>_ _. True)"
proof (induction tids arbitrary: pre s1 ha)
  case (Cons tid tids)
  have k: "tid \<in> set (dkeys (sn_revdeps2 q0))" using Cons.prems(4) by simp
  have r: "tid \<notin> set (sn_running s1)" using Cons.prems(1-3) unfolding hashed_def by auto
  show ?case
    unfolding hash_args.simps
  proof (rule valid_bindI [OF hash_arg_inv [OF t Cons.prems(1) k r]])
    fix h s2 assume "hashed env q0 s (pre @ [tid]) s2"
    from Cons.IH [OF this Cons.prems(2)] Cons.prems(3,4)
    show "valid (hash_args lim env mt es tids h) s2 (\<lambda>_. hashed env q0 s (pre @ tid # tids)) (\<lambda>_ _. True)" by simp
  qed
qed simp

lemma check_hashes_inv:
  assumes t: "tables_ok q0" and q: "qinv env q0 q0" and d: "dwf (sn_revdeps q0)" and e: "sn_revdeps q0 = sn_revdeps2 q0"
    and r: "sn_running q0 = []"
  shows "valid (check_hashes lim env mt es) q0 (\<lambda>_ s'. qinv env q0 s' \<and> sn_state s' = sn_state q0) (\<lambda>_ _. True)"
proof (cases "ne_hashvalidate env")
  case (Some validate)
  let ?tids = "dkeys (sn_revdeps q0)" and ?h0 = "\<lparr>ha_args = [], ha_tasks = [], ha_noexec = [], ha_present = []\<rparr>"
  have h: "hashed env q0 q0 [] q0" using q by (simp add: hashed_def)
  have "valid (hash_args lim env mt es ?tids ?h0) q0 (\<lambda>_. hashed env q0 q0 ([] @ ?tids)) (\<lambda>_ _. True)"
    by (rule hash_args_inv [OF t h]) (use d e r in simp_all)
  then have "valid (mbind (hash_args lim env mt es ?tids ?h0) (\<lambda>h.
        mbind (mlift (rbind (validate (ha_args h)) (rmap (py_index (ha_tasks h))))) (\<lambda>valid.
        mmod (\<lambda>s. s\<lparr>sn_outrightfail := filter (\<lambda>tid. tid \<notin> set (ha_present h @ valid) \<and> tid \<notin> set (ha_noexec h)) ?tids\<rparr>)))) q0
      (\<lambda>_ s'. qinv env q0 s' \<and> sn_state s' = sn_state q0) (\<lambda>_ _. True)"
    by (rule valid_bindI) (auto simp: hashed_def split: sum.split)
  then show ?thesis by (simp add: check_hashes_def Some)
qed (use q in \<open>simp add: check_hashes_def\<close>)

lemma no_tables:
  assumes "0 < xe_number_tasks env"
  shows "tables_ok scst_init" "stamps_known env scst_init" "qinv env scst_init scst_init"
proof -
  have e: "hard_rel [] = {}" "ddefault ([] :: tidsets) t = []" for t
    by (simp_all add: hard_rel_def ddefault_def)
  have w: "waits scst_init t = {}" "dep_of scst_init t = {}" for t
    by (simp_all add: waits_def dep_of_def scst_init_def e)
  show "tables_ok scst_init" using w by (simp add: tables_ok_def) (simp add: scst_init_def e)
  show "stamps_known env scst_init" by (simp add: stamps_known_def scst_init_def)
  have "counters scst_init {} {} {} {} (waits scst_init)"
    by (rule countersI) (use w in \<open>simp_all add: scst_init_def\<close>)
  then show "qinv env scst_init scst_init"
    using assms by (simp add: qinv_def qcore_def fixed_tables_def scene_sets_def scene_stats_def scene_stamps_def scene_log_def settled_of_def)
      (simp add: scst_init_def stats_defs sn_sent_def sn_ended_def)
qed

lemma scene_init_inv:
  assumes "scene_init fuel lim env mt es = Some (Inr s)"
  shows "\<exists>q0. tables_ok q0 \<and> stamps_known env q0 \<and> qstate env q0 s \<and>
    (if xe_setscene_tids env = [] then sn_actions s = [] \<and> sn_state s = RqRunInit else scene_tables fuel env es = Some (Inr q0))"
proof -
  have n: "0 < xe_number_tasks env" using assms by (simp add: scene_init_def split: if_splits)
  show ?thesis
  proof (cases "xe_setscene_tids env = []")
    case True
    then have s: "s = scst_init\<lparr>sn_state := RqRunInit\<rparr>" using assms n by (simp add: scene_init_def)
    note 0 = no_tables [OF n]
    have "qinv env scst_init s" using 0(3) by (simp add: s)
    moreover have "drained env s" "sn_actions s = []" "sn_state s = RqRunInit" using True by (simp_all add: drained_def s scst_init_def)
    ultimately show ?thesis using True 0(1,2) by (auto simp: qstate_def)
  next
    case False
    let ?f = "mseq (check_hashes lim env mt es) (sn_set_state RqSceneRun)"
    obtain q0 where q0: "scene_tables fuel env es = Some (Inr q0)"
      and c: "(case ?f q0 of (Inl e, _) \<Rightarrow> Inl e | (Inr _, s) \<Rightarrow> Inr s) = Inr s"
      using assms False n by (auto simp: scene_init_def rbind_eq_Inr)
    from c obtain u where run: "?f q0 = (Inr u, s)" by (cases "?f q0"; cases "fst (?f q0)") auto
    from scene_tables_begun [OF q0] obtain sq where b: "scene_begun env sq q0" "qinv env q0 q0" using n by blast
    have r: "sn_running q0 = []" using q0 by (auto simp: scene_tables_def Let_def rbind_eq_Inr scst_init_def)
    have "valid (mseq (check_hashes lim env mt es) (sn_set_state RqSceneRun)) q0
        (\<lambda>_ s'. qinv env q0 s' \<and> sn_state s' = RqSceneRun) (\<lambda>_ _. True)"
      by (rule valid_bindI [OF check_hashes_inv [OF _ b(2) _ _ r]]) (use b(1) in \<open>auto simp: scene_begun_def sn_set_state_def\<close>)
    from validD [OF this run] have "qinv env q0 s" "sn_state s = RqSceneRun" by simp_all
    then show ?thesis using False q0 b(1) by (auto simp: qstate_def scene_begun_def)
  qed
qed

section \<open>Every state of the queue\<close>

text \<open>
  The calls the run queue makes: \<open>execute\<close> while it runs setscene tasks, \<open>finish\<close> while it cleans up, a
  last reading of the pipes when the workers are stopped; and, until the queue hands over to the tasks,
  \<open>finish\<close> or \<open>finish_now\<close> from outside (the disk monitor, and the server when it shuts down).
\<close>

inductive scene_reach :: "nat \<Rightarrow> nat \<Rightarrow> sceneenv \<Rightarrow> runtasks \<Rightarrow> scst \<Rightarrow> bool" for fuel lim env es where
  start: "scene_init fuel lim env mt es = Some (Inr s) \<Longrightarrow> scene_reach fuel lim env es s"
| run: "scene_reach fuel lim env es s \<Longrightarrow> sn_state s = RqSceneRun \<Longrightarrow> scene_pipe_ok p1 \<Longrightarrow> scene_pipe_ok p2 \<Longrightarrow>
    scene_execute lim env mt es spawn p1 p2 s = (Inr r, s') \<Longrightarrow> scene_reach fuel lim env es s'"
| finish: "scene_reach fuel lim env es s \<Longrightarrow> sn_state s = RqCleanUp \<Longrightarrow> scene_pipe_ok p1 \<Longrightarrow>
    scene_finish lim env p1 s = (Inr r, s') \<Longrightarrow> scene_reach fuel lim env es s'"
| teardown: "scene_reach fuel lim env es s \<Longrightarrow> sn_state s \<in> {RqComplete, RqFailed} \<Longrightarrow> scene_pipe_ok p1 \<Longrightarrow>
    sn_read_workers lim env p1 s = (Inr (), s') \<Longrightarrow> scene_reach fuel lim env es s'"
| stop_later: "scene_reach fuel lim env es s \<Longrightarrow> sn_state s \<noteq> RqRunInit \<Longrightarrow> scene_pipe_ok p1 \<Longrightarrow>
    scene_finish lim env p1 s = (Inr r, s') \<Longrightarrow> scene_reach fuel lim env es s'"
| stop_now: "scene_reach fuel lim env es s \<Longrightarrow> sn_state s \<noteq> RqRunInit \<Longrightarrow>
    sn_finish_now s = (Inr (), s') \<Longrightarrow> scene_reach fuel lim env es s'"

lemma scene_reach_inv:
  assumes "scene_reach fuel lim env es s"
  shows "\<exists>q0. tables_ok q0 \<and> stamps_known env q0 \<and> qstate env q0 s \<and>
    (if xe_setscene_tids env = [] then sn_actions s = [] \<and> sn_state s = RqRunInit else scene_tables fuel env es = Some (Inr q0))"
  using assms
proof induction
  case (start mt s)
  then show ?case by (rule scene_init_inv)
next
  case (run s p1 p2 mt spawn r s')
  then obtain q0 where q: "tables_ok q0" "stamps_known env q0" "qinv env q0 s" "xe_setscene_tids env \<noteq> []"
    "scene_tables fuel env es = Some (Inr q0)" by (auto simp: qstate_def split: if_splits)
  have "sn_state s \<noteq> RqRunInit" using run.hyps(2) by simp
  from validD [OF scene_execute_inv [OF q(1,2) run.hyps(3,4) q(3) this] run.hyps(5)] show ?case using q by auto
next
  case (finish s p1 r s')
  then obtain q0 where q: "tables_ok q0" "stamps_known env q0" "qinv env q0 s" "xe_setscene_tids env \<noteq> []"
    "scene_tables fuel env es = Some (Inr q0)" by (auto simp: qstate_def split: if_splits)
  from validD [OF scene_finish_inv [OF q(1) finish.hyps(3) q(3)] finish.hyps(4)] show ?case using q by auto
next
  case (teardown s p1 s')
  then obtain q0 where q: "tables_ok q0" "stamps_known env q0" "qinv env q0 s" "xe_setscene_tids env \<noteq> []"
    "scene_tables fuel env es = Some (Inr q0)" by (auto simp: qstate_def split: if_splits)
  from validD [OF sn_read_inv [OF q(1,3) teardown.hyps(3)] teardown.hyps(4)] teardown.hyps(2)
  have "qstate env q0 s'" by (auto simp: qstate_def)
  then show ?case using q by auto
next
  case (stop_later s p1 r s')
  then obtain q0 where q: "tables_ok q0" "stamps_known env q0" "qinv env q0 s" "xe_setscene_tids env \<noteq> []"
    "scene_tables fuel env es = Some (Inr q0)" by (auto simp: qstate_def split: if_splits)
  from validD [OF scene_finish_inv [OF q(1) stop_later.hyps(3) q(3)] stop_later.hyps(4)] show ?case using q by auto
next
  case (stop_now s s')
  then obtain q0 where q: "tables_ok q0" "stamps_known env q0" "qinv env q0 s" "xe_setscene_tids env \<noteq> []"
    "scene_tables fuel env es = Some (Inr q0)" by (auto simp: qstate_def split: if_splits)
  from validD [OF sn_finish_now_inv [OF q(3)] stop_now.hyps(3)] have "qstate env q0 s'" by (simp add: qstate_def)
  then show ?case using q by auto
qed

text \<open>
  C5: Safety of the setscene queue. In every state the setscene queue can reach, on any table, no
  setscene task was sent to a worker twice or reported without having been sent; no task is both
  covered and not covered; at most BB_NUMBER_THREADS tasks are with the workers, none of them
  settled, and no two of them write the same stamp.
\<close>
theorem scene_queue_safe:
  assumes "scene_reach fuel lim env es s"
  shows "distinct (sn_sent (sn_actions s)) \<and> set (sn_ended (sn_actions s)) \<subseteq> set (sn_sent (sn_actions s)) \<and>
    set (sn_covered s) \<inter> set (sn_notcovered s) = {} \<and>
    (set (sn_sent (sn_actions s)) - set (sn_ended (sn_actions s))) \<inter> (set (sn_covered s) \<union> set (sn_notcovered s)) = {} \<and>
    int (card (set (sn_sent (sn_actions s)) - set (sn_ended (sn_actions s)))) \<le> xe_number_tasks env \<and>
    (\<forall>t \<in> set (sn_sent (sn_actions s)) - set (sn_ended (sn_actions s)).
     \<forall>u \<in> set (sn_sent (sn_actions s)) - set (sn_ended (sn_actions s)). t \<noteq> u \<longrightarrow> scene_stamp env t \<noteq> scene_stamp env u)"
proof -
  let ?bs = "sn_build_stamps s"
  from scene_reach_inv [OF assms] obtain q0 where k: "stamps_known env q0" and q: "qinv env q0 s" by (auto simp: qstate_def)
  from q have core: "qcore q0 (set (dkeys ?bs)) s" and stat: "scene_stats env (sn_stats s) (length ?bs) (card (settled_of s))"
    by (simp_all add: qinv_def)
  from core have log: "scene_log (set (sn_running s)) (waits s) (set (dkeys ?bs)) (sn_actions s)"
    and sets: "scene_sets (set (dkeys (sn_revdeps2 q0))) (set (sn_running s)) (set (sn_covered s)) (set (sn_notcovered s)) (set (dkeys ?bs))"
    and sp: "scene_stamps q0 ?bs (sn_build_stamps2 s)" by (simp_all add: qcore_def)
  have W: "set (sn_sent (sn_actions s)) - set (sn_ended (sn_actions s)) = set (dkeys ?bs)"
    using log unfolding scene_log_def by blast
  have d: "dwf ?bs" and ds: "distinct (map snd ?bs)"
    using sp unfolding scene_stamps_def by (blast, metis mset_eq_imp_distinct_iff)
  have st: "scene_stamp env t = Inr v" if "dget ?bs t = Some v" for t v
    using that sp k unfolding scene_stamps_def stamps_known_def by blast
  have c: "int (card (set (dkeys ?bs))) \<le> xe_number_tasks env"
    using stat distinct_card [OF d] by (simp add: scene_stats_def)
  have "scene_stamp env t \<noteq> scene_stamp env u" if tu: "t \<in> set (dkeys ?bs)" "u \<in> set (dkeys ?bs)" "t \<noteq> u" for t u
  proof
    assume e: "scene_stamp env t = scene_stamp env u"
    obtain v w where v: "dget ?bs t = Some v" "dget ?bs u = Some w" using tu(1,2) unfolding dget_Some_key by blast
    then have "v = w" using e st by simp
    then show False using key_value [OF ds v(1)] v(2) tu(3) by simp
  qed
  then show ?thesis using log sets c unfolding W scene_log_def scene_sets_def by blast
qed

text \<open>
  C6: The order of the setscene queue. When a setscene task t of a prepared table was sent to a worker,
  every task its depends flags name was covered. Unless another task names t in a depends flag, each
  setscene task that reaches t along dependencies without passing another setscene task was settled: it
  is covered, not covered, or depends by depends flags on a task that is not covered.
\<close>
theorem scene_queue_order:
  assumes "prepare gh g inp = Some (Inr (Some p))" "xe_setscene_tids env = pp_setscene_tids p"
    and "scene_reach (Suc (length (pp_entries p))) lim env (pp_entries p) s" "t \<in> set (sn_sent (sn_actions s))"
  shows "\<exists>q0. scene_tables (Suc (length (pp_entries p))) env (pp_entries p) = Some (Inr q0) \<and>
    (\<forall>u. t \<in> set (ddefault (sn_harddeps q0) u) \<longrightarrow> u \<in> set (sn_covered s)) \<and>
    (ddefault (sn_harddeps q0) t = [] \<longrightarrow>
      (\<forall>u \<in> set (pp_setscene_tids p). below (pp_entries p) (pp_setscene_tids p) u t \<longrightarrow>
         u \<in> set (sn_covered s) \<union> (hard_rel (sn_harddeps q0))\<^sup>* `` set (sn_notcovered s)))"
proof -
  let ?es = "pp_entries p" and ?scene = "pp_setscene_tids p"
  have ne: "?scene \<noteq> []" using scene_reach_inv [OF assms(3)] assms(2,4) by (auto simp: sn_sent_def)
  from scene_reach_inv [OF assms(3)] ne assms(2) obtain q0 where q0: "scene_tables (Suc (length ?es)) env ?es = Some (Inr q0)"
    and q: "qinv env q0 s" by (auto simp: qstate_def)
  let ?H = "hard_rel (sn_harddeps q0)"
  from scene_tables_begun [OF q0] obtain us sq where g: "scene_graph (Suc (length ?es)) ?es ?scene = Some (Inr (us, sq))"
    and b: "scene_begun env sq q0" unfolding assms(2) by blast
  have c: "counters q0 (set (sn_covered s)) (set (sn_notcovered s)) (set (sn_buildable s)) (set (sn_running s)) (waits s)"
    and log: "scene_log (set (sn_running s)) (waits s) (set (dkeys (sn_build_stamps s))) (sn_actions s)"
    and sets: "scene_sets (set (dkeys (sn_revdeps2 q0))) (set (sn_running s)) (set (sn_covered s)) (set (sn_notcovered s))
      (set (dkeys (sn_build_stamps s)))"
    using q by (simp_all add: qinv_def qcore_def)
  have w: "waits s t = {}" using log assms(4) unfolding scene_log_def by blast
  have wt: "waits q0 t = {u. (u, t) \<in> ?H} \<union> (if t \<in> Domain ?H then {} else set (ddefault sq t))"
    using b unfolding scene_begun_def by blast
  have sc: "set ?scene \<subseteq> set (dkeys ?es)" by (rule prepared_scene [OF assms(1)])
  have wf: "rt_wf ?es" and ac: "acyclic (dep_rel ?es)" using prepare_result [of gh g inp] assms(1) by auto
  have hard: "u \<in> set (sn_covered s)" if "(u, t) \<in> ?H" for u
    using countersD(2) [OF c, of u t] that wt w by blast
  have soft: "u \<in> set (sn_covered s) \<union> lost q0 (set (sn_notcovered s))"
    if "t \<notin> Domain ?H" "u \<in> set (ddefault sq t)" for u
    using countersD(2) [OF c, of u t] that wt w by auto
  have "u \<in> set (ddefault sq t)" if tH: "t \<notin> Domain ?H" and u: "u \<in> set ?scene" "below ?es ?scene u t" for u
  proof -
    have "t \<in> set (dkeys (sn_revdeps2 q0))" using log sets assms(4) unfolding scene_log_def scene_sets_def by blast
    then have "t \<in> set (dkeys sq)" using b tH unfolding scene_begun_def by blast
    then show ?thesis using scene_graph_ok [OF wf ac sc] g u by auto
  qed
  then show ?thesis using q0 hard soft unfolding lost_def hard_rel_def by (intro exI [of _ q0]) auto
qed

section \<open>The end of the queue\<close>

text \<open>No chain of setscene tasks waits for itself, when the depends flags have no cycle.\<close>

lemma waits_wf:
  assumes b: "scene_begun env sq q0" and h: "acyclic (hard_rel (sn_harddeps q0))" and ac: "acyclic R"
    and sq: "\<And>t. set (ddefault sq t) \<subseteq> {u. (t, u) \<in> R\<^sup>+}"
  shows "wf {(u, t). u \<in> waits q0 t}"
proof -
  let ?H = "hard_rel (sn_harddeps q0)" and ?E = "{(u, t). u \<in> waits q0 t}"
  let ?S = "{(u, t). t \<notin> Domain ?H \<and> u \<in> set (ddefault sq t)}"
  have E: "?E = ?H \<union> ?S" using b unfolding scene_begun_def by auto
  have t: "tables_ok q0" using b unfolding scene_begun_def by blast
  have "?E \<subseteq> set (dkeys (sn_revdeps2 q0)) \<times> set (dkeys (sn_revdeps2 q0))" using tables_keys [OF t] by blast
  then have fin: "finite ?E" by (rule finite_subset) simp
  have "?S \<subseteq> (R\<^sup>+)\<inverse>" using sq by blast
  moreover have "acyclic ((R\<^sup>+)\<inverse>)" using ac unfolding acyclic_converse by (simp add: acyclic_def)
  ultimately have "acyclic ?S" by (rule acyclic_subset [rotated])
  moreover have "finite ?H" "finite ?S" using fin unfolding E by simp_all
  ultimately have "wf ?H" "wf ?S" using h by (simp_all add: finite_acyclic_wf)
  moreover have "Domain ?H \<inter> Range ?S = {}" by blast
  ultimately show ?thesis unfolding E by (rule wf_Un)
qed

lemma drained_settled:
  assumes t: "tables_ok q0" and q: "qinv env q0 s" and d: "drained env s" and wf: "wf {(u, t). u \<in> waits q0 t}"
    and K: "set (dkeys (sn_revdeps2 q0)) = set (xe_setscene_tids env)" "set (dkeys (sn_stamps q0)) = set (xe_setscene_tids env)"
  shows "x \<in> set (xe_setscene_tids env) \<Longrightarrow> x \<in> set (sn_covered s) \<union> lost q0 (set (sn_notcovered s))"
proof (induction x rule: wf_induct_rule [OF wf])
  case (1 x)
  have core: "qcore q0 (set (dkeys (sn_build_stamps s))) s" using q by (simp add: qinv_def)
  then have ft: "fixed_tables q0 s"
    and sets: "scene_sets (set (dkeys (sn_revdeps2 q0))) (set (sn_running s)) (set (sn_covered s)) (set (sn_notcovered s)) {}"
    and c: "counters q0 (set (sn_covered s)) (set (sn_notcovered s)) (set (sn_buildable s)) (set (sn_running s)) (waits s)"
    using d by (simp_all add: qcore_def drained_def)
  show ?case
  proof (cases "x \<in> set (sn_running s)")
    case True
    then show ?thesis using sets lost_self [of "set (sn_notcovered s)" q0] unfolding scene_sets_def by blast
  next
    case False
    have "\<not> ready s x" using d 1(2) unfolding drained_def by blast
    moreover have "\<exists>st. dget (sn_stamps s) x = Some st"
      using 1(2) ft unfolding K(2) [symmetric] dget_Some_key fixed_tables_def by metis
    ultimately have "x \<notin> set (sn_buildable s)" using False d by (auto simp: ready_def drained_def)
    then obtain u where u: "u \<in> waits s x" using countersD(4) [OF c, of x] 1(2) K(1) by auto
    then have u0: "u \<in> waits q0 x" using countersD(1) [OF c, of x] by blast
    then have "u \<in> set (xe_setscene_tids env)" using tables_keys(2) [OF t] K(1) by blast
    with 1(1) u0 have "u \<in> set (sn_covered s) \<union> lost q0 (set (sn_notcovered s))" by blast
    from countersD(3) [OF c u this] show ?thesis unfolding lost_def by (auto intro: rtrancl_into_rtrancl)
  qed
qed

text \<open>
  C7: The setscene queue settles its tasks. When the queue of a prepared table hands over to the
  execution of the real tasks, no report is outstanding and every setscene task is covered, not
  covered, or depends by depends flags on one that is not covered; provided the depends flags between
  setscene tasks have no cycle and name setscene tasks only.
\<close>
theorem scene_queue_settles:
  assumes "prepare gh g inp = Some (Inr (Some p))" "xe_setscene_tids env = pp_setscene_tids p"
    and "scene_reach (Suc (length (pp_entries p))) lim env (pp_entries p) s" "sn_state s = RqRunInit"
    and "\<And>q0. scene_tables (Suc (length (pp_entries p))) env (pp_entries p) = Some (Inr q0) \<Longrightarrow>
      acyclic (hard_rel (sn_harddeps q0)) \<and> Domain (hard_rel (sn_harddeps q0)) \<subseteq> set (pp_setscene_tids p)"
  shows "set (sn_sent (sn_actions s)) = set (sn_ended (sn_actions s)) \<and>
    (pp_setscene_tids p = [] \<or> (\<exists>q0. scene_tables (Suc (length (pp_entries p))) env (pp_entries p) = Some (Inr q0) \<and>
      set (pp_setscene_tids p) \<subseteq> set (sn_covered s) \<union> (hard_rel (sn_harddeps q0))\<^sup>* `` set (sn_notcovered s)))"
proof (cases "pp_setscene_tids p = []")
  case True
  then show ?thesis using scene_reach_inv [OF assms(3)] assms(2) by (auto simp: sn_sent_def sn_ended_def)
next
  case False
  let ?es = "pp_entries p" and ?scene = "pp_setscene_tids p"
  from scene_reach_inv [OF assms(3)] False assms(2,4) obtain q0 where q0: "scene_tables (Suc (length ?es)) env ?es = Some (Inr q0)"
    and q: "qinv env q0 s" "drained env s" by (auto simp: qstate_def)
  let ?H = "hard_rel (sn_harddeps q0)"
  have H: "acyclic ?H" "Domain ?H \<subseteq> set ?scene" using assms(5) [OF q0] by simp_all
  from scene_tables_begun [OF q0] obtain us sq where g: "scene_graph (Suc (length ?es)) ?es ?scene = Some (Inr (us, sq))"
    and b: "scene_begun env sq q0" unfolding assms(2) by blast
  have sc: "set ?scene \<subseteq> set (dkeys ?es)" by (rule prepared_scene [OF assms(1)])
  have wf: "rt_wf ?es" and ac: "acyclic (dep_rel ?es)" using prepare_result [of gh g inp] assms(1) by auto
  have sq: "set (dkeys sq) = set ?scene" "\<forall>t \<in> set ?scene. set (ddefault sq t) \<subseteq> {u \<in> set ?scene. (t, u) \<in> (dep_rel ?es)\<^sup>+}"
    using scene_graph_ok [OF wf ac sc] g by auto
  have "set (ddefault sq t) \<subseteq> {u. (t, u) \<in> (dep_rel ?es)\<^sup>+}" for t
  proof (cases "t \<in> set (dkeys sq)")
    case False
    then have "ddefault sq t = []" unfolding dget_Some_key by (cases "dget sq t") (auto simp: ddefault_def)
    then show ?thesis by simp
  qed (use sq in auto)
  note wfE = waits_wf [OF b H(1) ac this]
  have t: "tables_ok q0" "set (dkeys (sn_revdeps2 q0)) = set ?scene" "set (dkeys (sn_stamps q0)) = set ?scene"
    using b sq(1) H(2) assms(2) unfolding scene_begun_def by auto
  have "scene_log (set (sn_running s)) (waits s) {} (sn_actions s)"
    using q by (simp add: qinv_def qcore_def drained_def)
  then have "set (sn_sent (sn_actions s)) = set (sn_ended (sn_actions s))" unfolding scene_log_def by blast
  moreover have "set ?scene \<subseteq> set (sn_covered s) \<union> ?H\<^sup>* `` set (sn_notcovered s)"
  proof
    fix x assume "x \<in> set ?scene"
    then show "x \<in> set (sn_covered s) \<union> ?H\<^sup>* `` set (sn_notcovered s)"
      using drained_settled [OF t(1) q wfE, of x] t(2,3) unfolding assms(2) lost_def by blast
  qed
  ultimately show ?thesis using q0 by blast
qed

section \<open>An example\<close>

definition scene_env :: sceneenv where
  "scene_env = execenv.extend (two_env\<lparr>se_caches := rq_caches scene_input, xe_taskdata := rq_taskdata scene_input,
       xe_setscene_tids := [''f:x'', ''f:z'']\<rparr>)
     \<lparr>ne_target_tids = [], ne_force = False, ne_hashvalidate = None, ne_depvalidate = None, ne_match = (\<lambda>_ _. False),
      ne_setscenewhitelist = None\<rparr>"

definition scene_all_done :: scenepipes where
  "scene_all_done s = map (\<lambda>t. TaskEnded t 0) (remdups (dkeys (sn_build_stamps s)))"

definition scene_no_reports :: scenepipes where
  "scene_no_reports s = []"

lemma scene_pipes_ok: "scene_pipe_ok scene_all_done" "scene_pipe_ok scene_no_reports"
proof -
  have "ended_tasks (map (\<lambda>t. TaskEnded t 0) ts) = ts" for ts by (induction ts) simp_all
  then show "scene_pipe_ok scene_all_done" "scene_pipe_ok scene_no_reports"
    by (simp_all add: scene_pipe_ok_def scene_all_done_def scene_no_reports_def)
qed

definition scene_init_then :: "nat prepared \<Rightarrow> (scst \<Rightarrow> bool) \<Rightarrow> bool" where
  "scene_init_then p P =
     (case scene_init (Suc (length (pp_entries p))) 9 scene_env no_files (pp_entries p) of Some (Inr s) \<Rightarrow> P s | _ \<Rightarrow> False)"

definition scene_exec_then :: "nat prepared \<Rightarrow> scenepipes \<Rightarrow> scst \<Rightarrow> (scst \<Rightarrow> bool) \<Rightarrow> bool" where
  "scene_exec_then p pipe s P =
     (case scene_execute 9 scene_env no_files (pp_entries p) None pipe scene_no_reports s of (Inr r, s') \<Rightarrow> P s' | _ \<Rightarrow> False)"

definition no_hard_deps :: "nat prepared \<Rightarrow> bool" where
  "no_hard_deps p = (case scene_tables (Suc (length (pp_entries p))) scene_env (pp_entries p) of Some (Inr q0) \<Rightarrow> sn_harddeps q0 = [] | _ \<Rightarrow> False)"

lemma scene_init_thenD:
  "scene_init_then p P \<Longrightarrow> \<exists>s. scene_init (Suc (length (pp_entries p))) 9 scene_env no_files (pp_entries p) = Some (Inr s) \<and> P s"
  by (auto simp: scene_init_then_def split: option.split_asm sum.split_asm)

lemma scene_exec_thenD:
  "scene_exec_then p pipe s P \<Longrightarrow>
    \<exists>r s'. scene_execute 9 scene_env no_files (pp_entries p) None pipe scene_no_reports s = (Inr r, s') \<and> P s'"
  unfolding scene_exec_then_def
  by (cases "scene_execute 9 scene_env no_files (pp_entries p) None pipe scene_no_reports s";
      cases "fst (scene_execute 9 scene_env no_files (pp_entries p) None pipe scene_no_reports s)") simp_all

lemma scene_run_example:
  "scene_prepared_then (\<lambda>p. (pp_setscene_tids p = [''f:x'', ''f:z''] \<and> no_hard_deps p) \<and>
     scene_init_then p (\<lambda>s0. sn_state s0 = RqSceneRun \<and> scene_exec_then p scene_no_reports s0 (\<lambda>s1.
     (sn_state s1 = RqSceneRun \<and> sn_sent (sn_actions s1) = [''f:z''] \<and> sn_ended (sn_actions s1) = []) \<and>
     scene_exec_then p scene_all_done s1 (\<lambda>s2.
     (sn_state s2 = RqSceneRun \<and> sn_sent (sn_actions s2) = [''f:z'', ''f:x''] \<and> sn_covered s2 = [''f:z'']) \<and>
     scene_exec_then p scene_all_done s2 (\<lambda>s3.
     sn_state s3 = RqRunInit \<and> sn_covered s3 = [''f:z'', ''f:x''])))))"
  by code_simp

lemma scene_states:
  "\<exists>p s1 s2 s3. prepare count_hash 0 scene_input = Some (Inr (Some p)) \<and> pp_setscene_tids p = xe_setscene_tids scene_env \<and>
     no_hard_deps p \<and>
     scene_reach (Suc (length (pp_entries p))) 9 scene_env (pp_entries p) s1 \<and> sn_sent (sn_actions s1) = [''f:z''] \<and> sn_ended (sn_actions s1) = [] \<and>
     scene_reach (Suc (length (pp_entries p))) 9 scene_env (pp_entries p) s2 \<and> sn_sent (sn_actions s2) = [''f:z'', ''f:x''] \<and> sn_covered s2 = [''f:z''] \<and>
     scene_reach (Suc (length (pp_entries p))) 9 scene_env (pp_entries p) s3 \<and> sn_state s3 = RqRunInit \<and> sn_covered s3 = [''f:z'', ''f:x'']"
proof -
  let ?P3 = "\<lambda>s3. sn_state s3 = RqRunInit \<and> sn_covered s3 = [''f:z'', ''f:x'']"
  let ?P2 = "\<lambda>p s2. (sn_state s2 = RqSceneRun \<and> sn_sent (sn_actions s2) = [''f:z'', ''f:x''] \<and> sn_covered s2 = [''f:z'']) \<and>
     scene_exec_then p scene_all_done s2 ?P3"
  let ?P1 = "\<lambda>p s1. (sn_state s1 = RqSceneRun \<and> sn_sent (sn_actions s1) = [''f:z''] \<and> sn_ended (sn_actions s1) = []) \<and>
     scene_exec_then p scene_all_done s1 (?P2 p)"
  from scene_prepared_thenD [OF scene_run_example] obtain p where p: "prepare count_hash 0 scene_input = Some (Inr (Some p))"
    "pp_setscene_tids p = [''f:x'', ''f:z'']" "no_hard_deps p"
    and q: "scene_init_then p (\<lambda>s0. sn_state s0 = RqSceneRun \<and> scene_exec_then p scene_no_reports s0 (?P1 p))" by (elim exE conjE)
  let ?reach = "scene_reach (Suc (length (pp_entries p))) 9 scene_env (pp_entries p)"
  from scene_init_thenD [OF q] obtain s0 where
    e0: "scene_init (Suc (length (pp_entries p))) 9 scene_env no_files (pp_entries p) = Some (Inr s0)" "sn_state s0 = RqSceneRun"
    and q1: "scene_exec_then p scene_no_reports s0 (?P1 p)" by (elim exE conjE)
  from scene_exec_thenD [OF q1] obtain r1 s1 where
    e1: "scene_execute 9 scene_env no_files (pp_entries p) None scene_no_reports scene_no_reports s0 = (Inr r1, s1)"
    and i1: "sn_state s1 = RqSceneRun" "sn_sent (sn_actions s1) = [''f:z'']" "sn_ended (sn_actions s1) = []"
    and q2: "scene_exec_then p scene_all_done s1 (?P2 p)" by (elim exE conjE)
  from scene_exec_thenD [OF q2] obtain r2 s2 where
    e2: "scene_execute 9 scene_env no_files (pp_entries p) None scene_all_done scene_no_reports s1 = (Inr r2, s2)"
    and i2: "sn_state s2 = RqSceneRun" "sn_sent (sn_actions s2) = [''f:z'', ''f:x'']" "sn_covered s2 = [''f:z'']"
    and q3: "scene_exec_then p scene_all_done s2 ?P3" by (elim exE conjE)
  from scene_exec_thenD [OF q3] obtain r3 s3 where
    e3: "scene_execute 9 scene_env no_files (pp_entries p) None scene_all_done scene_no_reports s2 = (Inr r3, s3)"
    and i3: "sn_state s3 = RqRunInit" "sn_covered s3 = [''f:z'', ''f:x'']" by (elim exE conjE)
  have x0: "?reach s0" by (rule scene_reach.start [OF e0(1)])
  have x1: "?reach s1" by (rule scene_reach.run [OF x0 e0(2) scene_pipes_ok(2,2) e1])
  have x2: "?reach s2" by (rule scene_reach.run [OF x1 i1(1) scene_pipes_ok(1,2) e2])
  have x3: "?reach s3" by (rule scene_reach.run [OF x2 i2(1) scene_pipes_ok(1,2) e3])
  have "pp_setscene_tids p = xe_setscene_tids scene_env" using p(2) by (simp add: scene_env_def execenv.extend_def)
  then show ?thesis using p x1 i1 x2 i2 x3 i3 by blast
qed

lemma scene_queue_safe_witness:
  "\<exists>(p :: nat prepared) s. scene_reach (Suc (length (pp_entries p))) 9 scene_env (pp_entries p) s \<and> sn_sent (sn_actions s) = [''f:z''] \<and>
    sn_ended (sn_actions s) = [] \<and> ''f:z'' \<notin> set (sn_covered s) \<union> set (sn_notcovered s)"
proof -
  from scene_states obtain p :: "nat prepared" and s where x: "scene_reach (Suc (length (pp_entries p))) 9 scene_env (pp_entries p) s"
    "sn_sent (sn_actions s) = [''f:z'']" "sn_ended (sn_actions s) = []" by blast
  from scene_queue_safe [OF x(1)] x show ?thesis by (intro exI [of _ p] exI [of _ s]) simp
qed

lemma scene_queue_order_witness:
  "\<exists>(p :: nat prepared) s q0. scene_reach (Suc (length (pp_entries p))) 9 scene_env (pp_entries p) s \<and> sn_sent (sn_actions s) = [''f:z'', ''f:x''] \<and>
    scene_tables (Suc (length (pp_entries p))) scene_env (pp_entries p) = Some (Inr q0) \<and>
    (\<forall>u \<in> {''f:x'', ''f:z''}. below (pp_entries p) [''f:x'', ''f:z''] u ''f:x'' \<longrightarrow> u = ''f:z'' \<or>
       u \<in> (hard_rel (sn_harddeps q0))\<^sup>* `` set (sn_notcovered s))"
proof -
  from scene_states obtain p s where p: "prepare count_hash 0 scene_input = Some (Inr (Some p))"
    "pp_setscene_tids p = xe_setscene_tids scene_env" "no_hard_deps p"
    and x: "scene_reach (Suc (length (pp_entries p))) 9 scene_env (pp_entries p) s"
    "sn_sent (sn_actions s) = [''f:z'', ''f:x'']" "sn_covered s = [''f:z'']" by blast
  have e: "pp_setscene_tids p = [''f:x'', ''f:z'']" using p(2) by (simp add: scene_env_def execenv.extend_def)
  have "''f:x'' \<in> set (sn_sent (sn_actions s))" using x(2) by simp
  from scene_queue_order [OF p(1) p(2) [symmetric] x(1) this] obtain q0 where
    q0: "scene_tables (Suc (length (pp_entries p))) scene_env (pp_entries p) = Some (Inr q0)"
    and o: "ddefault (sn_harddeps q0) ''f:x'' = [] \<longrightarrow>
      (\<forall>u \<in> set (pp_setscene_tids p). below (pp_entries p) (pp_setscene_tids p) u ''f:x'' \<longrightarrow>
         u \<in> set (sn_covered s) \<union> (hard_rel (sn_harddeps q0))\<^sup>* `` set (sn_notcovered s))" by blast
  have "ddefault (sn_harddeps q0) ''f:x'' = []" using p(3) q0 by (simp add: no_hard_deps_def ddefault_def)
  with o have "\<forall>u \<in> {''f:x'', ''f:z''}. below (pp_entries p) [''f:x'', ''f:z''] u ''f:x'' \<longrightarrow> u = ''f:z'' \<or>
       u \<in> (hard_rel (sn_harddeps q0))\<^sup>* `` set (sn_notcovered s)" unfolding e x(3) by auto
  with q0 x(1,2) show ?thesis by (intro exI conjI)
qed

lemma scene_queue_settles_witness:
  "\<exists>(p :: nat prepared) s. scene_reach (Suc (length (pp_entries p))) 9 scene_env (pp_entries p) s \<and> sn_state s = RqRunInit \<and>
    set (sn_sent (sn_actions s)) = set (sn_ended (sn_actions s)) \<and> sn_covered s = [''f:z'', ''f:x'']"
proof -
  from scene_states obtain p s where p: "prepare count_hash 0 scene_input = Some (Inr (Some p))"
    "pp_setscene_tids p = xe_setscene_tids scene_env" "no_hard_deps p"
    and x: "scene_reach (Suc (length (pp_entries p))) 9 scene_env (pp_entries p) s" "sn_state s = RqRunInit"
    "sn_covered s = [''f:z'', ''f:x'']" by blast
  have ac: "acyclic (hard_rel (sn_harddeps q0)) \<and> Domain (hard_rel (sn_harddeps q0)) \<subseteq> set (pp_setscene_tids p)"
    if "scene_tables (Suc (length (pp_entries p))) scene_env (pp_entries p) = Some (Inr q0)" for q0
  proof -
    have "hard_rel (sn_harddeps q0) = {}" using p(3) that by (simp add: no_hard_deps_def hard_rel_def ddefault_def)
    then show ?thesis by (simp add: acyclic_def)
  qed
  have "set (sn_sent (sn_actions s)) = set (sn_ended (sn_actions s))"
    using scene_queue_settles [OF p(1) p(2) [symmetric] x(1,2)] ac by blast
  with x show ?thesis by (intro exI conjI)
qed

end
