(* ===== verification/BB_Pipe.thy ===== *)
theory BB_Pipe
  imports BB_Effects
begin

text \<open>
  The byte streams between the server and its workers. The server's side is \<open>runQueuePipe.read\<close> of
  \<open>lib/bb/runqueue.py\<close>; the worker's side is \<open>runQueueWorkerPipe.read\<close>, \<open>worker_flush\<close> and
  \<open>BitbakeWorker.handle_item\<close> of \<open>bin/bitbake-worker\<close>. A byte string is a list of 8-bit characters.
  Pickling, the reads and writes of the operating system and the handlers of the messages are
  arguments.
\<close>

section \<open>Tags and messages\<close>

text \<open>\<open>s.find(sub)\<close>; None stands for -1.\<close>

fun find_sub :: "string \<Rightarrow> string \<Rightarrow> nat option" where
  "find_sub sub [] = (if sub = [] then Some 0 else None)"
| "find_sub sub (c # cs) = (if prefix sub (c # cs) then Some 0 else map_option Suc (find_sub sub cs))"

definition open_tag :: "string \<Rightarrow> string" where
  "open_tag t = ''<'' @ t @ ''>''"

definition close_tag :: "string \<Rightarrow> string" where
  "close_tag t = ''</'' @ t @ ''>''"

definition encode :: "string \<times> string \<Rightarrow> string" where
  "encode = (\<lambda>(t, p). open_tag t @ p @ close_tag t)"

definition next_message :: "string \<Rightarrow> string \<Rightarrow> (string \<times> string) option" where
  "next_message t q =
     (case find_sub (close_tag t) q of
        None \<Rightarrow> None
      | Some i \<Rightarrow> if prefix (open_tag t) q
                  then Some (drop (length t + 2) (take i q), drop (i + (length t + 3)) q) else None)"

lemma find_sub_SomeD: "find_sub sub q = Some i \<Longrightarrow> i + length sub \<le> length q \<and> prefix sub (drop i q)"
proof (induction sub q arbitrary: i rule: find_sub.induct)
  case (2 sub c cs)
  show ?case
  proof (cases "prefix sub (c # cs)")
    case True
    then show ?thesis using 2 prefix_length_le [OF True] by auto
  next
    case False
    then obtain j where "find_sub sub cs = Some j" "i = Suc j" using 2 by auto
    then show ?thesis using 2 False by simp
  qed
qed (auto split: if_splits)

lemma prefix_within: "prefix xs (ys @ zs) \<Longrightarrow> length xs \<le> length ys \<Longrightarrow> prefix xs ys"
  by (rule prefix_length_prefix [of xs "ys @ zs"]) simp_all

lemma find_sub_append: "find_sub sub q = Some i \<Longrightarrow> find_sub sub (q @ r) = Some i"
proof (induction sub q arbitrary: i rule: find_sub.induct)
  case (1 sub)
  then show ?case by (cases r) (auto split: if_splits)
next
  case (2 sub c cs)
  show ?case
  proof (cases "prefix sub (c # cs)")
    case True
    moreover from this have "prefix sub (c # cs @ r)" by (metis append_Cons prefix_append)
    ultimately show ?thesis using 2(2) by simp
  next
    case False
    then obtain z where z: "find_sub sub cs = Some z" "i = Suc z" using 2(2) by auto
    then have "length sub \<le> length (c # cs)" using find_sub_SomeD by fastforce
    then have "\<not> prefix sub (c # cs @ r)" using False prefix_within [of sub "c # cs" r] by auto
    with z 2(1) [OF False] show ?thesis by simp
  qed
qed

lemma find_sub_none: "find_sub sub q = None \<longleftrightarrow> \<not> sublist sub q"
  by (induction sub q rule: find_sub.induct) (auto simp: sublist_Cons_right)

lemma next_message_shorter: "next_message t q = Some (p, rest) \<Longrightarrow> length rest < length q"
  using find_sub_SomeD [of "close_tag t" q]
  by (auto simp: next_message_def close_tag_def split: option.splits if_splits)

lemma next_message_append:
  assumes "next_message t q = Some (p, rest)"
  shows "next_message t (q @ r) = Some (p, rest @ r)"
proof -
  from assms obtain i where i: "find_sub (close_tag t) q = Some i" "prefix (open_tag t) q"
    "p = drop (length t + 2) (take i q)" "rest = drop (i + (length t + 3)) q"
    by (auto simp: next_message_def split: option.splits if_splits)
  have "i + length (close_tag t) \<le> length q" using find_sub_SomeD [OF i(1)] by simp
  then have "i + (length t + 3) \<le> length q" by (simp add: close_tag_def)
  then show ?thesis
    using find_sub_append [OF i(1), of r] i(2-4) by (simp add: next_message_def prefix_append)
qed

section \<open>The server reads\<close>

text \<open>What a handler makes of a message: unpickling may fail.\<close>

definition load_with :: "(string \<Rightarrow> 'm res) \<Rightarrow> ('m \<Rightarrow> ('s, unit) eff) \<Rightarrow> string \<Rightarrow> ('s, unit) eff" where
  "load_with loads handle p =
     (case loads p of
        Inl e \<Rightarrow> mraise (if e = ValueError then MsgFatal ''RunQueue'' else e)
      | Inr m \<Rightarrow> handle m)"

text \<open>One inner loop; the queue is shortened after the handler returns.\<close>

function take_messages :: "string \<Rightarrow> (string \<Rightarrow> ('s, unit) eff) \<Rightarrow> string \<Rightarrow> bool \<Rightarrow> 's \<Rightarrow> bool res \<times> string \<times> 's" where
  "take_messages t h q found s =
     (case next_message t q of
        None \<Rightarrow> (Inr found, q, s)
      | Some (p, rest) \<Rightarrow>
          (case h p s of
             (Inl e, s) \<Rightarrow> (Inl e, q, s)
           | (Inr _, s) \<Rightarrow> take_messages t h rest True s))"
  by pat_completeness auto
termination
  by (relation "measure (\<lambda>(_, _, q, _). length q)") (auto dest: next_message_shorter)

declare take_messages.simps [simp del]

lemma take_messages_shorter:
  assumes "take_messages t h q found s = (r, q', s')"
  shows "length q' \<le> length q \<and> (r = Inr True \<and> \<not> found \<longrightarrow> length q' < length q)"
  using assms
proof (induction t h q found s rule: take_messages.induct)
  case (1 t h q found s)
  show ?case
  proof (cases "next_message t q")
    case None
    then show ?thesis using 1(2) by (auto simp: take_messages.simps [of t h q])
  next
    case (Some m)
    obtain p rest where m: "m = (p, rest)" by (cases m)
    obtain x s2 where x: "h p s = (x, s2)" by (cases "h p s")
    have l: "length rest < length q" using Some m by (auto intro: next_message_shorter)
    show ?thesis
    proof (cases x)
      case (Inl e)
      then show ?thesis using 1(2) Some m x by (auto simp: take_messages.simps [of t h q])
    next
      case (Inr u)
      then have "take_messages t h rest True s2 = (r, q', s')"
        using 1(2) Some m x by (simp add: take_messages.simps [of t h q])
      from 1(1) [OF Some m [symmetric] x [symmetric] Inr this] l show ?thesis by simp
    qed
  qed
qed

function pipe_loop :: "(string \<Rightarrow> ('s, unit) eff) \<Rightarrow> (string \<Rightarrow> ('s, unit) eff) \<Rightarrow> string \<Rightarrow> 's \<Rightarrow> unit res \<times> string \<times> 's" where
  "pipe_loop fe fx q s =
     (if q = [] then (Inr (), q, s)
      else (case take_messages ''event'' fe q False s of
              (Inl e, q, s) \<Rightarrow> (Inl e, q, s)
            | (Inr f, q1, s) \<Rightarrow>
                (case take_messages ''exitcode'' fx q1 f s of
                   (Inl e, q, s) \<Rightarrow> (Inl e, q, s)
                 | (Inr found, q2, s) \<Rightarrow> if found then pipe_loop fe fx q2 s else (Inr (), q2, s))))"
  by pat_completeness auto
termination
proof (relation "measure (\<lambda>(_, _, q, _). length q)", goal_cases)
  case (2 fe fx q s r1 q1' q1 s1 f r2 q2' found s2 s3)
  then show ?case
    by (cases q1) (auto dest!: take_messages_shorter [OF sym])
qed simp

declare pipe_loop.simps [simp del]

text \<open>
  \<open>runQueuePipe.read\<close>: \<open>died\<close> workers have exited unexpectedly, and each makes the run queue finish
  at once; the input is what the operating system returns, or an error. The answer is whether
  anything was read.
\<close>

definition EAGAIN :: nat where
  "EAGAIN = 11"

definition pipe_read :: "nat \<Rightarrow> ('s \<Rightarrow> 's) \<Rightarrow> (string \<Rightarrow> ('s, unit) eff) \<Rightarrow> (string \<Rightarrow> ('s, unit) eff) \<Rightarrow> string res \<Rightarrow>
    string \<times> 's \<Rightarrow> bool res \<times> string \<times> 's" where
  "pipe_read died finish_now fe fx input = (\<lambda>(q, s).
     let s = (finish_now ^^ died) s in
     case (case input of Inl e \<Rightarrow> if e = OSError EAGAIN then Inr [] else Inl e | Inr b \<Rightarrow> Inr b) of
       Inl e \<Rightarrow> (Inl e, q, s)
     | Inr b \<Rightarrow>
         (case pipe_loop fe fx (q @ b) s of
            (Inl e, q, s) \<Rightarrow> (Inl e, q, s)
          | (Inr _, q', s) \<Rightarrow> (Inr (length (q @ b) > length q), q', s)))"

section \<open>The worker's side\<close>

text \<open>\<open>runQueueWorkerPipe.read\<close>: what is passed on up to the last complete event, and what stays.\<close>

function forward_events :: "string \<Rightarrow> string list \<times> string" where
  "forward_events q =
     (case find_sub (close_tag ''event'') q of
        None \<Rightarrow> ([], q)
      | Some i \<Rightarrow> (let (ms, r) = forward_events (drop (i + 8) q) in (take (i + 8) q # ms, r)))"
  by pat_completeness auto
termination
  by (relation "measure length") (auto simp: close_tag_def dest!: find_sub_SomeD)

definition child_read :: "string res \<Rightarrow> string \<times> string list \<Rightarrow> bool res \<times> string \<times> string list" where
  "child_read input = (\<lambda>(q, fired).
     case (case input of Inl e \<Rightarrow> if e = OSError EAGAIN then Inr [] else Inl e | Inr b \<Rightarrow> Inr b) of
       Inl e \<Rightarrow> (Inl e, q, fired)
     | Inr b \<Rightarrow> (let (ms, r) = forward_events (q @ b) in (Inr (length (q @ b) > length q), r, fired @ ms)))"

text \<open>
  \<open>worker_flush\<close>: a queue of byte strings and a buffer. One round takes the next byte string, if
  there is one, and writes; None: the write failed for now.
\<close>

definition flush_round :: "nat option \<Rightarrow> string list \<times> string \<times> string \<Rightarrow> string list \<times> string \<times> string" where
  "flush_round written = (\<lambda>(queue, buf, out).
     let (queue, buf) = (case queue of [] \<Rightarrow> ([], buf) | b # bs \<Rightarrow> (bs, buf @ b)) in
     case written of
       None \<Rightarrow> (queue, buf, out)
     | Some n \<Rightarrow> (queue, drop n buf, out @ take n buf))"

text \<open>The exit status of a child, for the report to the server.\<close>

datatype wait_status = Exited int | Signaled int

definition exit_status :: "wait_status \<Rightarrow> int" where
  "exit_status w = (case w of Exited n \<Rightarrow> n | Signaled n \<Rightarrow> 128 + n)"

text \<open>The loop of \<open>handle_item\<close> looks at the opening tag once only.\<close>

function handle_items :: "string \<Rightarrow> (string \<Rightarrow> 's \<Rightarrow> 's) \<Rightarrow> string \<Rightarrow> 's \<Rightarrow> string \<times> 's" where
  "handle_items item f q s =
     (case find_sub (close_tag item) q of
        None \<Rightarrow> (q, s)
      | Some i \<Rightarrow> handle_items item f (drop (i + (length item + 3)) q) (f (drop (length item + 2) (take i q)) s))"
  by pat_completeness auto
termination
  by (relation "measure (\<lambda>(_, _, q, _). length q)") (auto simp: close_tag_def dest!: find_sub_SomeD)

definition handle_item :: "string \<Rightarrow> (string \<Rightarrow> 's \<Rightarrow> 's) \<Rightarrow> string \<times> 's \<Rightarrow> string \<times> 's" where
  "handle_item item f = (\<lambda>(q, s). if prefix (open_tag item) q then handle_items item f q s else (q, s))"

text \<open>The commands of a worker, and one turn of its loop over the input.\<close>

definition worker_commands :: "string list" where
  "worker_commands = [''cookerconfig'', ''workerdata'', ''runtask'', ''finishnow'', ''ping'', ''quit'']"

definition serve_turn :: "(string \<Rightarrow> string \<Rightarrow> 's \<Rightarrow> 's) \<Rightarrow> string \<times> 's \<Rightarrow> string \<times> 's" where
  "serve_turn f st = (if fst st = [] then st else fold (\<lambda>item. handle_item item (f item)) worker_commands st)"

declare forward_events.simps [simp del]
declare handle_items.simps [simp del]


section \<open>Messages are delivered once, in order, however the stream is split\<close>

text \<open>The order in which the queue is worked off: the first message, whatever its tag.\<close>

definition first_message :: "string \<Rightarrow> (bool \<times> string \<times> string) option" where
  "first_message q =
     (case next_message ''event'' q of
        Some (p, rest) \<Rightarrow> Some (True, p, rest)
      | None \<Rightarrow> map_option (Pair False) (next_message ''exitcode'' q))"

function deliver :: "(string \<Rightarrow> ('s, unit) eff) \<Rightarrow> (string \<Rightarrow> ('s, unit) eff) \<Rightarrow> string \<Rightarrow> 's \<Rightarrow> unit res \<times> string \<times> 's" where
  "deliver fe fx q s =
     (case first_message q of
        None \<Rightarrow> (Inr (), q, s)
      | Some (b, p, rest) \<Rightarrow>
          (case (if b then fe else fx) p s of
             (Inl e, s) \<Rightarrow> (Inl e, q, s)
           | (Inr _, s) \<Rightarrow> deliver fe fx rest s))"
  by pat_completeness auto
termination
  by (relation "measure (\<lambda>(_, _, q, _). length q)")
    (auto simp: first_message_def split: option.splits dest: next_message_shorter)

declare deliver.simps [simp del]

lemma event_not_exitcode: "next_message ''exitcode'' q = Some x \<Longrightarrow> next_message ''event'' q = None"
  by (auto simp: next_message_def open_tag_def prefix_def split: option.splits if_splits)

lemma first_message_append:
  assumes "first_message q = Some (b, p, rest)"
  shows "first_message (q @ r) = Some (b, p, rest @ r)"
proof (cases "next_message ''event'' q")
  case None
  then have b: "\<not> b" "next_message ''exitcode'' q = Some (p, rest)" using assms by (auto simp: first_message_def)
  then have e: "next_message ''exitcode'' (q @ r) = Some (p, rest @ r)" by (simp add: next_message_append)
  then show ?thesis using b event_not_exitcode [OF e] by (simp add: first_message_def)
next
  case (Some m)
  then show ?thesis using assms by (simp add: first_message_def next_message_append)
qed

lemma deliver_take:
  assumes "t = ''event'' \<and> h = fe \<or> t = ''exitcode'' \<and> h = fx"
  shows "deliver fe fx q s =
    (case take_messages t h q found s of
       (Inl e, q, s) \<Rightarrow> (Inl e, q, s) | (Inr _, q, s) \<Rightarrow> deliver fe fx q s)"
  using assms
proof (induction t h q found s rule: take_messages.induct)
  case (1 t h q found s)
  show ?case
  proof (cases "next_message t q")
    case None
    then show ?thesis by (simp add: take_messages.simps [of t h q])
  next
    case (Some m)
    obtain p rest where m: "m = (p, rest)" by (cases m)
    have f: "first_message q = Some (t = ''event'', p, rest)"
      using 1(2) Some m event_not_exitcode [of q m] by (auto simp: first_message_def)
    have h: "(if t = ''event'' then fe else fx) = h" using 1(2) by auto
    obtain x s2 where x: "h p s = (x, s2)" by (cases "h p s")
    show ?thesis
    proof (cases x)
      case (Inl e)
      then show ?thesis using Some m x f h by (simp add: take_messages.simps [of t h q] deliver.simps [of fe fx q])
    next
      case (Inr u)
      have "deliver fe fx q s = deliver fe fx rest s2"
        using Inr f h x by (simp add: deliver.simps [of fe fx q])
      with 1(1) [OF Some m [symmetric] x [symmetric] Inr 1(2)] Inr Some m x show ?thesis
        by (simp add: take_messages.simps [of t h q])
    qed
  qed
qed

lemma take_messages_found: "take_messages t h q True s \<noteq> (Inr False, q', s')"
proof (induction t h q "True" s rule: take_messages.induct)
  case (1 t h q s)
  show ?case
  proof
    assume r: "take_messages t h q True s = (Inr False, q', s')"
    then obtain p rest s2 where "next_message t q = Some (p, rest)" "h p s = (Inr (), s2)"
      "take_messages t h rest True s2 = (Inr False, q', s')"
      by (auto simp: take_messages.simps [of t h q] split: option.splits sum.splits prod.splits)
    with 1 show False by metis
  qed
qed

lemma take_messages_stop:
  assumes "take_messages t h q found s = (Inr False, q', s')"
  shows "\<not> found \<and> q' = q \<and> s' = s \<and> next_message t q = None"
  using assms take_messages_found [of t h]
  by (auto simp: take_messages.simps [of t h q] split: option.splits sum.splits prod.splits)

lemma pipe_loop_deliver: "pipe_loop fe fx q s = deliver fe fx q s"
proof (induction fe fx q s rule: pipe_loop.induct)
  case (1 fe fx q s)
  show ?case
  proof (cases "q = []")
    case True
    then show ?thesis
      by (simp add: pipe_loop.simps [of fe fx] deliver.simps [of fe fx] first_message_def next_message_def close_tag_def)
  next
    case False
    obtain r1 q1 s1 where t1: "take_messages ''event'' fe q False s = (r1, q1, s1)" by (cases "take_messages ''event'' fe q False s")
    note d1 = deliver_take [of "''event''" fe fe fx q s False, unfolded t1]
    show ?thesis
    proof (cases r1)
      case (Inl e)
      then show ?thesis using d1 t1 False by (simp add: pipe_loop.simps [of fe fx q])
    next
      case (Inr f)
      obtain r2 q2 s2 where t2: "take_messages ''exitcode'' fx q1 f s1 = (r2, q2, s2)" by (cases "take_messages ''exitcode'' fx q1 f s1")
      note d2 = deliver_take [of "''exitcode''" fx fe fx q1 s1 f, unfolded t2]
      show ?thesis
      proof (cases r2)
        case (Inl e)
        then show ?thesis using d1 d2 t1 t2 Inr False by (simp add: pipe_loop.simps [of fe fx q])
      next
        case (Inr found)
        show ?thesis
        proof (cases found)
          case True
          then have "pipe_loop fe fx q2 s2 = deliver fe fx q2 s2"
            using 1 [OF False t1 [symmetric] \<open>r1 = Inr f\<close> refl t2 [symmetric] Inr refl] by simp
          then show ?thesis using d1 d2 t1 t2 Inr \<open>r1 = Inr f\<close> False True by (simp add: pipe_loop.simps [of fe fx q])
        next
          case nf: False
          from take_messages_stop [of "''exitcode''" fx q1 f s1 q2 s2] t2 Inr nf
          have s2: "\<not> f" "q2 = q1" "s2 = s1" "next_message ''exitcode'' q1 = None" by simp_all
          from take_messages_stop [of "''event''" fe q False s q1 s1] t1 \<open>r1 = Inr f\<close> s2(1)
          have s1: "q1 = q" "s1 = s" "next_message ''event'' q = None" by simp_all
          then have "first_message q = None" using s2 by (simp add: first_message_def)
          then show ?thesis using t1 t2 s1 s2 Inr \<open>r1 = Inr f\<close> False nf
            by (simp add: pipe_loop.simps [of fe fx q] deliver.simps [of fe fx q])
        qed
      qed
    qed
  qed
qed

lemma deliver_append:
  "deliver fe fx (q @ r) s =
    (case deliver fe fx q s of (Inl e, q', s') \<Rightarrow> (Inl e, q' @ r, s') | (Inr _, q', s') \<Rightarrow> deliver fe fx (q' @ r) s')"
proof (induction fe fx q s rule: deliver.induct)
  case (1 fe fx q s)
  show ?case
  proof (cases "first_message q")
    case None
    then show ?thesis by (simp add: deliver.simps [of fe fx q])
  next
    case (Some m)
    obtain b p rest where m: "m = (b, p, rest)" by (cases m)
    obtain x s2 where x: "(if b then fe else fx) p s = (x, s2)" by (cases "(if b then fe else fx) p s")
    have a: "first_message (q @ r) = Some (b, p, rest @ r)" using Some m by (simp add: first_message_append)
    show ?thesis
    proof (cases x)
      case (Inl e)
      then show ?thesis using Some m x a by (simp add: deliver.simps [of fe fx q] deliver.simps [of fe fx "q @ r"])
    next
      case (Inr u)
      have "deliver fe fx (q @ r) s = deliver fe fx (rest @ r) s2" using a x Inr by (simp add: deliver.simps [of fe fx "q @ r"])
      moreover have "deliver fe fx q s = deliver fe fx rest s2" using Some m x Inr by (simp add: deliver.simps [of fe fx q])
      ultimately show ?thesis using 1 [OF Some m [symmetric] refl x [symmetric] Inr] by simp
    qed
  qed
qed

lemma deliver_rest: "deliver fe fx q s = (Inr u, q', s') \<Longrightarrow> first_message q' = None"
proof (induction fe fx q s rule: deliver.induct)
  case (1 fe fx q s)
  show ?case
  proof (cases "first_message q")
    case None
    then show ?thesis using 1(2) by (auto simp: deliver.simps [of fe fx q])
  next
    case (Some m)
    obtain b p rest where m: "m = (b, p, rest)" by (cases m)
    obtain x s2 where x: "(if b then fe else fx) p s = (x, s2)" by (cases "(if b then fe else fx) p s")
    obtain v where v: "x = Inr v" using 1(2) Some m x by (cases x) (auto simp: deliver.simps [of fe fx q])
    then have "deliver fe fx rest s2 = (Inr u, q', s')" using 1(2) Some m x by (simp add: deliver.simps [of fe fx q])
    from 1(1) [OF Some m [symmetric] refl x [symmetric] v this] show ?thesis .
  qed
qed

text \<open>A sequence of reads, up to the first exception.\<close>

fun pipe_reads :: "(string \<Rightarrow> ('s, unit) eff) \<Rightarrow> (string \<Rightarrow> ('s, unit) eff) \<Rightarrow> string res list \<Rightarrow> string \<times> 's \<Rightarrow> unit res \<times> string \<times> 's" where
  "pipe_reads fe fx [] = (\<lambda>(q, s). (Inr (), q, s))"
| "pipe_reads fe fx (i # is) = (\<lambda>st.
     case pipe_read 0 id fe fx i st of (Inl e, q, s) \<Rightarrow> (Inl e, q, s) | (Inr _, q, s) \<Rightarrow> pipe_reads fe fx is (q, s))"

definition bytes_of :: "string res \<Rightarrow> string" where
  "bytes_of i = (case i of Inl _ \<Rightarrow> [] | Inr b \<Rightarrow> b)"

lemma pipe_read_deliver:
  assumes "\<And>e. i = Inl e \<Longrightarrow> e = OSError EAGAIN"
  shows "pipe_read 0 id fe fx i (q, s) =
    (case deliver fe fx (q @ bytes_of i) s of
       (Inl e, q, s) \<Rightarrow> (Inl e, q, s) | (Inr _, q', s) \<Rightarrow> (Inr (bytes_of i \<noteq> []), q', s))"
  using assms by (cases i) (auto simp: pipe_read_def bytes_of_def pipe_loop_deliver split: prod.split sum.split)

lemma pipe_reads_deliver:
  assumes "first_message q = None" "\<And>e. Inl e \<in> set is \<Longrightarrow> e = OSError EAGAIN"
  shows "case deliver fe fx (q @ concat (map bytes_of is)) s of
    (Inl e, _, s') \<Rightarrow> \<exists>q'. pipe_reads fe fx is (q, s) = (Inl e, q', s')
  | (Inr _, q', s') \<Rightarrow> pipe_reads fe fx is (q, s) = (Inr (), q', s')"
  using assms
proof (induction "is" arbitrary: q s)
  case Nil
  then show ?case by (simp add: deliver.simps [of fe fx q])
next
  case (Cons i "is")
  have i: "\<And>e. i = Inl e \<Longrightarrow> e = OSError EAGAIN" using Cons.prems(2) by simp
  obtain r q1 s1 where d: "deliver fe fx (q @ bytes_of i) s = (r, q1, s1)" by (cases "deliver fe fx (q @ bytes_of i) s")
  note a = deliver_append [of fe fx "q @ bytes_of i" "concat (map bytes_of is)" s, unfolded d]
  show ?case
  proof (cases r)
    case (Inl e)
    then show ?thesis using a d by (simp add: pipe_read_deliver [OF i])
  next
    case (Inr u)
    then have "first_message q1 = None" using d deliver_rest [of fe fx "q @ bytes_of i" s u q1 s1] by simp
    then have IH: "case deliver fe fx (q1 @ concat (map bytes_of is)) s1 of
        (Inl e, _, s') \<Rightarrow> \<exists>q'. pipe_reads fe fx is (q1, s1) = (Inl e, q', s')
      | (Inr _, q', s') \<Rightarrow> pipe_reads fe fx is (q1, s1) = (Inr (), q', s')"
      using Cons.prems(2) by (intro Cons.IH) auto
    have "pipe_reads fe fx (i # is) (q, s) = pipe_reads fe fx is (q1, s1)"
      using Inr d by (simp add: pipe_read_deliver [OF i])
    moreover have "deliver fe fx (q @ concat (map bytes_of (i # is))) s = deliver fe fx (q1 @ concat (map bytes_of is)) s1"
      using a Inr by simp
    ultimately show ?thesis using IH by (simp only:)
  qed
qed

section \<open>What the tags protect\<close>

lemma find_sub_first:
  assumes "sub = c # sub'" "c \<notin> set sub'" "\<not> sublist sub xs"
  shows "find_sub sub (xs @ sub @ rest) = Some (length xs)"
  using assms(3)
proof (induction xs)
  case Nil
  then show ?case using assms(1) by simp
next
  case (Cons x xs)
  have "\<not> prefix sub (x # xs @ sub @ rest)"
  proof
    assume p: "prefix sub (x # xs @ sub @ rest)"
    show False
    proof (cases "length sub' \<le> length xs")
      case True
      then have "prefix sub (x # xs)" using p assms(1) prefix_within [of sub' xs "sub @ rest"] by auto
      with Cons.prems show False by (simp add: sublist_Cons_right)
    next
      case False
      have "prefix (xs @ [c]) (xs @ sub @ rest)" "prefix sub' (xs @ sub @ rest)" using p assms(1) by auto
      then have "prefix (xs @ [c]) sub'" by (rule prefix_length_prefix) (use False in simp)
      then have "c \<in> set sub'" using set_mono_prefix by fastforce
      with assms(2) show False by simp
    qed
  qed
  with Cons show ?case by (simp add: sublist_Cons_right)
qed

definition message_ok :: "string \<times> string \<Rightarrow> bool" where
  "message_ok = (\<lambda>(t, p). (t = ''event'' \<or> t = ''exitcode'') \<and> \<not> sublist (close_tag t) p)"

lemma next_message_encode:
  assumes "CHR ''<'' \<notin> set t" "CHR ''/'' \<notin> set t" "t \<noteq> []" "\<not> sublist (close_tag t) p"
  shows "next_message t (encode (t, p) @ rest) = Some (p, rest)"
proof -
  have s: "\<not> sublist (close_tag t) (ys @ ''>'' @ p)" if "CHR ''<'' \<notin> set ys" for ys
    using that assms(4) by (induction ys) (auto simp: sublist_Cons_right close_tag_def)
  have "\<not> sublist (close_tag t) (open_tag t @ p)"
    using s [OF assms(1)] assms(2,3) by (cases t) (auto simp: open_tag_def close_tag_def sublist_Cons_right)
  from find_sub_first [of "close_tag t" "CHR ''<''" "CHR ''/'' # t @ ''>''", OF _ _ this, of rest] assms(1)
  have f: "find_sub (close_tag t) (encode (t, p) @ rest) = Some (length (open_tag t @ p))"
    by (simp add: close_tag_def encode_def)
  have l: "length (open_tag t) = length t + 2" "length (close_tag t) = length t + 3"
    by (simp_all add: open_tag_def close_tag_def)
  show ?thesis
    unfolding next_message_def f option.case unfolding encode_def prod.case
    using l by simp
qed

lemma first_message_encode:
  assumes "message_ok (t, p)"
  shows "first_message (encode (t, p) @ rest) = Some (t = ''event'', p, rest)"
proof -
  have n: "next_message t (encode (t, p) @ rest) = Some (p, rest)"
    by (rule next_message_encode) (use assms in \<open>auto simp: message_ok_def\<close>)
  then show ?thesis
    using assms event_not_exitcode [of "encode (t, p) @ rest" "(p, rest)"] by (auto simp: first_message_def message_ok_def)
qed

definition handler_of :: "(string \<Rightarrow> ('s, unit) eff) \<Rightarrow> (string \<Rightarrow> ('s, unit) eff) \<Rightarrow> string \<times> string \<Rightarrow> ('s, unit) eff" where
  "handler_of fe fx = (\<lambda>(t, p). if t = ''event'' then fe p else fx p)"

lemma deliver_encoded:
  assumes "\<And>m. m \<in> set ms \<Longrightarrow> message_ok m"
  shows "case mfor ms (handler_of fe fx) s of
    (Inl e, s') \<Rightarrow> \<exists>q. deliver fe fx (concat (map encode ms)) s = (Inl e, q, s')
  | (Inr _, s') \<Rightarrow> deliver fe fx (concat (map encode ms)) s = (Inr (), [], s')"
  using assms
proof (induction ms arbitrary: s)
  case Nil
  then show ?case by (simp add: mret_def deliver.simps [of fe fx "[]"] first_message_def next_message_def close_tag_def)
next
  case (Cons m ms)
  obtain t p where m: "m = (t, p)" by (cases m)
  have f: "first_message (encode m @ concat (map encode ms)) = Some (t = ''event'', p, concat (map encode ms))"
    using Cons.prems m by (simp add: first_message_encode)
  obtain x s2 where x: "handler_of fe fx m s = (x, s2)" by (cases "handler_of fe fx m s")
  then have h: "(if t = ''event'' then fe else fx) p s = (x, s2)" using m by (simp add: handler_of_def split: if_splits)
  show ?case
  proof (cases x)
    case (Inl e)
    have "deliver fe fx (concat (map encode (m # ms))) s = (Inl e, concat (map encode (m # ms)), s2)"
      by (subst deliver.simps) (simp add: f h Inl)
    then show ?thesis using x Inl by (simp add: mbind_def)
  next
    case (Inr u)
    have "deliver fe fx (concat (map encode (m # ms))) s = deliver fe fx (concat (map encode ms)) s2"
      by (subst deliver.simps) (simp add: f h Inr)
    moreover have "mfor (m # ms) (handler_of fe fx) s = mfor ms (handler_of fe fx) s2" using x Inr by (simp add: mbind_def)
    ultimately show ?thesis using Cons.IH [of s2] Cons.prems by (simp only: list.set_intros)
  qed
qed

section \<open>From the worker's queue to the server\<close>

text \<open>The worker's threads put byte strings on the queue and flush it in any order.\<close>

datatype wstep = Put string | Flush "nat option"

definition worker_step :: "wstep \<Rightarrow> string list \<times> string \<times> string \<Rightarrow> string list \<times> string \<times> string" where
  "worker_step st = (\<lambda>(queue, buf, out).
     case st of Put b \<Rightarrow> (queue @ [b], buf, out) | Flush n \<Rightarrow> flush_round n (queue, buf, out))"

definition worker_run :: "wstep list \<Rightarrow> string list \<times> string \<times> string" where
  "worker_run steps = fold worker_step steps ([], [], [])"

definition puts :: "wstep list \<Rightarrow> string list" where
  "puts steps = concat (map (\<lambda>st. case st of Put b \<Rightarrow> [b] | Flush _ \<Rightarrow> []) steps)"

lemma worker_conserves:
  assumes "fold worker_step steps (queue, buf, out) = (queue', buf', out')"
  shows "out' @ buf' @ concat queue' = out @ buf @ concat queue @ concat (puts steps)"
  using assms
proof (induction steps arbitrary: queue buf out)
  case (Cons st steps)
  obtain q1 b1 o1 where s1: "worker_step st (queue, buf, out) = (q1, b1, o1)" by (cases "worker_step st (queue, buf, out)")
  then have "o1 @ b1 @ concat q1 = out @ buf @ concat queue @ concat (puts [st])"
    by (auto simp: worker_step_def flush_round_def puts_def simp del: take_append drop_append
        split: wstep.splits option.splits list.splits)
  moreover have "out' @ buf' @ concat queue' = o1 @ b1 @ concat q1 @ concat (puts steps)"
    using Cons s1 by simp
  moreover have "puts (st # steps) = puts [st] @ puts steps" by (simp add: puts_def)
  ultimately show ?case by simp
qed (simp add: puts_def)

text \<open>
  C28: the server handles exactly the messages the worker put on its queue, once and in order,
  however the worker's writes and the server's reads split the stream, and reads that find nothing
  (EAGAIN) change nothing. When a handler raises, the server stops with that exception after the
  messages before it. Payloads must not contain their own closing tag.
\<close>

theorem worker_messages_delivered:
  assumes "\<And>m. m \<in> set ms \<Longrightarrow> message_ok m"
    and "puts steps = map encode ms" "worker_run steps = ([], [], out)"
    and "concat (map bytes_of is) = out" "\<And>e. Inl e \<in> set is \<Longrightarrow> e = OSError EAGAIN"
  shows "case mfor ms (handler_of fe fx) s of
    (Inl e, s') \<Rightarrow> \<exists>q. pipe_reads fe fx is ([], s) = (Inl e, q, s')
  | (Inr _, s') \<Rightarrow> pipe_reads fe fx is ([], s) = (Inr (), [], s')"
proof -
  have o: "concat (map bytes_of is) = concat (map encode ms)"
    using worker_conserves [of steps "[]" "[]" "[]"] assms(2-4) by (simp add: worker_run_def)
  have n: "first_message [] = None" by (simp add: first_message_def next_message_def close_tag_def)
  have d: "case mfor ms (handler_of fe fx) s of
      (Inl e, s') \<Rightarrow> \<exists>q. deliver fe fx (concat (map encode ms)) s = (Inl e, q, s')
    | (Inr _, s') \<Rightarrow> deliver fe fx (concat (map encode ms)) s = (Inr (), [], s')"
    by (rule deliver_encoded [OF assms(1)])
  have r: "case deliver fe fx (concat (map encode ms)) s of
      (Inl e, _, s') \<Rightarrow> \<exists>q'. pipe_reads fe fx is ([], s) = (Inl e, q', s')
    | (Inr _, q', s') \<Rightarrow> pipe_reads fe fx is ([], s) = (Inr (), q', s')"
    using pipe_reads_deliver [of "[]" "is" fe fx s, OF n assms(5)] unfolding append_Nil o .
  obtain x s2 where x: "mfor ms (handler_of fe fx) s = (x, s2)" by (cases "mfor ms (handler_of fe fx) s")
  show ?thesis using d r unfolding x by (cases x) auto
qed

definition recorder :: "string \<Rightarrow> string \<Rightarrow> ((string \<times> string) list, unit) eff" where
  "recorder t p = mmod (\<lambda>s. s @ [(t, p)])"

lemma worker_messages_delivered_witness:
  "pipe_reads (recorder ''event'') (recorder ''exitcode'')
     [Inr ''<event>a</ev'', Inl (OSError EAGAIN), Inr ''ent><exitcode>0</exitcode>''] ([], []) =
   (Inr (), [], [(''event'', ''a''), (''exitcode'', ''0'')])"
proof -
  let ?ms = "[(''event'', ''a''), (''exitcode'', ''0'')]"
  let ?steps = "[Put (encode (''event'', ''a'')), Flush (Some 12), Put (encode (''exitcode'', ''0'')), Flush None, Flush (Some 40)]"
  let ?is = "[Inr ''<event>a</ev'', Inl (OSError EAGAIN), Inr ''ent><exitcode>0</exitcode>'']"
  have ok: "message_ok m" if "m \<in> set ?ms" for m
    using that by (auto simp: message_ok_def close_tag_def sublist_Cons_right)
  have p: "puts ?steps = map encode ?ms" by (simp add: puts_def)
  have w: "worker_run ?steps = ([], [], ''<event>a</event><exitcode>0</exitcode>'')"
    by (simp add: worker_run_def worker_step_def flush_round_def encode_def open_tag_def close_tag_def)
  have b: "concat (map bytes_of ?is) = ''<event>a</event><exitcode>0</exitcode>''" by (simp add: bytes_of_def)
  have e: "\<And>e. Inl e \<in> set ?is \<Longrightarrow> e = OSError EAGAIN" by simp
  have "mfor ?ms (handler_of (recorder ''event'') (recorder ''exitcode'')) [] = (Inr (), ?ms)"
    by (simp add: handler_of_def recorder_def mbind_def mmod_def mret_def)
  with worker_messages_delivered [OF ok p w b e, of "recorder ''event''" "recorder ''exitcode''" "[]"] show ?thesis by simp
qed

text \<open>
  C38: an event payload that holds the closing tag of an event breaks the stream: the server handles
  the part before the tag as an event and keeps the rest of the stream unhandled for ever.
\<close>

theorem closing_tag_in_payload:
  assumes "\<not> sublist (close_tag ''event'') a" "b = [] \<or> hd b \<noteq> CHR ''<''"
  shows "pipe_read 0 id (recorder ''event'') (recorder ''exitcode'')
     (Inr (encode (''event'', a @ close_tag ''event'' @ b) @ encode (''exitcode'', ''0''))) ([], []) =
   (Inr True, b @ close_tag ''event'' @ encode (''exitcode'', ''0''), [(''event'', a)])"
proof -
  let ?rest = "b @ close_tag ''event'' @ encode (''exitcode'', ''0'')"
  let ?q = "encode (''event'', a @ close_tag ''event'' @ b) @ encode (''exitcode'', ''0'')"
  have q: "?q = encode (''event'', a) @ ?rest" by (simp add: encode_def)
  have f: "first_message ?q = Some (True, a, ?rest)"
    unfolding q using assms(1) by (subst first_message_encode) (auto simp: message_ok_def)
  have "\<not> prefix (open_tag ''event'') ?rest" "\<not> prefix (open_tag ''exitcode'') ?rest"
    using assms(2) by (cases b; simp add: open_tag_def close_tag_def)+
  then have r: "first_message ?rest = None" by (simp add: first_message_def next_message_def split: option.split)
  have "deliver (recorder ''event'') (recorder ''exitcode'') ?q [] = (Inr (), ?rest, [(''event'', a)])"
    by (subst deliver.simps, simp only: f, subst deliver.simps) (simp add: r recorder_def mmod_def)
  moreover have "?q \<noteq> []" by (simp add: encode_def open_tag_def)
  ultimately show ?thesis by (subst pipe_read_deliver) (simp_all add: bytes_of_def)
qed

lemma closing_tag_in_payload_witness:
  "pipe_read 0 id (recorder ''event'') (recorder ''exitcode'')
     (Inr ''<event>a</event>b</event><exitcode>0</exitcode>'') ([], []) =
   (Inr True, ''b</event><exitcode>0</exitcode>'', [(''event'', ''a'')])"
  using closing_tag_in_payload [of "''a''" "''b''"]
  by (simp add: encode_def open_tag_def close_tag_def sublist_Cons_right)

section \<open>The commands\<close>

lemma handle_items_none: "\<not> sublist (close_tag item) q \<Longrightarrow> handle_items item f q s = (q, s)"
  by (subst handle_items.simps) (simp add: find_sub_none [symmetric])

text \<open>
  \<open>handle_item\<close> checks the opening tag of the first command only: between two commands of the
  same kind, a command of another kind is swallowed as a part of the second one's payload and is
  never handled.
\<close>

theorem handle_item_swallows:
  assumes "\<not> sublist (close_tag item) a" "\<not> sublist (close_tag item) (encode (other, b) @ open_tag item @ c)"
    and "CHR ''<'' \<notin> set item" "CHR ''/'' \<notin> set item" "item \<noteq> []"
  shows "handle_item item f (encode (item, a) @ encode (other, b) @ encode (item, c), s) =
    ([], f (drop (length item + 2) (encode (other, b) @ open_tag item @ c)) (f a s))"
proof -
  let ?mid = "encode (other, b) @ open_tag item @ c"
  have l: "length (close_tag item) = length item + 3" by (simp add: close_tag_def)
  have e: "encode (other, b) @ encode (item, c) = ?mid @ close_tag item" by (simp add: encode_def)
  from next_message_encode [OF assms(3-5) assms(1), of "?mid @ close_tag item"]
  obtain i where i: "find_sub (close_tag item) (encode (item, a) @ ?mid @ close_tag item) = Some i"
    "drop (length item + 2) (take i (encode (item, a) @ ?mid @ close_tag item)) = a"
    "drop (i + (length item + 3)) (encode (item, a) @ ?mid @ close_tag item) = ?mid @ close_tag item"
    by (auto simp: next_message_def split: option.splits if_splits)
  have m: "find_sub (close_tag item) (?mid @ close_tag item) = Some (length ?mid)"
    using find_sub_first [of "close_tag item" "CHR ''<''" "CHR ''/'' # item @ ''>''" ?mid "[]"] assms(2,3)
    by (simp add: close_tag_def)
  have n: "find_sub (close_tag item) [] = None" by (simp add: close_tag_def)
  have "handle_items item f (encode (item, a) @ ?mid @ close_tag item) s =
      handle_items item f (?mid @ close_tag item) (f a s)"
    by (subst handle_items.simps) (simp only: i option.case)
  also have "\<dots> = handle_items item f [] (f (drop (length item + 2) ?mid) (f a s))"
    by (subst handle_items.simps) (simp only: m option.case, simp add: l)
  also have "\<dots> = ([], f (drop (length item + 2) ?mid) (f a s))"
    by (subst handle_items.simps) (simp only: n option.case)
  finally show ?thesis
    unfolding handle_item_def e by (simp add: encode_def)
qed

lemma handle_item_swallows_witness:
  "serve_turn (\<lambda>item p s. s @ [(item, p)]) (''<runtask>A</runtask><finishnow></finishnow><runtask>B</runtask>'', []) =
    ([], [(''runtask'', ''A''), (''runtask'', ''w></finishnow><runtask>B'')])"
proof -
  let ?q = "encode (''runtask'', ''A'') @ encode (''finishnow'', []) @ encode (''runtask'', ''B'')"
  have a: "\<not> sublist (close_tag ''runtask'') ''A''" by (simp add: close_tag_def sublist_Cons_right)
  have b: "\<not> sublist (close_tag ''runtask'') (encode (''finishnow'', []) @ open_tag ''runtask'' @ ''B'')"
    by (simp add: encode_def open_tag_def close_tag_def sublist_Cons_right)
  have h: "handle_item ''runtask'' (\<lambda>p s. s @ [(''runtask'', p)]) (?q, []) =
      ([], [(''runtask'', ''A''), (''runtask'', ''w></finishnow><runtask>B'')])"
    using handle_item_swallows [OF a b, of "\<lambda>p s. s @ [(''runtask'', p)]" "[]"]
    by (simp add: encode_def open_tag_def close_tag_def)
  then show ?thesis
    by (simp add: serve_turn_def worker_commands_def encode_def open_tag_def close_tag_def handle_item_def)
qed

section \<open>A child's events\<close>

lemma forward_append:
  assumes "forward_events q = (ms, r)"
  shows "forward_events (q @ b) = (ms @ fst (forward_events (r @ b)), snd (forward_events (r @ b)))"
  using assms
proof (induction q arbitrary: ms rule: forward_events.induct)
  case (1 q)
  show ?case
  proof (cases "find_sub (close_tag ''event'') q")
    case None
    then show ?thesis using 1(2) by (simp add: forward_events.simps [of q])
  next
    case (Some i)
    have l: "i + 8 \<le> length q" using find_sub_SomeD [OF Some] by (simp add: close_tag_def)
    obtain ms2 r2 where f: "forward_events (drop (i + 8) q) = (ms2, r2)" by (cases "forward_events (drop (i + 8) q)")
    then have m: "ms = take (i + 8) q # ms2" "r2 = r" using 1(2) Some by (simp_all add: forward_events.simps [of q])
    from 1(1) [OF Some, of ms2] f m
    have "forward_events (drop (i + 8) q @ b) = (ms2 @ fst (forward_events (r @ b)), snd (forward_events (r @ b)))" by simp
    then show ?thesis
      using find_sub_append [OF Some, of b] l m by (simp add: forward_events.simps [of "q @ b"])
  qed
qed

lemma forward_conserves: "concat (fst (forward_events q)) @ snd (forward_events q) = q"
  and forward_stops: "find_sub (close_tag ''event'') (snd (forward_events q)) = None"
proof (induction q rule: forward_events.induct)
  case (1 q)
  {
    case 1
    then show ?case using "1.IH"(1) 
      by (cases "find_sub (close_tag ''event'') q") (auto simp: forward_events.simps [of q] split: prod.split)
  next
    case 2
    then show ?case using "1.IH"(2)
      by (cases "find_sub (close_tag ''event'') q") (auto simp: forward_events.simps [of q] split: prod.split)
  }
qed

text \<open>One read after the other.\<close>

fun child_reads :: "string res list \<Rightarrow> string \<times> string list \<Rightarrow> unit res \<times> string \<times> string list" where
  "child_reads [] st = (Inr (), st)"
| "child_reads (i # is) st = (case child_read i st of (Inl e, st) \<Rightarrow> (Inl e, st) | (Inr _, st) \<Rightarrow> child_reads is st)"

lemma child_reads_forward:
  assumes "\<And>e. Inl e \<in> set is \<Longrightarrow> e = OSError EAGAIN" "forward_events q = ([], q)"
  shows "child_reads is (q, fired) =
    (Inr (), snd (forward_events (q @ concat (map bytes_of is))), fired @ fst (forward_events (q @ concat (map bytes_of is))))"
  using assms
proof (induction "is" arbitrary: q fired)
  case (Cons i "is")
  obtain ms r where f: "forward_events (q @ bytes_of i) = (ms, r)" by (cases "forward_events (q @ bytes_of i)")
  have "forward_events r = ([], r)" using forward_stops [of "q @ bytes_of i"] f by (simp add: forward_events.simps [of r])
  note ih = Cons.IH [OF Cons.prems(1) this, of "fired @ ms"]
  have "child_read i (q, fired) = (Inr (bytes_of i \<noteq> []), r, fired @ ms)"
    using f Cons.prems(1) by (cases i) (auto simp: child_read_def bytes_of_def)
  then show ?case using ih forward_append [OF f, of "concat (map bytes_of is)"] by simp
qed simp

lemma forward_encoded:
  assumes "\<And>p. p \<in> set ps \<Longrightarrow> \<not> sublist (close_tag ''event'') p"
  shows "forward_events (concat (map (\<lambda>p. encode (''event'', p)) ps)) = (map (\<lambda>p. encode (''event'', p)) ps, [])"
  using assms
proof (induction ps)
  case Nil
  then show ?case by (simp add: forward_events.simps [of "[]"] close_tag_def)
next
  case (Cons p ps)
  let ?rest = "concat (map (\<lambda>p. encode (''event'', p)) ps)"
  from next_message_encode [of "''event''" p ?rest] Cons.prems
  obtain i where i: "find_sub (close_tag ''event'') (encode (''event'', p) @ ?rest) = Some i"
    "drop (i + 8) (encode (''event'', p) @ ?rest) = ?rest"
    by (auto simp: next_message_def split: option.splits if_splits)
  have "length ?rest = length (encode (''event'', p) @ ?rest) - (i + 8)" using i(2) by (metis length_drop)
  moreover have "i + 8 \<le> length (encode (''event'', p) @ ?rest)" using find_sub_SomeD [OF i(1)] by (simp add: close_tag_def)
  ultimately have "take (i + 8) (encode (''event'', p) @ ?rest) = encode (''event'', p)" by simp
  with i Cons show ?case by (simp add: forward_events.simps [of "encode (''event'', p) @ ?rest"])
qed

text \<open>
  C29: The worker passes on the events of a child process one by one and whole. However the child's
  stream is cut into reads, some of which may find nothing, after any number of them the events passed
  on are the first k the child sent, the bytes kept are those read after them and hold no complete
  event, and once everything was read all events were passed on and nothing is kept. The payload of an
  event must not contain its closing tag.
\<close>

theorem child_events_forwarded:
  assumes "\<And>p. p \<in> set ps \<Longrightarrow> \<not> sublist (close_tag ''event'') p" "\<And>e. Inl e \<in> set is \<Longrightarrow> e = OSError EAGAIN"
    and "concat (map bytes_of is) @ rest = concat (map (\<lambda>p. encode (''event'', p)) ps)"
  shows "\<exists>k r. child_reads is ([], []) = (Inr (), r, map (\<lambda>p. encode (''event'', p)) (take k ps)) \<and>
    concat (map (\<lambda>p. encode (''event'', p)) (take k ps)) @ r = concat (map bytes_of is) \<and>
    \<not> sublist (close_tag ''event'') r \<and> (rest = [] \<longrightarrow> take k ps = ps \<and> r = [])"
proof -
  let ?all = "map (\<lambda>p. encode (''event'', p)) ps" and ?b = "concat (map bytes_of is)"
  obtain ms r where f: "forward_events ?b = (ms, r)" by (cases "forward_events ?b")
  have n: "forward_events [] = ([], [])" by (simp add: forward_events.simps [of "[]"] close_tag_def)
  have c: "child_reads is ([], []) = (Inr (), r, ms)"
    using child_reads_forward [OF assms(2) n, of "is" "[]"] f by simp
  have "forward_events (?b @ rest) = (?all, [])" unfolding assms(3) by (rule forward_encoded [OF assms(1)])
  with forward_append [OF f, of rest] obtain ms2 where a: "?all = ms @ ms2" "forward_events (r @ rest) = (ms2, [])"
    by (cases "forward_events (r @ rest)") simp
  have m: "ms = map (\<lambda>p. encode (''event'', p)) (take (length ms) ps)"
    using arg_cong [OF a(1), of "take (length ms)"] by (simp add: take_map)
  have s: "find_sub (close_tag ''event'') r = None" using forward_stops [of ?b] f by simp
  have e: "concat ms @ r = ?b" using forward_conserves [of ?b] f by simp
  have "ms2 = [] \<and> r = []" if "rest = []" using a(2) s that by (simp add: forward_events.simps [of r])
  then have "rest = [] \<longrightarrow> take (length ms) ps = ps \<and> r = []" using a(1) by (auto dest: map_eq_imp_length_eq)
  then show ?thesis using c m e s by (intro exI [of _ "length ms"] exI [of _ r]) (simp add: find_sub_none)
qed

lemma child_events_forwarded_witness:
  "child_reads [Inr ''<event>x</ev'', Inl (OSError EAGAIN), Inr ''ent><ev'', Inr ''ent>y</event>''] ([], []) =
     (Inr (), [], [''<event>x</event>'', ''<event>y</event>''])"
proof -
  let ?is = "[Inr ''<event>x</ev'', Inl (OSError EAGAIN), Inr ''ent><ev'', Inr ''ent>y</event>'']"
  have p: "\<And>p. p \<in> set [''x'', ''y''] \<Longrightarrow> \<not> sublist (close_tag ''event'') p"
    by (auto simp: close_tag_def sublist_Cons_right)
  have b: "concat (map bytes_of ?is) @ [] = concat (map (\<lambda>p. encode (''event'', p)) [''x'', ''y''])"
    by (simp add: encode_def open_tag_def close_tag_def bytes_of_def)
  have e: "\<And>e. Inl e \<in> set ?is \<Longrightarrow> e = OSError EAGAIN" by simp
  from child_events_forwarded [OF p e b] show ?thesis
    by (auto simp: encode_def open_tag_def close_tag_def)
qed

end
