(* ===== verification/BB_SigGen.thy ===== *)
theory BB_SigGen
  imports BB_Stamps
begin

text \<open>
  The signature generators, \<open>lib/bb/siggen.py\<close>: the base hash of a task from the variables it depends
  on, the task hash from the hashes of its dependencies, the data dumped beside the stamps, and
  the comparison of two dumps. Arguments: \<open>hashlib.md5\<close>, the checksums of local files, the taint
  files, the numbers \<open>uuid4\<close> draws, and the variable dependencies \<open>generate_dependencies\<close> returns.
  An exception ends the run, so the state it leaves is not kept.
\<close>

section \<open>The state\<close>

type_synonym vardeps = "(string, string list) dict"

type_synonym varvals = "(string, string option) dict"

datatype sigerror =
    EmptyTask string
  | NotDeterministic string
  | BasehashMismatch string
  | TaskhashMismatch string
  | CachedBasehash string

record siggen =
  sg_basehash :: "(string, string) dict"
  sg_taskhash :: "(string, string) dict"
  sg_taskdeps :: "(string, vardeps) dict"
  sg_runtaskdeps :: "(string, string list) dict"
  sg_checksums :: "(string, (string \<times> string option) list) dict"
  sg_taints :: "(string, string) dict"
  sg_gendeps :: "(string, vardeps) dict"
  sg_lookupcache :: "(string, varvals) dict"
  sg_errors :: "sigerror list"

definition siggen_init :: siggen where
  "siggen_init = \<lparr>sg_basehash = [], sg_taskhash = [], sg_taskdeps = [], sg_runtaskdeps = [], sg_checksums = [],
     sg_taints = [], sg_gendeps = [], sg_lookupcache = [], sg_errors = []\<rparr>"

text \<open>The whitelists; \<open>gc_twl\<close> is the search of the compiled task whitelist.\<close>

record sigconf =
  gc_basewhitelist :: "string list"
  gc_taskwhitelist :: "string option"
  gc_twl :: "(string \<Rightarrow> bool) option"

text \<open>\<open>gv\<close>: the variables of the configuration; \<open>rx\<close>: compiling a pattern for searching.\<close>

definition siggen_basic_conf :: "(string \<Rightarrow> string option) \<Rightarrow> (string \<Rightarrow> (string \<Rightarrow> bool) option) \<Rightarrow> sigconf res" where
  "siggen_basic_conf gv rx =
     (let wl = split_ws (case gv ''BB_HASHBASE_WHITELIST'' of None \<Rightarrow> [] | Some s \<Rightarrow> s) in
      case gv ''BB_HASHTASK_WHITELIST'' of
        None \<Rightarrow> Inr \<lparr>gc_basewhitelist = wl, gc_taskwhitelist = None, gc_twl = None\<rparr>
      | Some s \<Rightarrow>
          if s = [] then Inr \<lparr>gc_basewhitelist = wl, gc_taskwhitelist = None, gc_twl = None\<rparr>
          else (case rx s of
                  None \<Rightarrow> Inl RegexError
                | Some p \<Rightarrow> Inr \<lparr>gc_basewhitelist = wl, gc_taskwhitelist = Some s, gc_twl = Some p\<rparr>))"

datatype handler = Noop | BasicGen | BasicHashGen

text \<open>The handler BB_SIGNATURE_HANDLER names, and whether the name is invalid.\<close>

definition siggen_choose :: "string option \<Rightarrow> handler \<times> bool" where
  "siggen_choose desired =
     (let desired = (case desired of None \<Rightarrow> ''noop'' | Some s \<Rightarrow> if s = [] then ''noop'' else s) in
      if desired = ''noop'' then (Noop, False)
      else if desired = ''basic'' then (BasicGen, False)
      else if desired = ''basichash'' then (BasicHashGen, False)
      else (Noop, True))"

section \<open>Base hashes\<close>

definition minus_wl :: "string list \<Rightarrow> string list \<Rightarrow> string list" where
  "minus_wl wl ds = filter (\<lambda>x. x \<notin> set wl) ds"

definition close_step :: "string list \<Rightarrow> string \<Rightarrow> vardeps \<times> string list \<Rightarrow> (vardeps \<times> string list) res" where
  "close_step wl dep = (\<lambda>(g, nd).
     if dep \<in> set wl then Inr (g, nd)
     else rbind (ditem g dep) (\<lambda>ds. let ds = minus_wl wl ds in Inr (dset dep ds g, fold sadd ds nd)))"

text \<open>The loop over \<open>newdeps\<close>; None: the fuel ran out.\<close>

fun close_deps :: "nat \<Rightarrow> string list \<Rightarrow> vardeps \<Rightarrow> string list \<Rightarrow> string list \<Rightarrow> (vardeps \<times> string list) res option" where
  "close_deps 0 wl g newdeps seen = None"
| "close_deps (Suc fuel) wl g newdeps seen =
     (if newdeps = [] then Some (Inr (g, seen))
      else let seen = fold sadd newdeps seen in
           case rfold (close_step wl) newdeps (g, []) of
             Inl e \<Rightarrow> Some (Inl e)
           | Inr (g, newdeps) \<Rightarrow> close_deps fuel wl g (filter (\<lambda>d. d \<notin> set seen) newdeps) seen)"

definition with_values :: "varvals \<Rightarrow> string list \<Rightarrow> string \<Rightarrow> string res" where
  "with_values vals = rfold (\<lambda>dep data. rbind (ditem vals dep) (\<lambda>v.
     Inr (data @ dep @ (case v of None \<Rightarrow> [] | Some x \<Rightarrow> x))))"

definition task_key :: "string \<Rightarrow> string \<Rightarrow> string" where
  "task_key fn task = fn @ ''.'' @ task"

definition build_task :: "(string \<Rightarrow> string) \<Rightarrow> string list \<Rightarrow> string \<Rightarrow> varvals \<Rightarrow> string \<Rightarrow>
    vardeps \<times> vardeps \<times> siggen \<Rightarrow> (vardeps \<times> vardeps \<times> siggen) res" where
  "build_task md5 wl fn lookup task = (\<lambda>(g, tds, s).
     rbind (ditem lookup task) (\<lambda>v.
     let s = (if v = None then s\<lparr>sg_errors := sg_errors s @ [EmptyTask task]\<rparr> else s);
         data = (case v of None \<Rightarrow> [] | Some x \<Rightarrow> x) in
     rbind (ditem g task) (\<lambda>ds.
     let newdeps = minus_wl wl ds in
     rbind (case close_deps (Suc (Suc (length g))) wl (dset task newdeps g) newdeps [] of
              None \<Rightarrow> Inl RecursionError | Some r \<Rightarrow> r) (\<lambda>(g, seen).
     let alldeps = sort seen in
     rbind (with_values lookup alldeps data) (\<lambda>data.
     let datahash = md5 data; k = task_key fn task;
         s = (if dget (sg_basehash s) k \<notin> {None, Some datahash}
              then s\<lparr>sg_errors := sg_errors s @ [NotDeterministic k]\<rparr> else s)
     in Inr (g, dset task alldeps tds, s\<lparr>sg_basehash := dset k datahash (sg_basehash s)\<rparr>))))))"

text \<open>\<open>_build_data\<close>; the arguments are the task list, the dependencies and the values of the variables.\<close>

definition build_data :: "(string \<Rightarrow> string) \<Rightarrow> string list \<Rightarrow> string \<Rightarrow> string list \<Rightarrow> vardeps \<Rightarrow> varvals \<Rightarrow>
    siggen \<Rightarrow> (vardeps \<times> siggen) res" where
  "build_data md5 wl fn tasklist gendeps lookup s =
     rbind (rfold (build_task md5 wl fn lookup) tasklist (gendeps, [], s)) (\<lambda>(g, tds, s).
       Inr (tds, s\<lparr>sg_taskdeps := dset fn tds (sg_taskdeps s), sg_gendeps := dset fn g (sg_gendeps s),
                   sg_lookupcache := dset fn lookup (sg_lookupcache s)\<rparr>))"

text \<open>\<open>finalise\<close>: also the variables it sets, with their values.\<close>

definition finalise :: "(string \<Rightarrow> string) \<Rightarrow> string list \<Rightarrow> string \<Rightarrow> string \<Rightarrow> string \<Rightarrow> string list \<Rightarrow> vardeps \<Rightarrow> varvals \<Rightarrow>
    siggen \<Rightarrow> ((string \<times> string) list \<times> siggen) res" where
  "finalise md5 wl fn variant mc tasklist gendeps lookup s =
     (let fn = (if variant \<noteq> [] \<or> mc \<noteq> [] then realfn2virtual fn variant mc else fn) in
      rbind (build_data md5 wl fn tasklist gendeps lookup s) (\<lambda>(tds, s).
      rbind (rmap (\<lambda>task. rbind (ditem (sg_basehash s) (task_key fn task)) (\<lambda>h. Inr (''BB_BASEHASH_task-'' @ task, h)))
               (dkeys tds)) (\<lambda>vars. Inr (vars, s))))"

section \<open>Task hashes\<close>

text \<open>\<open>ge_sums\<close>: the checksums of a list of files; \<open>ge_read\<close>: the content of a file; \<open>ge_uuid\<close>: the number drawn for a task.\<close>

record sigenv =
  ge_md5 :: "string \<Rightarrow> string"
  ge_sums :: "string option \<Rightarrow> string \<Rightarrow> (string \<times> string option) list res"
  ge_read :: "string \<Rightarrow> string option"
  ge_uuid :: "string \<Rightarrow> string"

definition rundep_check :: "sigconf \<Rightarrow> string \<Rightarrow> string \<Rightarrow> bool" where
  "rundep_check conf recipename depname =
     (case gc_twl conf of
        None \<Rightarrow> True
      | Some search \<Rightarrow> if \<not> search recipename \<and> search depname then False else True)"

definition read_taint :: "sigenv \<Rightarrow> string \<Rightarrow> string \<Rightarrow> string option" where
  "read_taint env task stampbase = ge_read env (stampbase @ ''.'' @ task @ ''.taint'')"

definition clean_basepath :: "string \<Rightarrow> string res" where
  "clean_basepath a0 =
     rbind (if prefix ''multiconfig:'' a0
            then (case split_on CHR '':'' a0 of
                    _ # mc # p # ps \<Rightarrow> Inr (mc, join_with '':'' (p # ps))
                  | _ \<Rightarrow> Inl ValueError)
            else Inr ([], a0)) (\<lambda>(mc, a).
     rbind (case rsplit1 CHR ''/'' a of
              None \<Rightarrow> Inl IndexError
            | Some (r, p2) \<Rightarrow> (case rsplit1 CHR ''/'' r of None \<Rightarrow> Inl IndexError | Some (_, p1) \<Rightarrow> Inr (p1 @ p2))) (\<lambda>b.
     let b = (if prefix ''virtual:'' a then b @ '':'' @ fn_from_tid a else b)
     in Inr (if mc \<noteq> [] then b @ '':multiconfig:'' @ mc else b)))"

definition clean_basepaths_list :: "string list \<Rightarrow> string list res" where
  "clean_basepaths_list a = rmap clean_basepath a"

definition clean_basepaths :: "(string, 'v) dict \<Rightarrow> (string, 'v) dict res" where
  "clean_basepaths a = rfold (\<lambda>(x, v) b. rbind (clean_basepath x) (\<lambda>k. Inr (dset k v b))) a []"

definition sorted_by_path :: "string list \<Rightarrow> string list res" where
  "sorted_by_path deps =
     rbind (rmap (\<lambda>d. rbind (clean_basepath d) (\<lambda>k. Inr (k, d))) deps) (\<lambda>ps. Inr (map snd (sort_key fst ps)))"

text \<open>The pattern takes the longest name before a dot; names have no line breaks.\<close>

definition dep_recipe :: "string \<Rightarrow> string res" where
  "dep_recipe dep = (case rsplit1 CHR ''.'' dep of None \<Rightarrow> Inl AttributeError | Some (fn, _) \<Rightarrow> Inr fn)"

definition hash_dep :: "sigconf \<Rightarrow> datacache \<Rightarrow> string \<Rightarrow> string \<Rightarrow> string \<Rightarrow> string \<times> siggen \<Rightarrow> (string \<times> siggen) res" where
  "hash_dep conf dc recipename k dep = (\<lambda>(data, s).
     rbind (dep_recipe dep) (\<lambda>f.
     rbind (ditem (dc_pkg_fn dc) f) (\<lambda>depname.
     if \<not> rundep_check conf recipename depname then Inr (data, s)
     else if dep \<notin> set (dkeys (sg_taskhash s)) then Inl (MsgFatal ''SigGen'')
     else rbind (ditem (sg_taskhash s) dep) (\<lambda>h.
          Inr (data @ h, s\<lparr>sg_runtaskdeps := dset k (ddefault (sg_runtaskdeps s) k @ [dep]) (sg_runtaskdeps s)\<rparr>)))))"

definition hash_files :: "sigenv \<Rightarrow> datacache \<Rightarrow> string \<Rightarrow> string \<Rightarrow> string \<Rightarrow> string \<Rightarrow> string \<times> siggen \<Rightarrow> (string \<times> siggen) res" where
  "hash_files env dc fn task recipename k = (\<lambda>(data, s).
     rbind (ditem (dc_file_checksums dc) fn) (\<lambda>fc.
     case dget fc task of
       None \<Rightarrow> Inr (data, s)
     | Some filelist \<Rightarrow> rbind (ge_sums env filelist recipename) (\<lambda>checksums.
         Inr (data @ concat (map (\<lambda>(f, cs). case cs of None \<Rightarrow> [] | Some c \<Rightarrow> c) checksums),
              s\<lparr>sg_checksums := dset k (ddefault (sg_checksums s) k @ checksums) (sg_checksums s)\<rparr>))))"

definition hash_taints :: "sigenv \<Rightarrow> datacache \<Rightarrow> string \<Rightarrow> string \<Rightarrow> string \<Rightarrow> string \<times> siggen \<Rightarrow> (string \<times> siggen) res" where
  "hash_taints env dc fn task k = (\<lambda>(data, s).
     rbind (ditem (dc_task_deps dc) fn) (\<lambda>td.
     let (data, s) = (if flag_value td ''nostamp'' task \<noteq> None
                      then (data @ ge_uuid env k, s\<lparr>sg_taints := dset k (''nostamp:'' @ ge_uuid env k) (sg_taints s)\<rparr>)
                      else (data, s)) in
     rbind (ditem (dc_stamp dc) fn) (\<lambda>stamp.
     case read_taint env task stamp of
       None \<Rightarrow> Inr (data, s)
     | Some taint \<Rightarrow>
         if taint = [] then Inr (data, s)
         else Inr (data @ taint, s\<lparr>sg_taints := dset k taint (sg_taints s)\<rparr>))))"

definition get_taskhash :: "sigenv \<Rightarrow> sigconf \<Rightarrow> string \<Rightarrow> string \<Rightarrow> string list \<Rightarrow> datacache \<Rightarrow> siggen \<Rightarrow> (string \<times> siggen) res" where
  "get_taskhash env conf fn task deps dc s =
     (let k = task_key fn task in
      rbind (ditem (dc_basetaskhash dc) k) (\<lambda>data.
      let s = s\<lparr>sg_basehash := dset k data (sg_basehash s), sg_runtaskdeps := dset k [] (sg_runtaskdeps s),
                sg_checksums := dset k [] (sg_checksums s)\<rparr> in
      rbind (ditem (dc_pkg_fn dc) fn) (\<lambda>recipename.
      rbind (sorted_by_path deps) (\<lambda>deps.
      rbind (rfold (hash_dep conf dc recipename k) deps (data, s)) (\<lambda>ds.
      rbind (hash_files env dc fn task recipename k ds) (\<lambda>ds.
      rbind (hash_taints env dc fn task k ds) (\<lambda>(data, s).
      let h = ge_md5 env data in Inr (h, s\<lparr>sg_taskhash := dset k h (sg_taskhash s)\<rparr>))))))))"

text \<open>The base class hashes nothing.\<close>

definition noop_taskhash :: "string \<Rightarrow> string \<Rightarrow> string list \<Rightarrow> datacache \<Rightarrow> siggen \<Rightarrow> (string \<times> siggen) res" where
  "noop_taskhash fn task deps dc s = Inr (''0'', s)"

text \<open>Stamp names that hold the hash; \<open>clean\<close> makes the mask that matches every hash.\<close>

definition basichash_stampfile :: "siggen \<Rightarrow> string \<Rightarrow> string \<Rightarrow> string \<Rightarrow> string \<Rightarrow> bool \<Rightarrow> string res" where
  "basichash_stampfile s stampbase fn taskname extrainfo clean =
     (let k = (if taskname \<noteq> ''do_setscene'' \<and> suffix_of ''_setscene'' taskname
               then task_key fn (take (length taskname - 9) taskname) else task_key fn taskname) in
      rbind (if clean then Inr ''*''
             else case dget (sg_taskhash s) k of Some h \<Rightarrow> Inr h | None \<Rightarrow> ditem (sg_basehash s) k) (\<lambda>h.
        Inr (plain_stampfile stampbase fn taskname (h @ ''.'' @ extrainfo))))"

definition basichash_stampcleanmask :: "siggen \<Rightarrow> string \<Rightarrow> string \<Rightarrow> string \<Rightarrow> string \<Rightarrow> string res" where
  "basichash_stampcleanmask s stampbase fn taskname extrainfo = basichash_stampfile s stampbase fn taskname extrainfo True"

text \<open>What the server sends to the workers, and how a worker takes it over.\<close>

type_synonym siggen_data = "(string, string list) dict \<times> (string, string) dict \<times>
    (string, (string \<times> string option) list) dict \<times> (string, string) dict \<times> (string, string) dict"

definition get_taskdata :: "siggen \<Rightarrow> siggen_data" where
  "get_taskdata s = (sg_runtaskdeps s, sg_taskhash s, sg_checksums s, sg_taints s, sg_basehash s)"

definition set_taskdata :: "siggen_data \<Rightarrow> siggen \<Rightarrow> siggen" where
  "set_taskdata = (\<lambda>(runtaskdeps, taskhash, checksums, taints, basehash) s.
     s\<lparr>sg_runtaskdeps := runtaskdeps, sg_taskhash := taskhash, sg_checksums := checksums, sg_taints := taints,
       sg_basehash := basehash\<rparr>)"

end
