(* ===== verification/BB_SigDump.thy ===== *)
theory BB_SigDump
  imports BB_SigGen BB_Weights
begin

text \<open>
  The data \<open>lib/bb/siggen.py\<close> dumps for a task, the hashes computed again from it, and the
  comparison of two dumps. The pickled file and the text of the messages are left out.
\<close>

section \<open>The dumped data\<close>

record sigdata =
  sd_task :: string
  sd_basewhitelist :: "string list"
  sd_taskwhitelist :: "string option"
  sd_taskdeps :: "string list"
  sd_basehash :: string
  sd_gendeps :: vardeps
  sd_varvals :: varvals
  sd_runtaskdeps :: "string list option"
  sd_checksums :: "(string \<times> string option) list option"
  sd_runtaskhashes :: "(string, string) dict option"
  sd_taskhash :: "string option"
  sd_taint :: "string option"

definition has_sub :: "string \<Rightarrow> string \<Rightarrow> bool" where
  "has_sub sub s \<longleftrightarrow> list_ex (prefix sub) (suffixes s)"

definition calc_basehash :: "(string \<Rightarrow> string) \<Rightarrow> sigdata \<Rightarrow> string res" where
  "calc_basehash md5 sd =
     rbind (ditem (sd_varvals sd) (sd_task sd)) (\<lambda>v.
     rbind (with_values (sd_varvals sd) (sd_taskdeps sd) (case v of None \<Rightarrow> [] | Some x \<Rightarrow> x)) (\<lambda>basedata.
       Inr (md5 basedata)))"

text \<open>An entry that is not there.\<close>

definition entry_of :: "string \<Rightarrow> 'v option \<Rightarrow> 'v res" where
  "entry_of name v = (case v of None \<Rightarrow> Inl (KeyError name) | Some x \<Rightarrow> Inr x)"

definition taint_data :: "string option \<Rightarrow> string" where
  "taint_data taint = (case taint of None \<Rightarrow> [] | Some t \<Rightarrow> if has_sub ''nostamp:'' t then drop 8 t else t)"

definition add_sum :: "string \<times> string option \<Rightarrow> string \<Rightarrow> string res" where
  "add_sum c data = (case snd c of None \<Rightarrow> Inl TypeError | Some x \<Rightarrow> Inr (data @ x))"

definition calc_taskhash :: "(string \<Rightarrow> string) \<Rightarrow> sigdata \<Rightarrow> string res" where
  "calc_taskhash md5 sd =
     rbind (entry_of ''runtaskdeps'' (sd_runtaskdeps sd)) (\<lambda>deps.
     rbind (rfold (\<lambda>dep data. rbind (entry_of ''runtaskhashes'' (sd_runtaskhashes sd)) (\<lambda>hs.
              rbind (ditem hs dep) (\<lambda>h. Inr (data @ h)))) deps (sd_basehash sd)) (\<lambda>data.
     rbind (entry_of ''file_checksum_values'' (sd_checksums sd)) (\<lambda>cs.
     rbind (rfold add_sum cs data) (\<lambda>data.
       Inr (md5 (data @ taint_data (sd_taint sd)))))))"

text \<open>\<open>s.replace(old, new)\<close> for a string \<open>old\<close> that is not empty.\<close>

function replace_sub :: "string \<Rightarrow> string \<Rightarrow> string \<Rightarrow> string" where
  "replace_sub old new [] = []"
| "replace_sub old new (c # cs) =
     (if old \<noteq> [] \<and> prefix old (c # cs) then new @ replace_sub old new (drop (length old) (c # cs))
      else c # replace_sub old new cs)"
  by pat_completeness auto
termination
  by (relation "measure (length \<circ> snd \<circ> snd)") auto

datatype runtime = RunBool bool | RunStr string

fun truthy_runtime :: "runtime \<Rightarrow> bool" where
  "truthy_runtime (RunBool b) = b"
| "truthy_runtime (RunStr s) = (s \<noteq> [])"

text \<open>The name of the file, and the stamp whose taint counts.\<close>

definition sigfile_name :: "siggen \<Rightarrow> string \<Rightarrow> string \<Rightarrow> string \<Rightarrow> runtime \<Rightarrow> (string \<times> string) res" where
  "sigfile_name s fn task stampbase runtime =
     (let k = task_key fn task in
      case (case runtime of RunStr r \<Rightarrow> if prefix ''customfile'' r then Some (drop 11 r) else None | RunBool _ \<Rightarrow> None) of
        Some ref \<Rightarrow> Inr (stampbase, ref)
      | None \<Rightarrow>
          if truthy_runtime runtime \<and> k \<in> set (dkeys (sg_taskhash s))
          then rbind (ditem (sg_taskhash s) k) (\<lambda>h. Inr (stampbase @ ''.'' @ task @ ''.sigdata.'' @ h, stampbase))
          else rbind (ditem (sg_basehash s) k) (\<lambda>h. Inr (stampbase @ ''.'' @ task @ ''.sigbasedata.'' @ h, stampbase)))"

definition dump_vars :: "string list \<Rightarrow> string \<Rightarrow> siggen \<Rightarrow> string list \<Rightarrow> vardeps \<times> varvals \<Rightarrow> (vardeps \<times> varvals) res" where
  "dump_vars wl fn s = rfold (\<lambda>dep (g, vals).
     if dep \<in> set wl then Inr (g, vals)
     else rbind (ditem (sg_gendeps s) fn) (\<lambda>gendeps. rbind (ditem gendeps dep) (\<lambda>ds.
          rbind (ditem (sg_lookupcache s) fn) (\<lambda>lookup. rbind (ditem lookup dep) (\<lambda>x.
            Inr (dset dep ds g, dset dep x vals))))))"

definition dump_base :: "sigconf \<Rightarrow> string \<Rightarrow> string \<Rightarrow> siggen \<Rightarrow> sigdata res" where
  "dump_base conf fn task s =
     rbind (ditem (sg_taskdeps s) fn) (\<lambda>tds. rbind (ditem tds task) (\<lambda>taskdeps.
     rbind (ditem (sg_basehash s) (task_key fn task)) (\<lambda>basehash.
     rbind (ditem (sg_lookupcache s) fn) (\<lambda>lookup. rbind (ditem lookup task) (\<lambda>v.
     rbind (dump_vars (gc_basewhitelist conf) fn s taskdeps ([], [(task, v)])) (\<lambda>(g, vals).
       Inr \<lparr>sd_task = task, sd_basewhitelist = gc_basewhitelist conf, sd_taskwhitelist = gc_taskwhitelist conf,
            sd_taskdeps = taskdeps, sd_basehash = basehash, sd_gendeps = g, sd_varvals = vals,
            sd_runtaskdeps = None, sd_checksums = None, sd_runtaskhashes = None, sd_taskhash = None, sd_taint = None\<rparr>))))))"

definition dump_run :: "string \<Rightarrow> siggen \<Rightarrow> sigdata \<Rightarrow> sigdata res" where
  "dump_run k s sd =
     rbind (ditem (sg_runtaskdeps s) k) (\<lambda>deps.
     rbind (ditem (sg_checksums s) k) (\<lambda>cs.
     rbind (rfold (\<lambda>dep hs. rbind (ditem (sg_taskhash s) dep) (\<lambda>h. Inr (dset dep h hs))) deps []) (\<lambda>hs.
     rbind (ditem (sg_taskhash s) k) (\<lambda>h.
       Inr (sd\<lparr>sd_runtaskdeps := Some deps, sd_checksums := Some (map (\<lambda>(f, cs). (basename f, cs)) cs),
               sd_runtaskhashes := Some hs, sd_taskhash := Some h\<rparr>)))))"

definition dump_taint :: "string option \<Rightarrow> bool \<Rightarrow> string \<Rightarrow> siggen \<Rightarrow> sigdata \<Rightarrow> sigdata" where
  "dump_taint taint run k s sd =
     (let sd = (case taint of None \<Rightarrow> sd | Some t \<Rightarrow> if t = [] then sd else sd\<lparr>sd_taint := Some t\<rparr>) in
      case (if run then dget (sg_taints s) k else None) of
        None \<Rightarrow> sd
      | Some t \<Rightarrow> if has_sub ''nostamp:'' t then sd\<lparr>sd_taint := Some t\<rparr> else sd)"

text \<open>\<open>dump_sigtask\<close>: the file's name, its data, and the mismatches it reports.\<close>

definition dump_sigtask :: "sigenv \<Rightarrow> sigconf \<Rightarrow> string \<Rightarrow> string \<Rightarrow> string \<Rightarrow> runtime \<Rightarrow> siggen \<Rightarrow>
    (string \<times> sigdata \<times> sigerror list) res" where
  "dump_sigtask env conf fn task stampbase runtime s =
     (let k = task_key fn task; run = truthy_runtime runtime in
      rbind (sigfile_name s fn task stampbase runtime) (\<lambda>(sigfile, ref).
      rbind (dump_base conf fn task s) (\<lambda>sd.
      rbind (if run \<and> k \<in> set (dkeys (sg_taskhash s)) then dump_run k s sd else Inr sd) (\<lambda>sd.
      let sd = dump_taint (read_taint env task ref) run k s sd in
      rbind (calc_basehash (ge_md5 env) sd) (\<lambda>computed.
      let errors = (if computed \<noteq> sd_basehash sd then [BasehashMismatch k] else []) in
      if \<not> (run \<and> k \<in> set (dkeys (sg_taskhash s))) then Inr (sigfile, sd, errors)
      else rbind (calc_taskhash (ge_md5 env) sd) (\<lambda>computed.
           rbind (ditem (sg_taskhash s) k) (\<lambda>h.
             if computed \<noteq> h then Inr (replace_sub h computed sigfile, sd, errors @ [TaskhashMismatch k])
             else Inr (sigfile, sd, errors))))))))"

text \<open>One task of \<open>dump_sigs\<close>.\<close>

definition dump_sigs_task :: "sigenv \<Rightarrow> sigconf \<Rightarrow> (string, datacache) dict \<Rightarrow> siggen \<Rightarrow> string \<Rightarrow> string \<Rightarrow>
    (string \<times> sigdata \<times> sigerror list) list \<Rightarrow> (string \<times> sigdata \<times> sigerror list) list res" where
  "dump_sigs_task env conf caches s fn task out =
     rbind (split_tid (fn @ '':'' @ task)) (\<lambda>(mc, _, _).
     let k = task_key fn task in
     if k \<notin> set (dkeys (sg_taskhash s)) then Inr out
     else rbind (ditem caches mc) (\<lambda>dc.
          rbind (ditem (dc_basetaskhash dc) k) (\<lambda>cached.
          rbind (ditem (sg_basehash s) k) (\<lambda>h.
          rbind (ditem (dc_stamp dc) fn) (\<lambda>stamp.
          rbind (dump_sigtask env conf fn task stamp (RunBool True) s) (\<lambda>(f, sd, es).
            Inr (out @ [(f, sd, (if cached \<noteq> h then [CachedBasehash k] else []) @ es)])))))))"

definition dump_sigs :: "sigenv \<Rightarrow> sigconf \<Rightarrow> (string, datacache) dict \<Rightarrow> siggen \<Rightarrow> (string \<times> sigdata \<times> sigerror list) list res" where
  "dump_sigs env conf caches s =
     rfold (\<lambda>(fn, tds) out. rfold (dump_sigs_task env conf caches s fn) (dkeys tds) out) (sg_taskdeps s) []"

text \<open>\<open>dump_this_task\<close>; the arguments are the file name of the recipe, the current task and the stamp of the task.\<close>

definition dump_this_task :: "sigenv \<Rightarrow> sigconf \<Rightarrow> string \<Rightarrow> string \<Rightarrow> string \<Rightarrow> string \<Rightarrow> siggen \<Rightarrow>
    (string \<times> sigdata \<times> sigerror list) res" where
  "dump_this_task env conf fn current referencestamp outfile s =
     dump_sigtask env conf fn (''do_'' @ current) outfile (RunStr (''customfile:'' @ referencestamp)) s"

section \<open>Comparing two dumps\<close>

definition dict_diff :: "('v \<Rightarrow> 'v \<Rightarrow> bool) \<Rightarrow> (string, 'v) dict \<Rightarrow> (string, 'v) dict \<Rightarrow> string list \<Rightarrow>
    string list \<times> string list \<times> string list" where
  "dict_diff same a b whitelist =
     (map fst (filter (\<lambda>(i, x). (case dget b i of None \<Rightarrow> False | Some y \<Rightarrow> \<not> same x y) \<and> i \<notin> set whitelist) a),
      filter (\<lambda>i. i \<notin> set (dkeys a)) (dkeys b),
      filter (\<lambda>i. i \<notin> set (dkeys b)) (dkeys a))"

text \<open>The counters of \<open>file_checksums_diff\<close> may be negative.\<close>

definition surplus :: "'a list \<Rightarrow> 'a list \<Rightarrow> 'a \<Rightarrow> int" where
  "surplus a b = (\<lambda>x. int (count_list a x) - int (count_list b x))"

definition take_surplus :: "'a \<Rightarrow> ('a \<Rightarrow> int) \<times> 'a list \<Rightarrow> ('a \<Rightarrow> int) \<times> 'a list" where
  "take_surplus x = (\<lambda>(cnt, out). if cnt x > 0 then (cnt(x := cnt x - 1), out @ [x]) else (cnt, out))"

type_synonym filesum = "string \<times> string option"

definition match_removed :: "filesum \<Rightarrow> (filesum \<Rightarrow> int) \<times> (string \<times> string option \<times> string option) list \<times> filesum list \<times> filesum list \<Rightarrow>
    (filesum \<Rightarrow> int) \<times> (string \<times> string option \<times> string option) list \<times> filesum list \<times> filesum list" where
  "match_removed x = (\<lambda>(cnt, changed, added, removed).
     if cnt x > 0
     then (let cnt = cnt(x := cnt x - 1) in
           case find (\<lambda>y. fst y = fst x) added of
             Some y \<Rightarrow> (cnt, changed @ [(fst x, snd x, snd y)], remove1 y added, removed)
           | None \<Rightarrow> (cnt, changed, added, removed @ [x]))
     else (cnt, changed, added, removed))"

definition file_checksums_diff :: "filesum list \<Rightarrow> filesum list \<Rightarrow>
    (string \<times> string option \<times> string option) list \<times> string list \<times> string list" where
  "file_checksums_diff a b =
     (let (_, added) = fold take_surplus b (surplus b a, []);
          (_, changed, added, removed) = fold match_removed a (surplus a b, [], added, [])
      in (changed, map fst added, map fst removed))"

datatype sigdiff =
    BaseWhitelistChanged "string list" "string list"
  | TaskWhitelistChanged "string option" "string option"
  | ItemsChanged "string list"
  | TaskdepsChanged "string list" "string list"
  | BasehashChanged string string
  | VarDepsChanged string "string list" "string list"
  | VarDepAdded string
  | VarDepRemoved string
  | VarvalChanged string "string option" "string option"
  | ChecksumChanged string "string option" "string option"
  | ChecksumAdded string
  | ChecksumRemoved string
  | RuntaskdepsChanged "string list" "string list"
  | RuntaskdepsNumber
  | RuntaskdepChanged string string string string
  | TaskDepAdded string string
  | TaskDepRemoved string string
  | TaskHashChanged string string string
  | TaintChanged "string option" "string option"

definition same_set :: "string list \<Rightarrow> string list \<Rightarrow> bool" where
  "same_set a b \<longleftrightarrow> set a = set b"

definition sym_diff :: "string list \<Rightarrow> string list \<Rightarrow> string list" where
  "sym_diff a b = filter (\<lambda>x. x \<notin> set b) a @ filter (\<lambda>x. x \<notin> set a) b"

text \<open>The whitelists; the task whitelist is a string, which has no \<open>symmetric_difference\<close>.\<close>

definition compare_whitelists :: "sigdata \<Rightarrow> sigdata \<Rightarrow> sigdiff list res" where
  "compare_whitelists a b =
     (let base = (if same_set (sd_basewhitelist a) (sd_basewhitelist b) then []
                  else BaseWhitelistChanged (sd_basewhitelist a) (sd_basewhitelist b) #
                       (if sd_basewhitelist a \<noteq> [] \<and> sd_basewhitelist b \<noteq> []
                        then [ItemsChanged (sym_diff (sd_basewhitelist a) (sd_basewhitelist b))] else [])) in
      if sd_taskwhitelist a = sd_taskwhitelist b then Inr base
      else if sd_taskwhitelist a \<notin> {None, Some []} \<and> sd_taskwhitelist b \<notin> {None, Some []} then Inl AttributeError
      else Inr (base @ [TaskWhitelistChanged (sd_taskwhitelist a) (sd_taskwhitelist b)]))"

definition compare_vars :: "sigdata \<Rightarrow> sigdata \<Rightarrow> sigdiff list" where
  "compare_vars a b =
     (let (changed, added, removed) = dict_diff same_set (sd_gendeps a) (sd_gendeps b)
            (filter (\<lambda>x. x \<in> set (sd_basewhitelist b)) (sd_basewhitelist a));
          (vals, _, _) = dict_diff (=) (sd_varvals a) (sd_varvals b) [];
          ds = ddefault (sd_gendeps a); es = ddefault (sd_gendeps b)
      in (if sd_taskdeps a \<noteq> sd_taskdeps b then [TaskdepsChanged (sort (sd_taskdeps a)) (sort (sd_taskdeps b))] else []) @
         (if sd_basehash a \<noteq> sd_basehash b then [BasehashChanged (sd_basehash a) (sd_basehash b)] else []) @
         concat (map (\<lambda>dep. VarDepsChanged dep (ds dep) (es dep) #
           (if ds dep \<noteq> [] \<and> es dep \<noteq> [] then [ItemsChanged (sym_diff (ds dep) (es dep))] else [])) changed) @
         map VarDepAdded added @ map VarDepRemoved removed @
         map (\<lambda>v. VarvalChanged v (the (dget (sd_varvals a) v)) (the (dget (sd_varvals b) v))) vals)"

definition compare_files :: "sigdata \<Rightarrow> sigdata \<Rightarrow> sigdiff list" where
  "compare_files a b =
     (let (changed, added, removed) = file_checksums_diff
            (case sd_checksums a of None \<Rightarrow> [] | Some cs \<Rightarrow> cs) (case sd_checksums b of None \<Rightarrow> [] | Some cs \<Rightarrow> cs)
      in map (\<lambda>(f, old, new). ChecksumChanged f old new) changed @ map ChecksumAdded added @ map ChecksumRemoved removed)"

text \<open>The dependencies at the same position whose hashes differ.\<close>

definition changed_runtaskdeps :: "sigdata \<Rightarrow> sigdata \<Rightarrow> string list \<Rightarrow> string list \<Rightarrow> sigdiff list res" where
  "changed_runtaskdeps a b as bs =
     (if length as \<noteq> length bs then Inr [RuntaskdepsNumber]
      else rfold (\<lambda>(x, y) out.
        rbind (rbind (entry_of ''runtaskhashes'' (sd_runtaskhashes a)) (\<lambda>hs. ditem hs x)) (\<lambda>hx.
        rbind (rbind (entry_of ''runtaskhashes'' (sd_runtaskhashes b)) (\<lambda>hs. ditem hs y)) (\<lambda>hy.
          Inr (if hx \<noteq> hy then out @ [RuntaskdepChanged x hx y hy] else out)))) (zip as bs) [])"

definition compare_runtaskdeps :: "sigdata \<Rightarrow> sigdata \<Rightarrow> sigdiff list res" where
  "compare_runtaskdeps a b =
     (let as = (case sd_runtaskdeps a of None \<Rightarrow> [] | Some ds \<Rightarrow> ds);
          bs = (case sd_runtaskdeps b of None \<Rightarrow> [] | Some ds \<Rightarrow> ds) in
      rbind (changed_runtaskdeps a b as bs) (\<lambda>changed.
      if changed = [] then Inr []
      else rbind (clean_basepaths_list as) (\<lambda>ca. rbind (clean_basepaths_list bs) (\<lambda>cb.
           Inr (RuntaskdepsChanged ca cb # changed)))))"

text \<open>A dependency added is not reported when one with the same hash was removed, and conversely.\<close>

definition unmatched_deps :: "(string \<Rightarrow> string \<Rightarrow> sigdiff) \<Rightarrow> (string, string) dict \<Rightarrow> (string, string) dict \<Rightarrow>
    string list \<Rightarrow> string list \<Rightarrow> sigdiff list res" where
  "unmatched_deps report hs there deps candidates =
     rfold (\<lambda>dep out.
       let h = the (dget hs dep) in
       if list_ex (\<lambda>c. the (dget there c) = h) candidates then Inr out
       else rbind (clean_basepath dep) (\<lambda>p. Inr (out @ [report p h]))) deps []"

text \<open>\<open>recursecb\<close>: the callback that explains a changed hash, if there is one.\<close>

type_synonym recursecb = "(string \<Rightarrow> string \<Rightarrow> string \<Rightarrow> sigdiff list) option"

definition changed_hashes :: "recursecb \<Rightarrow> (string, string) dict \<Rightarrow> (string, string) dict \<Rightarrow> string list \<Rightarrow>
    sigdiff list \<Rightarrow> sigdiff list res" where
  "changed_hashes cb a b changed output =
     rfold (\<lambda>dep out. rbind (clean_basepath dep) (\<lambda>p.
       let line = TaskHashChanged p (the (dget a dep)) (the (dget b dep));
           recout = (case cb of None \<Rightarrow> [] | Some f \<Rightarrow> f dep (the (dget a dep)) (the (dget b dep)))
       in Inr (if recout \<noteq> [] then line # recout else out @ [line]))) changed output"

definition compare_hashes :: "recursecb \<Rightarrow> sigdata \<Rightarrow> sigdata \<Rightarrow> sigdiff list \<Rightarrow> sigdiff list res" where
  "compare_hashes cb a b output =
     (case (sd_runtaskhashes a, sd_runtaskhashes b) of
        (Some ha, Some hb) \<Rightarrow>
          (let (changed, added, removed) = dict_diff (=) ha hb [] in
           rbind (unmatched_deps TaskDepAdded hb ha added removed) (\<lambda>out1.
           rbind (unmatched_deps TaskDepRemoved ha hb removed added) (\<lambda>out2.
             changed_hashes cb ha hb changed (output @ out1 @ out2))))
      | _ \<Rightarrow> Inr output)"

definition compare_sigfiles :: "recursecb \<Rightarrow> sigdata \<Rightarrow> sigdata \<Rightarrow> sigdiff list res" where
  "compare_sigfiles cb a b =
     rbind (compare_whitelists a b) (\<lambda>wl.
     rbind (compare_runtaskdeps a b) (\<lambda>deps.
     rbind (compare_hashes cb a b (wl @ compare_vars a b @ compare_files a b @ deps)) (\<lambda>output.
       Inr (output @ (if sd_taint a \<noteq> sd_taint b then [TaintChanged (sd_taint a) (sd_taint b)] else [])))))"

end
