(* ===== verification/BB_SigProps.thy ===== *)
theory BB_SigProps
  imports BB_SigDump
begin

text \<open>
  Properties of the signature generators: the variables a base hash covers, the formula of the task
  hash, that the dumped data gives the hashes again, and that the comparison of two dumps explains
  every difference of their hashes.
\<close>

section \<open>The closure of the variable dependencies\<close>

definition var_rel :: "string list \<Rightarrow> vardeps \<Rightarrow> (string \<times> string) set" where
  "var_rel wl g = {(x, y). y \<in> set (ddefault g x) \<and> y \<notin> set wl}"

text \<open>g' is g with whitelisted names taken out of some entries.\<close>

definition stripped :: "string list \<Rightarrow> vardeps \<Rightarrow> vardeps \<Rightarrow> bool" where
  "stripped wl g g' \<longleftrightarrow> dkeys g' = dkeys g \<and> var_rel wl g' = var_rel wl g"

lemma stripped_refl: "stripped wl g g"
  by (simp add: stripped_def)

lemma stripped_trans: "stripped wl g g1 \<Longrightarrow> stripped wl g1 g2 \<Longrightarrow> stripped wl g g2"
  by (simp add: stripped_def)

lemma set_minus_wl [simp]: "set (minus_wl wl ds) = set ds - set wl"
  by (auto simp: minus_wl_def)

lemma stripped_dset: "ditem g x = Inr ds \<Longrightarrow> stripped wl g (dset x (minus_wl wl ds) g)"
proof -
  assume d: "ditem g x = Inr ds"
  then have k: "x \<in> set (dkeys g)" "ddefault g x = ds" unfolding dget_Some_key by (auto simp: ditem_eq_Inr ddefault_def)
  then show ?thesis by (auto simp: stripped_def var_rel_def ddefault_dset dkeys_dset_mem simp del: list.set_map split: if_splits)
qed

lemma close_step_eq:
  "close_step wl dep (g, nd) = (if dep \<in> set wl then Inr (g, nd)
     else rbind (ditem g dep) (\<lambda>ds. Inr (dset dep (minus_wl wl ds) g, fold sadd (minus_wl wl ds) nd)))"
  by (simp add: close_step_def Let_def)

lemma close_round:
  assumes "rfold (close_step wl) xs (g, nd) = Inr (g', nd')" "set xs \<inter> set wl = {}" "set nd \<inter> set wl = {}"
  shows "stripped wl g g' \<and> set nd' = set nd \<union> var_rel wl g `` set xs \<and> set xs \<subseteq> set (dkeys g) \<and> set nd' \<inter> set wl = {}"
  using assms
proof (induction xs arbitrary: g nd)
  case (Cons x xs)
  then obtain ds where ds: "ditem g x = Inr ds"
    and r: "rfold (close_step wl) xs (dset x (minus_wl wl ds) g, fold sadd (minus_wl wl ds) nd) = Inr (g', nd')"
    by (auto simp: close_step_eq rbind_eq_Inr)
  have s: "stripped wl g (dset x (minus_wl wl ds) g)" by (rule stripped_dset [OF ds])
  have x: "x \<in> set (dkeys g)" "var_rel wl g `` {x} = set ds - set wl"
    using ds unfolding dget_Some_key by (auto simp: ditem_eq_Inr var_rel_def ddefault_def)
  have "set (fold sadd (minus_wl wl ds) nd) \<inter> set wl = {}" using Cons.prems(3) by (auto simp: set_fold_sadd)
  from Cons.IH [OF r _ this] Cons.prems(2) have
    ih: "stripped wl (dset x (minus_wl wl ds) g) g'"
      "set nd' = set (fold sadd (minus_wl wl ds) nd) \<union> var_rel wl (dset x (minus_wl wl ds) g) `` set xs"
      "set xs \<subseteq> set (dkeys (dset x (minus_wl wl ds) g))" "set nd' \<inter> set wl = {}" by (simp_all del: list.set_map) blast
  have "stripped wl g g'" by (rule stripped_trans [OF s ih(1)])
  moreover have "set nd' = set nd \<union> var_rel wl g `` set (x # xs)"
    using ih(2) s x(2) by (auto simp: set_fold_sadd stripped_def)
  moreover have "set (x # xs) \<subseteq> set (dkeys g)" using ih(3) s x(1) unfolding stripped_def by auto
  ultimately show ?case using ih(4) by blast
qed (simp add: stripped_refl)

lemma rtrancl_closed_Image: "R `` (A \<union> B) \<subseteq> A \<union> B \<union> C \<Longrightarrow> R\<^sup>* `` (A \<union> B) \<subseteq> A \<union> B \<union> R\<^sup>* `` C"
proof
  fix y assume R: "R `` (A \<union> B) \<subseteq> A \<union> B \<union> C" and "y \<in> R\<^sup>* `` (A \<union> B)"
  then obtain x where x: "x \<in> A \<union> B" "(x, y) \<in> R\<^sup>*" by blast
  from x(2) show "y \<in> A \<union> B \<union> R\<^sup>* `` C"
  proof induction
    case (step y z)
    then show ?case using R by (auto intro: rtrancl_into_rtrancl)
  qed (use x(1) in blast)
qed

lemma close_deps_ok:
  assumes "set nd \<inter> set wl = {}" "var_rel wl g `` set seen \<subseteq> set seen \<union> set nd" "distinct seen" "set nd \<inter> set seen = {}"
    and "set seen \<subseteq> set (dkeys g)" and "card (set (dkeys g) - set seen) < fuel"
  shows "\<exists>r. close_deps fuel wl g nd seen = Some r \<and>
    (case r of Inl e \<Rightarrow> e \<noteq> RecursionError
     | Inr (g', all) \<Rightarrow> stripped wl g g' \<and> distinct all \<and> set all \<subseteq> set (dkeys g) \<and> set all = (var_rel wl g)\<^sup>* `` (set seen \<union> set nd))"
  using assms
proof (induction fuel arbitrary: g nd seen)
  case (Suc fuel)
  let ?R = "var_rel wl g"
  show ?case
  proof (cases "nd = []")
    case True
    have "?R\<^sup>* `` set seen = set seen" using Suc.prems(2) True by (simp add: Image_closed_trancl)
    then show ?thesis using True Suc.prems(3,5) by (simp add: stripped_refl del: list.set_map)
  next
    case False
    let ?seen = "fold sadd nd seen"
    have sn: "set ?seen = set seen \<union> set nd" by (auto simp: set_fold_sadd)
    show ?thesis
    proof (cases "rfold (close_step wl) nd (g, [])")
      case (Inl e)
      have "e \<noteq> RecursionError"
        using rfold_Inl [OF Inl] by (auto simp: close_step_eq rbind_eq_Inl ditem_eq_Inl split: if_splits)
      then show ?thesis using Inl False by (simp add: Let_def)
    next
      case (Inr p)
      obtain g' nd' where p: "p = (g', nd')" by (cases p)
      have "set ([] :: string list) \<inter> set wl = {}" by simp
      from close_round [OF Inr [unfolded p] Suc.prems(1) this] have
        st: "stripped wl g g'" and nd': "set nd' = ?R `` set nd" and k: "set nd \<subseteq> set (dkeys g)" and wl: "set nd' \<inter> set wl = {}"
        by (simp_all del: list.set_map) blast
      let ?nd = "filter (\<lambda>d. d \<notin> set ?seen) nd'"
      have R': "var_rel wl g' = ?R" "dkeys g' = dkeys g" using st by (simp_all add: stripped_def)
      have lt: "card (set (dkeys g') - set ?seen) < fuel"
      proof -
        have "set (dkeys g) - set ?seen \<subset> set (dkeys g) - set seen" using k False Suc.prems(4) unfolding sn by (cases nd) auto
        then have "card (set (dkeys g) - set ?seen) < card (set (dkeys g) - set seen)" by (intro psubset_card_mono) simp_all
        then show ?thesis using Suc.prems(6) R'(2) by simp
      qed
      have "var_rel wl g' `` set ?seen \<subseteq> set ?seen \<union> set ?nd" using Suc.prems(2) nd' unfolding R' sn by auto
      moreover have "set ?nd \<inter> set wl = {}" "set ?nd \<inter> set ?seen = {}" using wl by auto
      ultimately obtain r where r: "close_deps fuel wl g' ?nd ?seen = Some r"
        "case r of Inl e \<Rightarrow> e \<noteq> RecursionError
         | Inr (g2, all) \<Rightarrow> stripped wl g' g2 \<and> distinct all \<and> set all \<subseteq> set (dkeys g') \<and> set all = (var_rel wl g')\<^sup>* `` (set ?seen \<union> set ?nd)"
        using Suc.IH [of ?nd g' ?seen] Suc.prems(3) lt k Suc.prems(5) R'(2) sn
        by (auto simp: distinct_fold_sadd simp del: list.set_map)
      have "?R\<^sup>* `` (set ?seen \<union> set ?nd) = ?R\<^sup>* `` (set seen \<union> set nd)"
      proof -
        have "set ?nd \<subseteq> ?R\<^sup>* `` (set seen \<union> set nd)" using nd' by auto
        then have "?R\<^sup>* `` (set ?seen \<union> set ?nd) \<subseteq> ?R\<^sup>* `` (set seen \<union> set nd)" unfolding sn by (auto intro: rtrancl_trans)
        then show ?thesis unfolding sn by blast
      qed
      then show ?thesis using r False Inr p st R' stripped_trans [OF st]
        by (auto simp: Let_def simp del: list.set_map split: sum.splits)
    qed
  qed
qed simp

lemma task_closure:
  assumes ds: "ditem g task = Inr ds"
  shows "\<exists>r. close_deps (Suc (Suc (length g))) wl (dset task (minus_wl wl ds) g) (minus_wl wl ds) [] = Some r \<and>
    (case r of Inl e \<Rightarrow> e \<noteq> RecursionError
     | Inr (g', all) \<Rightarrow> stripped wl g g' \<and> distinct all \<and> set all \<subseteq> set (dkeys g) \<and> set all = {y. (task, y) \<in> (var_rel wl g)\<^sup>+})"
proof -
  let ?R = "var_rel wl g" and ?g = "dset task (minus_wl wl ds) g" and ?nd = "minus_wl wl ds"
  have st: "stripped wl g ?g" by (rule stripped_dset [OF ds])
  then have R: "var_rel wl ?g = ?R" "dkeys ?g = dkeys g" by (simp_all add: stripped_def)
  have first: "set ?nd = ?R `` {task}" using ds by (auto simp: var_rel_def ditem_eq_Inr ddefault_def)
  have "card (set (dkeys g)) \<le> length g" using card_length [of "dkeys g"] by simp
  then have lt: "card (set (dkeys ?g) - set ([] :: string list)) < Suc (Suc (length g))" unfolding R(2) by simp
  have w: "set ?nd \<inter> set wl = {}" "var_rel wl ?g `` set [] \<subseteq> set [] \<union> set ?nd" "distinct ([] :: string list)" "set ?nd \<inter> set [] = {}" "set ([] :: string list) \<subseteq> set (dkeys ?g)"
    by auto
  have D: "?R\<^sup>* `` (set [] \<union> set ?nd) = {y. (task, y) \<in> ?R\<^sup>+}" unfolding first by (auto simp: trancl_unfold_left)
  obtain r where r: "close_deps (Suc (Suc (length g))) wl ?g ?nd [] = Some r"
    and c: "case r of Inl e \<Rightarrow> e \<noteq> RecursionError
     | Inr (g', all) \<Rightarrow> stripped wl ?g g' \<and> distinct all \<and> set all \<subseteq> set (dkeys ?g) \<and> set all = (var_rel wl ?g)\<^sup>* `` (set [] \<union> set ?nd)"
    using close_deps_ok [OF w lt] by (elim exE conjE)
  show ?thesis
    using r c stripped_trans [OF st] unfolding R D
    by (intro exI [of _ r] conjI) (auto split: sum.splits simp del: close_deps.simps list.set_map)
qed

definition same_tables :: "siggen \<Rightarrow> siggen \<Rightarrow> bool" where
  "same_tables s s' \<longleftrightarrow> sg_taskhash s' = sg_taskhash s \<and> sg_taskdeps s' = sg_taskdeps s \<and> sg_runtaskdeps s' = sg_runtaskdeps s \<and>
     sg_checksums s' = sg_checksums s \<and> sg_taints s' = sg_taints s \<and> sg_gendeps s' = sg_gendeps s \<and>
     sg_lookupcache s' = sg_lookupcache s"

text \<open>What one task adds: its dependencies, sorted, and the hash of their names and values.\<close>

lemma build_task_ok:
  assumes "build_task md5 wl fn lookup task (g, tds, s) = Inr (g', tds', s')"
  shows "stripped wl g g' \<and> finite {y. (task, y) \<in> (var_rel wl g)\<^sup>+} \<and> {y. (task, y) \<in> (var_rel wl g)\<^sup>+} \<subseteq> set (dkeys g) \<and> (\<exists>v data.
    dget lookup task = Some v \<and>
    tds' = dset task (sorted_list_of_set {y. (task, y) \<in> (var_rel wl g)\<^sup>+}) tds \<and>
    with_values lookup (sorted_list_of_set {y. (task, y) \<in> (var_rel wl g)\<^sup>+}) (case v of None \<Rightarrow> [] | Some x \<Rightarrow> x) = Inr data \<and>
    sg_basehash s' = dset (task_key fn task) (md5 data) (sg_basehash s)) \<and>
    same_tables s s'"
proof -
  let ?D = "{y. (task, y) \<in> (var_rel wl g)\<^sup>+}"
  obtain v ds where v: "ditem lookup task = Inr v" and ds: "ditem g task = Inr ds"
    using assms by (auto simp: build_task_def Let_def rbind_eq_Inr)
  let ?c = "close_deps (Suc (Suc (length g))) wl (dset task (minus_wl wl ds) g) (minus_wl wl ds) []"
  obtain g1 seen where c: "?c = Some (Inr (g1, seen))"
    using assms v ds by (auto simp: build_task_def Let_def rbind_eq_Inr simp del: close_deps.simps split: option.splits)
  obtain data where data: "with_values lookup (sort seen) (case v of None \<Rightarrow> [] | Some x \<Rightarrow> x) = Inr data"
    and e: "g' = g1 \<and> tds' = dset task (sort seen) tds \<and>
      sg_basehash s' = dset (task_key fn task) (md5 data) (sg_basehash s) \<and> same_tables s s'"
    using assms v ds c by (auto simp: build_task_def Let_def rbind_eq_Inr same_tables_def simp del: close_deps.simps split: if_splits)
  from task_closure [OF ds, of wl] c have cl: "stripped wl g g1" "distinct seen" "set seen = ?D" "set seen \<subseteq> set (dkeys g)"
    by (auto simp del: close_deps.simps list.set_map)
  have "sort seen = sorted_list_of_set ?D" using cl(2,3) by (metis sorted_list_of_set_sort_remdups distinct_remdups_id)
  moreover have "finite ?D" using cl(3) by (metis List.finite_set)
  moreover have "?D \<subseteq> set (dkeys g)" using cl(3,4) by blast
  ultimately show ?thesis using v data e cl(1) by (auto simp: ditem_eq_Inr simp del: list.set_map)
qed

definition base_entry :: "(string \<Rightarrow> string) \<Rightarrow> (string \<times> string) set \<Rightarrow> string set \<Rightarrow> string \<Rightarrow> varvals \<Rightarrow> vardeps \<Rightarrow> siggen \<Rightarrow> string \<Rightarrow> bool" where
  "base_entry md5 R K fn lookup tds s task \<longleftrightarrow>
     finite {y. (task, y) \<in> R\<^sup>+} \<and> {y. (task, y) \<in> R\<^sup>+} \<subseteq> K \<and> dget tds task = Some (sorted_list_of_set {y. (task, y) \<in> R\<^sup>+}) \<and>
     (\<exists>v data. dget lookup task = Some v \<and>
        with_values lookup (sorted_list_of_set {y. (task, y) \<in> R\<^sup>+}) (case v of None \<Rightarrow> [] | Some x \<Rightarrow> x) = Inr data \<and>
        dget (sg_basehash s) (task_key fn task) = Some (md5 data))"

lemma task_key_inj [simp]: "task_key fn t = task_key fn u \<longleftrightarrow> t = u"
  by (simp add: task_key_def)

lemma build_fold:
  assumes "rfold (build_task md5 wl fn lookup) tasks (g, tds, s) = Inr (g', tds', s')"
  shows "stripped wl g g' \<and> (\<forall>t \<in> set tasks. base_entry md5 (var_rel wl g) (set (dkeys g)) fn lookup tds' s' t) \<and>
    (\<forall>t. t \<notin> set tasks \<longrightarrow> dget tds' t = dget tds t \<and> dget (sg_basehash s') (task_key fn t) = dget (sg_basehash s) (task_key fn t)) \<and>
    same_tables s s'"
  using assms
proof (induction tasks arbitrary: g tds s)
  case (Cons t tasks)
  obtain g1 tds1 s1 where 1: "build_task md5 wl fn lookup t (g, tds, s) = Inr (g1, tds1, s1)"
    and r: "rfold (build_task md5 wl fn lookup) tasks (g1, tds1, s1) = Inr (g', tds', s')"
    using Cons.prems by (auto simp: rbind_eq_Inr)
  note b = build_task_ok [OF 1] and ih = Cons.IH [OF r]
  have R: "var_rel wl g1 = var_rel wl g" "dkeys g1 = dkeys g" using b by (simp_all add: stripped_def)
  have b1: "base_entry md5 (var_rel wl g) (set (dkeys g)) fn lookup tds1 s1 t"
    using b by (auto simp: base_entry_def dget_dset simp del: list.set_map)
  have "base_entry md5 (var_rel wl g) (set (dkeys g)) fn lookup tds' s' t"
  proof (cases "t \<in> set tasks")
    case False
    then have "dget tds' t = dget tds1 t" "dget (sg_basehash s') (task_key fn t) = dget (sg_basehash s1) (task_key fn t)" using ih by blast+
    then show ?thesis using b1 by (simp add: base_entry_def)
  qed (use ih R in \<open>auto simp del: list.set_map\<close>)
  moreover have "stripped wl g g'" using b ih stripped_trans by blast
  moreover have "dget tds' u = dget tds u \<and> dget (sg_basehash s') (task_key fn u) = dget (sg_basehash s) (task_key fn u)"
    if "u \<notin> set (t # tasks)" for u
  proof -
    have "dget tds1 u = dget tds u" "dget (sg_basehash s1) (task_key fn u) = dget (sg_basehash s) (task_key fn u)"
      using b that by (auto simp: dget_dset)
    then show ?thesis using ih that by auto
  qed
  moreover have "same_tables s s'"
    using b ih by (auto simp: same_tables_def)
  ultimately show ?case using ih R by (auto simp del: list.set_map)
qed (simp add: stripped_refl same_tables_def)

lemma with_values_error: "with_values vals deps data = Inl e \<Longrightarrow> e \<noteq> RecursionError"
  unfolding with_values_def by (drule rfold_Inl) (auto simp: rbind_eq_Inl ditem_eq_Inl)

lemma ditem_no_fuel [simp]: "ditem d k \<noteq> Inl RecursionError"
  by (simp add: ditem_eq_Inl)

lemma build_task_no_fuel: "build_task md5 wl fn lookup task (g, tds, s) \<noteq> Inl RecursionError"
proof
  assume a: "build_task md5 wl fn lookup task (g, tds, s) = Inl RecursionError"
  show False
  proof (cases "ditem g task")
    case (Inl e)
    then show ?thesis using a by (auto simp: build_task_def Let_def rbind_eq_Inl simp del: close_deps.simps)
  next
    case (Inr ds)
    from task_closure [OF Inr, of wl] obtain r where
      r: "close_deps (Suc (Suc (length g))) wl (dset task (minus_wl wl ds) g) (minus_wl wl ds) [] = Some r"
      and n: "r \<noteq> Inl RecursionError"
      by (elim exE conjE) (rule that, assumption, auto)
    show ?thesis
      using a Inr r n by (cases r) (auto simp: build_task_def Let_def rbind_eq_Inl dest: with_values_error simp del: close_deps.simps)
  qed
qed

text \<open>
  C11: What a base hash covers. Collecting the variable dependencies of the tasks of a recipe always ends.
  When it succeeds, the dependencies of each task are exactly the variables it reaches along the
  dependencies without passing a whitelisted one, sorted, and its base hash is the md5 sum of its
  own text followed by the name and the value of each of them.
\<close>
theorem base_hash_closure:
  "case build_data md5 wl fn tasklist gendeps lookup s of
     Inl e \<Rightarrow> e \<noteq> RecursionError
   | Inr (tds, s') \<Rightarrow> \<forall>task \<in> set tasklist. \<exists>deps v data.
       dget tds task = Some deps \<and> sorted deps \<and> distinct deps \<and>
       set deps = {y. (task, y) \<in> {(x, y). y \<in> set (ddefault gendeps x) \<and> y \<notin> set wl}\<^sup>+} \<and>
       dget lookup task = Some v \<and> with_values lookup deps (case v of None \<Rightarrow> [] | Some x \<Rightarrow> x) = Inr data \<and>
       dget (sg_basehash s') (task_key fn task) = Some (md5 data)"
proof (cases "rfold (build_task md5 wl fn lookup) tasklist (gendeps, [], s)")
  case (Inl e)
  have "e \<noteq> RecursionError" using rfold_Inl [OF Inl] build_task_no_fuel by fastforce
  then show ?thesis using Inl by (simp add: build_data_def)
next
  case (Inr p)
  obtain g tds s' where p: "p = (g, tds, s')" by (cases p)
  have "base_entry md5 (var_rel wl gendeps) (set (dkeys gendeps)) fn lookup tds s' t" if "t \<in> set tasklist" for t
    using build_fold [OF Inr [unfolded p]] that by blast
  then show ?thesis
    unfolding base_entry_def var_rel_def by (force simp: build_data_def Inr p)
qed

section \<open>The task hash\<close>

definition keeps :: "sigconf \<Rightarrow> datacache \<Rightarrow> string \<Rightarrow> string \<Rightarrow> bool" where
  "keeps conf dc recipename dep =
     (case dep_recipe dep of
        Inl e \<Rightarrow> False
      | Inr f \<Rightarrow> (case dget (dc_pkg_fn dc) f of None \<Rightarrow> False | Some name \<Rightarrow> rundep_check conf recipename name))"

definition hash_of :: "siggen \<Rightarrow> string \<Rightarrow> string" where
  "hash_of s dep = (case dget (sg_taskhash s) dep of None \<Rightarrow> [] | Some h \<Rightarrow> h)"

lemma hash_deps_ok:
  assumes "rfold (hash_dep conf dc rn k) deps (data, s) = Inr (data', s')" "dget (sg_runtaskdeps s) k = Some ds0"
  shows "set (filter (keeps conf dc rn) deps) \<subseteq> set (dkeys (sg_taskhash s)) \<and>
    data' = data @ concat (map (hash_of s) (filter (keeps conf dc rn) deps)) \<and>
    (\<exists>r. s' = s\<lparr>sg_runtaskdeps := r\<rparr> \<and> dget r k = Some (ds0 @ filter (keeps conf dc rn) deps))"
  using assms
proof (induction deps arbitrary: data s ds0)
  case Nil
  then show ?case by (auto intro: exI [of _ "sg_runtaskdeps s"])
next
  case (Cons dep deps)
  obtain data1 s1 where 1: "hash_dep conf dc rn k dep (data, s) = Inr (data1, s1)"
    and r: "rfold (hash_dep conf dc rn k) deps (data1, s1) = Inr (data', s')"
    using Cons.prems(1) by (auto simp: rbind_eq_Inr)
  show ?case
  proof (cases "keeps conf dc rn dep")
    case False
    then have "data1 = data \<and> s1 = s"
      using 1 by (auto simp: hash_dep_def keeps_def rbind_eq_Inr ditem_eq_Inr split: if_splits)
    then show ?thesis using Cons.IH [OF r] Cons.prems(2) False by simp
  next
    case True
    then obtain f name where f: "dep_recipe dep = Inr f" "dget (dc_pkg_fn dc) f = Some name" "rundep_check conf rn name"
      by (auto simp: keeps_def split: sum.splits option.splits)
    have u: "hash_dep conf dc rn k dep (data, s) =
      (if dep \<notin> set (dkeys (sg_taskhash s)) then Inl (MsgFatal ''SigGen'')
       else rbind (ditem (sg_taskhash s) dep) (\<lambda>h.
          Inr (data @ h, s\<lparr>sg_runtaskdeps := dset k (ds0 @ [dep]) (sg_runtaskdeps s)\<rparr>)))"
      using f Cons.prems(2) by (simp add: hash_dep_def ditem_def ddefault_def)
    obtain h where h: "dget (sg_taskhash s) dep = Some h" "data1 = data @ h"
      "s1 = s\<lparr>sg_runtaskdeps := dset k (ds0 @ [dep]) (sg_runtaskdeps s)\<rparr>"
      using 1 unfolding u by (auto simp: rbind_eq_Inr ditem_eq_Inr split: if_splits)
    have d: "dep \<in> set (dkeys (sg_taskhash s))" using h(1) unfolding dget_Some_key by blast
    have th: "sg_taskhash s1 = sg_taskhash s" "hash_of s1 = hash_of s" using h(3) by (simp_all add: hash_of_def fun_eq_iff)
    have "dget (sg_runtaskdeps s1) k = Some (ds0 @ [dep])" using h(3) by (simp add: dget_dset)
    from Cons.IH [OF r this, unfolded th] obtain x where
      ih: "set (filter (keeps conf dc rn) deps) \<subseteq> set (dkeys (sg_taskhash s))"
        "data' = data1 @ concat (map (hash_of s) (filter (keeps conf dc rn) deps))"
        "s' = s1\<lparr>sg_runtaskdeps := x\<rparr>" "dget x k = Some ((ds0 @ [dep]) @ filter (keeps conf dc rn) deps)" by (elim exE conjE)
    have "hash_of s dep = h" using h(1) by (simp add: hash_of_def)
    moreover have "s' = s\<lparr>sg_runtaskdeps := x\<rparr>" unfolding ih(3) h(3) by simp
    ultimately show ?thesis using True d ih(1,2,4) h(2) by (intro conjI exI [of _ x]) (simp_all del: list.set_map)
  qed
qed

definition task_files :: "sigenv \<Rightarrow> datacache \<Rightarrow> string \<Rightarrow> string \<Rightarrow> string \<Rightarrow> (string \<times> string option) list res" where
  "task_files env dc fn task rn =
     rbind (ditem (dc_file_checksums dc) fn) (\<lambda>fc. case dget fc task of None \<Rightarrow> Inr [] | Some fl \<Rightarrow> ge_sums env fl rn)"

definition sums :: "(string \<times> string option) list \<Rightarrow> string" where
  "sums cs = concat (map (\<lambda>(f, c). case c of None \<Rightarrow> [] | Some c \<Rightarrow> c) cs)"

text \<open>The random number of a task without stamp, and the taint a forced run left.\<close>

definition drawn :: "sigenv \<Rightarrow> datacache \<Rightarrow> string \<Rightarrow> string \<Rightarrow> string option" where
  "drawn env dc fn task =
     (case dget (dc_task_deps dc) fn of
        None \<Rightarrow> None
      | Some td \<Rightarrow> if flag_value td ''nostamp'' task \<noteq> None then Some (ge_uuid env (task_key fn task)) else None)"

definition forced :: "sigenv \<Rightarrow> datacache \<Rightarrow> string \<Rightarrow> string \<Rightarrow> string option" where
  "forced env dc fn task =
     (case dget (dc_stamp dc) fn of
        None \<Rightarrow> None
      | Some stamp \<Rightarrow> (case read_taint env task stamp of Some [] \<Rightarrow> None | t \<Rightarrow> t))"

definition opt_text :: "string option \<Rightarrow> string" where
  "opt_text x = (case x of None \<Rightarrow> [] | Some t \<Rightarrow> t)"

definition hash_facts :: "sigenv \<Rightarrow> sigconf \<Rightarrow> string \<Rightarrow> string \<Rightarrow> string list \<Rightarrow> datacache \<Rightarrow> siggen \<Rightarrow> string \<Rightarrow> siggen \<Rightarrow>
    string \<Rightarrow> string list \<Rightarrow> (string \<times> string option) list \<Rightarrow> bool" where
  "hash_facts env conf fn task deps dc s h s' base kept cs \<longleftrightarrow>
     (let k = task_key fn task in
      dget (dc_basetaskhash dc) k = Some base \<and>
      (\<exists>rn ds. dget (dc_pkg_fn dc) fn = Some rn \<and> sorted_by_path deps = Inr ds \<and> kept = filter (keeps conf dc rn) ds \<and>
         task_files env dc fn task rn = Inr cs) \<and>
      set kept \<subseteq> set (dkeys (sg_taskhash s)) \<and>
      h = ge_md5 env (base @ concat (map (hash_of s) kept) @ sums cs @ opt_text (drawn env dc fn task) @ opt_text (forced env dc fn task)) \<and>
      sg_taskhash s' = dset k h (sg_taskhash s) \<and> sg_basehash s' = dset k base (sg_basehash s) \<and>
      dget (sg_runtaskdeps s') k = Some kept \<and> dget (sg_checksums s') k = Some cs \<and>
      sg_taints s' = (case forced env dc fn task of
           Some t \<Rightarrow> dset k t (case drawn env dc fn task of Some u \<Rightarrow> dset k (''nostamp:'' @ u) (sg_taints s) | None \<Rightarrow> sg_taints s)
         | None \<Rightarrow> (case drawn env dc fn task of Some u \<Rightarrow> dset k (''nostamp:'' @ u) (sg_taints s) | None \<Rightarrow> sg_taints s)) \<and>
      sg_taskdeps s' = sg_taskdeps s \<and> sg_gendeps s' = sg_gendeps s \<and> sg_lookupcache s' = sg_lookupcache s \<and>
      sg_errors s' = sg_errors s \<and> dget (dc_stamp dc) fn \<noteq> None)"

lemma hash_files_ok:
  assumes "hash_files env dc fn task rn k (data, s) = Inr (data', s')" "dget (sg_checksums s) k = Some []"
  shows "\<exists>cs x. task_files env dc fn task rn = Inr cs \<and> data' = data @ sums cs \<and> s' = s\<lparr>sg_checksums := x\<rparr> \<and> dget x k = Some cs"
proof -
  obtain fc where fc: "ditem (dc_file_checksums dc) fn = Inr fc" using assms(1) by (auto simp: hash_files_def rbind_eq_Inr)
  show ?thesis
  proof (cases "dget fc task")
    case None
    then have "data' = data \<and> s' = s\<lparr>sg_checksums := sg_checksums s\<rparr>" using assms(1) fc by (simp add: hash_files_def)
    then show ?thesis using None fc assms(2) by (intro exI [of _ "[]"] exI [of _ "sg_checksums s"]) (simp add: task_files_def sums_def)
  next
    case (Some fl)
    obtain cs where cs: "ge_sums env fl rn = Inr cs" "data' = data @ sums cs"
      "s' = s\<lparr>sg_checksums := dset k (ddefault (sg_checksums s) k @ cs) (sg_checksums s)\<rparr>"
      using assms(1) fc Some by (auto simp: hash_files_def rbind_eq_Inr sums_def)
    have "dget (dset k (ddefault (sg_checksums s) k @ cs) (sg_checksums s)) k = Some cs" using assms(2) by (simp add: dget_dset ddefault_def)
    then show ?thesis using cs fc Some by (intro exI conjI) (simp_all add: task_files_def)
  qed
qed

lemma hash_taints_ok:
  assumes "hash_taints env dc fn task k (data, s) = Inr (data', s')" "k = task_key fn task"
  shows "data' = data @ opt_text (drawn env dc fn task) @ opt_text (forced env dc fn task) \<and> dget (dc_stamp dc) fn \<noteq> None \<and>
    s' = s\<lparr>sg_taints := (case forced env dc fn task of
           Some t \<Rightarrow> dset k t (case drawn env dc fn task of Some u \<Rightarrow> dset k (''nostamp:'' @ u) (sg_taints s) | None \<Rightarrow> sg_taints s)
         | None \<Rightarrow> (case drawn env dc fn task of Some u \<Rightarrow> dset k (''nostamp:'' @ u) (sg_taints s) | None \<Rightarrow> sg_taints s))\<rparr>"
proof -
  obtain td where td1: "dget (dc_task_deps dc) fn = Some td"
    using assms(1) by (cases "dget (dc_task_deps dc) fn") (simp_all add: hash_taints_def ditem_def)
  obtain stamp where "dget (dc_stamp dc) fn = Some stamp"
    using assms(1) td1 by (cases "dget (dc_stamp dc) fn") (simp_all add: hash_taints_def ditem_def Let_def split: if_splits)
  note td = td1 this
  have d: "drawn env dc fn task = (if flag_value td ''nostamp'' task \<noteq> None then Some (ge_uuid env k) else None)"
    and f: "forced env dc fn task = (case read_taint env task stamp of Some [] \<Rightarrow> None | t \<Rightarrow> t)"
    using td assms(2) by (simp_all add: drawn_def forced_def)
  show ?thesis
    using assms(1) td unfolding d f
    by (cases "read_taint env task stamp"; cases "the (read_taint env task stamp)")
      (auto simp: hash_taints_def Let_def ditem_def opt_text_def split: if_splits)
qed

lemma get_taskhash_facts:
  assumes "get_taskhash env conf fn task deps dc s = Inr (h, s')"
  shows "\<exists>base kept cs. hash_facts env conf fn task deps dc s h s' base kept cs"
proof -
  let ?k = "task_key fn task"
  obtain base rn ds data1 s1 data2 s2 data3 s3 where b: "dget (dc_basetaskhash dc) ?k = Some base" "dget (dc_pkg_fn dc) fn = Some rn"
    "sorted_by_path deps = Inr ds"
    and 1: "rfold (hash_dep conf dc rn ?k) ds (base, s\<lparr>sg_basehash := dset ?k base (sg_basehash s),
       sg_runtaskdeps := dset ?k [] (sg_runtaskdeps s), sg_checksums := dset ?k [] (sg_checksums s)\<rparr>) = Inr (data1, s1)"
    and 2: "hash_files env dc fn task rn ?k (data1, s1) = Inr (data2, s2)"
    and 3: "hash_taints env dc fn task ?k (data2, s2) = Inr (data3, s3)"
    and h: "h = ge_md5 env data3" "s' = s3\<lparr>sg_taskhash := dset ?k h (sg_taskhash s3)\<rparr>"
    using assms by (auto simp: get_taskhash_def Let_def rbind_eq_Inr ditem_eq_Inr)
  let ?s0 = "s\<lparr>sg_basehash := dset ?k base (sg_basehash s), sg_runtaskdeps := dset ?k [] (sg_runtaskdeps s), sg_checksums := dset ?k [] (sg_checksums s)\<rparr>"
  let ?kept = "filter (keeps conf dc rn) ds"
  have "dget (sg_runtaskdeps ?s0) ?k = Some []" by (simp add: dget_dset)
  from hash_deps_ok [OF 1 this] obtain r where d1: "set ?kept \<subseteq> set (dkeys (sg_taskhash ?s0))"
    "data1 = base @ concat (map (hash_of ?s0) ?kept)" "s1 = ?s0\<lparr>sg_runtaskdeps := r\<rparr>" "dget r ?k = Some ([] @ ?kept)" by (elim exE conjE)
  have ho: "hash_of ?s0 = hash_of s" by (simp add: hash_of_def fun_eq_iff)
  have "dget (sg_checksums s1) ?k = Some []" unfolding d1(3) by (simp add: dget_dset)
  from hash_files_ok [OF 2 this] obtain cs x where d2: "task_files env dc fn task rn = Inr cs" "data2 = data1 @ sums cs"
    "s2 = s1\<lparr>sg_checksums := x\<rparr>" "dget x ?k = Some cs" by (elim exE conjE)
  from hash_taints_ok [OF 3 refl] have d3: "data3 = data2 @ opt_text (drawn env dc fn task) @ opt_text (forced env dc fn task)"
    "dget (dc_stamp dc) fn \<noteq> None"
    "s3 = s2\<lparr>sg_taints := (case forced env dc fn task of
           Some t \<Rightarrow> dset ?k t (case drawn env dc fn task of Some u \<Rightarrow> dset ?k (''nostamp:'' @ u) (sg_taints s2) | None \<Rightarrow> sg_taints s2)
         | None \<Rightarrow> (case drawn env dc fn task of Some u \<Rightarrow> dset ?k (''nostamp:'' @ u) (sg_taints s2) | None \<Rightarrow> sg_taints s2))\<rparr>" by blast+
  have s2: "s2 = ?s0\<lparr>sg_runtaskdeps := r, sg_checksums := x\<rparr>" unfolding d2(3) d1(3) by simp
  have tt: "sg_taints s2 = sg_taints s" unfolding s2 by simp
  have "hash_facts env conf fn task deps dc s h s' base ?kept cs"
    unfolding hash_facts_def Let_def
    using b d1(1,4) d2(1,4) d3(2) unfolding h d3(3) [unfolded tt] s2 d3(1) d2(2) d1(2) ho
    by (intro conjI exI [of _ rn] exI [of _ ds]) simp_all
  then show ?thesis by blast
qed

section \<open>The dumped data gives the hashes again\<close>

lemma dget_of_key: "k \<in> K \<Longrightarrow> K \<subseteq> set (dkeys d) \<Longrightarrow> \<exists>v. dget d k = Some v"
  unfolding dget_Some_key [symmetric] by blast

lemma dump_vars_ok:
  assumes "dget (sg_gendeps s) fn = Some gd" "dget (sg_lookupcache s) fn = Some lk"
    and "set deps \<inter> set wl = {}" "set deps \<subseteq> set (dkeys gd)" "set deps \<subseteq> set (dkeys lk)"
  shows "\<exists>g' vals'. dump_vars wl fn s deps (g, vals) = Inr (g', vals') \<and>
    (\<forall>x. dget vals' x = (if x \<in> set deps then dget lk x else dget vals x))"
  using assms(3-5)
proof (induction deps arbitrary: g vals)
  case (Cons d deps)
  obtain ds v where d: "dget gd d = Some ds" "dget lk d = Some v"
    using dget_of_key [OF _ Cons.prems(2)] dget_of_key [OF _ Cons.prems(3)] by (meson list.set_intros(1))
  obtain g' vals' where ih: "dump_vars wl fn s deps (dset d ds g, dset d v vals) = Inr (g', vals')"
    "\<forall>x. dget vals' x = (if x \<in> set deps then dget lk x else dget (dset d v vals) x)"
    using Cons.IH [of "dset d ds g" "dset d v vals"] Cons.prems by auto
  have "dump_vars wl fn s (d # deps) (g, vals) = Inr (g', vals')"
    using ih(1) d assms(1,2) Cons.prems(1) by (simp add: dump_vars_def ditem_def)
  then show ?case using ih(2) d(2) by (auto simp: dget_dset)
qed (simp add: dump_vars_def)

lemma with_values_cong:
  "(\<And>x. x \<in> set deps \<Longrightarrow> dget vals x = dget vals' x) \<Longrightarrow> with_values vals deps d = with_values vals' deps d"
  unfolding with_values_def by (intro rfold_cong) (simp_all add: ditem_def)

lemma with_values_keys: "with_values vals deps d = Inr data \<Longrightarrow> set deps \<subseteq> set (dkeys vals)"
proof (induction deps arbitrary: d)
  case (Cons x deps)
  then obtain v where "dget vals x = Some v" "set deps \<subseteq> set (dkeys vals)"
    by (auto simp: with_values_def rbind_eq_Inr ditem_eq_Inr simp del: list.set_map)
  moreover from this have "x \<in> set (dkeys vals)" unfolding dget_Some_key by blast
  ultimately show ?case by simp
qed simp

lemma dumped_hashes:
  assumes "set deps \<subseteq> set (dkeys th)"
  shows "\<exists>hs'. rfold (\<lambda>dep hs. rbind (ditem th dep) (\<lambda>h. Inr (dset dep h hs))) deps hs = Inr hs' \<and>
    (\<forall>x. dget hs' x = (if x \<in> set deps then dget th x else dget hs x))"
  using assms
proof (induction deps arbitrary: hs)
  case (Cons d deps)
  obtain h where d: "dget th d = Some h" using dget_of_key [OF _ Cons.prems] by (meson list.set_intros(1))
  with Cons.IH [of "dset d h hs"] Cons.prems show ?case by (auto simp: ditem_def dget_dset)
qed simp

lemma entry_of_Some [simp]: "entry_of name (Some x) = Inr x"
  by (simp add: entry_of_def)

lemma collect_hashes:
  assumes "\<And>x. x \<in> set deps \<Longrightarrow> dget hs x = Some (f x)"
  shows "rfold (\<lambda>dep data. rbind (ditem hs dep) (\<lambda>h. Inr (data @ h))) deps d =
    Inr (d @ concat (map f deps))"
  using assms by (induction deps arbitrary: d) (simp_all add: ditem_def)

lemma collect_sums:
  assumes "\<And>f c. (f, c) \<in> set cs \<Longrightarrow> c \<noteq> None"
  shows "rfold add_sum cs d = Inr (d @ sums cs)"
  using assms
proof (induction cs arbitrary: d)
  case (Cons p cs)
  obtain f c where p: "p = (f, Some c)" using Cons.prems by (cases p) fastforce
  have "rfold add_sum cs (d @ c) = Inr ((d @ c) @ sums cs)"
    by (rule Cons.IH) (use Cons.prems in auto)
  moreover have "add_sum p d = Inr (d @ c)" by (simp add: p add_sum_def)
  ultimately show ?case unfolding p by (simp add: sums_def)
qed (simp add: sums_def)

lemma sums_basename [simp]: "sums (map (\<lambda>(f, c). (basename f, c)) cs) = sums cs"
  by (induction cs) (auto simp: sums_def)

lemma build_data_tables:
  assumes "build_data md5 wl fn tasklist gendeps lookup s = Inr (tds, s1)" "task \<in> set tasklist"
  shows "\<exists>gd deps v data. dget (sg_gendeps s1) fn = Some gd \<and> dget (sg_lookupcache s1) fn = Some lookup \<and>
    dget (sg_taskdeps s1) fn = Some tds \<and> dget tds task = Some deps \<and> set deps \<inter> set wl = {} \<and>
    set deps \<subseteq> set (dkeys gd) \<and> dget lookup task = Some v \<and>
    with_values lookup deps (case v of None \<Rightarrow> [] | Some x \<Rightarrow> x) = Inr data \<and>
    dget (sg_basehash s1) (task_key fn task) = Some (md5 data) \<and> sg_taints s1 = sg_taints s"
proof -
  let ?R = "var_rel wl gendeps"
  obtain g t' where r: "rfold (build_task md5 wl fn lookup) tasklist (gendeps, [], s) = Inr (g, tds, t')"
    and s1: "s1 = t'\<lparr>sg_taskdeps := dset fn tds (sg_taskdeps t'), sg_gendeps := dset fn g (sg_gendeps t'),
                   sg_lookupcache := dset fn lookup (sg_lookupcache t')\<rparr>"
    using assms(1) by (auto simp: build_data_def rbind_eq_Inr)
  have f: "stripped wl gendeps g" "base_entry md5 ?R (set (dkeys gendeps)) fn lookup tds t' task" "same_tables s t'"
    using build_fold [OF r] assms(2) by blast+
  let ?D = "{y. (task, y) \<in> ?R\<^sup>+}"
  have D: "?D \<inter> set wl = {}" by (auto simp: var_rel_def elim: tranclE)
  have b: "finite ?D" "?D \<subseteq> set (dkeys g)" "dget tds task = Some (sorted_list_of_set ?D)"
    using f(1,2) unfolding base_entry_def stripped_def by simp_all
  obtain v data where v: "dget lookup task = Some v"
    "with_values lookup (sorted_list_of_set ?D) (case v of None \<Rightarrow> [] | Some x \<Rightarrow> x) = Inr data"
    "dget (sg_basehash t') (task_key fn task) = Some (md5 data)"
    using f(2) unfolding base_entry_def by blast
  show ?thesis
    by (intro exI [of _ g] exI [of _ "sorted_list_of_set ?D"] exI [of _ v] exI [of _ data] conjI)
      (use b v D f(3) s1 in \<open>simp_all add: dget_dset same_tables_def del: list.set_map\<close>)
qed

definition same_vars :: "siggen \<Rightarrow> siggen \<Rightarrow> bool" where
  "same_vars s s' \<longleftrightarrow> sg_taskdeps s' = sg_taskdeps s \<and> sg_gendeps s' = sg_gendeps s \<and> sg_lookupcache s' = sg_lookupcache s"

text \<open>A task whose base hash the generator built, and whose hash it computed after it.\<close>

definition hashed :: "sigenv \<Rightarrow> sigconf \<Rightarrow> datacache \<Rightarrow> string \<Rightarrow> string \<Rightarrow> string list \<Rightarrow> siggen \<Rightarrow> siggen \<Rightarrow> siggen \<Rightarrow> string \<Rightarrow> bool" where
  "hashed env conf dc fn task deps s s1 s2 h \<longleftrightarrow>
     (\<exists>tasklist gendeps lookup tds. task \<in> set tasklist \<and>
        build_data (ge_md5 env) (gc_basewhitelist conf) fn tasklist gendeps lookup s = Inr (tds, s1)) \<and>
     dget (dc_basetaskhash dc) (task_key fn task) = dget (sg_basehash s1) (task_key fn task) \<and>
     task_key fn task \<notin> set deps \<and> dget (sg_taints s) (task_key fn task) = None \<and>
     get_taskhash env conf fn task deps dc s1 = Inr (h, s2)"

definition dumped_taint :: "string option \<Rightarrow> string option \<Rightarrow> string option" where
  "dumped_taint drew force = (case force of
       Some t \<Rightarrow> Some t
     | None \<Rightarrow> (case drew of None \<Rightarrow> None | Some u \<Rightarrow> Some (''nostamp:'' @ u)))"

lemma read_taint_dump: "has_sub ''nostamp:'' (''nostamp:'' @ u)"
  by (simp add: has_sub_def)

lemma dump_taint_eq:
  assumes sd: "sd_taint sd = None" and stamp: "dget (dc_stamp dc) fn = Some stamp"
    and ns: "\<And>t. forced env dc fn task = Some t \<Longrightarrow> \<not> has_sub ''nostamp:'' t"
    and t: "dget (sg_taints s) k = dumped_taint drew (forced env dc fn task)"
  shows "dump_taint (read_taint env task stamp) True k s sd = sd\<lparr>sd_taint := dumped_taint drew (forced env dc fn task)\<rparr>"
proof -
  have f: "forced env dc fn task = (case read_taint env task stamp of Some [] \<Rightarrow> None | t \<Rightarrow> t)"
    using stamp by (simp add: forced_def)
  have sd': "sd\<lparr>sd_taint := None\<rparr> = sd" using sd by (cases sd) simp
  show ?thesis
  proof (cases "forced env dc fn task")
    case None
    then have "read_taint env task stamp \<in> {None, Some []}" unfolding f by (auto split: option.splits list.splits)
    then have "dump_taint (read_taint env task stamp) True k s sd =
      (case dget (sg_taints s) k of None \<Rightarrow> sd | Some t \<Rightarrow> if has_sub ''nostamp:'' t then sd\<lparr>sd_taint := Some t\<rparr> else sd)"
      by (auto simp: dump_taint_def)
    then show ?thesis using t None sd' read_taint_dump by (cases drew) (simp_all add: dumped_taint_def)
  next
    case (Some x)
    then have r: "read_taint env task stamp = Some x" "x \<noteq> []" unfolding f by (auto split: option.splits list.splits)
    then show ?thesis using t Some ns [OF Some] by (simp add: dump_taint_def dumped_taint_def)
  qed
qed

lemma sorted_by_path_set: "sorted_by_path deps = Inr ds \<Longrightarrow> set ds \<subseteq> set deps"
proof -
  have m: "rmap (\<lambda>d. rbind (clean_basepath d) (\<lambda>k. Inr (k, d))) xs = Inr ps \<Longrightarrow> map snd ps = xs" for xs ps
    by (induction xs arbitrary: ps) (auto simp: rbind_eq_Inr)
  assume "sorted_by_path deps = Inr ds"
  then obtain ps where ps: "rmap (\<lambda>d. rbind (clean_basepath d) (\<lambda>k. Inr (k, d))) deps = Inr ps" "ds = map snd (sort_key fst ps)"
    by (auto simp: sorted_by_path_def rbind_eq_Inr)
  have "set ds = set (map snd ps)" unfolding ps(2) by simp
  then show "set ds \<subseteq> set deps" unfolding m [OF ps(1)] by simp
qed

lemma dump_base_ok:
  assumes "build_data md5 (gc_basewhitelist conf) fn tasklist gendeps lookup s = Inr (tds, s1)" "task \<in> set tasklist"
    and "same_vars s1 s2" "dget (sg_basehash s2) (task_key fn task) = dget (sg_basehash s1) (task_key fn task)"
  shows "\<exists>sd. dump_base conf fn task s2 = Inr sd \<and> calc_basehash md5 sd = Inr (sd_basehash sd) \<and>
    dget (sg_basehash s1) (task_key fn task) = Some (sd_basehash sd) \<and> sd_taint sd = None"
proof -
  obtain gd deps v data where b: "dget (sg_gendeps s1) fn = Some gd" "dget (sg_lookupcache s1) fn = Some lookup"
    "dget (sg_taskdeps s1) fn = Some tds" "dget tds task = Some deps" "set deps \<inter> set (gc_basewhitelist conf) = {}"
    "set deps \<subseteq> set (dkeys gd)" "dget lookup task = Some v"
    "with_values lookup deps (case v of None \<Rightarrow> [] | Some x \<Rightarrow> x) = Inr data"
    "dget (sg_basehash s1) (task_key fn task) = Some (md5 data)"
    using build_data_tables [OF assms(1,2)] by (elim exE conjE)
  have b2: "dget (sg_gendeps s2) fn = Some gd" "dget (sg_lookupcache s2) fn = Some lookup" "dget (sg_taskdeps s2) fn = Some tds"
    using b(1-3) assms(3) by (simp_all add: same_vars_def)
  obtain g vals where v: "dump_vars (gc_basewhitelist conf) fn s2 deps ([], [(task, v)]) = Inr (g, vals)"
    "\<forall>x. dget vals x = (if x \<in> set deps then dget lookup x else dget [(task, v)] x)"
    using dump_vars_ok [OF b2(1,2) b(5,6) with_values_keys [OF b(8)], of "[]" "[(task, v)]"] by (elim exE conjE)
  let ?sd = "\<lparr>sd_task = task, sd_basewhitelist = gc_basewhitelist conf, sd_taskwhitelist = gc_taskwhitelist conf,
    sd_taskdeps = deps, sd_basehash = md5 data, sd_gendeps = g, sd_varvals = vals,
    sd_runtaskdeps = None, sd_checksums = None, sd_runtaskhashes = None, sd_taskhash = None, sd_taint = None\<rparr>"
  have "dump_base conf fn task s2 = Inr ?sd"
    using b b2 v(1) assms(4) by (simp add: dump_base_def ditem_def)
  moreover have "dget vals task = Some v" using v(2) b(7) by simp
  moreover have "with_values vals deps x = with_values lookup deps x" for x by (rule with_values_cong) (simp add: v(2))
  ultimately show ?thesis using b(8,9) by (intro exI [of _ ?sd]) (simp add: calc_basehash_def ditem_def)
qed

lemma dump_run_ok:
  assumes "dget (sg_runtaskdeps s) k = Some kept" "dget (sg_checksums s) k = Some cs" "dget (sg_taskhash s) k = Some h"
    and "set kept \<subseteq> set (dkeys (sg_taskhash s))"
  shows "\<exists>sd'. dump_run k s sd = Inr sd' \<and> (\<forall>md5. calc_basehash md5 sd' = calc_basehash md5 sd) \<and>
    sd_basehash sd' = sd_basehash sd \<and> sd_taskhash sd' = Some h \<and> sd_taint sd' = sd_taint sd \<and>
    ((\<forall>(f, c) \<in> set cs. c \<noteq> None) \<longrightarrow> (\<forall>md5 t. calc_taskhash md5 (sd'\<lparr>sd_taint := t\<rparr>) =
       Inr (md5 (sd_basehash sd @ concat (map (hash_of s) kept) @ sums cs @ taint_data t))))"
proof -
  obtain hs where hs: "rfold (\<lambda>dep hs. rbind (ditem (sg_taskhash s) dep) (\<lambda>h. Inr (dset dep h hs))) kept [] = Inr hs"
    "\<forall>x. dget hs x = (if x \<in> set kept then dget (sg_taskhash s) x else dget [] x)"
    using dumped_hashes [OF assms(4), of "[]"] by (elim exE conjE)
  let ?cs = "map (\<lambda>(f, cs). (basename f, cs)) cs"
  let ?sd = "sd\<lparr>sd_runtaskdeps := Some kept, sd_checksums := Some ?cs, sd_runtaskhashes := Some hs, sd_taskhash := Some h\<rparr>"
  have r: "dump_run k s sd = Inr ?sd" using assms(1-3) hs(1) by (simp add: dump_run_def ditem_def)
  have h: "dget hs x = Some (hash_of s x)" if "x \<in> set kept" for x
    using hs(2) that dget_of_key [OF that assms(4)] by (auto simp: hash_of_def)
  have "calc_taskhash md5 (?sd\<lparr>sd_taint := t\<rparr>) = Inr (md5 (sd_basehash sd @ concat (map (hash_of s) kept) @ sums cs @ taint_data t))"
    if "\<forall>(f, c) \<in> set cs. c \<noteq> None" for md5 t
  proof -
    have "rfold add_sum ?cs d = Inr (d @ sums ?cs)" for d by (rule collect_sums) (use that in auto)
    moreover note collect_hashes [of kept hs "hash_of s", OF h]
    ultimately show ?thesis by (simp add: calc_taskhash_def)
  qed
  then show ?thesis by (intro exI [of _ ?sd] conjI r) (simp_all add: calc_basehash_def)
qed

lemma dump_result:
  assumes H: "hashed env conf dc fn task deps s s1 s2 h" and st: "dget (dc_stamp dc) fn = Some stamp"
    and cs: "\<forall>(f, c) \<in> set (ddefault (sg_checksums s2) (task_key fn task)). c \<noteq> None"
    and ns: "\<forall>t. forced env dc fn task = Some t \<longrightarrow> \<not> has_sub ''nostamp:'' t"
  shows "\<exists>sd pre. h = ge_md5 env (pre @ opt_text (drawn env dc fn task) @ opt_text (forced env dc fn task)) \<and>
    sd_taskhash sd = Some h \<and> calc_basehash (ge_md5 env) sd = Inr (sd_basehash sd) \<and>
    sd_taint sd = dumped_taint (drawn env dc fn task) (forced env dc fn task) \<and>
    calc_taskhash (ge_md5 env) sd = Inr (ge_md5 env (pre @ taint_data (sd_taint sd))) \<and>
    dump_sigtask env conf fn task stamp (RunBool True) s2 =
      Inr (let f = stamp @ ''.'' @ task @ ''.sigdata.'' @ h; c = ge_md5 env (pre @ taint_data (sd_taint sd))
           in if c \<noteq> h then (replace_sub h c f, sd, [TaskhashMismatch (task_key fn task)]) else (f, sd, []))"
proof -
  let ?k = "task_key fn task" and ?u = "drawn env dc fn task" and ?t = "forced env dc fn task"
  obtain tasklist gendeps lookup tds where
    b: "build_data (ge_md5 env) (gc_basewhitelist conf) fn tasklist gendeps lookup s = Inr (tds, s1)" "task \<in> set tasklist"
    using H unfolding hashed_def by blast
  obtain base kept sms where f: "hash_facts env conf fn task deps dc s1 h s2 base kept sms"
    using get_taskhash_facts H unfolding hashed_def by blast
  have kept: "?k \<notin> set kept" "set kept \<subseteq> set (dkeys (sg_taskhash s1))"
    using f H sorted_by_path_set [of deps] unfolding hash_facts_def hashed_def Let_def by fastforce+
  have taint1: "dget (sg_taints s1) ?k = None" using build_data_tables [OF b] H unfolding hashed_def by auto
  have e: "dget (sg_taskhash s2) ?k = Some h" "dget (sg_runtaskdeps s2) ?k = Some kept" "dget (sg_checksums s2) ?k = Some sms"
      "same_vars s1 s2" "dget (sg_basehash s2) ?k = Some base" "dget (sg_basehash s1) ?k = Some base"
      "dget (sg_taints s2) ?k = dumped_taint ?u ?t"
      "h = ge_md5 env ((base @ concat (map (hash_of s1) kept) @ sums sms) @ opt_text ?u @ opt_text ?t)"
    using f H taint1 unfolding hash_facts_def Let_def hashed_def
    by (simp_all add: dget_dset same_vars_def dumped_taint_def split: option.splits)
  have "set (dkeys (sg_taskhash s2)) = insert ?k (set (dkeys (sg_taskhash s1)))"
    using f unfolding hash_facts_def Let_def by (simp only: set_dkeys_dset)
  then have keys: "set kept \<subseteq> set (dkeys (sg_taskhash s2))" using kept(2) by blast
  have ho: "map (hash_of s2) kept = map (hash_of s1) kept"
    using f kept(1) unfolding hash_facts_def Let_def by (auto simp: hash_of_def dget_dset)
  obtain sd0 where d0: "dump_base conf fn task s2 = Inr sd0" "calc_basehash (ge_md5 env) sd0 = Inr (sd_basehash sd0)"
    "sd_basehash sd0 = base" "sd_taint sd0 = None"
    using dump_base_ok [OF b e(4)] e(5,6) by auto
  obtain sd1 where d1: "dump_run ?k s2 sd0 = Inr sd1" "\<forall>md5. calc_basehash md5 sd1 = calc_basehash md5 sd0"
    "sd_basehash sd1 = sd_basehash sd0" "sd_taskhash sd1 = Some h" "sd_taint sd1 = sd_taint sd0"
    and d2: "(\<forall>(f, c) \<in> set sms. c \<noteq> None) \<longrightarrow> (\<forall>md5 t. calc_taskhash md5 (sd1\<lparr>sd_taint := t\<rparr>) =
       Inr (md5 (sd_basehash sd0 @ concat (map (hash_of s2) kept) @ sums sms @ taint_data t)))"
    using dump_run_ok [OF e(2,3,1) keys, of sd0] by (elim exE conjE)
  let ?sd = "sd1\<lparr>sd_taint := dumped_taint ?u ?t\<rparr>"
  have taint: "dump_taint (read_taint env task stamp) True ?k s2 sd1 = ?sd"
    by (rule dump_taint_eq [OF _ st _ e(7)]) (use ns d1(5) d0(4) in simp_all)
  have "sms = ddefault (sg_checksums s2) ?k" using e(3) by (simp add: ddefault_def)
  then have th: "calc_taskhash (ge_md5 env) ?sd =
      Inr (ge_md5 env ((base @ concat (map (hash_of s1) kept) @ sums sms) @ taint_data (dumped_taint ?u ?t)))"
    using d2 cs unfolding d0(3) ho by simp
  have key: "?k \<in> set (dkeys (sg_taskhash s2))" using e(1) unfolding dget_Some_key by blast
  have bh: "calc_basehash (ge_md5 env) ?sd = Inr (sd_basehash ?sd)" using d0(2) d1(2,3) by (simp add: calc_basehash_def)
  have sf: "sigfile_name s2 fn task stamp (RunBool True) = Inr (stamp @ ''.'' @ task @ ''.sigdata.'' @ h, stamp)"
    using key e(1) by (simp add: sigfile_name_def ditem_def del: list.set_map)
  show ?thesis
    by (intro exI [of _ ?sd] exI [of _ "base @ concat (map (hash_of s1) kept) @ sums sms"] conjI e(8) bh)
      (use d0(1) d1(1,4) taint th bh sf key e(1) in \<open>simp_all add: dump_sigtask_def Let_def ditem_def del: list.set_map\<close>)
qed

text \<open>
  C13: The dump agrees with the hash. For a task whose variables and hash the generator computed, which is
  not both without stamp and tainted by a forced run, and whose files all have a checksum, the data
  dumped beside the stamp gives the base hash and the task hash again: no mismatch is reported and
  the file carries the hash of the stamp.
\<close>
theorem dump_sigtask_consistent:
  assumes "hashed env conf dc fn task deps s s1 s2 h" and "dget (dc_stamp dc) fn = Some stamp"
    and "\<forall>(f, c) \<in> set (ddefault (sg_checksums s2) (task_key fn task)). c \<noteq> None"
    and "\<forall>t. forced env dc fn task = Some t \<longrightarrow> \<not> has_sub ''nostamp:'' t"
    and "drawn env dc fn task = None \<or> forced env dc fn task = None"
  shows "\<exists>sd. dump_sigtask env conf fn task stamp (RunBool True) s2 = Inr (stamp @ ''.'' @ task @ ''.sigdata.'' @ h, sd, []) \<and>
    sd_taskhash sd = Some h \<and> calc_basehash (ge_md5 env) sd = Inr (sd_basehash sd) \<and> calc_taskhash (ge_md5 env) sd = Inr h"
proof -
  let ?u = "drawn env dc fn task" and ?t = "forced env dc fn task"
  obtain sd pre where d: "h = ge_md5 env (pre @ opt_text ?u @ opt_text ?t)" "sd_taskhash sd = Some h"
    "calc_basehash (ge_md5 env) sd = Inr (sd_basehash sd)" "sd_taint sd = dumped_taint ?u ?t"
    "calc_taskhash (ge_md5 env) sd = Inr (ge_md5 env (pre @ taint_data (sd_taint sd)))"
    "dump_sigtask env conf fn task stamp (RunBool True) s2 =
      Inr (let f = stamp @ ''.'' @ task @ ''.sigdata.'' @ h; c = ge_md5 env (pre @ taint_data (sd_taint sd))
           in if c \<noteq> h then (replace_sub h c f, sd, [TaskhashMismatch (task_key fn task)]) else (f, sd, []))"
    using dump_result [OF assms(1-4)] by (elim exE conjE)
  have "taint_data (sd_taint sd) = opt_text ?u @ opt_text ?t"
    using assms(4,5) read_taint_dump unfolding d(4)
    by (cases ?u; cases ?t) (simp_all add: dumped_taint_def taint_data_def opt_text_def)
  with d show ?thesis by (intro exI [of _ sd]) (simp add: Let_def)
qed

text \<open>
  C36: The taint that is lost. When a task without stamp was also tainted by a forced run, the random
  number that entered its hash is overwritten by the taint of the run, so the dump computes another
  hash: unless the two md5 sums agree, it reports a mismatch and puts the other hash in the name of
  the file.
\<close>
theorem dump_sigtask_mismatch:
  assumes "hashed env conf dc fn task deps s s1 s2 h" and "dget (dc_stamp dc) fn = Some stamp"
    and "\<forall>(f, c) \<in> set (ddefault (sg_checksums s2) (task_key fn task)). c \<noteq> None"
    and "drawn env dc fn task = Some u" and "forced env dc fn task = Some t" and "\<not> has_sub ''nostamp:'' t"
  shows "\<exists>pre sd. h = ge_md5 env (pre @ u @ t) \<and>
    (ge_md5 env (pre @ t) \<noteq> h \<longrightarrow>
       dump_sigtask env conf fn task stamp (RunBool True) s2 =
         Inr (replace_sub h (ge_md5 env (pre @ t)) (stamp @ ''.'' @ task @ ''.sigdata.'' @ h), sd, [TaskhashMismatch (task_key fn task)]))"
proof -
  have "\<forall>x. forced env dc fn task = Some x \<longrightarrow> \<not> has_sub ''nostamp:'' x" using assms(5,6) by simp
  from dump_result [OF assms(1-3) this] show ?thesis
    unfolding assms(4,5) using assms(6) by (auto simp: dumped_taint_def taint_data_def opt_text_def Let_def)
qed

definition ex_sig_env :: "string option \<Rightarrow> sigenv" where
  "ex_sig_env taint = \<lparr>ge_md5 = (\<lambda>x. x), ge_sums = (\<lambda>fs pn. Inr [(''/p/fix.patch'', Some ''c1'')]), ge_read = (\<lambda>f. taint), ge_uuid = (\<lambda>k. ''77'')\<rparr>"

definition ex_sig_conf :: sigconf where
  "ex_sig_conf = \<lparr>gc_basewhitelist = [''TOPDIR''], gc_taskwhitelist = None, gc_twl = None\<rparr>"

definition ex_sig_dc :: datacache where
  "ex_sig_dc = init_cacheData\<lparr>dc_pkg_fn := [(''/a/r.bb'', ''r''), (''/a/q.bb'', ''q'')], dc_stamp := [(''/a/r.bb'', ''/st/r'')],
     dc_task_deps := [(''/a/r.bb'', \<lparr>td_tasks = [''do_x''], td_parents = [], td_flags = [(''nostamp'', [(''do_x'', ''1'')])]\<rparr>)],
     dc_file_checksums := [(''/a/r.bb'', [(''do_x'', Some ''/p/fix.patch:True'')])],
     dc_basetaskhash := [(''/a/r.bb.do_x'', ''runA1B'')]\<rparr>"

definition ex_sig_start :: siggen where
  "ex_sig_start = siggen_init\<lparr>sg_taskhash := [(''/a/q.bb.do_y'', ''qh'')]\<rparr>"

definition ex_sig_build :: "(vardeps \<times> siggen) res" where
  "ex_sig_build = build_data (\<lambda>x. x) [''TOPDIR''] ''/a/r.bb'' [''do_x''] [(''do_x'', [''A'', ''TOPDIR'']), (''A'', [''B'']), (''B'', [''A''])]
     [(''do_x'', Some ''run''), (''A'', Some ''1''), (''B'', None)] ex_sig_start"

definition ex_sig_hash :: "string option \<Rightarrow> (string \<times> siggen \<times> siggen) res" where
  "ex_sig_hash taint = rbind ex_sig_build (\<lambda>(tds, s1).
     rbind (get_taskhash (ex_sig_env taint) ex_sig_conf ''/a/r.bb'' ''do_x'' [''/a/q.bb.do_y''] ex_sig_dc s1) (\<lambda>(h, s2). Inr (h, s1, s2)))"

definition ex_s1 :: siggen where
  "ex_s1 = (case ex_sig_build of Inl _ \<Rightarrow> siggen_init | Inr (_, s) \<Rightarrow> s)"

definition ex_s2 :: "string option \<Rightarrow> string \<times> siggen" where
  "ex_s2 taint = (case ex_sig_hash taint of Inl _ \<Rightarrow> ([], siggen_init) | Inr (h, _, s) \<Rightarrow> (h, s))"

lemma not_isl_pair: "\<not> isl r \<Longrightarrow> \<exists>x. r = Inr (x, case r of Inl _ \<Rightarrow> d | Inr (_, y) \<Rightarrow> y)"
  by (cases r) auto

lemma not_isl_triple: "\<not> isl r \<Longrightarrow> \<exists>y. r = Inr (fst (case r of Inl _ \<Rightarrow> d | Inr (x, _, z) \<Rightarrow> (x, z)), y, snd (case r of Inl _ \<Rightarrow> d | Inr (x, _, z) \<Rightarrow> (x, z)))"
  by (cases r) auto

lemma ex_build: "\<exists>tds. ex_sig_build = Inr (tds, ex_s1)"
  unfolding ex_s1_def by (rule not_isl_pair) code_simp

lemma ex_hashed:
  assumes "taint \<in> {None, Some ''F''}"
  shows "hashed (ex_sig_env taint) ex_sig_conf ex_sig_dc ''/a/r.bb'' ''do_x'' [''/a/q.bb.do_y''] ex_sig_start ex_s1
    (snd (ex_s2 taint)) (fst (ex_s2 taint))"
proof -
  obtain tds where b: "ex_sig_build = Inr (tds, ex_s1)" using ex_build by blast
  have "\<not> isl (ex_sig_hash None)" "\<not> isl (ex_sig_hash (Some ''F''))" by code_simp+
  then have "\<not> isl (ex_sig_hash taint)" using assms by auto
  then have "get_taskhash (ex_sig_env taint) ex_sig_conf ''/a/r.bb'' ''do_x'' [''/a/q.bb.do_y''] ex_sig_dc ex_s1 =
    Inr (fst (ex_s2 taint), snd (ex_s2 taint))"
    using not_isl_triple [of "ex_sig_hash taint" "([], siggen_init)"] unfolding ex_s2_def [symmetric]
    by (auto simp: ex_sig_hash_def b rbind_eq_Inr)
  moreover have "dget (dc_basetaskhash ex_sig_dc) (task_key ''/a/r.bb'' ''do_x'') = dget (sg_basehash ex_s1) (task_key ''/a/r.bb'' ''do_x'')"
    by code_simp
  moreover have "task_key ''/a/r.bb'' ''do_x'' \<notin> set [''/a/q.bb.do_y'']" by code_simp
  moreover have "dget (sg_taints ex_sig_start) (task_key ''/a/r.bb'' ''do_x'') = None" by code_simp
  moreover have "ge_md5 (ex_sig_env taint) = (\<lambda>x. x)" "gc_basewhitelist ex_sig_conf = [''TOPDIR'']"
    by (simp_all add: ex_sig_env_def ex_sig_conf_def)
  ultimately show ?thesis using b unfolding hashed_def ex_sig_build_def
    by (intro conjI exI [of _ "[''do_x'']"] exI [of _ "[(''do_x'', [''A'', ''TOPDIR'']), (''A'', [''B'']), (''B'', [''A''])]"]
        exI [of _ "[(''do_x'', Some ''run''), (''A'', Some ''1''), (''B'', None)]"] exI [of _ tds]) simp_all
qed

lemma ex_sums: "taint \<in> {None, Some ''F''} \<Longrightarrow>
  \<forall>(f, c) \<in> set (ddefault (sg_checksums (snd (ex_s2 taint))) (task_key ''/a/r.bb'' ''do_x'')). c \<noteq> None"
proof -
  have "list_all (\<lambda>(f, c). c \<noteq> None) (ddefault (sg_checksums (snd (ex_s2 None))) (task_key ''/a/r.bb'' ''do_x''))"
    "list_all (\<lambda>(f, c). c \<noteq> None) (ddefault (sg_checksums (snd (ex_s2 (Some ''F'')))) (task_key ''/a/r.bb'' ''do_x''))"
    by code_simp+
  then show "taint \<in> {None, Some ''F''} \<Longrightarrow> ?thesis" by (auto simp: list_all_iff)
qed

lemma dump_sigtask_consistent_witness:
  "\<exists>sd. dump_sigtask (ex_sig_env None) ex_sig_conf ''/a/r.bb'' ''do_x'' ''/st/r'' (RunBool True) (snd (ex_s2 None)) =
     Inr (''/st/r.do_x.sigdata.runA1Bqhc177'', sd, []) \<and> sd_taskhash sd = Some ''runA1Bqhc177''"
proof -
  have "dget (dc_stamp ex_sig_dc) ''/a/r.bb'' = Some ''/st/r''" "forced (ex_sig_env None) ex_sig_dc ''/a/r.bb'' ''do_x'' = None"
    "fst (ex_s2 None) = ''runA1Bqhc177''" by code_simp+
  then show ?thesis
    using dump_sigtask_consistent [OF ex_hashed [of None], of "''/st/r''"] ex_sums [of None] by auto
qed

lemma dump_sigtask_mismatch_witness:
  "\<exists>sd. dump_sigtask (ex_sig_env (Some ''F'')) ex_sig_conf ''/a/r.bb'' ''do_x'' ''/st/r'' (RunBool True) (snd (ex_s2 (Some ''F''))) =
     Inr (''/st/r.do_x.sigdata.runA1Bqhc1F'', sd, [TaskhashMismatch ''/a/r.bb.do_x''])"
proof -
  let ?e = "ex_sig_env (Some ''F'')"
  have e: "dget (dc_stamp ex_sig_dc) ''/a/r.bb'' = Some ''/st/r''" "forced ?e ex_sig_dc ''/a/r.bb'' ''do_x'' = Some ''F''"
    "drawn ?e ex_sig_dc ''/a/r.bb'' ''do_x'' = Some ''77''" "\<not> has_sub ''nostamp:'' ''F''"
    "fst (ex_s2 (Some ''F'')) = ''runA1Bqhc177F''" "task_key ''/a/r.bb'' ''do_x'' = ''/a/r.bb.do_x''"
    "replace_sub ''runA1Bqhc177F'' ''runA1Bqhc1F'' ''/st/r.do_x.sigdata.runA1Bqhc177F'' = ''/st/r.do_x.sigdata.runA1Bqhc1F''" by code_simp+
  have m: "ge_md5 ?e = (\<lambda>x. x)" by (simp add: ex_sig_env_def)
  obtain pre sd where d: "''runA1Bqhc177F'' = pre @ ''77'' @ ''F''"
    "pre @ ''F'' \<noteq> ''runA1Bqhc177F'' \<longrightarrow> dump_sigtask ?e ex_sig_conf ''/a/r.bb'' ''do_x'' ''/st/r'' (RunBool True) (snd (ex_s2 (Some ''F''))) =
      Inr (replace_sub ''runA1Bqhc177F'' (pre @ ''F'') (''/st/r'' @ ''.'' @ ''do_x'' @ ''.sigdata.'' @ ''runA1Bqhc177F''), sd,
        [TaskhashMismatch (task_key ''/a/r.bb'' ''do_x'')])"
    using dump_sigtask_mismatch [OF ex_hashed [of "Some ''F''"] e(1) ex_sums e(3,2,4), simplified m e(5)] by auto
  have p: "pre = ''runA1Bqhc1''" using arg_cong [OF d(1), of "take 11"] d(1) by (cases "length pre \<le> 11") (auto dest: arg_cong [of _ _ length])
  show ?thesis using d(2) e(7) unfolding p e(6) by auto
qed

lemma base_hash_closure_witness:
  "\<exists>tds s'. ex_sig_build = Inr (tds, s') \<and> (\<exists>deps v data. dget tds ''do_x'' = Some deps \<and>
     dget [(''do_x'', Some ''run''), (''A'', Some ''1''), (''B'', None)] ''do_x'' = Some v \<and>
     with_values [(''do_x'', Some ''run''), (''A'', Some ''1''), (''B'', None)] deps (case v of None \<Rightarrow> [] | Some x \<Rightarrow> x) = Inr data \<and>
     dget (sg_basehash s') (task_key ''/a/r.bb'' ''do_x'') = Some data)"
proof -
  obtain tds where b: "ex_sig_build = Inr (tds, ex_s1)" using ex_build by blast
  show ?thesis
    using base_hash_closure [where ?md5.0 = "\<lambda>x. x" and wl = "[''TOPDIR'']" and fn = "''/a/r.bb''" and tasklist = "[''do_x'']"
      and gendeps = "[(''do_x'', [''A'', ''TOPDIR'']), (''A'', [''B'']), (''B'', [''A''])]"
      and lookup = "[(''do_x'', Some ''run''), (''A'', Some ''1''), (''B'', None)]" and s = ex_sig_start, folded ex_sig_build_def]
    unfolding b by simp blast
qed

end
