(* ===== verification/BB_SigCompare.thy ===== *)
theory BB_SigCompare
  imports BB_SigProps
begin

text \<open>
  The comparison of two dumps, \<open>compare_sigfiles\<close> of \<open>lib/bb/siggen.py\<close>: the counting of file checksums, and that a comparison
  without output means equal hashes.
\<close>

section \<open>File checksums\<close>

text \<open>What a loop over the surplus takes: as many copies of each element as its counter allows.\<close>

definition allow :: "('a \<Rightarrow> int) \<Rightarrow> 'a list \<Rightarrow> 'a \<Rightarrow> nat" where
  "allow cnt xs x = min (count_list xs x) (nat (cnt x))"

lemma take_surplus_eq: "take_surplus x (cnt, out) = (if cnt x > 0 then (cnt(x := cnt x - 1), out @ [x]) else (cnt, out))"
  by (simp add: take_surplus_def)

lemma take_surplus_count:
  assumes "fold take_surplus xs (cnt, out) = (cnt', out')"
  shows "count_list out' x = count_list out x + allow cnt xs x \<and> (\<exists>r. out' = out @ r)"
  using assms
proof (induction xs arbitrary: cnt out)
  case (Cons y xs)
  show ?case
  proof (cases "cnt y > 0")
    case True
    then have "fold take_surplus xs (cnt(y := cnt y - 1), out @ [y]) = (cnt', out')"
      using Cons.prems by (simp add: take_surplus_eq)
    from Cons.IH [OF this] True show ?thesis by (auto simp: allow_def)
  next
    case False
    then have "fold take_surplus xs (cnt, out) = (cnt', out')" using Cons.prems by (simp add: take_surplus_eq)
    from Cons.IH [OF this] False show ?thesis by (auto simp: allow_def)
  qed
qed (simp add: allow_def)

lemma match_removed_nothing:
  assumes "fold match_removed xs (cnt, changed, added, removed) = (cnt', [], added', [])"
  shows "changed = [] \<and> removed = [] \<and> added' = added \<and> (\<forall>x \<in> set xs. cnt x \<le> 0)"
  using assms
proof (induction xs arbitrary: cnt changed added removed)
  case (Cons x xs)
  show ?case
  proof (cases "cnt x > 0")
    case False
    then have "match_removed x (cnt, changed, added, removed) = (cnt, changed, added, removed)" by (simp add: match_removed_def)
    then have "fold match_removed xs (cnt, changed, added, removed) = (cnt', [], added', [])" using Cons.prems by simp
    from Cons.IH [OF this] False show ?thesis by simp
  next
    case True
    obtain c ad r where s: "match_removed x (cnt, changed, added, removed) = (cnt(x := cnt x - 1), c, ad, r)" "c \<noteq> [] \<or> r \<noteq> []"
      using True by (cases "find (\<lambda>y. fst y = fst x) added") (auto simp: match_removed_def Let_def)
    have "fold match_removed xs (cnt(x := cnt x - 1), c, ad, r) = (cnt', [], added', [])"
      using Cons.prems s(1) by simp
    from Cons.IH [OF this] s(2) show ?thesis by simp
  qed
qed simp

lemma file_checksums_diff_none:
  assumes "file_checksums_diff a b = ([], [], [])"
  shows "mset a = mset b"
proof -
  obtain c1 added where 1: "fold take_surplus b (surplus b a, []) = (c1, added)" by (cases "fold take_surplus b (surplus b a, [])")
  obtain c2 changed added' removed where 2: "fold match_removed a (surplus a b, [], added, []) = (c2, changed, added', removed)"
    by (cases "fold match_removed a (surplus a b, [], added, [])")
  have e: "changed = []" "added' = []" "removed = []" using assms 1 2 by (simp_all add: file_checksums_diff_def)
  note m = match_removed_nothing [OF 2 [unfolded e(1,3)]]
  have "count_list a x = count_list b x" for x
  proof (rule antisym)
    show "count_list a x \<le> count_list b x"
      using m by (cases "x \<in> set a") (auto simp: surplus_def count_list_0_iff)
    have "added = []" using m e(2) by simp
    then have "allow (surplus b a) b x = 0" using take_surplus_count [OF 1, of x] by simp
    then show "count_list b x \<le> count_list a x" by (auto simp: allow_def surplus_def)
  qed
  then show ?thesis by (intro multiset_eqI) (simp add: count_mset)
qed

section \<open>No output\<close>

lemma changed_hashes_none: "changed_hashes cb a b ch out = Inr [] \<Longrightarrow> ch = [] \<and> out = []"
proof (cases ch rule: rev_cases)
  case (snoc ys y)
  assume "changed_hashes cb a b ch out = Inr []"
  then have False unfolding snoc
    by (auto simp: changed_hashes_def rfold_snoc rbind_eq_Inr Let_def split: if_splits)
  then show ?thesis ..
qed (simp add: changed_hashes_def)

lemma compare_hashes_none: "compare_hashes cb a b out = Inr [] \<Longrightarrow> out = []"
  by (auto simp: compare_hashes_def Let_def rbind_eq_Inr split: option.splits prod.splits dest!: changed_hashes_none)

lemma compare_none:
  assumes "compare_sigfiles cb a b = Inr []"
  shows "compare_whitelists a b = Inr [] \<and> compare_vars a b = [] \<and> compare_files a b = [] \<and>
    compare_runtaskdeps a b = Inr [] \<and> sd_taint a = sd_taint b"
proof -
  obtain wl deps out where "compare_whitelists a b = Inr wl" "compare_runtaskdeps a b = Inr deps"
    "compare_hashes cb a b (wl @ compare_vars a b @ compare_files a b @ deps) = Inr out"
    "out @ (if sd_taint a \<noteq> sd_taint b then [TaintChanged (sd_taint a) (sd_taint b)] else []) = []"
    using assms by (auto simp: compare_sigfiles_def rbind_eq_Inr)
  then show ?thesis by (auto dest: compare_hashes_none split: if_splits)
qed

definition dep_hash :: "sigdata \<Rightarrow> string \<Rightarrow> string res" where
  "dep_hash sd x = rbind (entry_of ''runtaskhashes'' (sd_runtaskhashes sd)) (\<lambda>hs. ditem hs x)"

lemma hashes_loop:
  assumes "length as = length bs"
    and "rfold (\<lambda>(x, y) out. rbind (dep_hash a x) (\<lambda>hx. rbind (dep_hash b y) (\<lambda>hy.
          Inr (if hx \<noteq> hy then out @ [RuntaskdepChanged x hx y hy] else out)))) (zip as bs) out = Inr []"
  shows "out = [] \<and> map (dep_hash a) as = map (dep_hash b) bs \<and> (\<forall>x \<in> set as. \<not> isl (dep_hash a x))"
  using assms
proof (induction as bs arbitrary: out rule: list_induct2)
  case (Cons x xs y ys)
  then show ?case by (fastforce simp: rbind_eq_Inr split: if_splits)
qed simp

lemma changed_runtaskdeps_none:
  assumes "changed_runtaskdeps a b as bs = Inr []"
  shows "map (dep_hash a) as = map (dep_hash b) bs"
proof -
  have "length as = length bs" using assms by (auto simp: changed_runtaskdeps_def split: if_splits)
  then show ?thesis using hashes_loop [of as bs a b "[]"] assms
    unfolding changed_runtaskdeps_def dep_hash_def by simp
qed

definition add_dep :: "string res \<Rightarrow> string \<Rightarrow> string res" where
  "add_dep r data = rbind r (\<lambda>h. Inr (data @ h))"

lemma calc_taskhash_eq:
  "calc_taskhash md5 sd =
     rbind (entry_of ''runtaskdeps'' (sd_runtaskdeps sd)) (\<lambda>deps.
     rbind (rfold add_dep (map (dep_hash sd) deps) (sd_basehash sd)) (\<lambda>data.
     rbind (entry_of ''file_checksum_values'' (sd_checksums sd)) (\<lambda>cs.
     rbind (rfold add_sum cs data) (\<lambda>data. Inr (md5 (data @ taint_data (sd_taint sd)))))))"
proof -
  have s: "rbind (entry_of n (sd_runtaskhashes sd)) (\<lambda>hs. rbind (ditem hs dep) (\<lambda>h. Inr (data @ h))) = 
    rbind (rbind (entry_of n (sd_runtaskhashes sd)) (\<lambda>hs. ditem hs dep)) (\<lambda>h. Inr (data @ h))" for n dep data
    by (cases "entry_of n (sd_runtaskhashes sd)") simp_all
  have "rfold add_dep (map (dep_hash sd) deps) d =
    rfold (\<lambda>dep data. rbind (rbind (entry_of ''runtaskhashes'' (sd_runtaskhashes sd)) (\<lambda>hs. ditem hs dep)) (\<lambda>h. Inr (data @ h))) deps d" for deps d
  proof (induction deps arbitrary: d)
    case (Cons x xs)
    have "add_dep (dep_hash sd x) d = rbind (rbind (entry_of ''runtaskhashes'' (sd_runtaskhashes sd)) (\<lambda>hs. ditem hs x)) (\<lambda>h. Inr (d @ h))"
      by (simp add: add_dep_def dep_hash_def)
    then show ?case using Cons.IH by (simp cong: rbind_cong)
  qed simp
  then show ?thesis unfolding calc_taskhash_def s by simp
qed

lemma sums_missing: "(\<exists>(f, c) \<in> set cs. c = None) \<Longrightarrow> rfold add_sum cs d = Inl TypeError"
  by (induction cs arbitrary: d) (force simp: add_sum_def split: option.splits)+

lemma add_sums_perm:
  assumes "mset cs = mset cs'" "sorted (map (opt_text \<circ> snd) cs)" "sorted (map (opt_text \<circ> snd) cs')"
  shows "rfold add_sum cs d = rfold add_sum cs' d"
proof (cases "\<exists>(f, c) \<in> set cs. c = None")
  case True
  moreover have "set cs = set cs'" using mset_eq_setD [OF assms(1)] .
  ultimately show ?thesis by (simp add: sums_missing)
next
  case False
  moreover have "set cs = set cs'" using mset_eq_setD [OF assms(1)] .
  ultimately have "rfold add_sum cs d = Inr (d @ sums cs)" "rfold add_sum cs' d = Inr (d @ sums cs')"
    by (auto intro!: collect_sums)
  moreover have "map (opt_text \<circ> snd) cs = map (opt_text \<circ> snd) cs'"
  proof -
    have "mset (map (opt_text \<circ> snd) cs) = mset (map (opt_text \<circ> snd) cs')" using assms(1) by simp
    then show ?thesis using assms(2,3) by (metis properties_for_sort sort_key_id_if_sorted)
  qed
  moreover have "sums xs = concat (map (opt_text \<circ> snd) xs)" for xs by (auto simp: sums_def opt_text_def intro!: arg_cong [of _ _ concat])
  ultimately show ?thesis by simp
qed


text \<open>
  C14: A comparison that reports nothing. When \<open>compare_sigfiles\<close> has no output for the dumps of two tasks
  that were run, their base hashes, the checksums of their files and their taints are the same, and
  the task hash computed from the one is that computed from the other, whatever the callback says:
  every difference of two task hashes is explained. The checksums are listed in the order
  of their sums, as the fetcher returns them.
\<close>
theorem compare_sigfiles_explains:
  assumes "compare_sigfiles cb a b = Inr []"
    and "sd_runtaskdeps a = Some as" "sd_runtaskdeps b = Some bs" "sd_checksums a = Some ca" "sd_checksums b = Some cb'"
    and "sorted (map (opt_text \<circ> snd) ca)" "sorted (map (opt_text \<circ> snd) cb')"
  shows "sd_basehash a = sd_basehash b \<and> mset ca = mset cb' \<and> sd_taint a = sd_taint b \<and> calc_taskhash md5 a = calc_taskhash md5 b"
proof -
  note n = compare_none [OF assms(1)]
  have base: "sd_basehash a = sd_basehash b" using n by (auto simp: compare_vars_def Let_def split: prod.splits if_splits)
  have "file_checksums_diff ca cb' = ([], [], [])"
    using n assms(4,5) by (auto simp: compare_files_def split: prod.splits)
  then have m: "mset ca = mset cb'" by (rule file_checksums_diff_none)
  have "changed_runtaskdeps a b as bs = Inr []"
    using n assms(2,3) by (auto simp: compare_runtaskdeps_def rbind_eq_Inr split: if_splits)
  then have d: "map (dep_hash a) as = map (dep_hash b) bs" by (rule changed_runtaskdeps_none)
  have "rfold add_sum ca x = rfold add_sum cb' x" for x by (rule add_sums_perm [OF m assms(6,7)])
  then show ?thesis using base m n d assms(2-5) by (simp add: calc_taskhash_eq)
qed

definition ex_sig_data :: "string \<Rightarrow> sigdata" where
  "ex_sig_data c = \<lparr>sd_task = ''do_x'', sd_basewhitelist = [], sd_taskwhitelist = None, sd_taskdeps = [''A''], sd_basehash = ''b'',
     sd_gendeps = [(''A'', [])], sd_varvals = [(''do_x'', Some ''run''), (''A'', Some ''1'')],
     sd_runtaskdeps = Some [''/a/'' @ c @ ''.bb.do_y''], sd_checksums = Some [(''f'', Some ''1''), (''g'', Some ''1'')],
     sd_runtaskhashes = Some [(''/a/'' @ c @ ''.bb.do_y'', ''h'')], sd_taskhash = None, sd_taint = None\<rparr>"

text \<open>The dependency was replaced by one with the same hash, and two files with one sum change places.\<close>

lemma compare_sigfiles_explains_witness:
  "calc_taskhash (\<lambda>x. x) (ex_sig_data ''q'') =
   calc_taskhash (\<lambda>x. x) ((ex_sig_data ''p'')\<lparr>sd_checksums := Some [(''g'', Some ''1''), (''f'', Some ''1'')]\<rparr>)"
proof -
  let ?b = "(ex_sig_data ''p'')\<lparr>sd_checksums := Some [(''g'', Some ''1''), (''f'', Some ''1'')]\<rparr>"
  have "compare_sigfiles None (ex_sig_data ''q'') ?b = Inr []" by code_simp
  moreover have "sorted (map (opt_text \<circ> snd) [(''f'', Some ''1''), (''g'', Some ''1'')])"
    "sorted (map (opt_text \<circ> snd) [(''g'', Some ''1''), (''f'', Some ''1'')])" by (simp_all add: opt_text_def)
  moreover have "sd_checksums (ex_sig_data ''q'') = Some [(''f'', Some ''1''), (''g'', Some ''1'')]" by (simp add: ex_sig_data_def)
  moreover have "sd_runtaskdeps (ex_sig_data ''q'') = Some [''/a/q.bb.do_y'']" "sd_runtaskdeps ?b = Some [''/a/p.bb.do_y'']"
    by (simp_all add: ex_sig_data_def)
  ultimately show ?thesis
    using compare_sigfiles_explains [of None "ex_sig_data ''q''" ?b "[''/a/q.bb.do_y'']" "[''/a/p.bb.do_y'']"
      "[(''f'', Some ''1''), (''g'', Some ''1'')]" "[(''g'', Some ''1''), (''f'', Some ''1'')]" "\<lambda>x. x"] by simp
qed

end
