(* ===== verification/BB_Checksum.thy ===== *)
theory BB_Checksum
  imports BB_Effects BB_Weights BB_DiskMon
begin

text \<open>
  The checksums of local files, \<open>lib/bb/checksum.py\<close>: the cache of modification times, the cache of
  checksums with the entries a process adds, and the checksums of a list of paths. The file system
  is an argument: modification times, contents' md5 sums, patterns, directories. The pickled file of
  the cache is left out.
\<close>

section \<open>The caches\<close>

text \<open>\<open>fs_walk\<close>: the directories below a path with the files of each; \<open>fs_mtime\<close> and \<open>fs_md5\<close> may raise.\<close>

record filesys =
  fs_mtime :: "string \<Rightarrow> int res"
  fs_md5 :: "string \<Rightarrow> string res"
  fs_glob :: "string \<Rightarrow> string list"
  fs_isdir :: "string \<Rightarrow> bool"
  fs_islink :: "string \<Rightarrow> bool"
  fs_walk :: "string \<Rightarrow> (string \<times> string list) list"

type_synonym checksum_table = "(string, int \<times> string) dict"

record checksums =
  ck_cached :: checksum_table
  ck_extras :: checksum_table
  ck_mtimes :: "(string, int) dict"
  ck_warnings :: "(string \<times> string) list"

definition checksums_init :: checksums where
  "checksums_init = \<lparr>ck_cached = [], ck_extras = [], ck_mtimes = [], ck_warnings = []\<rparr>"

definition cached_mtime :: "filesys \<Rightarrow> string \<Rightarrow> (checksums, int) eff" where
  "cached_mtime fs f =
     mbind (mget (\<lambda>s. dget (ck_mtimes s) f)) (\<lambda>known.
     case known of
       Some t \<Rightarrow> mret t
     | None \<Rightarrow> mbind (mlift (fs_mtime fs f)) (\<lambda>t.
         mseq (mmod (\<lambda>s. s\<lparr>ck_mtimes := dset f t (ck_mtimes s)\<rparr>)) (mret t)))"

definition cached_mtime_noerror :: "filesys \<Rightarrow> string \<Rightarrow> (checksums, int) eff" where
  "cached_mtime_noerror fs f =
     mtry (cached_mtime fs f) (\<lambda>e. case e of OSError _ \<Rightarrow> mret 0 | _ \<Rightarrow> mraise e)"

definition update_mtime :: "filesys \<Rightarrow> string \<Rightarrow> (checksums, int) eff" where
  "update_mtime fs f =
     mbind (mlift (fs_mtime fs f)) (\<lambda>t. mseq (mmod (\<lambda>s. s\<lparr>ck_mtimes := dset f t (ck_mtimes s)\<rparr>)) (mret t))"

definition clear_mtimes :: "(checksums, unit) eff" where
  "clear_mtimes = mmod (\<lambda>s. s\<lparr>ck_mtimes := []\<rparr>)"

definition get_checksum :: "filesys \<Rightarrow> string \<Rightarrow> (checksums, string) eff" where
  "get_checksum fs f =
     mbind (mget (\<lambda>s. dget (ck_cached s) f)) (\<lambda>entry.
     mbind (cached_mtime fs f) (\<lambda>cmtime.
     case entry of
       Some (mtime, hashval) \<Rightarrow>
         if cmtime = mtime then mret hashval
         else mbind (mlift (fs_md5 fs f)) (\<lambda>h.
              mseq (mmod (\<lambda>s. s\<lparr>ck_extras := dset f (cmtime, h) (ck_extras s)\<rparr>)) (mret h))
     | None \<Rightarrow> mbind (mlift (fs_md5 fs f)) (\<lambda>h.
              mseq (mmod (\<lambda>s. s\<lparr>ck_extras := dset f (cmtime, h) (ck_extras s)\<rparr>)) (mret h))))"

text \<open>
  \<open>merge_data\<close>: the test for a file that is known looks for it in the list that holds the table, not in
  the table, and never succeeds: every entry of the source replaces that of the destination.
\<close>

definition merge_checksums :: "checksum_table \<Rightarrow> checksum_table \<Rightarrow> checksum_table" where
  "merge_checksums source dest = fold (\<lambda>(h, e). dset h e) source dest"

section \<open>The checksums of a list of paths\<close>

text \<open>None: the file could not be read, which is only warned about.\<close>

definition checksum_file :: "filesys \<Rightarrow> string \<Rightarrow> string \<Rightarrow> (checksums, string option) eff" where
  "checksum_file fs pn f =
     mtry (mbind (get_checksum fs f) (\<lambda>h. mret (Some h)))
       (\<lambda>e. case e of
          OSError _ \<Rightarrow> mseq (mmod (\<lambda>s. s\<lparr>ck_warnings := ck_warnings s @ [(pn, basename f)]\<rparr>)) (mret None)
        | _ \<Rightarrow> mraise e)"

text \<open>Files that have a checksum, with it; an empty one does not count.\<close>

fun checksum_files :: "filesys \<Rightarrow> string \<Rightarrow> string list \<Rightarrow> (checksums, (string \<times> string) list) eff" where
  "checksum_files fs pn [] = mret []"
| "checksum_files fs pn (f # fs') =
     mbind (checksum_file fs pn f) (\<lambda>c. mbind (checksum_files fs pn fs') (\<lambda>rest.
       mret (case c of None \<Rightarrow> rest | Some h \<Rightarrow> if h = [] then rest else (f, h) # rest)))"

definition walk_files :: "filesys \<Rightarrow> string \<Rightarrow> string list" where
  "walk_files fs pth = concat (map (\<lambda>(root, files). map (path_join root) files) (fs_walk fs pth))"

definition checksum_dir :: "filesys \<Rightarrow> string \<Rightarrow> string \<Rightarrow> (checksums, (string \<times> string) list) eff" where
  "checksum_dir fs pn pth = checksum_files fs pn (walk_files fs pth)"

definition checksum_path :: "filesys \<Rightarrow> string \<Rightarrow> string \<Rightarrow> (checksums, (string \<times> string) list) eff" where
  "checksum_path fs pn f =
     (if fs_isdir fs f then (if fs_islink fs f then mret [] else checksum_dir fs pn f) else checksum_files fs pn [f])"

text \<open>An element of the list: a path and, after a colon, whether it exists.\<close>

definition checksum_item :: "filesys \<Rightarrow> string \<Rightarrow> string \<Rightarrow> (checksums, (string \<times> string) list) eff" where
  "checksum_item fs pn item =
     (case split_on CHR '':'' item of
        pth # exist # _ \<Rightarrow>
          if exist = ''False'' then mret []
          else if CHR ''*'' \<in> set pth
          then mbind (mmap (checksum_path fs pn) (fs_glob fs pth)) (\<lambda>cs. mret (concat cs))
          else checksum_path fs pn pth
      | _ \<Rightarrow> mraise IndexError)"

definition get_checksums :: "filesys \<Rightarrow> string \<Rightarrow> string \<Rightarrow> (checksums, (string \<times> string) list) eff" where
  "get_checksums fs filelist pn =
     mbind (mmap (checksum_item fs pn) (split_ws filelist)) (\<lambda>cs. mret (sort_key snd (concat cs)))"


section \<open>The checksums without caches\<close>

definition real_checksum :: "filesys \<Rightarrow> string \<Rightarrow> string res" where
  "real_checksum fs f = rbind (fs_mtime fs f) (\<lambda>_. fs_md5 fs f)"

definition real_files :: "filesys \<Rightarrow> string list \<Rightarrow> (string \<times> string) list" where
  "real_files fs files = concat (map (\<lambda>f. case real_checksum fs f of Inr h \<Rightarrow> if h = [] then [] else [(f, h)] | Inl _ \<Rightarrow> []) files)"

definition path_files :: "filesys \<Rightarrow> string \<Rightarrow> string list" where
  "path_files fs f = (if fs_isdir fs f then if fs_islink fs f then [] else walk_files fs f else [f])"

definition item_files :: "filesys \<Rightarrow> string \<Rightarrow> string list" where
  "item_files fs item =
     (case split_on CHR '':'' item of
        pth # exist # _ \<Rightarrow> if exist = ''False'' then []
          else if CHR ''*'' \<in> set pth then concat (map (path_files fs) (fs_glob fs pth)) else path_files fs pth
      | _ \<Rightarrow> [])"

definition only_os_errors :: "filesys \<Rightarrow> bool" where
  "only_os_errors fs \<longleftrightarrow> (\<forall>f e. (fs_mtime fs f = Inl e \<or> fs_md5 fs f = Inl e) \<longrightarrow> (\<exists>n. e = OSError n))"

definition right_entries :: "filesys \<Rightarrow> checksum_table \<Rightarrow> bool" where
  "right_entries fs d \<longleftrightarrow> dwf d \<and> (\<forall>f t h. dget d f = Some (t, h) \<and> fs_mtime fs f = Inr t \<longrightarrow> fs_md5 fs f = Inr h)"

text \<open>The caches are right: a file whose time is the cached one has the cached sum.\<close>

definition coherent :: "filesys \<Rightarrow> checksums \<Rightarrow> bool" where
  "coherent fs s \<longleftrightarrow> (\<forall>f t. dget (ck_mtimes s) f = Some t \<longrightarrow> fs_mtime fs f = Inr t) \<and>
     right_entries fs (ck_cached s) \<and> right_entries fs (ck_extras s)"

lemma cached_mtime_ok:
  assumes "coherent fs s"
  shows "\<exists>s'. cached_mtime fs f s = (fs_mtime fs f, s') \<and> coherent fs s' \<and> ck_cached s' = ck_cached s"
  using assms
  by (cases "dget (ck_mtimes s) f"; cases "fs_mtime fs f")
    (auto simp: cached_mtime_def mbind_def mget_def mret_def mlift_def mmod_def coherent_def dget_dset)

lemma get_checksum_ok:
  assumes c: "coherent fs s"
  shows "\<exists>s'. get_checksum fs f s = (real_checksum fs f, s') \<and> coherent fs s' \<and> ck_cached s' = ck_cached s"
proof -
  obtain s1 where 1: "cached_mtime fs f s = (fs_mtime fs f, s1)" "coherent fs s1" "ck_cached s1 = ck_cached s"
    using cached_mtime_ok [OF c] by blast
  show ?thesis
  proof (cases "fs_mtime fs f")
    case (Inl e)
    then show ?thesis using 1 by (simp add: get_checksum_def mbind_def mget_def real_checksum_def)
  next
    case (Inr t)
    let ?new = "mbind (mlift (fs_md5 fs f)) (\<lambda>h. mseq (mmod (\<lambda>s. s\<lparr>ck_extras := dset f (t, h) (ck_extras s)\<rparr>)) (mret h))"
    have n: "\<exists>s'. ?new s1 = (real_checksum fs f, s') \<and> coherent fs s' \<and> ck_cached s' = ck_cached s"
    proof (cases "fs_md5 fs f")
      case (Inl e)
      then show ?thesis using 1 Inr by (simp add: mbind_def mlift_def real_checksum_def)
    next
      case (Inr h)
      have "right_entries fs (dset f (t, h) (ck_extras s1))"
        using 1(2) Inr unfolding coherent_def right_entries_def dget_dset by (auto intro: dwf_dset)
      then show ?thesis using 1 Inr \<open>fs_mtime fs f = Inr t\<close>
        by (auto simp: mbind_def mlift_def mmod_def mret_def real_checksum_def coherent_def)
    qed
    show ?thesis
    proof (cases "dget (ck_cached s) f")
      case None
      then show ?thesis using 1 Inr n by (simp add: get_checksum_def mbind_def mget_def)
    next
      case (Some e)
      obtain t0 h0 where e: "e = (t0, h0)" by (cases e)
      show ?thesis
      proof (cases "t = t0")
        case True
        then have "fs_md5 fs f = Inr h0" using c Some Inr e by (auto simp: coherent_def right_entries_def)
        then show ?thesis using 1 Inr Some e True by (simp add: get_checksum_def mbind_def mget_def mret_def real_checksum_def)
      next
        case False
        then show ?thesis using 1 Inr n Some e by (simp add: get_checksum_def mbind_def mget_def)
      qed
    qed
  qed
qed

definition gives :: "filesys \<Rightarrow> (checksums, 'a) eff \<Rightarrow> 'a \<Rightarrow> bool" where
  "gives fs m x \<longleftrightarrow> (\<forall>s. coherent fs s \<longrightarrow> (\<exists>s'. m s = (Inr x, s') \<and> coherent fs s' \<and> ck_cached s' = ck_cached s))"

lemma gives_mret [intro]: "x = y \<Longrightarrow> gives fs (mret x) y"
  by (simp add: gives_def mret_def)

lemma gives_mbind: "gives fs m x \<Longrightarrow> gives fs (f x) y \<Longrightarrow> gives fs (mbind m f) y"
  by (fastforce simp: gives_def mbind_def)

lemma gives_mmap: "(\<And>x. x \<in> set xs \<Longrightarrow> gives fs (f x) (g x)) \<Longrightarrow> gives fs (mmap f xs) (map g xs)"
  by (induction xs) (auto intro!: gives_mbind)

lemma gives_checksum_file:
  assumes "only_os_errors fs"
  shows "gives fs (checksum_file fs pn f) (case real_checksum fs f of Inl _ \<Rightarrow> None | Inr h \<Rightarrow> Some h)"
  unfolding gives_def
proof (intro allI impI)
  fix s assume "coherent fs s"
  then obtain s1 where 1: "get_checksum fs f s = (real_checksum fs f, s1)" "coherent fs s1" "ck_cached s1 = ck_cached s"
    using get_checksum_ok by blast
  show "\<exists>s'. checksum_file fs pn f s = (Inr (case real_checksum fs f of Inl _ \<Rightarrow> None | Inr h \<Rightarrow> Some h), s') \<and> coherent fs s' \<and> ck_cached s' = ck_cached s"
  proof (cases "real_checksum fs f")
    case (Inl e)
    then obtain n where "e = OSError n" using assms by (fastforce simp: only_os_errors_def real_checksum_def rbind_eq_Inl)
    then show ?thesis using 1 Inl by (auto simp: checksum_file_def mtry_def mbind_def mmod_def mret_def coherent_def)
  next
    case (Inr h)
    then show ?thesis using 1 by (auto simp: checksum_file_def mtry_def mbind_def mret_def)
  qed
qed

lemma gives_checksum_files: "only_os_errors fs \<Longrightarrow> gives fs (checksum_files fs pn files) (real_files fs files)"
proof (induction files)
  case (Cons f files)
  then show ?case
    by (auto intro!: gives_mbind [OF gives_checksum_file [OF Cons.prems]] gives_mbind [OF Cons.IH]
        simp: real_files_def split: sum.splits)
qed (auto simp: real_files_def)

lemma gives_checksum_path: "only_os_errors fs \<Longrightarrow> gives fs (checksum_path fs pn f) (real_files fs (path_files fs f))"
  using gives_checksum_files [of fs pn] gives_mret [of "[]" "real_files fs []"]
  by (auto simp: checksum_path_def path_files_def checksum_dir_def real_files_def [of fs "[]"] simp del: checksum_files.simps)

lemma real_files_concat: "concat (map (\<lambda>x. real_files fs (g x)) xs) = real_files fs (concat (map g xs))"
  by (induction xs) (simp_all add: real_files_def)

lemma gives_checksum_item:
  assumes "only_os_errors fs" "CHR '':'' \<in> set item"
  shows "gives fs (checksum_item fs pn item) (real_files fs (item_files fs item))"
proof -
  obtain pth ex rest where i: "split_on CHR '':'' item = pth # ex # rest"
    using that split_on_append [of "CHR '':''" "takeWhile (\<lambda>c. c \<noteq> CHR '':'') item"] assms(2)
    by (metis (no_types, lifting) list.exhaust split_list_first split_on_append split_on_not_Nil)
  have m: "gives fs (mmap (checksum_path fs pn) fl) (map (\<lambda>f. real_files fs (path_files fs f)) fl)" for fl
    by (rule gives_mmap) (rule gives_checksum_path [OF assms(1)])
  have "gives fs (mbind (mmap (checksum_path fs pn) fl) (\<lambda>cs. mret (concat cs))) (real_files fs (concat (map (path_files fs) fl)))" for fl
    unfolding real_files_concat [symmetric] by (rule gives_mbind [OF m gives_mret [OF refl]])
  then show ?thesis using gives_checksum_path [OF assms(1)]
    by (auto simp: checksum_item_def item_files_def i real_files_def [of fs "[]"])
qed

definition reference_checksums :: "filesys \<Rightarrow> string \<Rightarrow> (string \<times> string) list" where
  "reference_checksums fs filelist = sort_key snd (real_files fs (concat (map (item_files fs) (split_ws filelist))))"

lemma merge_right:
  assumes "right_entries fs source" "right_entries fs dest"
  shows "right_entries fs (merge_checksums source dest)"
proof -
  have "right_entries fs (fold (\<lambda>(h, e). dset h e) es d)"
    if "\<forall>(f, t, h) \<in> set es. fs_mtime fs f = Inr t \<longrightarrow> fs_md5 fs f = Inr h" "right_entries fs d" for es d
    using that
  proof (induction es arbitrary: d)
    case (Cons x es)
    obtain f t h where x: "x = (f, t, h)" by (cases x)
    have "right_entries fs (dset f (t, h) d)"
      using Cons.prems unfolding x right_entries_def dget_dset by (auto intro: dwf_dset)
    from Cons.IH [OF _ this] Cons.prems(1) show ?case by (simp add: x)
  qed simp
  moreover have "\<forall>(f, t, h) \<in> set source. fs_mtime fs f = Inr t \<longrightarrow> fs_md5 fs f = Inr h"
    using assms(1) map_of_is_SomeI unfolding right_entries_def by fastforce
  ultimately show ?thesis using assms(2) unfolding merge_checksums_def by blast
qed

lemma dget_merge: "dwf source \<Longrightarrow> dget (merge_checksums source dest) f = (case dget source f of Some e \<Rightarrow> Some e | None \<Rightarrow> dget dest f)"
proof -
  have "dwf es \<Longrightarrow> dget (fold (\<lambda>(h, e). dset h e) es d) f = (case dget es f of Some e \<Rightarrow> Some e | None \<Rightarrow> dget d f)" for es d
  proof (induction es arbitrary: d)
    case (Cons x es)
    obtain h e where x: "x = (h, e)" by (cases x)
    have n: "dget es h = None" using Cons.prems by (simp add: x map_of_eq_None_iff)
    show ?case using Cons n by (cases "h = f") (simp_all add: x dget_dset split: option.split)
  qed simp
  then show "dwf source \<Longrightarrow> ?thesis" by (simp add: merge_checksums_def)
qed

text \<open>
  C15: The checksums of local files. While the files do not change, reading the checksums of a list
  through the caches gives what a computation without any cache gives: for every file that exists
  and can be read its md5 sum, in the order of the sums, whatever the caches hold. The caches stay
  right, also when the entries of the process are merged into the shared table.
\<close>
theorem get_checksums_reference:
  assumes "coherent fs s" "only_os_errors fs" "\<forall>item \<in> set (split_ws filelist). CHR '':'' \<in> set item"
  shows "\<exists>s'. get_checksums fs filelist pn s = (Inr (reference_checksums fs filelist), s') \<and> coherent fs s' \<and>
    ck_cached s' = ck_cached s \<and>
    coherent fs (s'\<lparr>ck_cached := merge_checksums (ck_extras s') (ck_cached s')\<rparr>)"
proof -
  have "gives fs (get_checksums fs filelist pn) (reference_checksums fs filelist)"
    unfolding get_checksums_def reference_checksums_def real_files_concat [symmetric]
    by (intro gives_mbind [OF gives_mmap gives_mret [OF refl]] gives_checksum_item) (use assms(2,3) in auto)
  then obtain s' where "get_checksums fs filelist pn s = (Inr (reference_checksums fs filelist), s')" "coherent fs s'" "ck_cached s' = ck_cached s"
    using assms(1) unfolding gives_def by blast
  then show ?thesis using merge_right [of fs "ck_extras s'" "ck_cached s'"] by (auto simp: coherent_def)
qed


definition ex_fs :: filesys where
  "ex_fs = \<lparr>fs_mtime = (\<lambda>f. if f = ''/d/gone'' then Inl (OSError 2) else Inr 7), fs_md5 = (\<lambda>f. Inr (if f = ''/d/a'' then ''9'' else ''4'')),
     fs_glob = (\<lambda>p. []), fs_isdir = (\<lambda>f. f = ''/d''), fs_islink = (\<lambda>f. False), fs_walk = (\<lambda>p. [(''/d'', [''a'', ''gone'', ''b''])])\<rparr>"

definition ex_checksums :: checksums where
  "ex_checksums = \<lparr>ck_cached = [(''/d/a'', (7, ''9'')), (''/d/b'', (6, ''old''))], ck_extras = [], ck_mtimes = [], ck_warnings = []\<rparr>"

lemma get_checksums_reference_witness:
  "\<exists>s'. get_checksums ex_fs ''/d:True /c:False'' ''pn'' ex_checksums = (Inr [(''/d/b'', ''4''), (''/d/a'', ''9'')], s') \<and>
    coherent ex_fs (s'\<lparr>ck_cached := merge_checksums (ck_extras s') (ck_cached s')\<rparr>)"
proof -
  have "coherent ex_fs ex_checksums" by (auto simp: coherent_def right_entries_def ex_fs_def ex_checksums_def split: if_splits)
  moreover have "only_os_errors ex_fs" by (auto simp: only_os_errors_def ex_fs_def)
  moreover have "split_ws ''/d:True /c:False'' = [''/d:True'', ''/c:False'']" by code_simp
  moreover have "reference_checksums ex_fs ''/d:True /c:False'' = [(''/d/b'', ''4''), (''/d/a'', ''9'')]" by code_simp
  ultimately show ?thesis
    using get_checksums_reference [of ex_fs ex_checksums "''/d:True /c:False''" "''pn''"] by auto
qed

end
