(* ===== verification/BB_SigPrep.thy ===== *)
theory BB_SigPrep
  imports BB_SigCompare BB_Checksum BB_RunPrepProps
begin

text \<open>
  The signature generator and the preparation of the run queue together: what \<open>prepare\<close> needs of
  \<open>get_taskhash\<close> is stated as an interface, and the base class and the basic generator
  are shown to implement it. The basic generator reads the checksums of files as \<open>lib/bb/checksum.py\<close> computes them.
\<close>

section \<open>Tasks and the keys of their hashes\<close>

text \<open>A task identifier as \<open>build_tid\<close> makes it: no colon in the configuration, no colon or dot in the task.\<close>

definition task_tid :: "string \<Rightarrow> bool" where
  "task_tid tid \<longleftrightarrow> (\<exists>mc fn t. tid = build_tid mc fn t \<and> CHR '':'' \<notin> set mc \<and> CHR '':'' \<notin> set t \<and> CHR ''.'' \<notin> set t \<and>
     (mc = [] \<longrightarrow> \<not> prefix ''multiconfig:'' (fn @ '':'')))"

definition tid_key :: "string \<Rightarrow> string" where
  "tid_key tid = (case rsplit1 CHR '':'' tid of None \<Rightarrow> tid | Some (fn, t) \<Rightarrow> task_key fn t)"

lemma task_tid_split:
  assumes "task_tid tid"
  shows "\<exists>mc fn t tfn. tid = tfn @ '':'' @ t \<and> CHR '':'' \<notin> set t \<and> CHR ''.'' \<notin> set t \<and> split_tid_mcfn tid = Inr (mc, fn, t, tfn) \<and>
    taskname_from_tid tid = Inr t \<and> fn_from_tid tid = tfn \<and> tid_key tid = task_key tfn t"
proof -
  obtain mc fn t where t: "tid = build_tid mc fn t" "CHR '':'' \<notin> set mc" "CHR '':'' \<notin> set t" "CHR ''.'' \<notin> set t"
    "mc = [] \<longrightarrow> \<not> prefix ''multiconfig:'' (fn @ '':'')"
    using assms unfolding task_tid_def by blast
  show ?thesis
  proof (cases "mc = []")
    case True
    have np: "\<not> prefix ''multiconfig:'' (fn @ CHR '':'' # t)"
    proof
      assume "prefix ''multiconfig:'' (fn @ CHR '':'' # t)"
      moreover have "prefix (fn @ '':'') (fn @ CHR '':'' # t)" by simp
      ultimately have "prefix ''multiconfig:'' (fn @ '':'') \<or> prefix (fn @ '':'') ''multiconfig:''" by (rule prefix_same_cases)
      moreover have "prefix (fn @ '':'') ''multiconfig:'' \<Longrightarrow> fn @ '':'' = ''multiconfig:''"
        by (cases fn rule: rev_cases) (auto simp: prefix_def Cons_eq_append_conv append_eq_Cons_conv)
      ultimately show False using t(5) True by auto
    qed
    then show ?thesis using t True
      by (intro exI [of _ "[]"] exI [of _ fn] exI [of _ t]) (simp add: build_tid_def split_tid_mcfn_def rsplit1_append tid_key_def fn_from_tid_def taskname_from_tid_def)
  next
    case False
    have e: "tid = (''multiconfig:'' @ mc @ '':'' @ fn) @ CHR '':'' # t" using t(1) False by (simp add: build_tid_def)
    have "split_tid_mcfn tid = Inr (mc, fn, t, ''multiconfig:'' @ mc @ '':'' @ fn)"
      using split_tid_mcfn_multiconfig [OF t(2,3)] t(1) False by (simp add: build_tid_def)
    moreover have r: "rsplit1 CHR '':'' tid = Some (''multiconfig:'' @ mc @ '':'' @ fn, t)" unfolding e by (rule rsplit1_append [OF t(3)])
    ultimately show ?thesis using t(3,4) e
      by (intro exI [of _ mc] exI [of _ fn] exI [of _ t] exI [of _ "''multiconfig:'' @ mc @ '':'' @ fn"])
        (simp add: tid_key_def fn_from_tid_def taskname_from_tid_def)
  qed
qed

lemma tid_key_inj:
  assumes "task_tid a" "task_tid b" "tid_key a = tid_key b"
  shows "a = b"
proof -
  obtain f t where a: "a = f @ '':'' @ t" "CHR ''.'' \<notin> set t" "tid_key a = task_key f t"
    using task_tid_split [OF assms(1)] by blast
  obtain g u where b: "b = g @ '':'' @ u" "CHR ''.'' \<notin> set u" "tid_key b = task_key g u"
    using task_tid_split [OF assms(2)] by blast
  have "rsplit1 CHR ''.'' (f @ CHR ''.'' # t) = rsplit1 CHR ''.'' (g @ CHR ''.'' # u)"
    using assms(3) a(3) b(3) by (simp add: task_key_def)
  then have "f = g \<and> t = u" using a(2) b(2) by (simp add: rsplit1_append)
  then show ?thesis using a(1) b(1) by simp
qed

text \<open>The arguments \<open>prepare\<close> passes for a task.\<close>

definition hash_args :: "rqinput \<Rightarrow> string \<Rightarrow> rtentry \<Rightarrow> (string \<times> string \<times> string list \<times> datacache) res" where
  "hash_args inp tid e =
     rbind (rmap (\<lambda>dep. rbind (taskname_from_tid dep) (\<lambda>t. Inr (fn_from_tid dep @ ''.'' @ t))) (rt_depends e)) (\<lambda>procdep.
     rbind (split_tid_mcfn tid) (\<lambda>(mc, _, taskname, taskfn).
     rbind (ditem (rq_caches inp) mc) (\<lambda>dc. Inr (taskfn, taskname, procdep, dc))))"

lemma hash_task_args:
  "hash_task gh inp tid e g = rbind (hash_args inp tid e) (\<lambda>(fn, t, ds, dc). gh fn t ds dc g)"
proof -
  let ?deps = "rmap (\<lambda>dep. rbind (taskname_from_tid dep) (\<lambda>t. Inr (fn_from_tid dep @ ''.'' @ t))) (rt_depends e)"
  show ?thesis
  proof (cases ?deps)
    case (Inr ds)
    show ?thesis
    proof (cases "split_tid_mcfn tid")
      case (Inr q)
      then show ?thesis using \<open>?deps = Inr ds\<close> by (cases q; cases "ditem (rq_caches inp) (fst q)") (simp_all add: hash_task_def hash_args_def)
    qed (use Inr in \<open>simp add: hash_task_def hash_args_def\<close>)
  qed (simp add: hash_task_def hash_args_def)
qed

lemma dep_keys:
  "\<forall>d \<in> set xs. task_tid d \<Longrightarrow>
    rmap (\<lambda>dep. rbind (taskname_from_tid dep) (\<lambda>t. Inr (fn_from_tid dep @ ''.'' @ t))) xs = Inr (map tid_key xs)"
proof (induction xs)
  case (Cons x xs)
  then show ?case using task_tid_split [of x] by (auto simp: task_key_def)
qed simp

lemma hash_args_eq:
  assumes "task_tid tid" "\<forall>d \<in> set (rt_depends e). task_tid d"
  shows "\<exists>mc fn t. task_key fn t = tid_key tid \<and> hash_args inp tid e =
    rbind (ditem (rq_caches inp) mc) (\<lambda>dc. Inr (fn, t, map tid_key (rt_depends e), dc))"
proof -
  obtain mc f t tfn where "split_tid_mcfn tid = Inr (mc, f, t, tfn)" "tid_key tid = task_key tfn t"
    using task_tid_split [OF assms(1)] by blast
  then show ?thesis unfolding hash_args_def dep_keys [OF assms(2)] by (intro exI [of _ mc] exI [of _ tfn] exI [of _ t]) simp
qed

lemma hash_args_keys:
  assumes "hash_args inp tid e = Inr (fn, t, ds, dc)" "task_tid tid" "\<forall>d \<in> set (rt_depends e). task_tid d"
  shows "task_key fn t = tid_key tid \<and> ds = map tid_key (rt_depends e)"
proof -
  obtain mc f u where k: "task_key f u = tid_key tid"
    and a: "hash_args inp tid e = rbind (ditem (rq_caches inp) mc) (\<lambda>dc. Inr (f, u, map tid_key (rt_depends e), dc))"
    using hash_args_eq [OF assms(2,3)] by blast
  show ?thesis using assms(1) k unfolding a by (auto simp: rbind_eq_Inr)
qed

lemma rmap_Inl: "rmap f xs = Inl e \<Longrightarrow> \<exists>x \<in> set xs. f x = Inl e"
  by (induction xs) (auto simp: rbind_eq_Inl)

section \<open>What the preparation needs of a signature generator\<close>

text \<open>
  \<open>stored g k\<close> is the hash known for key k, \<open>law fn t ds dc st h\<close> the equation the hash h of a task
  satisfies when st gives the hashes of its dependencies.
\<close>

locale sig_generator =
  fixes gh :: "string \<Rightarrow> string \<Rightarrow> string list \<Rightarrow> datacache \<Rightarrow> 'g \<Rightarrow> (string \<times> 'g) res"
    and stored :: "'g \<Rightarrow> string \<Rightarrow> string option"
    and law :: "string \<Rightarrow> string \<Rightarrow> string list \<Rightarrow> datacache \<Rightarrow> (string \<Rightarrow> string option) \<Rightarrow> string \<Rightarrow> bool"
  assumes stores: "gh fn t ds dc g = Inr (h, g') \<Longrightarrow> stored g' (task_key fn t) = Some h"
    and keeps_others: "gh fn t ds dc g = Inr (h, g') \<Longrightarrow> k \<noteq> task_key fn t \<Longrightarrow> stored g' k = stored g k"
    and lawful: "gh fn t ds dc g = Inr (h, g') \<Longrightarrow> law fn t ds dc (stored g) h"
    and law_cong: "(\<And>k. k \<in> set ds \<Longrightarrow> st k = st' k) \<Longrightarrow> law fn t ds dc st h = law fn t ds dc st' h"
    and in_order: "(\<And>d. d \<in> set ds \<Longrightarrow> stored g d \<noteq> None) \<Longrightarrow> gh fn t ds dc g \<noteq> Inl (MsgFatal ''SigGen'')"
begin

definition task_done :: "rqinput \<Rightarrow> (string \<Rightarrow> string option) \<Rightarrow> runtasks \<Rightarrow> string \<Rightarrow> bool" where
  "task_done inp st es tid \<longleftrightarrow> (\<exists>e h fn t ds dc. dget es tid = Some e \<and> rt_hash e = Some h \<and> st (tid_key tid) = Some h \<and>
     hash_args inp tid e = Inr (fn, t, ds, dc) \<and> law fn t ds dc st h)"

definition ginv :: "rqinput \<Rightarrow> runtasks \<Rightarrow> string list \<times> string list \<times> runtasks \<times> 'g \<Rightarrow> bool" where
  "ginv inp es0 = (\<lambda>(dl, td, es, g). hinv es0 (dl, td, es, g) \<and> set dl \<inter> set td = {} \<and>
     (\<forall>x \<in> set dl. dep_set es0 x \<subseteq> set dl \<and> task_done inp (stored g) es x))"

lemma hash_args_again: "hash_args inp tid (e\<lparr>rt_hash := h\<rparr>) = hash_args inp tid e"
  by (simp add: hash_args_def)

lemma gen_step:
  assumes "hash_step gh inp tid (dl, td, es, g) = r" "ginv inp es0 (dl, td, es, g)" "tid \<in> set td"
    and tids: "\<forall>x \<in> set (dkeys es0). task_tid x \<and> dep_set es0 x \<subseteq> set (dkeys es0)"
  shows "r \<noteq> Inl (MsgFatal ''SigGen'') \<and> (\<forall>st. r = Inr st \<longrightarrow> ginv inp es0 st)"
proof -
  have hi: "hinv es0 (dl, td, es, g)" and dj: "set dl \<inter> set td = {}" using assms(2) by (simp_all add: ginv_def)
  have sg: "same_graph es0 es" and dt: "distinct td" and ks: "set dl \<union> set td = set (dkeys es0)"
    using hi by (simp_all add: hinv_def del: list.set_map)
  have key: "tid \<in> set (dkeys es0)" using assms(3) ks by blast
  then obtain e where e: "dget es tid = Some e" using sg unfolding same_graph_def by (metis dget_Some_key)
  have d: "rt_depends e = deps_of es0 tid" using sg e unfolding same_graph_def by (metis deps_of_def option.simps(5))
  show ?thesis
  proof (cases "dep_set es0 tid \<subseteq> set dl")
    case False
    then have "r = Inr (dl, td, es, g)" using assms(1) e d by (auto simp: hash_step_def ditem_def)
    then show ?thesis using assms(2) by simp
  next
    case True
    have r: "r = rbind (hash_task gh inp tid e g) (\<lambda>(h, g). Inr (dl @ [tid], remove1 tid td, dset tid (e\<lparr>rt_hash := Some h\<rparr>) es, g))"
      using assms(1) e d True by (simp add: hash_step_def ditem_def)
    have depids: "\<forall>x \<in> set (rt_depends e). task_tid x" using tids key unfolding d by blast
    have tt: "task_tid tid" using tids key by blast
    show ?thesis
    proof (cases "hash_args inp tid e")
      case (Inl x)
      obtain mc f u where a: "hash_args inp tid e = rbind (ditem (rq_caches inp) mc) (\<lambda>dc. Inr (f, u, map tid_key (rt_depends e), dc))"
        using hash_args_eq [OF tt depids] by blast
      have "x \<noteq> MsgFatal ''SigGen''" using Inl unfolding a by (auto simp: rbind_eq_Inl ditem_eq_Inl)
      then show ?thesis using r Inl by (simp add: hash_task_args)
    next
      case (Inr q)
      then obtain fn t ds dc where a: "hash_args inp tid e = Inr (fn, t, ds, dc)" by (cases q) auto
      have ka: "task_key fn t = tid_key tid" "ds = map tid_key (rt_depends e)" using hash_args_keys [OF a tt depids] by blast+
      have st: "stored g x \<noteq> None" if x: "x \<in> set ds" for x
      proof -
        obtain y where y: "y \<in> dep_set es0 tid" "x = tid_key y" using x unfolding ka(2) d by auto
        then have "task_done inp (stored g) es y" using True assms(2) unfolding ginv_def by blast
        then show ?thesis unfolding y(2) task_done_def by (elim exE conjE) simp
      qed
      note ord = in_order [of ds g fn t dc, OF st]
      have "ginv inp es0 st'" if rs: "r = Inr st'" for st'
      proof -
        obtain h g' where g: "gh fn t ds dc g = Inr (h, g')" "st' = (dl @ [tid], remove1 tid td, dset tid (e\<lparr>rt_hash := Some h\<rparr>) es, g')"
          using rs unfolding r hash_task_args a by (cases "gh fn t ds dc g") auto
        have hi': "hinv es0 st'" using hash_step_inv [OF _ hi assms(3), of gh inp] assms(1) rs unfolding g(2) by blast
        have same: "stored g' (tid_key x) = stored g (tid_key x)" if "x \<in> set dl" for x
        proof -
          have "x \<noteq> tid" "x \<in> set (dkeys es0)" using that dj assms(3) ks by blast+
          then show ?thesis using keeps_others [OF g(1)] tid_key_inj [of x tid] tids tt unfolding ka(1) by blast
        qed
        have keep: "task_done inp (stored g') (dset tid (e\<lparr>rt_hash := Some h\<rparr>) es) x" if x: "x \<in> set dl" for x
        proof -
          have xt: "x \<noteq> tid" and xk: "x \<in> set (dkeys es0)" using x dj assms(3) ks by blast+
          obtain e' h' fn' t' ds' dc' where o: "dget es x = Some e'" "rt_hash e' = Some h'" "stored g (tid_key x) = Some h'"
            "hash_args inp x e' = Inr (fn', t', ds', dc')" "law fn' t' ds' dc' (stored g) h'" and dx: "dep_set es0 x \<subseteq> set dl"
            using assms(2) x unfolding ginv_def task_done_def by blast
          have d': "rt_depends e' = deps_of es0 x" using sg o(1) unfolding same_graph_def by (metis deps_of_def option.simps(5))
          have "ds' = map tid_key (rt_depends e')" using hash_args_keys [OF o(4)] tids xk unfolding d' by blast
          then have "stored g k = stored g' k" if "k \<in> set ds'" for k using that same dx d' by auto
          from law_cong [of ds' "stored g" "stored g'", OF this] o(5) have "law fn' t' ds' dc' (stored g') h'" by blast
          then show ?thesis unfolding task_done_def using o xt same [OF x] by (auto simp: dget_dset)
        qed
        have "law fn t ds dc (stored g') h"
        proof -
          have "stored g k = stored g' k" if "k \<in> set ds" for k using that same True unfolding ka(2) d by auto
          from law_cong [of ds "stored g" "stored g'", OF this] lawful [OF g(1)] show ?thesis by blast
        qed
        then have new: "task_done inp (stored g') (dset tid (e\<lparr>rt_hash := Some h\<rparr>) es) tid"
          unfolding task_done_def using a stores [OF g(1)] ka(1) by (auto simp: dget_dset hash_args_again)
        show ?thesis using hi' keep new True dj dt assms(2) unfolding g(2) ginv_def by auto
      qed
      then show ?thesis using ord r unfolding hash_task_args a by (auto simp: rbind_eq_Inl)
    qed
  qed
qed

lemma gen_round:
  assumes "rfold (hash_step gh inp) xs (dl, td, es, g) = r" "ginv inp es0 (dl, td, es, g)" "distinct xs" "set xs \<subseteq> set td"
    and tids: "\<forall>x \<in> set (dkeys es0). task_tid x \<and> dep_set es0 x \<subseteq> set (dkeys es0)"
  shows "r \<noteq> Inl (MsgFatal ''SigGen'') \<and> (\<forall>st. r = Inr st \<longrightarrow> ginv inp es0 st)"
  using assms(1-4)
proof (induction xs arbitrary: dl td es g)
  case (Cons x xs)
  have xm: "x \<in> set td" using Cons.prems by simp
  note 1 = gen_step [OF refl Cons.prems(2) xm tids]
  show ?case
  proof (cases "hash_step gh inp x (dl, td, es, g)")
    case (Inl e)
    then show ?thesis using 1 Cons.prems(1) by auto
  next
    case (Inr st)
    obtain dl1 td1 es1 g1 where st: "st = (dl1, td1, es1, g1)" by (cases st)
    have i: "ginv inp es0 (dl1, td1, es1, g1)" using 1 Inr st by blast
    have h: "hinv es0 (dl, td, es, g)" using Cons.prems(2) by (simp add: ginv_def)
    then have "distinct td" by (simp add: hinv_def)
    then have "set xs \<subseteq> set td1"
      using hash_step_inv [OF Inr [unfolded st] h xm] Cons.prems(3,4) by (auto split: if_splits)
    then show ?thesis using Cons.IH [OF _ i] Cons.prems(1,3) Inr st by simp
  qed
qed auto

lemma gen_loop:
  assumes tids: "\<forall>x \<in> set (dkeys es0). task_tid x \<and> dep_set es0 x \<subseteq> set (dkeys es0)"
  shows "ginv inp es0 (dl, td, es, g) \<Longrightarrow> hash_loop fuel gh inp (dl, td, es, g) = Some r \<Longrightarrow>
    r \<noteq> Inl (MsgFatal ''SigGen'') \<and>
    (\<forall>es' g'. r = Inr (es', g') \<longrightarrow> (\<forall>x \<in> set (dkeys es0). task_done inp (stored g') es' x))"
proof (induction fuel arbitrary: dl td es g)
  case (Suc fuel)
  show ?case
  proof (cases "td = []")
    case True
    then have "r = Inr (es, g)" using Suc.prems(2) by simp
    moreover have "set dl = set (dkeys es0)" using Suc.prems(1) True by (simp add: ginv_def hinv_def del: list.set_map)
    ultimately show ?thesis using Suc.prems(1) by (simp add: ginv_def del: list.set_map)
  next
    case False
    have "distinct td" using Suc.prems(1) by (simp add: ginv_def hinv_def)
    note 1 = gen_round [OF refl Suc.prems(1) this subset_refl tids]
    show ?thesis
    proof (cases "rfold (hash_step gh inp) td (dl, td, es, g)")
      case (Inl e)
      then show ?thesis using 1 False Suc.prems(2) by auto
    next
      case (Inr st)
      obtain dl1 td1 es1 g1 where st: "st = (dl1, td1, es1, g1)" by (cases st)
      show ?thesis using Suc.IH [of dl1 td1 es1 g1] 1 False Suc.prems(2) Inr st by simp
    qed
  qed
qed simp

lemma hash_all_ok:
  assumes "rt_wf es" "\<forall>x \<in> set (dkeys es). task_tid x" "hash_loop fuel gh inp ([], dkeys es, es, g) = Some r"
  shows "r \<noteq> Inl (MsgFatal ''SigGen'') \<and>
    (\<forall>es' g'. r = Inr (es', g') \<longrightarrow> (\<forall>x \<in> set (dkeys es). task_done inp (stored g') es' x))"
proof (rule gen_loop [OF _ _ assms(3)])
  show "\<forall>x \<in> set (dkeys es). task_tid x \<and> dep_set es x \<subseteq> set (dkeys es)"
    using assms(2) rt_wf_deps [OF assms(1)] by blast
  show "ginv inp es ([], dkeys es, es, g)"
    using assms(1) by (simp add: ginv_def hinv_def same_graph_refl rt_wf_def)
qed

lemma prepared_hashes:
  assumes "prepare gh g inp = Some (Inr (Some p))" "\<forall>x \<in> set (dkeys (pp_entries p)). task_tid x"
    and "x \<in> set (dkeys (pp_entries p))"
  shows "task_done inp (stored (pp_siggen p)) (pp_entries p) x"
proof -
  obtain es tids eps es' wt where l: "linked_tasks inp = Inr (es, tids, eps)"
    and w: "calculate_task_weights es eps = Some (Inr (es', wt))"
    and a: "after_weights gh g inp (es', tids, wt) = Some (Inr p)"
    using assms(1) by (auto simp: prepare_def rbind_eq_Inr split: if_splits sum.splits option.splits)
  have wf: "rt_wf es" and sg: "same_graph es es'" using prepare_cases [OF l] same_graph_weights [OF w] by blast+
  have wf': "rt_wf es'" by (rule same_graph_wf [OF sg wf])
  have h: "hash_loop (Suc (length es')) gh inp ([], dkeys es', es', g) = Some (Inr (pp_entries p, pp_siggen p))"
    using a by (auto simp: after_weights_def rbind_eq_Inr simp del: hash_loop.simps split: sum.splits)
  have k: "dkeys (pp_entries p) = dkeys es'"
  proof -
    have "hinv es' ([], dkeys es', es', g)" using wf' by (simp add: hinv_def same_graph_refl rt_wf_def)
    moreover have "acyclic (dep_rel es')"
      using weights_acyclic [OF wf] w prepare_cases [OF l] same_graph_rel [OF sg] by (metis isl_def option.inject sum.disc(2))
    ultimately have "same_graph es' (pp_entries p)"
      using hash_loop_ends [OF wf', of "[]" "dkeys es'" es' g "Suc (length es')" gh inp] h by (simp del: hash_loop.simps)
    then show ?thesis by (simp add: same_graph_def)
  qed
  show ?thesis using hash_all_ok [OF wf' _ h] assms(2,3) unfolding k by blast
qed

end

section \<open>The generators of the code\<close>

definition fetched_sums :: "filesys \<Rightarrow> string option \<Rightarrow> string \<Rightarrow> (string \<times> string option) list res" where
  "fetched_sums fs filelist pn =
     (case filelist of
        None \<Rightarrow> Inl AttributeError
      | Some l \<Rightarrow> if list_all (\<lambda>item. CHR '':'' \<in> set item) (split_ws l)
                  then Inr (map (\<lambda>(f, h). (f, Some h)) (reference_checksums fs l)) else Inl IndexError)"

definition with_files :: "filesys \<Rightarrow> sigenv \<Rightarrow> sigenv" where
  "with_files fs env = env\<lparr>ge_sums := fetched_sums fs\<rparr>"

definition sig_law :: "sigenv \<Rightarrow> sigconf \<Rightarrow> string \<Rightarrow> string \<Rightarrow> string list \<Rightarrow> datacache \<Rightarrow> (string \<Rightarrow> string option) \<Rightarrow> string \<Rightarrow> bool" where
  "sig_law env conf fn t ds dc st h \<longleftrightarrow> (\<exists>base rn sorted_ds cs. dget (dc_basetaskhash dc) (task_key fn t) = Some base \<and>
     dget (dc_pkg_fn dc) fn = Some rn \<and> sorted_by_path ds = Inr sorted_ds \<and> task_files env dc fn t rn = Inr cs \<and>
     h = ge_md5 env (base @ concat (map (\<lambda>d. opt_text (st d)) (filter (keeps conf dc rn) sorted_ds)) @ sums cs @
           opt_text (drawn env dc fn t) @ opt_text (forced env dc fn t)))"

lemma sig_law_cong:
  assumes "\<And>k. k \<in> set ds \<Longrightarrow> st k = st' k"
  shows "sig_law env conf fn t ds dc st h = sig_law env conf fn t ds dc st' h"
proof -
  have "map (\<lambda>d. opt_text (st d)) (filter P sds) = map (\<lambda>d. opt_text (st' d)) (filter P sds)" if "sorted_by_path ds = Inr sds" for sds P
    using sorted_by_path_set [OF that] assms by auto
  then show ?thesis unfolding sig_law_def by metis
qed

lemma get_taskhash_law:
  assumes "get_taskhash env conf fn t ds dc g = Inr (h, g')"
  shows "sg_taskhash g' = dset (task_key fn t) h (sg_taskhash g) \<and> sig_law env conf fn t ds dc (dget (sg_taskhash g)) h"
proof -
  obtain base kept cs where f: "hash_facts env conf fn t ds dc g h g' base kept cs" using get_taskhash_facts [OF assms] by blast
  obtain rn sds where s: "dget (dc_pkg_fn dc) fn = Some rn" "sorted_by_path ds = Inr sds" "kept = filter (keeps conf dc rn) sds"
    "task_files env dc fn t rn = Inr cs" using f unfolding hash_facts_def Let_def by blast
  have "hash_of g = (\<lambda>d. opt_text (dget (sg_taskhash g) d))" by (simp add: hash_of_def opt_text_def fun_eq_iff)
  then show ?thesis using f s unfolding hash_facts_def Let_def sig_law_def by auto
qed

lemma hash_deps_in_order:
  "set deps \<subseteq> set (dkeys (sg_taskhash s)) \<Longrightarrow> rfold (hash_dep conf dc rn k) deps (data, s) \<noteq> Inl (MsgFatal ''SigGen'')"
proof (induction deps arbitrary: data s)
  case (Cons d deps)
  have 1: "hash_dep conf dc rn k d (data, s) \<noteq> Inl (MsgFatal ''SigGen'')"
    using Cons.prems by (auto simp: hash_dep_def dep_recipe_def rbind_eq_Inl ditem_eq_Inl simp del: list.set_map split: option.splits if_splits)
  have 2: "sg_taskhash s' = sg_taskhash s" if "hash_dep conf dc rn k d (data, s) = Inr (data', s')" for data' s'
    using that by (auto simp: hash_dep_def rbind_eq_Inr split: if_splits)
  show ?case
  proof (cases "hash_dep conf dc rn k d (data, s)")
    case (Inr p)
    obtain data' s' where p: "p = (data', s')" by (cases p)
    show ?thesis using Cons.IH [of s' data'] Cons.prems 2 [OF Inr [unfolded p]] Inr p by simp
  qed (use 1 in simp)
qed simp

definition path_error :: "'a res \<Rightarrow> bool" where
  "path_error r \<longleftrightarrow> (\<forall>e. r = Inl e \<longrightarrow> e = ValueError \<or> e = IndexError)"

lemma path_error_rbind: "path_error r \<Longrightarrow> (\<And>x. path_error (f x)) \<Longrightarrow> path_error (rbind r f)"
  by (auto simp: path_error_def rbind_eq_Inl)

lemma path_error_rmap: "(\<And>x. path_error (f x)) \<Longrightarrow> path_error (rmap f xs)"
  by (auto simp: path_error_def dest!: rmap_Inl)

lemma path_error_clean: "path_error (clean_basepath a)"
  unfolding clean_basepath_def by (auto intro!: path_error_rbind split: option.splits list.splits) (simp_all add: path_error_def Let_def)

lemma sorted_by_path_errors: "sorted_by_path ds = Inl e \<Longrightarrow> e \<in> {ValueError, IndexError}"
proof -
  have "path_error (sorted_by_path ds)" unfolding sorted_by_path_def
    by (intro path_error_rbind path_error_rmap path_error_clean) (simp_all add: path_error_def Let_def)
  then show "sorted_by_path ds = Inl e \<Longrightarrow> e \<in> {ValueError, IndexError}" by (simp add: path_error_def)
qed

lemma get_taskhash_in_order:
  assumes "set ds \<subseteq> set (dkeys (sg_taskhash g))"
  shows "get_taskhash (with_files fs env) conf fn t ds dc g \<noteq> Inl (MsgFatal ''SigGen'')"
proof
  assume a: "get_taskhash (with_files fs env) conf fn t ds dc g = Inl (MsgFatal ''SigGen'')"
  let ?k = "task_key fn t" and ?e = "with_files fs env"
  have files: "hash_files ?e dc fn t rn ?k (data, s) \<noteq> Inl (MsgFatal ''SigGen'')" for rn data s
    by (auto simp: hash_files_def rbind_eq_Inl ditem_eq_Inl with_files_def fetched_sums_def split: option.splits if_splits)
  have taints: "hash_taints ?e dc fn t ?k (data, s) \<noteq> Inl (MsgFatal ''SigGen'')" for data s
    by (auto simp: hash_taints_def rbind_eq_Inl ditem_eq_Inl Let_def split: option.splits if_splits)
  obtain base rn where b: "dget (dc_basetaskhash dc) ?k = Some base" "dget (dc_pkg_fn dc) fn = Some rn"
    using a by (cases "dget (dc_basetaskhash dc) ?k"; cases "dget (dc_pkg_fn dc) fn") (simp_all add: get_taskhash_def ditem_def Let_def)
  obtain sds where sds: "sorted_by_path ds = Inr sds"
    using a b sorted_by_path_errors [of ds] by (cases "sorted_by_path ds") (auto simp: get_taskhash_def ditem_def Let_def)
  let ?s = "g\<lparr>sg_basehash := dset ?k base (sg_basehash g), sg_runtaskdeps := dset ?k [] (sg_runtaskdeps g), sg_checksums := dset ?k [] (sg_checksums g)\<rparr>"
  have "set sds \<subseteq> set (dkeys (sg_taskhash ?s))" using sorted_by_path_set [OF sds] assms by simp
  note deps = hash_deps_in_order [OF this, of conf dc rn ?k base]
  obtain p where p: "rfold (hash_dep conf dc rn ?k) sds (base, ?s) = Inr p"
    using a b sds deps by (cases "rfold (hash_dep conf dc rn ?k) sds (base, ?s)") (auto simp: get_taskhash_def ditem_def Let_def)
  obtain q where q: "hash_files ?e dc fn t rn ?k p = Inr q"
    using a b sds p files by (cases p; cases "hash_files ?e dc fn t rn ?k p") (auto simp: get_taskhash_def ditem_def Let_def)
  show False using a b sds p q taints by (cases q) (auto simp: get_taskhash_def ditem_def Let_def rbind_eq_Inl)
qed

interpretation noop: sig_generator noop_taskhash "\<lambda>g k. Some ''0''" "\<lambda>fn t ds dc st h. h = ''0''"
  by unfold_locales (auto simp: noop_taskhash_def)

interpretation basic: sig_generator "get_taskhash (with_files fs env) conf" "\<lambda>g. dget (sg_taskhash g)" "sig_law (with_files fs env) conf"
  for fs env conf
proof (unfold_locales)
  fix fn t ds dc g h g' k
  assume g: "get_taskhash (with_files fs env) conf fn t ds dc g = Inr (h, g')"
  note get_taskhash_law [OF g]
  then have e: "sg_taskhash g' = dset (task_key fn t) h (sg_taskhash g)" and l: "sig_law (with_files fs env) conf fn t ds dc (dget (sg_taskhash g)) h"
    by (rule conjunct1, rule conjunct2)
  show "dget (sg_taskhash g') (task_key fn t) = Some h" unfolding e dget_dset by simp
  show "sig_law (with_files fs env) conf fn t ds dc (dget (sg_taskhash g)) h" by (rule l)
  show "k \<noteq> task_key fn t \<Longrightarrow> dget (sg_taskhash g') k = dget (sg_taskhash g) k" unfolding e dget_dset by simp
next
  fix ds fn t dc and g :: siggen assume s: "\<And>d. d \<in> set ds \<Longrightarrow> dget (sg_taskhash g) d \<noteq> None"
  have "set ds \<subseteq> set (dkeys (sg_taskhash g))"
  proof
    fix d assume "d \<in> set ds"
    then have "dget (sg_taskhash g) d \<noteq> None" by (rule s)
    then show "d \<in> set (dkeys (sg_taskhash g))" unfolding dget_Some_key by simp
  qed
  then show "get_taskhash (with_files fs env) conf fn t ds dc g \<noteq> Inl (MsgFatal ''SigGen'')" by (rule get_taskhash_in_order)
qed (rule sig_law_cong)

text \<open>
  C9: The hashes of a prepared build. When the preparation of the run queue succeeds with the basic generator, every
  task of the table has a hash, the generator knows it under the key of the task, and it is the md5
  sum of the base hash of the task, the hashes of the dependencies that are not whitelisted in the order of
  their paths, the sums of its files and its taints, where the hashes of the dependencies are
  their final ones. So the hashes solve the recursive equations of the whole graph. The tasks are
  named as \<open>build_tid\<close> does, without a dot in the name of a task.
\<close>
theorem prepared_hash_equations:
  assumes "prepare (get_taskhash (with_files fs env) conf) g inp = Some (Inr (Some p))"
    and "\<forall>x \<in> set (dkeys (pp_entries p)). task_tid x" and "x \<in> set (dkeys (pp_entries p))"
  shows "\<exists>e h fn t ds dc. dget (pp_entries p) x = Some e \<and> rt_hash e = Some h \<and>
    dget (sg_taskhash (pp_siggen p)) (tid_key x) = Some h \<and> hash_args inp x e = Inr (fn, t, ds, dc) \<and>
    sig_law (with_files fs env) conf fn t ds dc (dget (sg_taskhash (pp_siggen p))) h"
  using basic.prepared_hashes [OF assms] unfolding basic.task_done_def .

text \<open>
  C10: The order of the hashes. The loop of the preparation over the tasks that are left to hash calls the generator for
  a task only when the hashes of all its dependencies are there: for a table of tasks that is closed
  and mirrored, the fatal error of \<open>get_taskhash\<close>, not in taskhash, caller is not calling in
  dependency order, is never raised, and each task gets its hash. The loop ends when the dependencies have no cycle.
\<close>
theorem hash_loop_in_order:
  assumes "rt_wf es" and "acyclic (dep_rel es)" and "\<forall>x \<in> set (dkeys es). task_tid x"
  shows "\<exists>r. hash_loop (Suc (length es)) (get_taskhash (with_files fs env) conf) inp ([], dkeys es, es, g) = Some r \<and>
    r \<noteq> Inl (MsgFatal ''SigGen'') \<and>
    (\<forall>es' g'. r = Inr (es', g') \<longrightarrow> (\<forall>x \<in> set (dkeys es). \<exists>e h. dget es' x = Some e \<and> rt_hash e = Some h \<and>
       dget (sg_taskhash g') (tid_key x) = Some h))"
proof -
  have i: "hinv es ([], dkeys es, es, g)" using assms(1) by (simp add: hinv_def same_graph_refl rt_wf_def)
  have l: "length (dkeys es) < Suc (length es)" by simp
  obtain r where
    r: "hash_loop (Suc (length es)) (get_taskhash (with_files fs env) conf) inp ([], dkeys es, es, g) = Some r"
    using hash_loop_ends [OF assms(1,2) i l, of "get_taskhash (with_files fs env) conf" inp] by (elim exE conjE)
  note ok = basic.hash_all_ok [OF assms(1,3) r]
  have "\<exists>e h. dget es' x = Some e \<and> rt_hash e = Some h \<and> dget (sg_taskhash g') (tid_key x) = Some h"
    if "r = Inr (es', g')" "x \<in> set (dkeys es)" for es' g' x
  proof -
    from ok [THEN conjunct2, rule_format, OF that]
    have "basic.task_done fs env conf inp (dget (sg_taskhash g')) es' x" .
    then show ?thesis unfolding basic.task_done_def by (elim exE conjE) (intro exI conjI)
  qed
  then show ?thesis by (intro exI [of _ r] conjI r ok [THEN conjunct1] allI impI ballI)
qed

definition sig_tasks :: taskdeps where
  "sig_tasks = \<lparr>td_tasks = [''x'', ''y''], td_parents = [(''x'', []), (''y'', [''x''])], td_flags = []\<rparr>"

definition sig_input :: rqinput where
  "sig_input = two_input\<lparr>
     rq_caches := [([], init_cacheData\<lparr>dc_task_deps := [(''/a/f'', sig_tasks)], dc_pkg_fn := [(''/a/f'', ''p'')],
       dc_fn_provides := [(''/a/f'', [''p''])], dc_stamp := [(''/a/f'', ''/st'')],
       dc_file_checksums := [(''/a/f'', [(''y'', Some ''/d:True'')])],
       dc_basetaskhash := [(''/a/f.x'', ''1''), (''/a/f.y'', ''2'')]\<rparr>)],
     rq_taskdata := [([], \<lparr>tk_build_targets = [(''p'', [''/a/f''])], tk_run_targets = [], tk_external_targets = [''p''],
       tk_seenfns = [''/a/f''],
       tk_taskentries = [(''/a/f:x'', \<lparr>te_tdepends = [], te_idepends = [], te_irdepends = []\<rparr>),
                         (''/a/f:y'', \<lparr>te_tdepends = [''/a/f:x''], te_idepends = [], te_irdepends = []\<rparr>)],
       tk_depids = [(''/a/f'', [])], tk_rdepids = [(''/a/f'', [])], tk_consider = [], tk_failed_deps = [],
       tk_failed_rdeps = [], tk_failed_fns = [], tk_abort = True, tk_tryaltconfigs = False, tk_allowincomplete = False\<rparr>)],
     rq_targets := [([], ''p'', ''y'', ''/a/f'')]\<rparr>"

lemma sig_prepared:
  "case prepare (get_taskhash (with_files ex_fs (ex_sig_env None)) ex_sig_conf) siggen_init sig_input of
     Some (Inr (Some p)) \<Rightarrow> dkeys (pp_entries p) = [''/a/f:x'', ''/a/f:y''] | _ \<Rightarrow> False"
  by code_simp

lemma task_tid_plain: "CHR '':'' \<notin> set t \<Longrightarrow> CHR ''.'' \<notin> set t \<Longrightarrow> \<not> prefix ''multiconfig:'' (fn @ '':'') \<Longrightarrow> task_tid (fn @ '':'' @ t)"
  unfolding task_tid_def by (intro exI [of _ "[]"] exI [of _ fn] exI [of _ t]) (simp add: build_tid_def)

lemma sig_tids: "task_tid ''/a/f:x''" "task_tid ''/a/f:y''"
  using task_tid_plain [of "''x''" "''/a/f''"] task_tid_plain [of "''y''" "''/a/f''"] by simp_all

lemma prepared_hash_equations_witness:
  "\<exists>p h. prepare (get_taskhash (with_files ex_fs (ex_sig_env None)) ex_sig_conf) siggen_init sig_input = Some (Inr (Some p)) \<and>
    dget (sg_taskhash (pp_siggen p)) (tid_key ''/a/f:y'') = Some h"
proof -
  obtain p where p: "prepare (get_taskhash (with_files ex_fs (ex_sig_env None)) ex_sig_conf) siggen_init sig_input = Some (Inr (Some p))"
    "dkeys (pp_entries p) = [''/a/f:x'', ''/a/f:y'']"
    using sig_prepared by (auto split: option.split_asm sum.split_asm)
  have "\<forall>x \<in> set (dkeys (pp_entries p)). task_tid x" "''/a/f:y'' \<in> set (dkeys (pp_entries p))"
    unfolding p(2) using sig_tids by simp_all
  from prepared_hash_equations [OF p(1) this] show ?thesis using p(1) by blast
qed

definition sig_table :: runtasks where
  "sig_table = [(''/a/f:x'', \<lparr>rt_depends = [], rt_revdeps = [''/a/f:y''], rt_hash = None, rt_weight = 1\<rparr>),
     (''/a/f:y'', \<lparr>rt_depends = [''/a/f:x''], rt_revdeps = [], rt_hash = None, rt_weight = 1\<rparr>)]"

lemma hash_loop_in_order_witness:
  "hash_loop 3 (get_taskhash (with_files ex_fs (ex_sig_env None)) ex_sig_conf) sig_input ([], dkeys sig_table, sig_table, siggen_init)
    \<noteq> Some (Inl (MsgFatal ''SigGen''))"
proof -
  have d: "deps_of sig_table t = (if t = ''/a/f:y'' then [''/a/f:x''] else [])"
    "revs_of sig_table t = (if t = ''/a/f:x'' then [''/a/f:y''] else [])" for t
    by (simp_all add: sig_table_def deps_of_def revs_of_def)
  have w: "rt_wf sig_table" unfolding rt_wf_def d by (auto simp: sig_table_def)
  have a: "acyclic (dep_rel sig_table)"
  proof -
    have s: "dep_rel sig_table \<subseteq> {(''/a/f:x'', ''/a/f:y'')}" unfolding dep_rel_def d by auto
    have "acyclic {(''/a/f:x'', ''/a/f:y'')}"
      unfolding acyclic_insert rtrancl_empty by (simp add: acyclic_def)
    from acyclic_subset [OF this s] show ?thesis .
  qed
  have t: "\<forall>x \<in> set (dkeys sig_table). task_tid x" using sig_tids by (simp add: sig_table_def)
  have l: "Suc (length sig_table) = 3" by (simp add: sig_table_def)
  obtain r where "hash_loop 3 (get_taskhash (with_files ex_fs (ex_sig_env None)) ex_sig_conf) sig_input ([], dkeys sig_table, sig_table, siggen_init)
    = Some r" "r \<noteq> Inl (MsgFatal ''SigGen'')"
    using hash_loop_in_order [OF w a t, of ex_fs "ex_sig_env None" ex_sig_conf sig_input siggen_init, unfolded l] by (elim exE conjE)
  then show ?thesis by (metis option.inject)
qed

end
