(* ===== verification/BB_VarDeps.thy ===== *)
theory BB_VarDeps
  imports BB_SigProps
begin

text \<open>
  The dependencies of variables, \<open>build_dependencies\<close> and \<open>generate_dependencies\<close> of \<open>lib/bb/data.py\<close>: what the
  signature generator hashes. The data store and the parsers of \<open>codeparser.py\<close> are arguments: the
  values and flags of variables, and what the expansion of a value, a shell function or a Python function
  refers to. Texts of warnings are left out.
\<close>

section \<open>The dependencies of one variable\<close>

text \<open>\<open>pa_contains\<close>: the words whose presence in a variable the value depends on.\<close>

record parsed =
  pa_references :: "string list"
  pa_execs :: "string list"
  pa_contains :: "(string, string list) dict"
  pa_value :: "string option"

text \<open>
  \<open>vs_value\<close>: \<open>getVar(k, False)\<close>; \<open>vs_getvar\<close>: \<open>getVar(k, True)\<close>; \<open>vs_flag\<close>: one flag; \<open>vs_flags\<close>: the flags of a
  variable, those in the list of \<open>build_dependencies\<close> expanded; a flag is given by its text, empty when it counts as false.
\<close>

record varsource =
  vs_value :: "string \<Rightarrow> string option"
  vs_getvar :: "string \<Rightarrow> string option res"
  vs_flag :: "string \<Rightarrow> string \<Rightarrow> string option"
  vs_flags :: "string \<Rightarrow> (string, string) dict"
  vs_expand :: "string option \<Rightarrow> string \<Rightarrow> parsed res"
  vs_python :: "string option \<Rightarrow> string \<Rightarrow> parsed res"
  vs_shell :: "string option \<Rightarrow> string \<Rightarrow> parsed res"

definition words :: "string option \<Rightarrow> string list" where
  "words v = (case v of None \<Rightarrow> [] | Some s \<Rightarrow> split_ws s)"

definition both :: "string list \<Rightarrow> string list \<Rightarrow> string list" where
  "both keys execs = filter (\<lambda>k. k \<in> set execs) keys"

definition contains_text :: "string \<Rightarrow> string list \<Rightarrow> string list \<Rightarrow> string" where
  "contains_text k ws present =
     concat (map (\<lambda>w. ''\<newline>'' @ k @ ''{'' @ w @ (if w \<in> set present then ''} = Set'' else ''} = Unset'')) (sort ws))"

definition handle_contains :: "varsource \<Rightarrow> string option \<Rightarrow> (string, string list) dict \<Rightarrow> string option res" where
  "handle_contains d value contains =
     rbind (rmap (\<lambda>k. rbind (vs_getvar d k) (\<lambda>v. Inr (contains_text k (ddefault contains k) (words v)))) (sort (dkeys contains))) (\<lambda>texts.
     let newvalue = concat texts in
     Inr (if newvalue = [] then value
          else case value of None \<Rightarrow> Some newvalue | Some v \<Rightarrow> Some (v @ newvalue)))"

text \<open>The dependencies on a flag, named \<open>variable[flag]\<close>.\<close>

definition flag_dependencies :: "varsource \<Rightarrow> string list \<Rightarrow> string \<Rightarrow> (string list \<times> string option) res" where
  "flag_dependencies d keys key =
     (case split_on CHR ''['' (butlast key) of
        v # f # _ \<Rightarrow>
          (let value = vs_flag d v f in
           rbind (vs_expand d value key) (\<lambda>p. Inr (remdups (pa_references p @ both keys (pa_execs p)), value)))
      | _ \<Rightarrow> Inl IndexError)"

text \<open>What the body of a function, or the value of another variable, depends on.\<close>

definition value_dependencies :: "varsource \<Rightarrow> string list \<Rightarrow> string list \<Rightarrow> string \<Rightarrow> (string, string) dict \<Rightarrow>
    (string list \<times> string option) res" where
  "value_dependencies d keys shelldeps key flags =
     (let value = vs_value d key; true = (\<lambda>f. dget flags f \<notin> {None, Some []}) in
      case dget flags ''vardepvalue'' of
        Some v \<Rightarrow> Inr ([], Some v)
      | None \<Rightarrow>
          if true ''func''
          then rbind (if true ''python''
                 then rbind (vs_python d value key) (\<lambda>p. rbind (handle_contains d value (pa_contains p)) (\<lambda>v.
                        Inr (pa_references p @ both keys (pa_execs p), v)))
                 else rbind (vs_expand d value key) (\<lambda>pv. rbind (vs_shell d (pa_value pv) key) (\<lambda>p.
                      rbind (handle_contains d value (pa_contains pv)) (\<lambda>v.
                        Inr (shelldeps @ pa_references pv @ both keys (pa_execs p) @ both keys (pa_execs pv), v))))) (\<lambda>(deps, v).
               Inr (deps @ words (dget flags ''prefuncs'') @ words (dget flags ''postfuncs'') @ words (dget flags ''exports''), v))
          else rbind (vs_expand d value key) (\<lambda>p. rbind (handle_contains d value (pa_contains p)) (\<lambda>v.
                 Inr (pa_references p @ both keys (pa_execs p), v))))"

definition exclude_parts :: "string option \<Rightarrow> string option \<Rightarrow> string option res" where
  "exclude_parts exclude value =
     (case exclude of
        None \<Rightarrow> Inr value
      | Some e \<Rightarrow> rfold (\<lambda>excl v. if excl = [] then Inr v
                          else case v of None \<Rightarrow> Inl AttributeError | Some s \<Rightarrow> Inr (Some (replace_sub excl [] s)))
                   (split_on CHR ''|'' e) value)"

text \<open>The flags that are hashed: \<open>f not in varflagsexcl\<close>, where \<open>varflagsexcl\<close> is a string.\<close>

definition hashed_flags :: "string option \<Rightarrow> string \<Rightarrow> (string, string) dict \<Rightarrow> string list" where
  "hashed_flags varflagsexcl key flags =
     (case varflagsexcl of
        None \<Rightarrow> []
      | Some excl \<Rightarrow> if excl = [] then [] else map (\<lambda>f. key @ ''['' @ f @ '']'') (filter (\<lambda>f. \<not> has_sub f excl) (dkeys flags)))"

definition build_dependencies :: "varsource \<Rightarrow> string list \<Rightarrow> string list \<Rightarrow> string option \<Rightarrow> string \<Rightarrow>
    (string list \<times> string option) res" where
  "build_dependencies d keys shelldeps varflagsexcl key =
     (if key = [] then Inl IndexError
      else if last key = CHR '']'' then flag_dependencies d keys key
      else let flags = vs_flags d key in
        rbind (value_dependencies d keys shelldeps key flags) (\<lambda>(deps, value).
        rbind (exclude_parts (dget flags ''vardepvalueexclude'') value) (\<lambda>value.
        let deps = remdups (deps @ hashed_flags varflagsexcl key flags @ words (dget flags ''vardeps'')) in
        Inr (filter (\<lambda>x. x \<notin> set (words (dget flags ''vardepsexclude''))) deps, value))))"

section \<open>The dependencies of the tasks\<close>

type_synonym depfun = "string \<Rightarrow> (string list \<times> string option) res"

definition gen_visit :: "depfun \<Rightarrow> string \<Rightarrow> vardeps \<times> varvals \<times> string list \<Rightarrow> (vardeps \<times> varvals \<times> string list) res" where
  "gen_visit bd dep = (\<lambda>(deps, vals, newdeps).
     rbind (if dep \<in> set (dkeys deps) then Inr (deps, vals)
            else rbind (bd dep) (\<lambda>(ds, v). Inr (dset dep ds deps, dset dep v vals))) (\<lambda>(deps, vals).
       Inr (deps, vals, fold sadd (ddefault deps dep) newdeps)))"

text \<open>The loop over \<open>newdeps\<close>; None: the fuel ran out.\<close>

fun gen_loop :: "nat \<Rightarrow> depfun \<Rightarrow> vardeps \<Rightarrow> varvals \<Rightarrow> string list \<Rightarrow> string list \<Rightarrow> (vardeps \<times> varvals) res option" where
  "gen_loop 0 bd deps vals newdeps seen = None"
| "gen_loop (Suc fuel) bd deps vals newdeps seen =
     (if newdeps = [] then Some (Inr (deps, vals))
      else let seen = fold sadd newdeps seen in
           case rfold (gen_visit bd) newdeps (deps, vals, []) of
             Inl e \<Rightarrow> Some (Inl e)
           | Inr (deps, vals, newdeps) \<Rightarrow> gen_loop fuel bd deps vals (filter (\<lambda>d. d \<notin> set seen) newdeps) seen)"

definition gen_task :: "nat \<Rightarrow> depfun \<Rightarrow> string \<Rightarrow> vardeps \<times> varvals \<Rightarrow> (vardeps \<times> varvals) res option" where
  "gen_task lim bd task = (\<lambda>(deps, vals).
     case bd task of
       Inl e \<Rightarrow> Some (Inl e)
     | Inr (ds, v) \<Rightarrow> gen_loop lim bd (dset task ds deps) (dset task v vals) ds [])"

fun gen_tasks :: "nat \<Rightarrow> depfun \<Rightarrow> string list \<Rightarrow> vardeps \<times> varvals \<Rightarrow> (vardeps \<times> varvals) res option" where
  "gen_tasks lim bd [] st = Some (Inr st)"
| "gen_tasks lim bd (task # tasks) st =
     (case gen_task lim bd task st of
        None \<Rightarrow> None
      | Some (Inl e) \<Rightarrow> Some (Inl e)
      | Some (Inr st) \<Rightarrow> gen_tasks lim bd tasks st)"

definition plain_keys :: "string list \<Rightarrow> string list" where
  "plain_keys allkeys = filter (\<lambda>k. \<not> prefix ''__'' k) allkeys"

definition exported_keys :: "varsource \<Rightarrow> string list \<Rightarrow> string list" where
  "exported_keys d exportlist =
     (let true = (\<lambda>k f. vs_flag d k f \<notin> {None, Some []})
      in remdups (filter (\<lambda>k. true k ''export'' \<and> \<not> true k ''unexport'') exportlist))"

text \<open>
  \<open>generate_dependencies\<close>; the arguments are the keys of the store, the list of exported variables
  and the tasks, None when they are not set.
\<close>

definition generate_dependencies :: "nat \<Rightarrow> varsource \<Rightarrow> string list \<Rightarrow> string list option \<Rightarrow> string list option \<Rightarrow>
    (string list \<times> vardeps \<times> varvals) res option" where
  "generate_dependencies lim d allkeys exportlist tasks =
     (case exportlist of
        None \<Rightarrow> Some (Inl TypeError)
      | Some xs \<Rightarrow>
          (let tasklist = (case tasks of None \<Rightarrow> [] | Some ts \<Rightarrow> ts) in
           case vs_getvar d ''BB_SIGNATURE_EXCLUDE_FLAGS'' of
             Inl e \<Rightarrow> Some (Inl e)
           | Inr excl \<Rightarrow> map_option (\<lambda>r. rbind r (\<lambda>(deps, vals). Inr (tasklist, deps, vals)))
               (gen_tasks lim (build_dependencies d (plain_keys allkeys) (exported_keys d xs) excl) tasklist ([], []))))"

section \<open>The tables are closed\<close>

definition table_closed :: "vardeps \<Rightarrow> bool" where
  "table_closed g \<longleftrightarrow> (\<forall>x \<in> set (dkeys g). set (ddefault g x) \<subseteq> set (dkeys g))"

definition entries_of :: "depfun \<Rightarrow> vardeps \<Rightarrow> varvals \<Rightarrow> bool" where
  "entries_of bd deps vals \<longleftrightarrow> set (dkeys deps) = set (dkeys vals) \<and>
     (\<forall>x ds. dget deps x = Some ds \<longrightarrow> (\<exists>v. bd x = Inr (ds, v) \<and> dget vals x = Some v))"

lemma entries_of_dset:
  assumes "entries_of bd deps vals" "bd x = Inr (ds, v)"
  shows "entries_of bd (dset x ds deps) (dset x v vals)"
  using assms by (auto simp: entries_of_def set_dkeys_dset dget_dset simp del: list.set_map)

definition dep_of :: "depfun \<Rightarrow> string \<Rightarrow> string set" where
  "dep_of bd x = (case bd x of Inl e \<Rightarrow> {} | Inr (ds, v) \<Rightarrow> set ds)"

lemma entries_dep_of: "entries_of bd deps vals \<Longrightarrow> x \<in> set (dkeys deps) \<Longrightarrow> set (ddefault deps x) = dep_of bd x"
proof -
  assume e: "entries_of bd deps vals" and "x \<in> set (dkeys deps)"
  then obtain ds where d: "dget deps x = Some ds" unfolding dget_Some_key by blast
  then obtain v where "bd x = Inr (ds, v)" using e unfolding entries_of_def by blast
  then show ?thesis using d by (simp add: dep_of_def ddefault_def)
qed

lemma gen_visit_ok:
  assumes "gen_visit bd x (deps, vals, nd) = Inr (deps', vals', nd')" "entries_of bd deps vals"
  shows "entries_of bd deps' vals' \<and> set (dkeys deps') = insert x (set (dkeys deps)) \<and> set nd' = set nd \<union> dep_of bd x"
proof (cases "x \<in> set (dkeys deps)")
  case True
  then have "deps' = deps \<and> vals' = vals \<and> nd' = fold sadd (ddefault deps x) nd" using assms(1) by (auto simp: gen_visit_def simp del: list.set_map)
  then show ?thesis using entries_dep_of [OF assms(2) True] assms(2) True by (auto simp: set_fold_sadd simp del: list.set_map)
next
  case False
  then obtain ds v where b: "bd x = Inr (ds, v)" "deps' = dset x ds deps" "vals' = dset x v vals" "nd' = fold sadd (ddefault deps' x) nd"
    using assms(1) by (auto simp: gen_visit_def rbind_eq_Inr simp del: list.set_map)
  have "ddefault deps' x = ds" by (simp add: b(2) ddefault_dset)
  then show ?thesis using b entries_of_dset [OF assms(2) b(1)] by (auto simp: set_fold_sadd set_dkeys_dset dep_of_def simp del: list.set_map)
qed

lemma visit_round:
  assumes "rfold (gen_visit bd) xs (deps, vals, nd) = Inr (deps', vals', nd')" "entries_of bd deps vals"
  shows "entries_of bd deps' vals' \<and> set (dkeys deps') = set (dkeys deps) \<union> set xs \<and> set nd' = set nd \<union> (\<Union>x \<in> set xs. dep_of bd x)"
  using assms
proof (induction xs arbitrary: deps vals nd)
  case (Cons x xs)
  obtain deps1 vals1 nd1 where 1: "gen_visit bd x (deps, vals, nd) = Inr (deps1, vals1, nd1)"
    and r: "rfold (gen_visit bd) xs (deps1, vals1, nd1) = Inr (deps', vals', nd')"
    using Cons.prems(1) by (auto simp: rbind_eq_Inr)
  note g = gen_visit_ok [OF 1 Cons.prems(2)]
  from Cons.IH [OF r] g show ?case by (auto simp del: list.set_map)
qed simp

definition covered_by :: "depfun \<Rightarrow> vardeps \<Rightarrow> string list \<Rightarrow> bool" where
  "covered_by bd deps nd \<longleftrightarrow> (\<forall>x \<in> set (dkeys deps). dep_of bd x \<subseteq> set (dkeys deps) \<union> set nd)"

lemma gen_loop_ok:
  assumes "finite U" "\<forall>x \<in> U. dep_of bd x \<subseteq> U"
  shows "entries_of bd deps vals \<Longrightarrow> set seen \<subseteq> set (dkeys deps) \<Longrightarrow> covered_by bd deps nd \<Longrightarrow>
    set nd \<subseteq> U \<Longrightarrow> set nd \<inter> set seen = {} \<Longrightarrow> card (U - set seen) < fuel \<Longrightarrow>
    \<exists>r. gen_loop fuel bd deps vals nd seen = Some r \<and>
      (case r of Inl e \<Rightarrow> True
       | Inr (deps', vals') \<Rightarrow> entries_of bd deps' vals' \<and> covered_by bd deps' [] \<and> set (dkeys deps) \<subseteq> set (dkeys deps'))"
proof (induction fuel arbitrary: deps vals nd seen)
  case (Suc fuel)
  show ?case
  proof (cases "nd = []")
    case True
    then show ?thesis using Suc.prems(1,3) by simp
  next
    case False
    let ?seen = "fold sadd nd seen"
    have sn: "set ?seen = set seen \<union> set nd" by (auto simp: set_fold_sadd)
    show ?thesis
    proof (cases "rfold (gen_visit bd) nd (deps, vals, [])")
      case (Inl e)
      then show ?thesis using False by (simp add: Let_def)
    next
      case (Inr p)
      obtain deps1 vals1 nd1 where p: "p = (deps1, vals1, nd1)" by (cases p)
      note r = visit_round [OF Inr [unfolded p] Suc.prems(1)]
      let ?nd = "filter (\<lambda>d. d \<notin> set ?seen) nd1"
      have k: "set (dkeys deps1) = set (dkeys deps) \<union> set nd" using r by blast
      have nd1: "set nd1 = (\<Union>x \<in> set nd. dep_of bd x)" using r by auto
      have "set ?seen \<subseteq> set (dkeys deps1)" using Suc.prems(2) unfolding sn k by blast
      moreover have "covered_by bd deps1 ?nd"
        using Suc.prems(2,3) unfolding covered_by_def k sn by (auto simp: nd1 simp del: list.set_map)
      moreover have "set ?nd \<subseteq> U" using Suc.prems(4) assms(2) nd1 by auto
      moreover have "card (U - set ?seen) < fuel"
      proof -
        have "U - set ?seen \<subset> U - set seen" using Suc.prems(4,5) False unfolding sn by (cases nd) auto
        then have "card (U - set ?seen) < card (U - set seen)" by (intro psubset_card_mono) (simp_all add: assms(1))
        then show ?thesis using Suc.prems(6) by simp
      qed
      moreover have "set ?nd \<inter> set ?seen = {}" by auto
      ultimately obtain q where q: "gen_loop fuel bd deps1 vals1 ?nd ?seen = Some q"
        "case q of Inl e \<Rightarrow> True
         | Inr (deps', vals') \<Rightarrow> entries_of bd deps' vals' \<and> covered_by bd deps' [] \<and> set (dkeys deps1) \<subseteq> set (dkeys deps')"
        using Suc.IH [of deps1 vals1 ?seen ?nd] r by blast
      have e: "gen_loop (Suc fuel) bd deps vals nd seen = Some q" using q(1) False Inr p by (simp add: Let_def)
      show ?thesis
      proof (intro exI [of _ q] conjI e)
        show "case q of Inl e \<Rightarrow> True
         | Inr (deps', vals') \<Rightarrow> entries_of bd deps' vals' \<and> covered_by bd deps' [] \<and> set (dkeys deps) \<subseteq> set (dkeys deps')"
          using q(2) k by (cases q) (auto simp del: list.set_map)
      qed
    qed
  qed
qed simp

lemma gen_tasks_ok:
  assumes "finite U" "\<forall>x \<in> U. dep_of bd x \<subseteq> U" "card U < lim"
  shows "entries_of bd deps vals \<Longrightarrow> covered_by bd deps [] \<Longrightarrow> set tasks \<subseteq> U \<Longrightarrow>
    \<exists>r. gen_tasks lim bd tasks (deps, vals) = Some r \<and>
      (case r of Inl e \<Rightarrow> True
       | Inr (deps', vals') \<Rightarrow> entries_of bd deps' vals' \<and> covered_by bd deps' [] \<and> set (dkeys deps) \<union> set tasks \<subseteq> set (dkeys deps'))"
proof (induction tasks arbitrary: deps vals)
  case (Cons t tasks)
  show ?case
  proof (cases "bd t")
    case (Inl e)
    then show ?thesis by (simp add: gen_task_def)
  next
    case (Inr p)
    obtain ds v where p: "p = (ds, v)" by (cases p)
    have b: "bd t = Inr (ds, v)" using Inr p by simp
    let ?deps = "dset t ds deps" and ?vals = "dset t v vals"
    have e: "entries_of bd ?deps ?vals" by (rule entries_of_dset [OF Cons.prems(1) b])
    have dt: "dep_of bd t = set ds" using b by (simp add: dep_of_def)
    have c: "covered_by bd ?deps ds" using Cons.prems(2) dt unfolding covered_by_def set_dkeys_dset by auto
    have "set ds \<subseteq> U" using assms(2) Cons.prems(3) dt by auto
    then obtain q where q: "gen_loop lim bd ?deps ?vals ds [] = Some q"
      "case q of Inl e \<Rightarrow> True
       | Inr (deps', vals') \<Rightarrow> entries_of bd deps' vals' \<and> covered_by bd deps' [] \<and> set (dkeys ?deps) \<subseteq> set (dkeys deps')"
      using gen_loop_ok [OF assms(1,2) e _ c, of "[]" lim] assms(3) by auto
    show ?thesis
    proof (cases q)
      case (Inl e)
      then show ?thesis using q(1) b by (simp add: gen_task_def)
    next
      case (Inr p2)
      obtain deps2 vals2 where p2: "p2 = (deps2, vals2)" by (cases p2)
      have 2: "entries_of bd deps2 vals2" "covered_by bd deps2 []" "insert t (set (dkeys deps)) \<subseteq> set (dkeys deps2)"
        using q(2) Inr p2 by (simp_all add: set_dkeys_dset del: list.set_map)
      have "set tasks \<subseteq> U" using Cons.prems(3) by simp
      from Cons.IH [OF 2(1,2) this] obtain r where r: "gen_tasks lim bd tasks (deps2, vals2) = Some r"
        "case r of Inl e \<Rightarrow> True
         | Inr (deps', vals') \<Rightarrow> entries_of bd deps' vals' \<and> covered_by bd deps' [] \<and> set (dkeys deps2) \<union> set tasks \<subseteq> set (dkeys deps')"
        by blast
      have "gen_tasks lim bd (t # tasks) (deps, vals) = Some r" using b q(1) Inr p2 r(1) by (simp add: gen_task_def)
      then show ?thesis using r(2) 2(3) by (intro exI [of _ r] conjI) (auto split: sum.splits simp del: list.set_map)
    qed
  qed
qed simp

section \<open>Base hashes never fail on them\<close>

lemma stripped_closed: "stripped wl g g' \<Longrightarrow> var_rel wl g `` set (dkeys g) \<subseteq> set (dkeys g) \<Longrightarrow>
    var_rel wl g' `` set (dkeys g') \<subseteq> set (dkeys g')"
  by (simp add: stripped_def)

lemma ditem_of_key: "k \<in> K \<Longrightarrow> K \<subseteq> set (dkeys d) \<Longrightarrow> \<exists>v. ditem d k = Inr v"
  using dget_of_key [of k K d] by (auto simp: ditem_def)

lemma close_round_total:
  assumes "set xs \<subseteq> set (dkeys g)"
  shows "\<exists>r. rfold (close_step wl) xs (g, nd) = Inr r"
  using assms
proof (induction xs arbitrary: g nd)
  case (Cons x xs)
  obtain ds where ds: "ditem g x = Inr ds" using ditem_of_key [OF _ Cons.prems, of x] by auto
  have k: "dkeys (dset x (minus_wl wl ds) g) = dkeys g" using Cons.prems by (intro dkeys_dset_mem) simp
  obtain g1 nd1 where 1: "close_step wl x (g, nd) = Inr (g1, nd1)" "dkeys g1 = dkeys g"
    using ds k by (cases "x \<in> set wl") (simp_all add: close_step_eq del: list.set_map)
  have "set xs \<subseteq> set (dkeys g1)" using Cons.prems 1(2) by simp
  from Cons.IH [OF this] 1(1) show ?case by simp
qed simp

lemma close_deps_total:
  assumes "var_rel wl g `` set (dkeys g) \<subseteq> set (dkeys g)" "set nd \<subseteq> set (dkeys g)" "set nd \<inter> set wl = {}"
    and "close_deps fuel wl g nd seen = Some r"
  shows "\<exists>g' all. r = Inr (g', all)"
  using assms
proof (induction fuel arbitrary: g nd seen)
  case (Suc fuel)
  show ?case
  proof (cases "nd = []")
    case True
    then show ?thesis using Suc.prems(4) by auto
  next
    case False
    let ?seen = "fold sadd nd seen"
    obtain p where p: "rfold (close_step wl) nd (g, []) = Inr p" using close_round_total [OF Suc.prems(2)] by blast
    obtain g1 nd1 where 1: "p = (g1, nd1)" by (cases p)
    have "set ([] :: string list) \<inter> set wl = {}" by simp
    note c = close_round [OF p [unfolded 1] Suc.prems(3) this]
    have k: "dkeys g1 = dkeys g" using c by (simp add: stripped_def)
    have sub: "set (filter (\<lambda>d. d \<notin> set ?seen) nd1) \<subseteq> set (dkeys g1)" 
    proof -
      have "set nd1 = var_rel wl g `` set nd" using c by simp
      also have "\<dots> \<subseteq> var_rel wl g `` set (dkeys g)" using Suc.prems(2) by (rule Image_mono [OF subset_refl])
      finally show ?thesis using Suc.prems(1) unfolding k by auto
    qed
    have "set (filter (\<lambda>d. d \<notin> set ?seen) nd1) \<inter> set wl = {}" using c by auto
    moreover have "close_deps fuel wl g1 (filter (\<lambda>d. d \<notin> set ?seen) nd1) ?seen = Some r"
      using Suc.prems(4) False p 1 by (simp add: Let_def)
    moreover have "var_rel wl g1 `` set (dkeys g1) \<subseteq> set (dkeys g1)"
      by (rule stripped_closed [OF _ Suc.prems(1)]) (use c in blast)
    ultimately show ?thesis using Suc.IH sub by blast
  qed
qed simp

lemma with_values_total: "set deps \<subseteq> set (dkeys vals) \<Longrightarrow> \<exists>data. with_values vals deps d = Inr data"
proof (induction deps arbitrary: d)
  case (Cons x deps)
  obtain v where v: "ditem vals x = Inr v" using ditem_of_key [OF _ Cons.prems, of x] by auto
  have "set deps \<subseteq> set (dkeys vals)" using Cons.prems by auto
  from Cons.IH [OF this] v show ?case by (simp add: with_values_def)
qed (simp add: with_values_def)

lemma build_task_total:
  assumes "var_rel wl g `` set (dkeys g) \<subseteq> set (dkeys g)" "set (dkeys g) \<subseteq> set (dkeys lookup)" "task \<in> set (dkeys g)"
  shows "\<exists>r. build_task md5 wl fn lookup task (g, tds, s) = Inr r"
proof -
  obtain ds where ds: "ditem g task = Inr ds" using ditem_of_key [OF assms(3) subset_refl] by blast
  obtain v where v: "ditem lookup task = Inr v" using ditem_of_key [OF assms(3,2)] by blast
  let ?g = "dset task (minus_wl wl ds) g"
  have st: "stripped wl g ?g" by (rule stripped_dset [OF ds])
  have k: "dkeys ?g = dkeys g" using st by (simp add: stripped_def)
  obtain r where r: "close_deps (Suc (Suc (length g))) wl ?g (minus_wl wl ds) [] = Some r"
    and cl: "case r of Inl e \<Rightarrow> e \<noteq> RecursionError
     | Inr (g', all) \<Rightarrow> stripped wl g g' \<and> distinct all \<and> set all \<subseteq> set (dkeys g) \<and> set all = {y. (task, y) \<in> (var_rel wl g)\<^sup>+}"
    using task_closure [OF ds, of wl] by (elim exE conjE)
  have "set (minus_wl wl ds) = var_rel wl g `` {task}" using ds by (auto simp: var_rel_def ditem_eq_Inr ddefault_def)
  then have "set (minus_wl wl ds) \<subseteq> set (dkeys ?g)" using assms(1,3) unfolding k by blast
  moreover have "set (minus_wl wl ds) \<inter> set wl = {}" by auto
  ultimately obtain g' all where ra: "r = Inr (g', all)"
    using close_deps_total [OF stripped_closed [OF st assms(1)] _ _ r] by blast
  have "stripped wl g g' \<and> distinct all \<and> set all \<subseteq> set (dkeys g) \<and> set all = {y. (task, y) \<in> (var_rel wl g)\<^sup>+}"
    using cl unfolding ra sum.case prod.case .
  then have "set all \<subseteq> set (dkeys lookup)" using assms(2) by blast
  then have "set (sort all) \<subseteq> set (dkeys lookup)" by simp
  then obtain data where "with_values lookup (sort all) (case v of None \<Rightarrow> [] | Some x \<Rightarrow> x) = Inr data"
    using with_values_total by blast
  then show ?thesis using ds v r ra by (simp add: build_task_def Let_def del: close_deps.simps)
qed

lemma build_data_total:
  assumes "table_closed g" "set (dkeys g) \<subseteq> set (dkeys lookup)" "set tasks \<subseteq> set (dkeys g)"
  shows "\<exists>tds s'. build_data md5 wl fn tasks g lookup s = Inr (tds, s')"
proof -
  have "\<exists>r. rfold (build_task md5 wl fn lookup) tasks (g, tds, s) = Inr r"
    if "var_rel wl g `` set (dkeys g) \<subseteq> set (dkeys g)" "set (dkeys g) \<subseteq> set (dkeys lookup)" "set tasks \<subseteq> set (dkeys g)" for g tds s
    using that
  proof (induction tasks arbitrary: g tds s)
    case (Cons t tasks)
    obtain g1 tds1 s1 where 1: "build_task md5 wl fn lookup t (g, tds, s) = Inr (g1, tds1, s1)"
      using build_task_total [OF Cons.prems(1,2)] Cons.prems(3) by (metis list.set_intros(1) prod_cases3 subsetD)
    have st: "stripped wl g g1" using build_task_ok [OF 1] by blast
    have k: "dkeys g1 = dkeys g" using st by (simp add: stripped_def)
    have "set (dkeys g1) \<subseteq> set (dkeys lookup)" "set tasks \<subseteq> set (dkeys g1)" using Cons.prems(2,3) unfolding k by auto
    from Cons.IH [OF stripped_closed [OF st Cons.prems(1)] this] 1 show ?case by simp
  qed simp
  moreover have "var_rel wl g `` set (dkeys g) \<subseteq> set (dkeys g)"
    using assms(1) by (auto simp: table_closed_def var_rel_def simp del: list.set_map)
  ultimately obtain p where "rfold (build_task md5 wl fn lookup) tasks (g, [], s) = Inr p" using assms(2,3) by blast
  then show ?thesis by (cases p) (simp add: build_data_def)
qed

text \<open>
  C12: From the data store to the base hashes. When the variables reached from the tasks stay within a
  finite set, collecting their dependencies ends within the fuel. What it returns is closed: it has
  the dependencies and the value of every task and of every variable one of them depends on, each as
  \<open>build_dependencies\<close> gives it. So \<open>_build_data\<close>, which looks all of them up, never raises a
  KeyError on it, whatever the whitelist.
\<close>
theorem generated_dependencies_closed:
  fixes d allkeys xs excl
  defines "bd \<equiv> build_dependencies d (plain_keys allkeys) (exported_keys d xs) excl"
  assumes "vs_getvar d ''BB_SIGNATURE_EXCLUDE_FLAGS'' = Inr excl" and "finite U" "card U < lim" "set tasks \<subseteq> U"
    and "\<forall>x \<in> U. \<forall>ds v. bd x = Inr (ds, v) \<longrightarrow> set ds \<subseteq> U"
  shows "\<exists>r. generate_dependencies lim d allkeys (Some xs) (Some tasks) = Some r \<and>
    (\<forall>tasklist deps vals. r = Inr (tasklist, deps, vals) \<longrightarrow>
       tasklist = tasks \<and> set tasks \<subseteq> set (dkeys deps) \<and>
       (\<forall>x \<in> set (dkeys deps). set (ddefault deps x) \<subseteq> set (dkeys deps) \<and>
          (\<exists>v. bd x = Inr (ddefault deps x, v) \<and> dget vals x = Some v)) \<and>
       (\<forall>md5 wl fn s. \<exists>taskdeps s'. build_data md5 wl fn tasklist deps vals s = Inr (taskdeps, s')))"
proof -
  have u: "\<forall>x \<in> U. dep_of bd x \<subseteq> U" using assms(6) by (auto simp: dep_of_def split: sum.splits)
  have "entries_of bd [] []" "covered_by bd [] []" by (simp_all add: entries_of_def covered_by_def)
  from gen_tasks_ok [OF assms(3) u assms(4) this assms(5), unfolded list.map list.set Un_empty_left] obtain r where r: "gen_tasks lim bd tasks ([], []) = Some r"
    and ok: "case r of Inl e \<Rightarrow> True
     | Inr (deps', vals') \<Rightarrow> entries_of bd deps' vals' \<and> covered_by bd deps' [] \<and> set tasks \<subseteq> set (dkeys deps')"
    by (elim exE conjE)
  have g: "generate_dependencies lim d allkeys (Some xs) (Some tasks) = Some (rbind r (\<lambda>(deps, vals). Inr (tasks, deps, vals)))"
    using r assms(2) unfolding generate_dependencies_def bd_def by simp
  show ?thesis
  proof (cases r)
    case (Inl e)
    then show ?thesis using g by simp
  next
    case (Inr p)
    obtain deps vals where p: "r = Inr (deps, vals)" using Inr by (cases p) simp
    have e: "entries_of bd deps vals" and c: "covered_by bd deps []" and t: "set tasks \<subseteq> set (dkeys deps)"
      using ok unfolding p by simp_all
    have cl: "set (ddefault deps x) \<subseteq> set (dkeys deps)" if "x \<in> set (dkeys deps)" for x
      using c that entries_dep_of [OF e that] unfolding covered_by_def by auto
    have en: "\<exists>v. bd x = Inr (ddefault deps x, v) \<and> dget vals x = Some v" if x: "x \<in> set (dkeys deps)" for x
    proof -
      obtain ds where d: "dget deps x = Some ds" using x unfolding dget_Some_key by blast
      then obtain v where "bd x = Inr (ds, v)" "dget vals x = Some v" using e unfolding entries_of_def by blast
      moreover have "ds = ddefault deps x" using d by (simp add: ddefault_def)
      ultimately show ?thesis by blast
    qed
    have "table_closed deps" "set (dkeys deps) \<subseteq> set (dkeys vals)" using cl e by (simp_all add: table_closed_def entries_of_def del: list.set_map)
    note total = build_data_total [OF this t]
    show ?thesis unfolding g p
      by (intro exI [of _ "Inr (tasks, deps, vals)"]) (use t cl en total in \<open>auto simp del: list.set_map\<close>)
  qed
qed

text \<open>A task that refers to A, which refers to B and to the function g.\<close>

definition ex_parsed :: "string list \<Rightarrow> parsed" where
  "ex_parsed refs = \<lparr>pa_references = refs, pa_execs = [''g''], pa_contains = [], pa_value = None\<rparr>"

definition ex_vars :: varsource where
  "ex_vars = \<lparr>vs_value = (\<lambda>k. if k = ''B'' then None else Some k), vs_getvar = (\<lambda>k. Inr None), vs_flag = (\<lambda>k f. None),
     vs_flags = (\<lambda>k. []), vs_expand = (\<lambda>v k. Inr (ex_parsed (if k = ''do_t'' then [''A''] else if k = ''A'' then [''B''] else []))),
     vs_python = (\<lambda>v k. Inr (ex_parsed [])), vs_shell = (\<lambda>v k. Inr (ex_parsed []))\<rparr>"

lemma generated_dependencies_closed_witness:
  "\<exists>deps vals. generate_dependencies 6 ex_vars [''A'', ''B'', ''g'', ''do_t''] (Some []) (Some [''do_t'']) =
      Some (Inr ([''do_t''], deps, vals)) \<and> set (dkeys deps) = {''do_t'', ''A'', ''B'', ''g''} \<and>
    (\<exists>t s'. build_data (\<lambda>x. x) [''B''] ''r'' [''do_t''] deps vals siggen_init = Inr (t, s'))"
proof -
  let ?bd = "build_dependencies ex_vars (plain_keys [''A'', ''B'', ''g'', ''do_t'']) (exported_keys ex_vars []) None"
  let ?U = "{''do_t'', ''A'', ''B'', ''g''}"
  have c: "generate_dependencies 6 ex_vars [''A'', ''B'', ''g'', ''do_t''] (Some []) (Some [''do_t'']) =
    Some (Inr ([''do_t''], [(''do_t'', [''A'', ''g'']), (''A'', [''B'', ''g'']), (''g'', [''g'']), (''B'', [''g''])],
      [(''do_t'', Some ''do_t''), (''A'', Some ''A''), (''g'', Some ''g''), (''B'', None)]))" by code_simp
  have d: "?bd ''do_t'' = Inr ([''A'', ''g''], Some ''do_t'')" "?bd ''A'' = Inr ([''B'', ''g''], Some ''A'')"
    "?bd ''B'' = Inr ([''g''], None)" "?bd ''g'' = Inr ([''g''], Some ''g'')" by code_simp+
  have "\<forall>x \<in> ?U. \<forall>ds v. ?bd x = Inr (ds, v) \<longrightarrow> set ds \<subseteq> ?U"
  proof (intro ballI allI impI)
    fix x ds v assume "x \<in> ?U" "?bd x = Inr (ds, v)"
    then show "set ds \<subseteq> ?U" using d by (elim insertE emptyE) (simp_all, auto)
  qed
  moreover have "vs_getvar ex_vars ''BB_SIGNATURE_EXCLUDE_FLAGS'' = Inr None" by (simp add: ex_vars_def)
  ultimately obtain r where r: "generate_dependencies 6 ex_vars [''A'', ''B'', ''g'', ''do_t''] (Some []) (Some [''do_t'']) = Some r"
    "\<And>tl deps vals. r = Inr (tl, deps, vals) \<Longrightarrow> \<exists>t s'. build_data (\<lambda>x. x) [''B''] ''r'' tl deps vals siggen_init = Inr (t, s')"
    using generated_dependencies_closed [of ex_vars None ?U 6 "[''do_t'']" "[''A'', ''B'', ''g'', ''do_t'']" "[]"] by fastforce
  show ?thesis
    using r(1) r(2) [of "[''do_t'']" "[(''do_t'', [''A'', ''g'']), (''A'', [''B'', ''g'']), (''g'', [''g'']), (''B'', [''g''])]"
      "[(''do_t'', Some ''do_t''), (''A'', Some ''A''), (''g'', Some ''g''), (''B'', None)]"] unfolding c by auto
qed

end
