(* ===== verification/Spec2Isabelle.thy ===== *)
theory Spec2Isabelle
  imports BB_ExecProps BB_Resolve BB_RunQueue BB_SceneExec BB_Pipe BB_SigPrep BB_VarDeps
begin

text \<open>
  The core of BitBake, the task executor of this distribution (\<open>sources/poky/bitbake/lib/bb\<close>).
\<close>

end
